(* ===== verification/Prelude.thy ===== *)
theory Prelude
  imports Main "HOL-Library.Word"
begin

text \<open>
  The library every component of the development rests on: the machine integers of the
  Rust sources as words, the checked and saturating operations of the Rust standard
  library, slices and in-place copies of byte buffers, \<open>Iterator::position\<close>, the
  big- and little-endian codecs (\<open>to_be_bytes\<close>, \<open>from_le_bytes\<close>, ...) and the
  XOR of byte strings.  Indices and lengths of type \<open>usize\<close> are natural numbers (a Rust
  slice is at most \<open>isize::MAX\<close> long, so adding the small constants the code adds cannot
  overflow); addresses, offsets and wire fields are words of their width.
\<close>

unbundle bit_operations_syntax

type_synonym u8 = "8 word"
type_synonym u16 = "16 word"
type_synonym u32 = "32 word"
type_synonym u64 = "64 word"
type_synonym u128 = "128 word"
type_synonym bytes = "u8 list"

named_theorems len_simps \<open>lengths of the buffers the operations produce\<close>

section \<open>Integer arithmetic of the standard library\<close>

definition checked_add :: "'a::len word \<Rightarrow> 'a word \<Rightarrow> 'a word option" where
  "checked_add a b = (if unat a + unat b < 2 ^ LENGTH('a) then Some (a + b) else None)"

definition checked_sub :: "'a::len word \<Rightarrow> 'a word \<Rightarrow> 'a word option" where
  "checked_sub a b = (if b \<le> a then Some (a - b) else None)"

definition saturating_sub :: "'a::len word \<Rightarrow> 'a word \<Rightarrow> 'a word" where
  "saturating_sub a b = (if b \<le> a then a - b else 0)"

lemma unat_add_fits [simp]:
  "unat a + unat b < 2 ^ LENGTH('a) \<Longrightarrow> unat (a + b :: 'a::len word) = unat a + unat b"
  by (simp add: unat_word_ariths)

lemma unat_mult_fits:
  "unat a * unat b < 2 ^ LENGTH('a) \<Longrightarrow> unat (a * b :: 'a::len word) = unat a * unat b"
  by (simp add: unat_word_ariths)

lemma unat_sub_le: "b \<le> a \<Longrightarrow> unat (a - b :: 'a::len word) = unat a - unat b"
  by (simp add: unat_sub)

lemma checked_add_Some:
  "checked_add a b = Some c \<longleftrightarrow> unat a + unat b < 2 ^ LENGTH('a) \<and> c = (a + b :: 'a::len word)"
  by (auto simp: checked_add_def)

lemma checked_add_None:
  "checked_add a b = None \<longleftrightarrow> 2 ^ LENGTH('a) \<le> unat a + unat (b :: 'a::len word)"
  by (auto simp: checked_add_def)

lemma checked_sub_Some:
  "checked_sub a b = Some c \<longleftrightarrow> b \<le> a \<and> c = (a - b :: 'a::len word)"
  by (auto simp: checked_sub_def)

lemma checked_sub_None: "checked_sub a b = None \<longleftrightarrow> (a :: 'a::len word) < b"
  by (auto simp: checked_sub_def)

lemma unat_saturating_sub: "unat (saturating_sub a b) = unat a - unat (b :: 'a::len word)"
  by (simp add: saturating_sub_def unat_sub word_le_nat_alt)

lemma unat_of_nat_fits [simp]: "n < 2 ^ LENGTH('a) \<Longrightarrow> unat (of_nat n :: 'a::len word) = n"
  by (simp add: unat_of_nat take_bit_nat_eq_self)

lemma unat_add_of_nat:
  assumes "unat a + n < 2 ^ LENGTH('a)"
  shows "unat (a + of_nat n :: 'a::len word) = unat a + n"
proof -
  have "unat (of_nat n :: 'a word) = n" using assms by simp
  then show ?thesis using assms by (metis unat_add_fits)
qed

lemma unat_u64_add: "unat a + n < 2 ^ 64 \<Longrightarrow> unat (a + of_nat n :: u64) = unat a + n"
  by (rule unat_add_of_nat) simp

lemma unat_shr: "unat (drop_bit n (w :: 'a::len word)) = unat w div 2 ^ n"
  by (rule trans [OF unat_drop_bit_eq drop_bit_eq_div])

lemma unat_ucast_fits: "unat x < 2 ^ LENGTH('b) \<Longrightarrow> unat (ucast x :: 'b::len word) = unat (x :: 'a::len word)"
  by (simp add: unsigned_ucast_eq take_bit_nat_eq_self)

section \<open>Buffers\<close>

text \<open>\<open>&xs[lo..hi]\<close> and \<open>dst[off..off + src.len()].copy_from_slice(src)\<close>.\<close>

definition slice :: "nat \<Rightarrow> nat \<Rightarrow> 'a list \<Rightarrow> 'a list" where
  "slice lo hi xs = take (hi - lo) (drop lo xs)"

definition blit :: "nat \<Rightarrow> 'a list \<Rightarrow> 'a list \<Rightarrow> 'a list" where
  "blit off src dst = take off dst @ src @ drop (off + length src) dst"

lemma length_slice [simp]: "hi \<le> length xs \<Longrightarrow> length (slice lo hi xs) = hi - lo"
  by (auto simp: slice_def)

lemma length_blit [simp]:
  "off + length src \<le> length dst \<Longrightarrow> length (blit off src dst) = length dst"
  by (auto simp: blit_def)

lemma slice_nth [simp]: "i < hi - lo \<Longrightarrow> hi \<le> length xs \<Longrightarrow> slice lo hi xs ! i = xs ! (lo + i)"
  by (auto simp: slice_def)

lemma slice_all [simp]: "length xs \<le> n \<Longrightarrow> slice 0 n xs = xs"
  by (simp add: slice_def)

lemma blit_nth:
  "off + length src \<le> length dst \<Longrightarrow> i < length dst \<Longrightarrow>
   blit off src dst ! i =
     (if off \<le> i \<and> i < off + length src then src ! (i - off) else dst ! i)"
  by (auto simp: blit_def nth_append)

lemma slice_blit_same [simp]:
  "off + length src \<le> length dst \<Longrightarrow> n = off + length src \<Longrightarrow>
   slice off n (blit off src dst) = src"
  by (simp add: slice_def blit_def)

lemma slice_blit_other:
  "off + length src \<le> length dst \<Longrightarrow> hi \<le> length dst \<Longrightarrow> hi \<le> off \<or> off + length src \<le> lo \<Longrightarrow>
   slice lo hi (blit off src dst) = slice lo hi dst"
  by (rule nth_equalityI) (auto simp: blit_nth)

lemma drop_blit: "off + length src \<le> length dst \<Longrightarrow> off + length src \<le> n \<Longrightarrow>
   drop n (blit off src dst) = drop n dst"
  by (rule nth_equalityI) (auto simp: blit_nth)

lemma take_blit: "off + length src \<le> length dst \<Longrightarrow> n \<le> off \<Longrightarrow>
   take n (blit off src dst) = take n dst"
  by (rule nth_equalityI) (auto simp: blit_nth)

lemma take_drop_append [simp]:
  "off + n \<le> length xs \<Longrightarrow> take n (drop off (xs @ ys)) = take n (drop off xs)"
  by simp

text \<open>A loop that writes \<open>xs[i]\<close> for \<open>i = 0, 1, ...\<close> and reads only entries not yet written.\<close>

lemma foldl_update_prefix:
  assumes "length xs = n + m" and "\<And>i ys. i < n \<Longrightarrow> length ys = n + m \<Longrightarrow> (\<And>j. i \<le> j \<Longrightarrow> j < n + m \<Longrightarrow> ys ! j = xs ! j) \<Longrightarrow> f ys i = g i"
  shows "foldl (\<lambda>ys i. ys[i := f ys i]) xs [0..<n] = map g [0..<n] @ drop n xs"
  using assms
proof (induction n arbitrary: m)
  case 0
  then show ?case by simp
next
  case (Suc n)
  have IH: "foldl (\<lambda>ys i. ys[i := f ys i]) xs [0..<n] = map g [0..<n] @ drop n xs"
    using Suc.prems by (intro Suc.IH [of "Suc m"]) auto
  have "f (map g [0..<n] @ drop n xs) n = g n"
    using Suc.prems(1) by (intro Suc.prems(2)) (auto simp: nth_append)
  moreover have "drop n xs = xs ! n # drop (Suc n) xs"
    using Suc.prems(1) by (simp add: Cons_nth_drop_Suc)
  ultimately show ?case by (simp add: IH list_update_append)
qed

section \<open>Searching: \<open>Iterator::position\<close>\<close>

fun position :: "('a \<Rightarrow> bool) \<Rightarrow> 'a list \<Rightarrow> nat option" where
  "position P [] = None"
| "position P (x # xs) = (if P x then Some 0 else map_option Suc (position P xs))"

lemma position_Some:
  "position P xs = Some i \<longleftrightarrow> i < length xs \<and> P (xs ! i) \<and> (\<forall>j < i. \<not> P (xs ! j))"
proof (induction xs arbitrary: i)
  case Nil
  then show ?case by simp
next
  case (Cons x xs)
  then show ?case
    by (cases i) (auto simp: less_Suc_eq_0_disj)
qed

lemma position_None: "position P xs = None \<longleftrightarrow> (\<forall>x \<in> set xs. \<not> P x)"
  by (induction xs) auto

lemma position_SomeD:
  assumes "position P xs = Some i"
  shows "i < length xs" and "P (xs ! i)"
  using assms by (simp_all add: position_Some)

lemma position_NoneD: "position P xs = None \<Longrightarrow> i < length xs \<Longrightarrow> \<not> P (xs ! i)"
  by (simp add: position_None)

section \<open>XOR of byte strings\<close>

definition xor_bytes :: "bytes \<Rightarrow> bytes \<Rightarrow> bytes" where
  "xor_bytes xs ys = map2 (XOR) xs ys"

lemma length_xor_bytes [simp]: "length (xor_bytes xs ys) = min (length xs) (length ys)"
  by (simp add: xor_bytes_def)

lemma xor_bytes_nth [simp]:
  "i < length xs \<Longrightarrow> i < length ys \<Longrightarrow> xor_bytes xs ys ! i = xs ! i XOR ys ! i"
  by (simp add: xor_bytes_def)

lemma xor_bytes_cancel [simp]:
  "length xs \<le> length ys \<Longrightarrow> xor_bytes (xor_bytes xs ys) ys = xs"
  by (rule nth_equalityI) (simp_all add: xor.assoc)

section \<open>Byte codecs\<close>

fun to_le :: "nat \<Rightarrow> 'a::len word \<Rightarrow> bytes" where
  "to_le 0 w = []"
| "to_le (Suc n) w = ucast w # to_le n (drop_bit 8 w)"

fun of_le :: "bytes \<Rightarrow> 'a::len word" where
  "of_le [] = 0"
| "of_le (b # bs) = ucast b OR push_bit 8 (of_le bs)"

definition to_be :: "nat \<Rightarrow> 'a::len word \<Rightarrow> bytes" where
  "to_be n w = rev (to_le n w)"

definition of_be :: "bytes \<Rightarrow> 'a::len word" where
  "of_be bs = of_le (rev bs)"

lemma length_to_le [simp]: "length (to_le n w) = n"
  by (induction n arbitrary: w) auto

lemma length_to_be [simp]: "length (to_be n w) = n"
  by (simp add: to_be_def)

lemma to_le_nth:
  "i < n \<Longrightarrow> to_le n w ! i = ucast (drop_bit (8 * i) w)"
  by (induction n arbitrary: w i)
    (auto simp: nth_Cons drop_bit_drop_bit add.commute split: nat.splits)

lemma bit_of_le:
  "bit (of_le bs :: 'a::len word) i \<longleftrightarrow>
     i < LENGTH('a) \<and> i < 8 * length bs \<and> bit (bs ! (i div 8)) (i mod 8)"
proof (induction bs arbitrary: i)
  case Nil
  then show ?case by simp
next
  case (Cons b bs)
  show ?case
  proof (cases "i < 8")
    case True
    then show ?thesis
      by (auto simp: bit_or_iff bit_ucast_iff bit_push_bit_iff)
  next
    case False
    then have d: "i div 8 = Suc ((i - 8) div 8)" and m: "(i - 8) mod 8 = i mod 8"
      by (simp_all add: le_div_geq le_mod_geq)
    have nb: "\<not> bit b i"
      using False bit_imp_le_length [of b i] by auto
    show ?thesis
      using False Cons.IH [of "i - 8"] nb
      by (auto simp: bit_or_iff bit_ucast_iff bit_push_bit_iff d m)
  qed
qed

lemma of_le_to_le [simp]:
  assumes "LENGTH('a) \<le> 8 * n"
  shows "of_le (to_le n w) = (w :: 'a::len word)"
proof (rule bit_word_eqI)
  fix i
  assume i: "i < LENGTH('a)"
  then have "i div 8 < n" using assms by auto
  moreover have "8 * (i div 8) + i mod 8 = i" by simp
  ultimately show "bit (of_le (to_le n w) :: 'a word) i = bit w i"
    using i assms by (simp add: bit_of_le to_le_nth bit_ucast_iff bit_drop_bit_eq)
qed

lemma to_le_of_le [simp]:
  assumes "8 * length bs \<le> LENGTH('a)" and "n = length bs"
  shows "to_le n (of_le bs :: 'a::len word) = bs"
proof (rule nth_equalityI)
  show "length (to_le n (of_le bs :: 'a word)) = length bs"
    using assms by simp
next
  fix i
  assume "i < length (to_le n (of_le bs :: 'a word))"
  then have i: "i < length bs" using assms by simp
  show "to_le n (of_le bs :: 'a word) ! i = bs ! i"
  proof (rule bit_word_eqI)
    fix j
    assume j: "j < LENGTH(8)"
    have "8 * i + j < 8 * length bs" using i j by simp
    then show "bit (to_le n (of_le bs :: 'a word) ! i) j = bit (bs ! i) j"
      using i j assms
      by (simp add: to_le_nth bit_ucast_iff bit_drop_bit_eq bit_of_le)
  qed
qed

lemma of_be_to_be [simp]: "LENGTH('a) \<le> 8 * n \<Longrightarrow> of_be (to_be n w) = (w :: 'a::len word)"
  by (simp add: of_be_def to_be_def)

lemma to_be_of_be [simp]:
  "8 * length bs \<le> LENGTH('a) \<Longrightarrow> n = length bs \<Longrightarrow> to_be n (of_be bs :: 'a::len word) = bs"
  by (simp add: of_be_def to_be_def)

text \<open>The number a little-endian byte string denotes; \<open>of_le\<close> computes it when it fits.\<close>

fun le_nat :: "bytes \<Rightarrow> nat" where
  "le_nat [] = 0"
| "le_nat (b # bs) = unat b + 256 * le_nat bs"

lemma le_nat_bound: "le_nat bs < 256 ^ length bs"
proof (induction bs)
  case Nil
  then show ?case by simp
next
  case (Cons b bs)
  have "unat b < 256" using unsigned_less [of b] by simp
  then show ?case using Cons by simp
qed

lemma le_nat_append: "le_nat (xs @ ys) = le_nat xs + 256 ^ length xs * le_nat ys"
  by (induction xs) (simp_all add: algebra_simps)

lemma unat_of_le:
  "8 * length bs \<le> LENGTH('a) \<Longrightarrow> unat (of_le bs :: 'a::len word) = le_nat bs"
proof (induction bs)
  case Nil
  then show ?case by simp
next
  case (Cons b bs)
  let ?w = "of_le bs :: 'a word"
  have IH: "unat ?w = le_nat bs" using Cons by simp
  have len8: "LENGTH(8) \<le> LENGTH('a)" using Cons.prems by simp
  have b: "unat (ucast b :: 'a word) = unat b"
    using len8 by (simp add: unsigned_ucast_eq take_bit_nat_eq_self order.strict_trans2
        [OF unsigned_less power_increasing])
  have disj: "ucast b AND push_bit 8 ?w = (0 :: 'a word)"
    by (rule bit_word_eqI)
      (auto simp: bit_and_iff bit_ucast_iff bit_push_bit_iff dest: bit_imp_le_length)
  have "(256::nat) ^ length (b # bs) = 2 ^ (8 * length (b # bs))"
    by (simp only: power_mult) simp
  also have "\<dots> \<le> 2 ^ LENGTH('a)"
    using Cons.prems by (simp only: power_increasing)
  finally have pow: "(256::nat) ^ length (b # bs) \<le> 2 ^ LENGTH('a)" .
  have fit: "unat b + 256 * le_nat bs < 2 ^ LENGTH('a)"
    using le_nat_bound [of "b # bs"] pow by simp
  have "unat (push_bit 8 ?w) = take_bit LENGTH('a) (push_bit 8 (unat ?w))"
    by (rule unsigned_push_bit_eq)
  also have "push_bit 8 (unat ?w) = 256 * le_nat bs"
    by (simp only: IH push_bit_eq_mult) simp
  finally have push: "unat (push_bit 8 ?w) = 256 * le_nat bs"
    using fit by (simp add: take_bit_nat_eq_self)
  have "unat (of_le (b # bs) :: 'a word) = unat (ucast b + push_bit 8 ?w)"
    using disj by (simp add: disjunctive_add_eq_or)
  then show ?case using b push fit by simp
qed

section \<open>Rendering\<close>

text \<open>A digit (also hexadecimal, in lower case) and a natural number in decimal, as \<open>{}\<close> prints it.\<close>

definition digit :: "nat \<Rightarrow> char" where
  "digit n = char_of (if n < 10 then 48 + n else 87 + n)"

fun dec :: "nat \<Rightarrow> string" where
  "dec n = (if n < 10 then [digit n] else dec (n div 10) @ [digit (n mod 10)])"

declare dec.simps [simp del]

end
