(* ===== verification/Uhf.thy ===== *)
theory Uhf
  imports Prelude
begin

text \<open>
  The one-time authenticator of the system (\<open>uhf/src/lib.rs\<close>): the constant-time comparisons
  and Poly1305 in five 26-bit limbs.  The theory proves that no 64-bit product or sum of
  \<open>mul_r\<close> overflows, that the limbs compute multiplication modulo \<open>2 ^ 130 - 5\<close>, that
  \<open>update\<close> is insensitive to how a message is cut into pieces, and how the tag compares with
  the one of RFC 8439.
\<close>

section \<open>Constant-time comparison\<close>

definition ct_eq_16 :: "bytes \<Rightarrow> bytes \<Rightarrow> bool" where
  "ct_eq_16 a b \<longleftrightarrow> foldl (\<lambda>diff i. diff OR (a ! i XOR b ! i)) 0 [0..<16] = 0"

definition ct_eq_slice :: "bytes \<Rightarrow> bytes \<Rightarrow> bool" where
  "ct_eq_slice a b \<longleftrightarrow>
     (if length a \<noteq> length b then False
      else foldl (\<lambda>diff (x, y). diff OR (x XOR y)) 0 (zip a b) = 0)"

lemma or_eq_zero_iff [simp]: "a OR b = 0 \<longleftrightarrow> a = 0 \<and> (b :: 'a::len word) = 0"
  by (auto simp: bit_eq_iff bit_or_iff)

lemma foldl_or_zero:
  "foldl (\<lambda>d i. d OR f i) (d :: 'a::len word) xs = 0 \<longleftrightarrow> d = 0 \<and> (\<forall>i \<in> set xs. f i = 0)"
  by (induction xs arbitrary: d) auto

lemma xor_eq_zero_iff [simp]: "a XOR b = 0 \<longleftrightarrow> a = (b :: 'a::len word)"
  by (auto simp: bit_eq_iff bit_xor_iff)

lemma ct_eq_16_iff:
  "length a = 16 \<Longrightarrow> length b = 16 \<Longrightarrow> ct_eq_16 a b \<longleftrightarrow> a = b"
  by (auto simp: ct_eq_16_def foldl_or_zero list_eq_iff_nth_eq)

lemma ct_eq_slice_iff: "ct_eq_slice a b \<longleftrightarrow> a = b"
proof (cases "length a = length b")
  case True
  have "ct_eq_slice a b \<longleftrightarrow> (\<forall>p \<in> set (zip a b). fst p = snd p)"
    using True by (simp add: ct_eq_slice_def case_prod_unfold foldl_or_zero)
  also have "\<dots> \<longleftrightarrow> a = b"
    using True by (auto simp: set_zip list_eq_iff_nth_eq)
  finally show ?thesis .
qed (auto simp: ct_eq_slice_def)

section \<open>The key\<close>

definition POLY1305_TAG_LEN :: nat where "POLY1305_TAG_LEN = 16"
definition POLY1305_KEY_LEN :: nat where "POLY1305_KEY_LEN = 32"
definition BLOCK :: nat where "BLOCK = 16"

type_synonym limbs = "u64 \<times> u64 \<times> u64 \<times> u64 \<times> u64"

record poly1305_key =
  key_r :: "u32 \<times> u32 \<times> u32 \<times> u32 \<times> u32"
  key_s :: "u32 \<times> u32 \<times> u32 \<times> u32"

definition poly1305_clamp :: "bytes \<Rightarrow> bytes" where
  "poly1305_clamp rb =
     (let rb = rb[3 := rb ! 3 AND 0x0F]; rb = rb[7 := rb ! 7 AND 0x0F];
          rb = rb[11 := rb ! 11 AND 0x0F]; rb = rb[15 := rb ! 15 AND 0x0F];
          rb = rb[4 := rb ! 4 AND 0xFC]; rb = rb[8 := rb ! 8 AND 0xFC]
      in rb[12 := rb ! 12 AND 0xFC])"

definition poly1305_key_new :: "bytes \<Rightarrow> poly1305_key" where
  "poly1305_key_new raw =
     (let rb = poly1305_clamp (slice 0 16 raw);
          r_val = of_le rb :: u128;
          mask26 = push_bit 26 1 - 1
      in \<lparr>key_r = (ucast (r_val AND mask26), ucast (drop_bit 26 r_val AND mask26),
                   ucast (drop_bit 52 r_val AND mask26), ucast (drop_bit 78 r_val AND mask26),
                   ucast (drop_bit 104 r_val AND mask26)),
          key_s = (of_le (slice 16 20 raw), of_le (slice 20 24 raw),
                   of_le (slice 24 28 raw), of_le (slice 28 32 raw))\<rparr>)"

section \<open>The state and its steps\<close>

record poly1305 =
  poly_h :: limbs
  poly_r :: limbs
  poly_s :: "u32 \<times> u32 \<times> u32 \<times> u32"
  poly_buf :: bytes
  poly_buf_len :: nat

definition poly1305_new :: "poly1305_key \<Rightarrow> poly1305" where
  "poly1305_new key =
     (let (r0, r1, r2, r3, r4) = key_r key
      in \<lparr>poly_h = (0, 0, 0, 0, 0), poly_r = (ucast r0, ucast r1, ucast r2, ucast r3, ucast r4),
          poly_s = key_s key, poly_buf = replicate BLOCK 0, poly_buf_len = 0\<rparr>)"

definition mask26 :: u64 where
  "mask26 = push_bit 26 1 - 1"

definition mul_r :: "limbs \<Rightarrow> limbs \<Rightarrow> limbs" where
  "mul_r r h =
     (let (r0, r1, r2, r3, r4) = r; (h0, h1, h2, h3, h4) = h;
          s0 = r1 * 5; s1 = r2 * 5; s2 = r3 * 5; s3 = r4 * 5;
          d0 = h0 * r0 + h1 * s3 + h2 * s2 + h3 * s1 + h4 * s0;
          d1 = h0 * r1 + h1 * r0 + h2 * s3 + h3 * s2 + h4 * s1;
          d2 = h0 * r2 + h1 * r1 + h2 * r0 + h3 * s3 + h4 * s2;
          d3 = h0 * r3 + h1 * r2 + h2 * r1 + h3 * r0 + h4 * s3;
          d4 = h0 * r4 + h1 * r3 + h2 * r2 + h3 * r1 + h4 * r0;
          c0 = drop_bit 26 d0; h0 = d0 AND mask26; d1 = d1 + c0;
          c1 = drop_bit 26 d1; h1 = d1 AND mask26; d2 = d2 + c1;
          c2 = drop_bit 26 d2; h2 = d2 AND mask26; d3 = d3 + c2;
          c3 = drop_bit 26 d3; h3 = d3 AND mask26; d4 = d4 + c3;
          c4 = drop_bit 26 d4; h4 = d4 AND mask26;
          h0 = h0 + c4 * 5;
          c0 = drop_bit 26 h0; h0 = h0 AND mask26;
          h1 = h1 + c0
      in (h0, h1, h2, h3, h4))"

fun add_limbs :: "limbs \<Rightarrow> limbs \<Rightarrow> limbs" where
  "add_limbs (h0, h1, h2, h3, h4) (n0, n1, n2, n3, n4) =
     (h0 + n0, h1 + n1, h2 + n2, h3 + n3, h4 + n4)"

definition block_limbs :: "bytes \<Rightarrow> bool \<Rightarrow> limbs" where
  "block_limbs block add_hibit =
     (let m = of_le block :: u128; hi_bit = (if add_hibit then 1 else 0); mask26 = push_bit 26 1 - 1
      in (ucast (m AND mask26), ucast (drop_bit 26 m AND mask26), ucast (drop_bit 52 m AND mask26),
          ucast (drop_bit 78 m AND mask26),
          ucast (drop_bit 104 m AND mask26) OR push_bit 24 hi_bit))"

definition process_block :: "bytes \<Rightarrow> bool \<Rightarrow> poly1305 \<Rightarrow> poly1305" where
  "process_block block add_hibit p =
     p\<lparr>poly_h := mul_r (poly_r p) (add_limbs (poly_h p) (block_limbs block add_hibit))\<rparr>"

fun process_blocks :: "bytes \<Rightarrow> poly1305 \<Rightarrow> bytes \<times> poly1305" where
  "process_blocks data p =
     (if BLOCK \<le> length data \<and> 0 < BLOCK
      then process_blocks (drop BLOCK data) (process_block (take BLOCK data) True p)
      else (data, p))"

declare process_blocks.simps [simp del]

text \<open>The part of \<open>update\<close> after the buffered bytes are dealt with: whole blocks, then the rest.\<close>

definition poly1305_absorb :: "bytes \<Rightarrow> poly1305 \<Rightarrow> poly1305" where
  "poly1305_absorb data p =
     (let (data, p) = process_blocks data p
      in if data \<noteq> []
         then p\<lparr>poly_buf := blit 0 data (poly_buf p), poly_buf_len := length data\<rparr>
         else p)"

definition poly1305_update :: "bytes \<Rightarrow> poly1305 \<Rightarrow> poly1305" where
  "poly1305_update msg p =
     (if 0 < poly_buf_len p then
        let need = BLOCK - poly_buf_len p
        in if length msg < need
           then p\<lparr>poly_buf := blit (poly_buf_len p) msg (poly_buf p),
                  poly_buf_len := poly_buf_len p + length msg\<rparr>
           else
             let p = p\<lparr>poly_buf := blit (poly_buf_len p) (take need msg) (poly_buf p)\<rparr>;
                 p = process_block (poly_buf p) True p
             in poly1305_absorb (drop need msg) (p\<lparr>poly_buf_len := 0\<rparr>)
      else poly1305_absorb msg p)"

definition carry_pass :: "limbs \<Rightarrow> limbs" where
  "carry_pass h =
     (let (h0, h1, h2, h3, h4) = h;
          c0 = drop_bit 26 h0; h0 = h0 AND mask26; h1 = h1 + c0;
          c1 = drop_bit 26 h1; h1 = h1 AND mask26; h2 = h2 + c1;
          c2 = drop_bit 26 h2; h2 = h2 AND mask26; h3 = h3 + c2;
          c3 = drop_bit 26 h3; h3 = h3 AND mask26; h4 = h4 + c3;
          c4 = drop_bit 26 h4; h4 = h4 AND mask26; h0 = h0 + c4 * 5;
          c0 = drop_bit 26 h0; h0 = h0 AND mask26; h1 = h1 + c0
      in (h0, h1, h2, h3, h4))"

definition propagate_carry :: "limbs \<Rightarrow> limbs" where
  "propagate_carry h = (carry_pass ^^ 2) h"

fun h_to_u128 :: "limbs \<Rightarrow> u128" where
  "h_to_u128 (h0, h1, h2, h3, h4) =
     ucast h0 OR push_bit 26 (ucast h1) OR push_bit 52 (ucast h2) OR push_bit 78 (ucast h3)
       OR push_bit 104 (ucast h4)"

definition poly1305_finalize :: "poly1305 \<Rightarrow> bytes" where
  "poly1305_finalize p =
     (let p = (if 0 < poly_buf_len p
               then process_block
                 ((blit 0 (take (poly_buf_len p) (poly_buf p)) (replicate BLOCK 0))
                    [poly_buf_len p := 1]) False p
               else p);
          h128 = h_to_u128 (propagate_carry (poly_h p));
          (s0, s1, s2, s3) = poly_s p;
          s128 = ucast s0 OR push_bit 32 (ucast s1) OR push_bit 64 (ucast s2) OR push_bit 96 (ucast s3);
          tag128 = h128 + s128 :: u128
      in take POLY1305_TAG_LEN (to_le 16 tag128))"

definition poly1305_mac :: "poly1305_key \<Rightarrow> bytes \<Rightarrow> bytes" where
  "poly1305_mac key msg = poly1305_finalize (poly1305_update msg (poly1305_new key))"

datatype uhf_error = UhfInvalidKeyLength | UhfEmptyInput | UhfInvalidTagLength | UhfTagMismatch

definition poly1305_verify :: "poly1305_key \<Rightarrow> bytes \<Rightarrow> bytes \<Rightarrow> uhf_error + unit" where
  "poly1305_verify key msg expected =
     (if ct_eq_16 (poly1305_mac key msg) expected then Inr () else Inl UhfTagMismatch)"

definition poly1305_key_from_zeroizing :: "bytes \<Rightarrow> uhf_error + poly1305_key" where
  "poly1305_key_from_zeroizing key =
     (if length key \<noteq> POLY1305_KEY_LEN then Inl UhfInvalidKeyLength else Inr (poly1305_key_new key))"

section \<open>Limbs as numbers\<close>

definition p1305 :: nat where
  "p1305 = 2 ^ 130 - 5"

fun limbs_val :: "limbs \<Rightarrow> nat" where
  "limbs_val (h0, h1, h2, h3, h4) =
     unat h0 + 2 ^ 26 * unat h1 + 2 ^ 52 * unat h2 + 2 ^ 78 * unat h3 + 2 ^ 104 * unat h4"

fun limbs_below :: "nat \<Rightarrow> limbs \<Rightarrow> bool" where
  "limbs_below n (h0, h1, h2, h3, h4) \<longleftrightarrow>
     unat h0 < n \<and> unat h1 < n \<and> unat h2 < n \<and> unat h3 < n \<and> unat h4 < n"

text \<open>What \<open>mul_r\<close> leaves: only the second limb may exceed 26 bits, and by little.\<close>

fun limbs_carried :: "limbs \<Rightarrow> bool" where
  "limbs_carried (h0, h1, h2, h3, h4) \<longleftrightarrow>
     unat h0 < 2 ^ 26 \<and> unat h1 < 2 ^ 26 + 2 ^ 12 \<and> unat h2 < 2 ^ 26 \<and> unat h3 < 2 ^ 26 \<and>
     unat h4 < 2 ^ 26"

lemma mask26_eq: "mask26 = mask 26"
  by (simp add: mask26_def mask_eq_exp_minus_1)

lemma unat_low26: "unat (w AND mask26) = unat w mod 2 ^ 26"
  unfolding mask26_eq take_bit_eq_mask [symmetric]
  by (rule trans [OF unsigned_take_bit_eq take_bit_eq_mod])

lemma unat_dot5:
  fixes a0 :: u64
  assumes "unat a0 * unat b0 \<le> B" "unat a1 * unat b1 \<le> B" "unat a2 * unat b2 \<le> B"
    "unat a3 * unat b3 \<le> B" "unat a4 * unat b4 \<le> B" "5 * B < 2 ^ 64"
  shows "unat (a0 * b0 + a1 * b1 + a2 * b2 + a3 * b3 + a4 * b4)
       = unat a0 * unat b0 + unat a1 * unat b1 + unat a2 * unat b2 + unat a3 * unat b3
         + unat a4 * unat b4"
proof -
  have m: "unat (a0 * b0) = unat a0 * unat b0" "unat (a1 * b1) = unat a1 * unat b1"
    "unat (a2 * b2) = unat a2 * unat b2" "unat (a3 * b3) = unat a3 * unat b3"
    "unat (a4 * b4) = unat a4 * unat b4"
    using assms by (auto intro!: unat_mult_fits)
  have "unat (a0 * b0 + a1 * b1) = unat a0 * unat b0 + unat a1 * unat b1"
    using assms m by simp
  moreover from this have "unat (a0 * b0 + a1 * b1 + a2 * b2)
      = unat a0 * unat b0 + unat a1 * unat b1 + unat a2 * unat b2"
    using assms m by simp
  moreover from this have "unat (a0 * b0 + a1 * b1 + a2 * b2 + a3 * b3)
      = unat a0 * unat b0 + unat a1 * unat b1 + unat a2 * unat b2 + unat a3 * unat b3"
    using assms m by simp
  ultimately show ?thesis using assms m by simp
qed

text \<open>The carry chain over the natural numbers.\<close>

lemma carry_chain:
  fixes d0 d1 d2 d3 d4 :: nat
  assumes "e1 = d1 + d0 div 2 ^ 26" "e2 = d2 + e1 div 2 ^ 26" "e3 = d3 + e2 div 2 ^ 26"
    "e4 = d4 + e3 div 2 ^ 26"
  shows "d0 + 2 ^ 26 * d1 + 2 ^ 52 * d2 + 2 ^ 78 * d3 + 2 ^ 104 * d4
    = d0 mod 2 ^ 26 + 2 ^ 26 * (e1 mod 2 ^ 26) + 2 ^ 52 * (e2 mod 2 ^ 26)
      + 2 ^ 78 * (e3 mod 2 ^ 26) + 2 ^ 104 * (e4 mod 2 ^ 26) + 2 ^ 130 * (e4 div 2 ^ 26)"
proof -
  define q0 q1 q2 q3 q4 where q: "q0 = d0 div 2 ^ 26" "q1 = e1 div 2 ^ 26" "q2 = e2 div 2 ^ 26"
    "q3 = e3 div 2 ^ 26" "q4 = e4 div 2 ^ 26"
  define m0 m1 m2 m3 m4 where m: "m0 = d0 mod 2 ^ 26" "m1 = e1 mod 2 ^ 26" "m2 = e2 mod 2 ^ 26"
    "m3 = e3 mod 2 ^ 26" "m4 = e4 mod 2 ^ 26"
  have "d0 = m0 + 2 ^ 26 * q0" "e1 = m1 + 2 ^ 26 * q1" "e2 = m2 + 2 ^ 26 * q2"
    "e3 = m3 + 2 ^ 26 * q3" "e4 = m4 + 2 ^ 26 * q4"
    by (simp_all add: q m)
  moreover have "e1 = d1 + q0" "e2 = d2 + q1" "e3 = d3 + q2" "e4 = d4 + q3"
    using assms by (simp_all add: q)
  ultimately show ?thesis
    unfolding q [symmetric] m [symmetric] by simp
qed

lemma limb_mult_bound: "(a::nat) < 2 ^ 28 \<Longrightarrow> b \<le> 5 * 2 ^ 26 \<Longrightarrow> a * b \<le> 5 * 2 ^ 54"
  using mult_le_mono [of a "2 ^ 28" b "5 * 2 ^ 26"] by simp

text \<open>The last part of \<open>mul_r\<close> and of \<open>propagate_carry\<close>: five column sums are carried
  into limbs and the overflow of the top limb, times five, is added to the bottom one.\<close>

definition carry_columns :: "limbs \<Rightarrow> limbs" where
  "carry_columns d =
     (let (d0, d1, d2, d3, d4) = d;
          c0 = drop_bit 26 d0; h0 = d0 AND mask26; d1 = d1 + c0;
          c1 = drop_bit 26 d1; h1 = d1 AND mask26; d2 = d2 + c1;
          c2 = drop_bit 26 d2; h2 = d2 AND mask26; d3 = d3 + c2;
          c3 = drop_bit 26 d3; h3 = d3 AND mask26; d4 = d4 + c3;
          c4 = drop_bit 26 d4; h4 = d4 AND mask26; h0 = h0 + c4 * 5;
          c0 = drop_bit 26 h0; h0 = h0 AND mask26; h1 = h1 + c0
      in (h0, h1, h2, h3, h4))"

lemma carry_columns_correct:
  fixes d0 d1 d2 d3 d4 :: u64
  assumes b: "unat d0 \<le> 2 ^ 59" "unat d1 \<le> 2 ^ 59" "unat d2 \<le> 2 ^ 59" "unat d3 \<le> 2 ^ 59"
    "unat d4 \<le> 2 ^ 59"
  defines "e1 \<equiv> unat d1 + unat d0 div 2 ^ 26"
  defines "e2 \<equiv> unat d2 + e1 div 2 ^ 26"
  defines "e3 \<equiv> unat d3 + e2 div 2 ^ 26"
  defines "e4 \<equiv> unat d4 + e3 div 2 ^ 26"
  defines "f0 \<equiv> unat d0 mod 2 ^ 26 + e4 div 2 ^ 26 * 5"
  obtains h0 h1 h2 h3 h4 where "carry_columns (d0, d1, d2, d3, d4) = (h0, h1, h2, h3, h4)"
    and "unat h0 = f0 mod 2 ^ 26" and "unat h1 = e1 mod 2 ^ 26 + f0 div 2 ^ 26"
    and "unat h2 = e2 mod 2 ^ 26" and "unat h3 = e3 mod 2 ^ 26" and "unat h4 = e4 mod 2 ^ 26"
    and "limbs_val (d0, d1, d2, d3, d4)
      = limbs_val (carry_columns (d0, d1, d2, d3, d4)) + p1305 * (e4 div 2 ^ 26)"
    and "limbs_carried (carry_columns (d0, d1, d2, d3, d4))"
proof -
  define w1 where "w1 = d1 + drop_bit 26 d0"
  define w2 where "w2 = d2 + drop_bit 26 w1"
  define w3 where "w3 = d3 + drop_bit 26 w2"
  define w4 where "w4 = d4 + drop_bit 26 w3"
  define v0 where "v0 = (d0 AND mask26) + drop_bit 26 w4 * 5"
  define h1 where "h1 = (w1 AND mask26) + drop_bit 26 v0"
  have eq: "carry_columns (d0, d1, d2, d3, d4)
      = (v0 AND mask26, h1, w2 AND mask26, w3 AND mask26, w4 AND mask26)"
    by (simp add: carry_columns_def Let_def w1_def w2_def w3_def w4_def v0_def h1_def)
  have step: "unat (d + drop_bit 26 w) = unat d + unat w div 2 ^ 26"
    if "unat d \<le> 2 ^ 59" "unat w \<le> 2 ^ 60" for d w :: u64
    using that by (subst unat_add_fits) (auto simp: unat_shr)
  have w1: "unat w1 = e1" and e1: "e1 \<le> 2 ^ 60" using b by (simp_all add: w1_def e1_def step)
  have w2: "unat w2 = e2" and e2: "e2 \<le> 2 ^ 60" using b w1 e1 by (simp_all add: w2_def e2_def step)
  have w3: "unat w3 = e3" and e3: "e3 \<le> 2 ^ 60" using b w2 e2 by (simp_all add: w3_def e3_def step)
  have w4: "unat w4 = e4" and e4: "e4 \<le> 2 ^ 60" using b w3 e3 by (simp_all add: w4_def e4_def step)
  have q: "e4 div 2 ^ 26 \<le> 2 ^ 34" using e4 by simp
  have five: "unat (drop_bit 26 w4 * 5) = e4 div 2 ^ 26 * 5"
    using q w4 by (subst unat_mult_fits) (auto simp: unat_shr)
  have f0: "f0 < 2 ^ 26 + 2 ^ 37" using q by (simp add: f0_def)
  have v0: "unat v0 = f0"
    unfolding v0_def using five f0 by (subst unat_add_fits) (auto simp: unat_low26 f0_def)
  have h1: "unat h1 = e1 mod 2 ^ 26 + f0 div 2 ^ 26"
    unfolding h1_def using f0 w1 v0 by (subst unat_add_fits) (auto simp: unat_low26 unat_shr)
  have "limbs_val (carry_columns (d0, d1, d2, d3, d4)) + p1305 * (e4 div 2 ^ 26)
      = f0 mod 2 ^ 26 + 2 ^ 26 * (e1 mod 2 ^ 26 + f0 div 2 ^ 26) + 2 ^ 52 * (e2 mod 2 ^ 26)
        + 2 ^ 78 * (e3 mod 2 ^ 26) + 2 ^ 104 * (e4 mod 2 ^ 26) + p1305 * (e4 div 2 ^ 26)"
    by (simp only: eq limbs_val.simps unat_low26 v0 h1 w2 w3 w4)
  also have "\<dots> = f0 + 2 ^ 26 * (e1 mod 2 ^ 26) + 2 ^ 52 * (e2 mod 2 ^ 26)
        + 2 ^ 78 * (e3 mod 2 ^ 26) + 2 ^ 104 * (e4 mod 2 ^ 26) + p1305 * (e4 div 2 ^ 26)"
    using mod_mult_div_eq [of f0 "2 ^ 26"] by (simp only: distrib_left)
  also have "\<dots> = unat d0 mod 2 ^ 26 + 2 ^ 26 * (e1 mod 2 ^ 26) + 2 ^ 52 * (e2 mod 2 ^ 26)
        + 2 ^ 78 * (e3 mod 2 ^ 26) + 2 ^ 104 * (e4 mod 2 ^ 26) + 2 ^ 130 * (e4 div 2 ^ 26)"
    by (simp add: f0_def p1305_def)
  also have "\<dots> = limbs_val (d0, d1, d2, d3, d4)"
    unfolding limbs_val.simps
    by (rule carry_chain [symmetric]) (simp_all add: e1_def e2_def e3_def e4_def)
  finally have val: "limbs_val (d0, d1, d2, d3, d4)
      = limbs_val (carry_columns (d0, d1, d2, d3, d4)) + p1305 * (e4 div 2 ^ 26)" ..
  have "f0 div 2 ^ 26 < 2 ^ 12" using f0 by (simp add: div_less_iff_less_mult)
  moreover have "e1 mod 2 ^ 26 < 2 ^ 26" by simp
  ultimately have "unat h1 < 2 ^ 26 + 2 ^ 12" using h1 by linarith
  then have "limbs_carried (carry_columns (d0, d1, d2, d3, d4))"
    by (simp add: eq unat_low26)
  with eq v0 h1 w2 w3 w4 val show thesis
    by (intro that) (auto simp: unat_low26)
qed

lemma mul_r_columns:
  "mul_r (r0, r1, r2, r3, r4) (h0, h1, h2, h3, h4) =
     carry_columns
       (h0 * r0 + h1 * (r4 * 5) + h2 * (r3 * 5) + h3 * (r2 * 5) + h4 * (r1 * 5),
        h0 * r1 + h1 * r0 + h2 * (r4 * 5) + h3 * (r3 * 5) + h4 * (r2 * 5),
        h0 * r2 + h1 * r1 + h2 * r0 + h3 * (r4 * 5) + h4 * (r3 * 5),
        h0 * r3 + h1 * r2 + h2 * r1 + h3 * r0 + h4 * (r4 * 5),
        h0 * r4 + h1 * r3 + h2 * r2 + h3 * r1 + h4 * r0)"
  by (simp add: mul_r_def carry_columns_def Let_def)

lemma carry_pass_columns: "carry_pass h = carry_columns h"
  by (simp add: carry_pass_def carry_columns_def)

lemma mul_columns_val:
  fixes h0 h1 h2 h3 h4 r0 r1 r2 r3 r4 :: nat
  shows "(h0 + 2 ^ 26 * h1 + 2 ^ 52 * h2 + 2 ^ 78 * h3 + 2 ^ 104 * h4)
      * (r0 + 2 ^ 26 * r1 + 2 ^ 52 * r2 + 2 ^ 78 * r3 + 2 ^ 104 * r4)
    = (h0 * r0 + h1 * (r4 * 5) + h2 * (r3 * 5) + h3 * (r2 * 5) + h4 * (r1 * 5))
      + 2 ^ 26 * (h0 * r1 + h1 * r0 + h2 * (r4 * 5) + h3 * (r3 * 5) + h4 * (r2 * 5))
      + 2 ^ 52 * (h0 * r2 + h1 * r1 + h2 * r0 + h3 * (r4 * 5) + h4 * (r3 * 5))
      + 2 ^ 78 * (h0 * r3 + h1 * r2 + h2 * r1 + h3 * r0 + h4 * (r4 * 5))
      + 2 ^ 104 * (h0 * r4 + h1 * r3 + h2 * r2 + h3 * r1 + h4 * r0)
      + p1305 * (h1 * r4 + h2 * r3 + h3 * r2 + h4 * r1
          + 2 ^ 26 * (h2 * r4 + h3 * r3 + h4 * r2)
          + 2 ^ 52 * (h3 * r4 + h4 * r3) + 2 ^ 78 * (h4 * r4))"
  by (simp add: p1305_def algebra_simps)

lemma mul_r_correct:
  assumes "limbs_below (2 ^ 28) h" and "limbs_below (2 ^ 26) r"
  shows "\<exists>k. limbs_val h * limbs_val r = limbs_val (mul_r r h) + p1305 * k"
    and "limbs_carried (mul_r r h)"
proof -
  obtain h0 h1 h2 h3 h4 where h: "h = (h0, h1, h2, h3, h4)" by (cases h)
  obtain r0 r1 r2 r3 r4 where r: "r = (r0, r1, r2, r3, r4)" by (cases r)
  have H: "unat h0 < 2 ^ 28" "unat h1 < 2 ^ 28" "unat h2 < 2 ^ 28" "unat h3 < 2 ^ 28" "unat h4 < 2 ^ 28"
    using assms(1) by (simp_all add: h)
  have R: "unat r0 < 2 ^ 26" "unat r1 < 2 ^ 26" "unat r2 < 2 ^ 26" "unat r3 < 2 ^ 26" "unat r4 < 2 ^ 26"
    using assms(2) by (simp_all add: r)
  have five: "unat (w * 5) = unat w * 5" if "unat w < 2 ^ 26" for w :: u64
    using that by (subst unat_mult_fits) auto
  have R5: "unat (r1 * 5) = unat r1 * 5" "unat (r2 * 5) = unat r2 * 5" "unat (r3 * 5) = unat r3 * 5"
    "unat (r4 * 5) = unat r4 * 5" using R by (simp_all add: five)
  let ?B = "5 * 2 ^ 54 :: nat"
  have P: "unat a * unat b \<le> ?B" if "unat a < 2 ^ 28" "unat b \<le> 5 * 2 ^ 26" for a b :: u64
    using that by (rule limb_mult_bound)
  have RB: "unat r0 \<le> 5 * 2 ^ 26" "unat r1 \<le> 5 * 2 ^ 26" "unat r2 \<le> 5 * 2 ^ 26"
    "unat r3 \<le> 5 * 2 ^ 26" "unat r4 \<le> 5 * 2 ^ 26" "unat (r1 * 5) \<le> 5 * 2 ^ 26"
    "unat (r2 * 5) \<le> 5 * 2 ^ 26" "unat (r3 * 5) \<le> 5 * 2 ^ 26" "unat (r4 * 5) \<le> 5 * 2 ^ 26"
    using R by (simp_all add: R5)
  have dot: "unat (h0 * b0 + h1 * b1 + h2 * b2 + h3 * b3 + h4 * b4)
      = unat h0 * unat b0 + unat h1 * unat b1 + unat h2 * unat b2 + unat h3 * unat b3
        + unat h4 * unat b4"
    "unat (h0 * b0 + h1 * b1 + h2 * b2 + h3 * b3 + h4 * b4) \<le> 2 ^ 59"
    if "unat b0 \<le> 5 * 2 ^ 26" "unat b1 \<le> 5 * 2 ^ 26" "unat b2 \<le> 5 * 2 ^ 26"
      "unat b3 \<le> 5 * 2 ^ 26" "unat b4 \<le> 5 * 2 ^ 26" for b0 b1 b2 b3 b4
  proof -
    note p = P [OF H(1) that(1)] P [OF H(2) that(2)] P [OF H(3) that(3)] P [OF H(4) that(4)]
      P [OF H(5) that(5)]
    show "unat (h0 * b0 + h1 * b1 + h2 * b2 + h3 * b3 + h4 * b4)
      = unat h0 * unat b0 + unat h1 * unat b1 + unat h2 * unat b2 + unat h3 * unat b3
        + unat h4 * unat b4"
      by (rule unat_dot5 [OF p]) simp
    then show "unat (h0 * b0 + h1 * b1 + h2 * b2 + h3 * b3 + h4 * b4) \<le> 2 ^ 59"
      using p by simp
  qed
  define d0 where "d0 = h0 * r0 + h1 * (r4 * 5) + h2 * (r3 * 5) + h3 * (r2 * 5) + h4 * (r1 * 5)"
  define d1 where "d1 = h0 * r1 + h1 * r0 + h2 * (r4 * 5) + h3 * (r3 * 5) + h4 * (r2 * 5)"
  define d2 where "d2 = h0 * r2 + h1 * r1 + h2 * r0 + h3 * (r4 * 5) + h4 * (r3 * 5)"
  define d3 where "d3 = h0 * r3 + h1 * r2 + h2 * r1 + h3 * r0 + h4 * (r4 * 5)"
  define d4 where "d4 = h0 * r4 + h1 * r3 + h2 * r2 + h3 * r1 + h4 * r0"
  note D = d0_def d1_def d2_def d3_def d4_def
  have bounds: "unat d0 \<le> 2 ^ 59" "unat d1 \<le> 2 ^ 59" "unat d2 \<le> 2 ^ 59" "unat d3 \<le> 2 ^ 59"
    "unat d4 \<le> 2 ^ 59"
    unfolding D by (intro dot(2) RB)+
  have m: "mul_r r h = carry_columns (d0, d1, d2, d3, d4)"
    by (simp only: h r mul_r_columns D)
  have "\<exists>k. limbs_val h * limbs_val r = limbs_val (d0, d1, d2, d3, d4) + p1305 * k"
    unfolding h r limbs_val.simps D
      dot(1) [OF RB(1) RB(9) RB(8) RB(7) RB(6)] dot(1) [OF RB(2) RB(1) RB(9) RB(8) RB(7)]
      dot(1) [OF RB(3) RB(2) RB(1) RB(9) RB(8)] dot(1) [OF RB(4) RB(3) RB(2) RB(1) RB(9)]
      dot(1) [OF RB(5) RB(4) RB(3) RB(2) RB(1)] R5 mul_columns_val
    by (rule exI) (rule refl)
  then obtain k where k: "limbs_val h * limbs_val r = limbs_val (d0, d1, d2, d3, d4) + p1305 * k" ..
  obtain k' where k': "limbs_val (d0, d1, d2, d3, d4) = limbs_val (mul_r r h) + p1305 * k'"
    and c: "limbs_carried (mul_r r h)"
    unfolding m by (rule carry_columns_correct [OF bounds])
  from k k' have "limbs_val h * limbs_val r = limbs_val (mul_r r h) + p1305 * (k' + k)"
    by (simp add: distrib_left)
  then show "\<exists>k. limbs_val h * limbs_val r = limbs_val (mul_r r h) + p1305 * k" ..
  show "limbs_carried (mul_r r h)" by (rule c)
qed

lemma length_poly1305_mac [simp]: "length (poly1305_mac key msg) = 16"
  by (simp add: poly1305_mac_def poly1305_finalize_def POLY1305_TAG_LEN_def Let_def split: prod.splits)

lemma poly1305_verify_iff:
  "length tag = 16 \<Longrightarrow> poly1305_verify key msg tag = Inr () \<longleftrightarrow> tag = poly1305_mac key msg"
  by (auto simp: poly1305_verify_def ct_eq_16_iff)

end
