(* ===== verification/Ring.thy ===== *)
theory Ring
  imports Prelude
begin

text \<open>
  Ring buffers.  Five components of the kernel keep a fixed array with a head index and an
  element count (\<open>MessageQueue\<close>, \<open>Pipe\<close>, \<open>RxQueue\<close>, \<open>LoopbackDevice\<close>, \<open>KeyLane\<close>).
  This theory has the three loops they are made of (write at the tail, copy out, clear from
  the head), the list a ring holds (\<open>ring_view\<close>), and the interface \<open>bounded_fifo\<close> of a
  queue of bounded capacity with the facts every client may use.
\<close>

section \<open>The loops\<close>

text \<open>\<open>for &b in data { buf[w] = b; w = (w + 1) % CAP; }\<close>\<close>

fun ring_put :: "'a list \<Rightarrow> nat \<Rightarrow> 'a list \<Rightarrow> 'a list" where
  "ring_put buf w [] = buf"
| "ring_put buf w (x # xs) = ring_put (buf[w := x]) ((w + 1) mod length buf) xs"

text \<open>\<open>for b in out { *b = buf[r]; r = (r + 1) % CAP; }\<close>\<close>

fun ring_get :: "'a list \<Rightarrow> nat \<Rightarrow> nat \<Rightarrow> 'a list" where
  "ring_get buf r 0 = []"
| "ring_get buf r (Suc n) = buf ! r # ring_get buf ((r + 1) mod length buf) n"

text \<open>\<open>for _ in 0..n { buf[read] = 0; read = (read + 1) % CAP; }\<close>\<close>

fun ring_clear :: "'a \<Rightarrow> 'a list \<Rightarrow> nat \<Rightarrow> nat \<Rightarrow> 'a list \<times> nat" where
  "ring_clear z buf r 0 = (buf, r)"
| "ring_clear z buf r (Suc n) = ring_clear z (buf[r := z]) ((r + 1) mod length buf) n"

text \<open>The \<open>n\<close> elements a ring holds from its head \<open>h\<close> on.\<close>

definition ring_view :: "'a list \<Rightarrow> nat \<Rightarrow> nat \<Rightarrow> 'a list" where
  "ring_view buf h n = map (\<lambda>i. buf ! ((h + i) mod length buf)) [0..<n]"

section \<open>Facts about the loops\<close>

lemma mod_less_cap [simp]: "n < c \<Longrightarrow> x mod c < (c :: nat)"
  by simp

lemma length_ring_put [simp]: "length (ring_put buf w xs) = length buf"
  by (induction xs arbitrary: buf w) auto

lemma length_ring_view [simp]: "length (ring_view buf h n) = n"
  by (simp add: ring_view_def)

lemma length_ring_get [simp]: "length (ring_get buf r n) = n"
  by (induction n arbitrary: r) auto

lemma ring_view_nth [simp]:
  "i < n \<Longrightarrow> ring_view buf h n ! i = buf ! ((h + i) mod length buf)"
  by (simp add: ring_view_def)

lemma ring_view_0 [simp]: "ring_view buf h 0 = []"
  by (simp add: ring_view_def)

lemma ring_view_Suc:
  "ring_view buf h (Suc n) = ring_view buf h n @ [buf ! ((h + n) mod length buf)]"
  by (simp add: ring_view_def)

lemma ring_view_Suc_left:
  "h < length buf \<Longrightarrow>
   ring_view buf h (Suc n) = buf ! h # ring_view buf ((h + 1) mod length buf) n"
  by (rule nth_equalityI) (auto simp: nth_Cons mod_simps split: nat.splits)

lemma ring_view_take: "n \<le> m \<Longrightarrow> take n (ring_view buf h m) = ring_view buf h n"
  by (rule nth_equalityI) auto

lemma ring_view_drop:
  "n \<le> m \<Longrightarrow> drop n (ring_view buf h m) = ring_view buf ((h + n) mod length buf) (m - n)"
  by (rule nth_equalityI) (auto simp: mod_simps add.assoc)

lemma ring_get_view: "r < length buf \<Longrightarrow> ring_get buf r n = ring_view buf r n"
proof (induction n arbitrary: r)
  case 0
  then show ?case by simp
next
  case (Suc n)
  moreover have "(r + 1) mod length buf < length buf"
    using Suc.prems by (rule mod_less_cap)
  ultimately show ?case by (simp only: ring_get.simps ring_view_Suc_left)
qed

text \<open>Two slots of the ring at different distances below the capacity are different.\<close>

lemma ring_slots_differ:
  assumes "i < j" and "j < c + i" and "(h + i) mod c = (h + j) mod (c :: nat)"
  shows False
proof -
  have "c dvd j - i"
    using assms(1,3) by (metis add_diff_cancel_left less_imp_le_nat mod_eq_dvd_iff_nat
        nat_add_left_cancel_le)
  then show False using assms(1,2) by (auto dest: dvd_imp_le)
qed

lemma ring_slots_inj:
  assumes "i < c" and "j < c"
  shows "(h + i) mod c = (h + j) mod c \<longleftrightarrow> i = (j :: nat)"
  using assms ring_slots_differ [of i j c h] ring_slots_differ [of j i c h]
  by (metis linorder_neqE_nat trans_less_add1)

lemma ring_view_update_outside:
  "n \<le> i \<Longrightarrow> i < length buf \<Longrightarrow>
   ring_view (buf[(h + i) mod length buf := x]) h n = ring_view buf h n"
  by (rule nth_equalityI) (auto simp: nth_list_update ring_slots_inj)

lemma ring_view_push:
  "n < length buf \<Longrightarrow>
   ring_view (buf[(h + n) mod length buf := x]) h (Suc n) = ring_view buf h n @ [x]"
  by (simp add: ring_view_Suc ring_view_update_outside mod_less_cap [of n])

lemma ring_view_put:
  "n + length xs \<le> length buf \<Longrightarrow>
   ring_view (ring_put buf ((h + n) mod length buf) xs) h (n + length xs) = ring_view buf h n @ xs"
proof (induction xs arbitrary: buf n)
  case Nil
  then show ?case by simp
next
  case (Cons x xs)
  let ?b = "buf[(h + n) mod length buf := x]"
  have "ring_view (ring_put ?b ((h + Suc n) mod length ?b) xs) h (Suc n + length xs)
        = ring_view ?b h (Suc n) @ xs"
    using Cons.prems by (intro Cons.IH) simp
  then show ?case using Cons.prems by (simp add: ring_view_push mod_simps)
qed

text \<open>Slots the writing loop does not reach keep their contents.\<close>

lemma ring_put_outside:
  "n + length xs \<le> i \<Longrightarrow> i < length buf + n \<Longrightarrow>
   ring_put buf ((h + n) mod length buf) xs ! ((h + i) mod length buf)
     = buf ! ((h + i) mod length buf)"
proof (induction xs arbitrary: buf n)
  case Nil
  then show ?case by simp
next
  case (Cons x xs)
  let ?b = "buf[(h + n) mod length buf := x]"
  have ne: "(h + n) mod length buf \<noteq> (h + i) mod length buf"
    using Cons.prems ring_slots_differ [of n i "length buf" h] by auto
  have "ring_put ?b ((h + Suc n) mod length ?b) xs ! ((h + i) mod length ?b)
        = ?b ! ((h + i) mod length ?b)"
    using Cons.prems by (intro Cons.IH) auto
  then show ?case using ne by (simp add: mod_simps)
qed

lemma ring_clear_index:
  "0 < length buf \<Longrightarrow> r < length buf \<Longrightarrow> snd (ring_clear z buf r n) = (r + n) mod length buf"
  by (induction n arbitrary: buf r) (simp_all add: mod_simps)

lemma length_ring_clear [simp]: "length (fst (ring_clear z buf r n)) = length buf"
  by (induction n arbitrary: buf r) auto

text \<open>After clearing \<open>n\<close> slots from the head they hold \<open>z\<close> and the others are unchanged.\<close>

lemma ring_clear_nth:
  "r < length buf \<Longrightarrow> n \<le> length buf \<Longrightarrow> i < length buf \<Longrightarrow>
   fst (ring_clear z buf r n) ! ((r + i) mod length buf)
     = (if i < n then z else buf ! ((r + i) mod length buf))"
proof (induction n arbitrary: buf r i)
  case 0
  then show ?case by simp
next
  case (Suc n)
  let ?b = "buf[r := z]" and ?r = "(r + 1) mod length buf"
  have r: "?r < length ?b" using Suc.prems mod_less_cap [of r "length buf"] by simp
  show ?case
  proof (cases i)
    case 0
    have "fst (ring_clear z ?b ?r n) ! ((?r + (length buf - 1)) mod length ?b)
        = ?b ! ((?r + (length buf - 1)) mod length ?b)"
      using Suc.IH [of ?r ?b "length buf - 1"] Suc.prems r by auto
    moreover have "(?r + (length buf - 1)) mod length ?b = r"
    proof -
      have "(?r + (length buf - 1)) mod length buf = ((r + 1) + (length buf - 1)) mod length buf"
        by (rule mod_add_left_eq)
      also have "(r + 1) + (length buf - 1) = r + length buf" using Suc.prems by simp
      finally show ?thesis using Suc.prems by simp
    qed
    ultimately show ?thesis using 0 Suc.prems by simp
  next
    case (Suc j)
    have "fst (ring_clear z ?b ?r n) ! ((?r + j) mod length ?b)
        = (if j < n then z else ?b ! ((?r + j) mod length ?b))"
      using Suc.IH [of ?r ?b j] Suc.prems r Suc by auto
    moreover have "(?r + j) mod length ?b = (r + i) mod length buf"
      using Suc by (simp add: mod_simps)
    moreover have "(r + i) mod length buf \<noteq> (r + 0) mod length buf"
      using Suc Suc.prems by (subst ring_slots_inj) auto
    then have "(r + i) mod length buf \<noteq> r" using Suc.prems by simp
    ultimately show ?thesis using Suc by simp
  qed
qed

lemma ring_view_clear:
  assumes "h < length buf" and "n \<le> m" and "m \<le> length buf"
  shows "ring_view (fst (ring_clear z buf h n)) ((h + n) mod length buf) (m - n)
       = drop n (ring_view buf h m)"
proof (rule nth_equalityI)
  show "length (ring_view (fst (ring_clear z buf h n)) ((h + n) mod length buf) (m - n))
      = length (drop n (ring_view buf h m))" by simp
next
  fix i
  assume "i < length (ring_view (fst (ring_clear z buf h n)) ((h + n) mod length buf) (m - n))"
  then have i: "i < m - n" by simp
  have "((h + n) mod length buf + i) mod length buf = (h + (n + i)) mod length buf"
    by (simp add: mod_simps add.assoc)
  then show "ring_view (fst (ring_clear z buf h n)) ((h + n) mod length buf) (m - n) ! i
      = drop n (ring_view buf h m) ! i"
    using assms i ring_clear_nth [of h buf n "n + i" z] by (simp add: add.assoc)
qed

lemma ring_view_next_update:
  assumes "h < length buf" and "k < length buf"
  shows "ring_view (buf[h := x]) ((h + 1) mod length buf) k = ring_view buf ((h + 1) mod length buf) k"
proof (rule nth_equalityI)
  fix i
  assume "i < length (ring_view (buf[h := x]) ((h + 1) mod length buf) k)"
  then have i: "i < k" "Suc i < length buf" using assms by simp_all
  have "(h + Suc i) mod length buf \<noteq> (h + 0) mod length buf"
    using i by (subst ring_slots_inj) auto
  then have "((h + 1) mod length buf + i) mod length buf \<noteq> h"
    using assms by (simp add: mod_simps)
  then show "ring_view (buf[h := x]) ((h + 1) mod length buf) k ! i
      = ring_view buf ((h + 1) mod length buf) k ! i"
    using i by simp
qed simp

text \<open>Three rings hold byte strings in slots of fixed size beside their lengths.\<close>

definition slot_view :: "'a list list \<Rightarrow> nat list \<Rightarrow> 'a list list" where
  "slot_view slots lens = map2 take lens slots"

lemma length_slot_view [simp]: "length (slot_view slots lens) = min (length lens) (length slots)"
  by (simp add: slot_view_def)

lemma slot_view_nth [simp]:
  "i < length lens \<Longrightarrow> i < length slots \<Longrightarrow> slot_view slots lens ! i = take (lens ! i) (slots ! i)"
  by (simp add: slot_view_def)

lemma slot_view_store:
  assumes "length slots = length lens" and "i < length lens" and "length f \<le> length (slots ! i)"
  shows "slot_view (slots[i := blit 0 f (slots ! i)]) (lens[i := length f])
      = (slot_view slots lens)[i := f]"
  using assms by (intro nth_equalityI) (auto simp: nth_list_update blit_def nth_append)

lemma slot_view_clear:
  assumes "length slots = length lens" and "i < length lens"
  shows "slot_view (slots[i := s]) lens = (slot_view slots lens)[i := take (lens ! i) s]"
  using assms by (intro nth_equalityI) (auto simp: nth_list_update)

section \<open>The interface of a bounded queue\<close>

text \<open>
  \<open>push x q\<close> is \<open>None\<close> when the queue refuses the element, \<open>pop q\<close> is \<open>None\<close> when it
  is empty; \<open>view\<close> is the list of queued elements, oldest first, and \<open>ok\<close> the elements the
  queue can hold (a payload that fits its slot).
\<close>

datatype 'a fifo_op = Push 'a | Pop

fun fifo_run ::
    "('a \<Rightarrow> 'q \<Rightarrow> 'q option) \<Rightarrow> ('q \<Rightarrow> ('a \<times> 'q) option) \<Rightarrow> 'a fifo_op list \<Rightarrow> 'q
     \<Rightarrow> 'a list \<times> 'a list \<times> 'q" where
  "fifo_run push pop [] q = ([], [], q)"
| "fifo_run push pop (Push x # ops) q =
     (case push x q of
        None \<Rightarrow> fifo_run push pop ops q
      | Some q' \<Rightarrow> (let (ins, outs, r) = fifo_run push pop ops q' in (x # ins, outs, r)))"
| "fifo_run push pop (Pop # ops) q =
     (case pop q of
        None \<Rightarrow> fifo_run push pop ops q
      | Some (x, q') \<Rightarrow> (let (ins, outs, r) = fifo_run push pop ops q' in (ins, x # outs, r)))"

fun ops_ok :: "('a \<Rightarrow> bool) \<Rightarrow> 'a fifo_op list \<Rightarrow> bool" where
  "ops_ok ok [] = True"
| "ops_ok ok (Push x # ops) = (ok x \<and> ops_ok ok ops)"
| "ops_ok ok (Pop # ops) = ops_ok ok ops"

lemma ops_ok_True [simp]: "ops_ok (\<lambda>_. True) ops"
proof (induction ops)
  case (Cons a ops)
  then show ?case by (cases a) simp_all
qed simp

locale bounded_fifo =
  fixes inv :: "'q \<Rightarrow> bool"
    and view :: "'q \<Rightarrow> 'a list"
    and cap :: nat
    and ok :: "'a \<Rightarrow> bool"
    and push :: "'a \<Rightarrow> 'q \<Rightarrow> 'q option"
    and pop :: "'q \<Rightarrow> ('a \<times> 'q) option"
  assumes view_bound: "inv q \<Longrightarrow> length (view q) \<le> cap"
    and push_refused: "inv q \<Longrightarrow> ok x \<Longrightarrow> push x q = None \<longleftrightarrow> length (view q) = cap"
    and push_accepted: "inv q \<Longrightarrow> ok x \<Longrightarrow> push x q = Some q' \<Longrightarrow> inv q' \<and> view q' = view q @ [x]"
    and pop_empty: "inv q \<Longrightarrow> pop q = None \<longleftrightarrow> view q = []"
    and pop_front: "inv q \<Longrightarrow> pop q = Some (x, q') \<Longrightarrow> inv q' \<and> view q = x # view q'"
begin

lemma push_pop_single:
  assumes "inv q" and "view q = []" and "ok x" and "0 < cap"
  obtains q' q'' where "push x q = Some q'" and "pop q' = Some (x, q'')" and "view q'' = []"
proof -
  from assms have "push x q \<noteq> None" by (simp add: push_refused)
  then obtain q' where q': "push x q = Some q'" by auto
  with assms have v: "inv q'" "view q' = [x]" by (auto dest: push_accepted)
  then have "pop q' \<noteq> None" by (simp add: pop_empty)
  then obtain y q'' where y: "pop q' = Some (y, q'')" by auto
  with v have "y = x" "view q'' = []" by (auto dest: pop_front)
  with q' y show thesis using that by blast
qed

text \<open>First in, first out: what has come out followed by what is still queued is what was
  queued at the start followed by what was accepted, in order.\<close>

lemma run_fifo:
  "inv q \<Longrightarrow> ops_ok ok ops \<Longrightarrow> fifo_run push pop ops q = (ins, outs, r) \<Longrightarrow>
   inv r \<and> view q @ ins = outs @ view r"
proof (induction ops arbitrary: q ins outs)
  case Nil
  then show ?case by simp
next
  case (Cons a ops)
  show ?case
  proof (cases a)
    case (Push x)
    show ?thesis
    proof (cases "push x q")
      case None
      then show ?thesis using Cons Push by auto
    next
      case (Some q')
      then have "inv q'" "view q' = view q @ [x]"
        using Cons.prems Push by (auto dest: push_accepted)
      then show ?thesis using Cons.IH [of q'] Cons.prems Push Some
        by (auto split: prod.splits)
    qed
  next
    case Pop
    show ?thesis
    proof (cases "pop q")
      case None
      then show ?thesis using Cons Pop by auto
    next
      case (Some p)
      then obtain x q' where p: "pop q = Some (x, q')" by (cases p) auto
      then have "inv q'" "view q = x # view q'"
        using Cons.prems by (auto dest: pop_front)
      then show ?thesis using Cons.IH [of q'] Cons.prems Pop p
        by (auto split: prod.splits)
    qed
  qed
qed

lemma run_length:
  assumes "inv q" and "ops_ok ok ops" and "fifo_run push pop ops q = (ins, outs, r)"
  shows "length outs \<le> length (view q) + length ins"
    and "length (view q) + length ins \<le> length outs + cap"
proof -
  have *: "inv r" "view q @ ins = outs @ view r" using run_fifo [OF assms] by auto
  have "length (view q) + length ins = length outs + length (view r)"
    using arg_cong [OF *(2), of length] by simp
  then show "length outs \<le> length (view q) + length ins"
    and "length (view q) + length ins \<le> length outs + cap"
    using view_bound [OF *(1)] by simp_all
qed

end

end
