(* ===== verification/Qkey.thy ===== *)
theory Qkey
  imports Ring
begin

text \<open>
  The one-time key store of the kernel (\<open>kernel/qkey/src/lib.rs\<close>): \<open>KeyLane\<close>, a ring buffer
  of key bytes with an absolute 64-bit offset, and \<open>PeerKeys\<close>, the two lanes of a peer.
  A lane refines a window on a byte stream: a base offset and the bytes from there on.
  The theory shows that every operation refines the operation on windows, that the bytes
  outside the window are zero, that the bytes read at an offset are those of the stream at
  that offset whatever was taken, skipped or dropped before, and that no offset is taken
  twice.  The interface \<open>key_stream\<close> is what the record layer (theory \<open>Qtls\<close>) relies on.
\<close>

section \<open>The data\<close>

definition LANE_CAPACITY :: nat where
  "LANE_CAPACITY = 16 * 1024"

datatype key_error = InsufficientKey | AlreadyConsumed | BlockTooLarge | EmptyInput

datatype link_role = RoleA | RoleB

fun tx_lane :: "link_role \<Rightarrow> nat" where
  "tx_lane RoleA = 0"
| "tx_lane RoleB = 1"

definition rx_lane :: "link_role \<Rightarrow> nat" where
  "rx_lane r = 1 - tx_lane r"

record key_lane =
  lane_buf :: bytes
  lane_read :: nat
  lane_count :: nat
  lane_base :: u64

definition lane_new :: key_lane where
  "lane_new = \<lparr>lane_buf = replicate LANE_CAPACITY 0, lane_read = 0, lane_count = 0, lane_base = 0\<rparr>"

definition lane_available :: "key_lane \<Rightarrow> nat" where
  "lane_available l = lane_count l"

definition lane_next_offset :: "key_lane \<Rightarrow> u64" where
  "lane_next_offset l = lane_base l"

section \<open>The operations\<close>

definition lane_copy_out :: "nat \<Rightarrow> nat \<Rightarrow> key_lane \<Rightarrow> bytes" where
  "lane_copy_out skip n l = ring_get (lane_buf l) ((lane_read l + skip) mod LANE_CAPACITY) n"

definition lane_discard :: "nat \<Rightarrow> key_lane \<Rightarrow> key_lane" where
  "lane_discard n l =
     (let (b, r) = ring_clear 0 (lane_buf l) (lane_read l) n
      in l\<lparr>lane_buf := b, lane_read := r, lane_count := lane_count l - n,
           lane_base := lane_base l + of_nat n\<rparr>)"

definition lane_deposit :: "bytes \<Rightarrow> key_lane \<Rightarrow> key_error + key_lane" where
  "lane_deposit key l =
     (if key = [] then Inl EmptyInput
      else if LANE_CAPACITY < length key then Inl BlockTooLarge
      else
        let overflow = (lane_count l + length key) - LANE_CAPACITY;
            l = (if 0 < overflow then lane_discard overflow l else l);
            w = (lane_read l + lane_count l) mod LANE_CAPACITY
        in Inr (l\<lparr>lane_buf := ring_put (lane_buf l) w key,
                  lane_count := lane_count l + length key\<rparr>))"

text \<open>\<open>take(out)\<close>: the argument is \<open>out.len()\<close>, the result the offset and the bytes of \<open>out\<close>.\<close>

definition lane_take :: "nat \<Rightarrow> key_lane \<Rightarrow> key_error + (u64 \<times> bytes \<times> key_lane)" where
  "lane_take n l =
     (if n = 0 then Inl EmptyInput
      else if lane_count l < n then Inl InsufficientKey
      else Inr (lane_base l, lane_copy_out 0 n l, lane_discard n l))"

definition lane_peek_at :: "u64 \<Rightarrow> nat \<Rightarrow> key_lane \<Rightarrow> key_error + bytes" where
  "lane_peek_at offset n l =
     (if n = 0 then Inl EmptyInput
      else case checked_sub offset (lane_base l) of
        None \<Rightarrow> Inl AlreadyConsumed
      | Some skip \<Rightarrow>
          (case checked_add skip (of_nat n) of
             None \<Rightarrow> Inl InsufficientKey
           | Some need \<Rightarrow>
               if of_nat (lane_count l) < need then Inl InsufficientKey
               else Inr (lane_copy_out (unat skip) n l)))"

definition lane_consume_through :: "u64 \<Rightarrow> nat \<Rightarrow> key_lane \<Rightarrow> key_error + key_lane" where
  "lane_consume_through offset n l =
     (case checked_sub offset (lane_base l) of
        None \<Rightarrow> Inl AlreadyConsumed
      | Some skip \<Rightarrow>
          (case checked_add skip (of_nat n) of
             None \<Rightarrow> Inl InsufficientKey
           | Some end \<Rightarrow>
               if of_nat (lane_count l) < end then Inl InsufficientKey
               else Inr (lane_discard (unat end) l)))"

definition lane_wipe :: "key_lane \<Rightarrow> key_lane" where
  "lane_wipe l =
     l\<lparr>lane_buf := map (\<lambda>_. 0) (lane_buf l), lane_base := lane_base l + of_nat (lane_count l),
       lane_count := 0, lane_read := 0\<rparr>"

section \<open>The two lanes of a peer\<close>

record peer_keys =
  pk_role :: link_role
  pk_lanes :: "key_lane list"

definition peer_keys_new :: "link_role \<Rightarrow> peer_keys" where
  "peer_keys_new r = \<lparr>pk_role = r, pk_lanes = [lane_new, lane_new]\<rparr>"

definition peer_tx :: "peer_keys \<Rightarrow> key_lane" where
  "peer_tx p = pk_lanes p ! tx_lane (pk_role p)"

definition peer_rx :: "peer_keys \<Rightarrow> key_lane" where
  "peer_rx p = pk_lanes p ! rx_lane (pk_role p)"

text \<open>Writing through the mutable references \<open>tx()\<close> and \<open>rx()\<close>.\<close>

definition peer_set_tx :: "key_lane \<Rightarrow> peer_keys \<Rightarrow> peer_keys" where
  "peer_set_tx l p = p\<lparr>pk_lanes := (pk_lanes p)[tx_lane (pk_role p) := l]\<rparr>"

definition peer_set_rx :: "key_lane \<Rightarrow> peer_keys \<Rightarrow> peer_keys" where
  "peer_set_rx l p = p\<lparr>pk_lanes := (pk_lanes p)[rx_lane (pk_role p) := l]\<rparr>"

definition peer_deposit_block :: "u64 \<Rightarrow> bytes \<Rightarrow> peer_keys \<Rightarrow> key_error + peer_keys" where
  "peer_deposit_block block_seq key p =
     (let i = unat (block_seq AND 1)
      in case lane_deposit key (pk_lanes p ! i) of
           Inl e \<Rightarrow> Inl e
         | Inr l \<Rightarrow> Inr (p\<lparr>pk_lanes := (pk_lanes p)[i := l]\<rparr>))"

definition peer_wipe :: "peer_keys \<Rightarrow> peer_keys" where
  "peer_wipe p = p\<lparr>pk_lanes := map lane_wipe (pk_lanes p)\<rparr>"

section \<open>Invariant and abstraction\<close>

definition lane_keys :: "key_lane \<Rightarrow> bytes" where
  "lane_keys l = ring_view (lane_buf l) (lane_read l) (lane_count l)"

definition lane_inv :: "key_lane \<Rightarrow> bool" where
  "lane_inv l \<longleftrightarrow>
     length (lane_buf l) = LANE_CAPACITY \<and> lane_read l < LANE_CAPACITY \<and>
     lane_count l \<le> LANE_CAPACITY \<and>
     (\<forall>i. lane_count l \<le> i \<and> i < LANE_CAPACITY \<longrightarrow>
        lane_buf l ! ((lane_read l + i) mod LANE_CAPACITY) = 0)"

text \<open>The absolute offset one past the last byte: how many bytes were ever deposited.\<close>

definition lane_end :: "key_lane \<Rightarrow> nat" where
  "lane_end l = unat (lane_base l) + lane_count l"

lemma LANE_CAPACITY_pos [simp]: "0 < LANE_CAPACITY"
  by (simp add: LANE_CAPACITY_def)

lemma length_lane_keys [simp]: "length (lane_keys l) = lane_count l"
  by (simp add: lane_keys_def)

lemma lane_invD:
  assumes "lane_inv l"
  shows "length (lane_buf l) = LANE_CAPACITY" and "lane_read l < LANE_CAPACITY"
    and "lane_count l \<le> LANE_CAPACITY"
  using assms by (simp_all add: lane_inv_def)

lemma lane_inv_new: "lane_inv lane_new"
  by (simp add: lane_inv_def lane_new_def)

lemma lane_end_new [simp]: "lane_end lane_new = 0"
  by (simp add: lane_end_def lane_new_def)

lemma lane_keys_new [simp]: "lane_keys lane_new = []"
  by (simp add: lane_keys_def lane_new_def)

lemma lane_copy_out_keys:
  assumes "lane_inv l" and "skip + n \<le> lane_count l"
  shows "lane_copy_out skip n l = take n (drop skip (lane_keys l))"
  using assms lane_invD [OF assms(1)]
  by (simp add: lane_copy_out_def lane_keys_def ring_get_view ring_view_drop ring_view_take)

lemma lane_discard_fields:
  assumes "lane_inv l"
  shows "lane_read (lane_discard n l) = (lane_read l + n) mod LANE_CAPACITY"
    and "lane_count (lane_discard n l) = lane_count l - n"
    and "lane_base (lane_discard n l) = lane_base l + of_nat n"
    and "lane_buf (lane_discard n l) = fst (ring_clear 0 (lane_buf l) (lane_read l) n)"
  using assms lane_invD [OF assms] ring_clear_index [of "lane_buf l" "lane_read l" 0 n]
  by (auto simp: lane_discard_def split: prod.splits)

lemma lane_discard_keys:
  assumes "lane_inv l" and "n \<le> lane_count l"
  shows "lane_keys (lane_discard n l) = drop n (lane_keys l)"
  using assms lane_invD [OF assms(1)]
    ring_view_clear [of "lane_read l" "lane_buf l" n "lane_count l" 0]
  by (simp add: lane_keys_def lane_discard_fields)

lemma lane_discard_inv:
  assumes "lane_inv l" and "n \<le> lane_count l"
  shows "lane_inv (lane_discard n l)"
proof -
  note d = lane_invD [OF assms(1)]
  let ?b = "fst (ring_clear 0 (lane_buf l) (lane_read l) n)"
  have "?b ! (((lane_read l + n) mod LANE_CAPACITY + i) mod LANE_CAPACITY) = 0"
    if "lane_count l - n \<le> i" and "i < LANE_CAPACITY" for i
  proof -
    let ?j = "(n + i) mod LANE_CAPACITY"
    have "((lane_read l + n) mod LANE_CAPACITY + i) mod LANE_CAPACITY
        = (lane_read l + ?j) mod LANE_CAPACITY"
      by (simp add: mod_simps add.assoc)
    moreover have "?j < n \<or> lane_count l \<le> ?j"
    proof (cases "n + i < LANE_CAPACITY")
      case True
      then show ?thesis using that assms(2) by simp
    next
      case False
      then have "?j = n + i - LANE_CAPACITY"
        using that d assms(2) by (simp add: mod_if)
      then show ?thesis using that False by linarith
    qed
    ultimately show ?thesis
      using assms d ring_clear_nth [of "lane_read l" "lane_buf l" n ?j 0]
      by (auto simp: lane_inv_def)
  qed
  then show ?thesis
    using assms d by (simp add: lane_inv_def lane_discard_fields)
qed

lemma lane_discard_end:
  assumes "lane_inv l" and "n \<le> lane_count l" and "lane_end l < 2 ^ 64"
  shows "unat (lane_base (lane_discard n l)) = unat (lane_base l) + n"
    and "lane_end (lane_discard n l) = lane_end l"
proof -
  have "unat (lane_base l) + n < 2 ^ 64" using assms(2,3) by (simp add: lane_end_def)
  then show 1: "unat (lane_base (lane_discard n l)) = unat (lane_base l) + n"
    using assms(1) unat_u64_add by (simp add: lane_discard_fields)
  show "lane_end (lane_discard n l) = lane_end l"
    using 1 assms by (simp add: lane_end_def lane_discard_fields)
qed

lemma lane_append:
  assumes "lane_inv l" and "lane_count l + length key \<le> LANE_CAPACITY"
  defines "l' \<equiv> l\<lparr>lane_buf := ring_put (lane_buf l)
              ((lane_read l + lane_count l) mod LANE_CAPACITY) key,
              lane_count := lane_count l + length key\<rparr>"
  shows "lane_inv l'" and "lane_keys l' = lane_keys l @ key"
proof -
  note d = lane_invD [OF assms(1)]
  show "lane_keys l' = lane_keys l @ key"
    using assms d ring_view_put [of "lane_count l" key "lane_buf l" "lane_read l"]
    by (simp add: l'_def lane_keys_def)
  have "lane_buf l' ! ((lane_read l + i) mod LANE_CAPACITY) = 0"
    if "lane_count l + length key \<le> i" and "i < LANE_CAPACITY" for i
    using that assms d ring_put_outside [of "lane_count l" key i "lane_buf l" "lane_read l"]
    by (simp add: l'_def lane_inv_def)
  then show "lane_inv l'"
    using assms d by (simp add: lane_inv_def l'_def)
qed

section \<open>The abstract lane: a window on the key stream\<close>

type_synonym key_window = "nat \<times> bytes"

definition lane_window :: "key_lane \<Rightarrow> key_window" where
  "lane_window l = (unat (lane_base l), lane_keys l)"

fun win_deposit :: "bytes \<Rightarrow> key_window \<Rightarrow> key_error + key_window" where
  "win_deposit key (b, ks) =
     (if key = [] then Inl EmptyInput
      else if LANE_CAPACITY < length key then Inl BlockTooLarge
      else let lost = length (ks @ key) - LANE_CAPACITY
           in Inr (b + lost, drop lost (ks @ key)))"

fun win_take :: "nat \<Rightarrow> key_window \<Rightarrow> key_error + (nat \<times> bytes \<times> key_window)" where
  "win_take n (b, ks) =
     (if n = 0 then Inl EmptyInput
      else if length ks < n then Inl InsufficientKey
      else Inr (b, take n ks, (b + n, drop n ks)))"

fun win_peek :: "nat \<Rightarrow> nat \<Rightarrow> key_window \<Rightarrow> key_error + bytes" where
  "win_peek off n (b, ks) =
     (if n = 0 then Inl EmptyInput
      else if off < b then Inl AlreadyConsumed
      else if length ks < off - b + n then Inl InsufficientKey
      else Inr (take n (drop (off - b) ks)))"

fun win_consume :: "nat \<Rightarrow> nat \<Rightarrow> key_window \<Rightarrow> key_error + key_window" where
  "win_consume off n (b, ks) =
     (if off < b then Inl AlreadyConsumed
      else if length ks < off - b + n then Inl InsufficientKey
      else Inr (off + n, drop (off - b + n) ks))"

fun win_wipe :: "key_window \<Rightarrow> key_window" where
  "win_wipe (b, ks) = (b + length ks, [])"

lemma lane_deposit_Inr:
  assumes "lane_inv l" and k: "key \<noteq> []" "length key \<le> LANE_CAPACITY"
  defines "lost \<equiv> length (lane_keys l @ key) - LANE_CAPACITY"
  obtains l' where "lane_deposit key l = Inr l'" and "lane_inv l'"
    and "lane_keys l' = drop lost (lane_keys l @ key)"
    and "lane_base l' = lane_base l + of_nat lost"
proof -
  note d = lane_invD [OF assms(1)]
  have lost: "lost = lane_count l + length key - LANE_CAPACITY" "lost \<le> lane_count l"
    using k by (simp_all add: lost_def)
  define m where "m = (if 0 < lost then lane_discard lost l else l)"
  have m: "lane_inv m" "lane_keys m = drop lost (lane_keys l)"
    "lane_base m = lane_base l + of_nat lost" "lane_count m + length key \<le> LANE_CAPACITY"
    using assms(1) d lost k
    by (auto simp: m_def lane_discard_inv lane_discard_keys lane_discard_fields)
  define l' where "l' = m\<lparr>lane_buf := ring_put (lane_buf m)
      ((lane_read m + lane_count m) mod LANE_CAPACITY) key,
      lane_count := lane_count m + length key\<rparr>"
  have "lane_deposit key l = Inr l'"
    using k lost by (simp add: lane_deposit_def m_def l'_def Let_def)
  moreover have "lane_inv l'" and keys: "lane_keys l' = lane_keys m @ key"
    unfolding l'_def by (rule lane_append [OF m(1,4)])+
  moreover have "lane_keys l' = drop lost (lane_keys l @ key)"
    using keys m(2) lost(2) by simp
  moreover have "lane_base l' = lane_base l + of_nat lost"
    using m(3) by (simp add: l'_def)
  ultimately show thesis using that by blast
qed

lemma lane_deposit_InrD:
  assumes "lane_deposit key l = Inr l'"
  shows "key \<noteq> []" and "length key \<le> LANE_CAPACITY"
  using assms by (auto simp: lane_deposit_def split: if_splits)

lemma lane_deposit_inv:
  assumes "lane_inv l" and "lane_deposit key l = Inr l'"
  shows "lane_inv l'"
  using lane_deposit_Inr [OF assms(1) lane_deposit_InrD [OF assms(2)]] assms(2) by auto

lemma lane_deposit_window:
  assumes "lane_inv l" and "lane_end l < 2 ^ 64"
  shows "map_sum id lane_window (lane_deposit key l) = win_deposit key (lane_window l)"
proof (cases "key = [] \<or> LANE_CAPACITY < length key")
  case True
  then show ?thesis
    by (auto simp: lane_window_def lane_deposit_def)
next
  case False
  then have k: "key \<noteq> []" "length key \<le> LANE_CAPACITY" by auto
  let ?lost = "length (lane_keys l @ key) - LANE_CAPACITY"
  from lane_deposit_Inr [OF assms(1) k] obtain l' where l': "lane_deposit key l = Inr l'"
    "lane_keys l' = drop ?lost (lane_keys l @ key)" "lane_base l' = lane_base l + of_nat ?lost"
    by blast
  have "?lost \<le> lane_count l" using k by simp
  then have "unat (lane_base l) + ?lost < 2 ^ 64"
    using assms(2) unfolding lane_end_def by linarith
  then have "unat (lane_base l + of_nat ?lost) = unat (lane_base l) + ?lost"
    by (rule unat_u64_add)
  then have "lane_window l' = (unat (lane_base l) + ?lost, drop ?lost (lane_keys l @ key))"
    by (simp only: lane_window_def l')
  then show ?thesis
    unfolding l'(1) lane_window_def [of l] win_deposit.simps using k by (simp only: Let_def) simp
qed

lemma lane_take_window:
  assumes "lane_inv l" and "lane_end l < 2 ^ 64"
  shows "map_sum id (\<lambda>(off, ks, l'). (unat off, ks, lane_window l')) (lane_take n l)
       = win_take n (lane_window l)"
  using assms lane_discard_end(1) [OF assms(1) _ assms(2), of n]
  by (simp add: lane_take_def lane_window_def lane_copy_out_keys lane_discard_keys)

text \<open>The checked range test shared by \<open>peek_at\<close> and \<open>consume_through\<close>.\<close>

lemma checked_range:
  fixes off b :: u64
  assumes "b \<le> off" and "n < 2 ^ 64" and "c < 2 ^ 64"
  shows "(case checked_add (off - b) (of_nat n) of None \<Rightarrow> A
          | Some e \<Rightarrow> if of_nat c < e then A else F e)
       = (if c < unat off - unat b + n then A else F (off - b + of_nat n))"
    and "\<not> c < unat off - unat b + n \<Longrightarrow>
      unat (off - b + of_nat n) = unat off - unat b + n"
proof -
  have s: "unat (off - b) = unat off - unat b" using assms(1) by (rule unat_sub_le)
  have n: "unat (of_nat n :: u64) = n" and c: "unat (of_nat c :: u64) = c"
    using assms by simp_all
  show sum: "unat (off - b + of_nat n) = unat off - unat b + n"
    if "\<not> c < unat off - unat b + n"
    using that s assms(3) unat_u64_add [of "off - b" n] by linarith
  show "(case checked_add (off - b) (of_nat n) of None \<Rightarrow> A
          | Some e \<Rightarrow> if of_nat c < e then A else F e)
       = (if c < unat off - unat b + n then A else F (off - b + of_nat n))"
  proof (cases "unat off - unat b + n < 2 ^ 64")
    case True
    then show ?thesis
      using s n c unat_u64_add [of "off - b" n]
      by (simp add: checked_add_def word_less_nat_alt)
  next
    case False
    then show ?thesis using s n assms(3) by (simp add: checked_add_def)
  qed
qed

lemma lane_count_u64: "lane_inv l \<Longrightarrow> lane_count l < 2 ^ 64"
  using lane_invD(3) [of l] by (simp add: LANE_CAPACITY_def)

lemma lane_peek_at_window:
  assumes "lane_inv l" and "n < 2 ^ 64"
  shows "lane_peek_at off n l = win_peek (unat off) n (lane_window l)"
proof (cases "lane_base l \<le> off")
  case True
  note r = checked_range [OF True assms(2) lane_count_u64 [OF assms(1)]]
  have le: "unat (lane_base l) \<le> unat off" using True by (simp add: word_le_nat_alt)
  show ?thesis
    using True le assms
    by (simp add: lane_peek_at_def lane_window_def checked_sub_def lane_copy_out_keys
        unat_sub_le r(1) del: diff_add_assoc2)
next
  case False
  then show ?thesis
    by (auto simp: lane_peek_at_def lane_window_def checked_sub_def word_le_nat_alt)
qed

lemma lane_consume_through_Inr:
  assumes "lane_inv l" and "n < 2 ^ 64" and "lane_consume_through off n l = Inr l'"
  shows "l' = lane_discard (unat off - unat (lane_base l) + n) l"
    and "unat off - unat (lane_base l) + n \<le> lane_count l" and "unat (lane_base l) \<le> unat off"
proof -
  have b: "lane_base l \<le> off"
    using assms(3) by (auto simp: lane_consume_through_def checked_sub_def split: if_splits)
  note r = checked_range [OF b assms(2) lane_count_u64 [OF assms(1)]]
  show "l' = lane_discard (unat off - unat (lane_base l) + n) l"
    and "unat off - unat (lane_base l) + n \<le> lane_count l"
    using assms(3) b r(2)
    by (auto simp: lane_consume_through_def checked_sub_def r(1) split: if_splits)
  show "unat (lane_base l) \<le> unat off" using b by (simp add: word_le_nat_alt)
qed

lemma lane_consume_through_window:
  assumes "lane_inv l" and "lane_end l < 2 ^ 64" and "n < 2 ^ 64"
  shows "map_sum id lane_window (lane_consume_through off n l)
       = win_consume (unat off) n (lane_window l)"
proof (cases "lane_base l \<le> off")
  case True
  let ?e = "unat off - unat (lane_base l) + n"
  have le: "unat (lane_base l) \<le> unat off" using True by (simp add: word_le_nat_alt)
  note r = checked_range [OF True assms(3) lane_count_u64 [OF assms(1)]]
  have "lane_window (lane_discard ?e l) = (unat off + n, drop ?e (lane_keys l))"
    if "?e \<le> lane_count l"
    using that le lane_discard_end(1) [OF assms(1) that assms(2)]
    by (simp add: lane_window_def lane_discard_keys assms(1))
  then show ?thesis
    using True le r(2)
    by (auto simp: lane_consume_through_def checked_sub_def lane_window_def r(1)
        simp del: diff_add_assoc2)
next
  case False
  then show ?thesis
    by (auto simp: lane_consume_through_def lane_window_def checked_sub_def word_le_nat_alt)
qed

lemma lane_take_Inr:
  assumes "lane_take n l = Inr (off, ks, l')"
  shows "0 < n" and "n \<le> lane_count l" and "off = lane_base l" and "ks = lane_copy_out 0 n l"
    and "l' = lane_discard n l"
  using assms by (auto simp: lane_take_def split: if_splits)

lemma lane_wipe_inv: "lane_inv l \<Longrightarrow> lane_inv (lane_wipe l)"
  by (auto simp: lane_inv_def lane_wipe_def)

lemma lane_wipe_window:
  assumes "lane_inv l" and "lane_end l < 2 ^ 64"
  shows "lane_window (lane_wipe l) = win_wipe (lane_window l)"
    and "lane_end (lane_wipe l) = lane_end l"
  using assms unat_u64_add [of "lane_base l" "lane_count l"]
  by (simp_all add: lane_wipe_def lane_window_def lane_keys_def lane_end_def)

section \<open>The interface of a key stream\<close>

text \<open>
  What the record layer relies on: taking, peeking and consuming refine the operations on
  the window.  \<open>win_agree\<close> says that two windows hold the same byte wherever both have one,
  which is what the two ends of a quantum link promise.
\<close>

definition win_agree :: "key_window \<Rightarrow> key_window \<Rightarrow> bool" where
  "win_agree v w \<longleftrightarrow>
     (\<forall>i. fst v \<le> i \<longrightarrow> fst w \<le> i \<longrightarrow> i < fst v + length (snd v) \<longrightarrow> i < fst w + length (snd w) \<longrightarrow>
        snd v ! (i - fst v) = snd w ! (i - fst w))"

lemma win_agree_sym: "win_agree v w \<Longrightarrow> win_agree w v"
  by (auto simp: win_agree_def)

lemma win_agree_drop:
  assumes "win_agree v (c, ls)"
  shows "win_agree v (c + n, drop n ls)"
proof -
  have "drop n ls ! (i - (c + n)) = ls ! (i - c)"
    if "c + n \<le> i" "i < c + n + length (drop n ls)" for i
    using that by (cases "n \<le> length ls") (simp_all add: algebra_simps)
  then show ?thesis
    using assms by (auto simp: win_agree_def)
qed

lemma win_agree_slices:
  assumes "win_agree (b, ks) (c, ls)" and "b \<le> o1" and "c \<le> o1"
    and "o1 + n \<le> b + length ks" and "o1 + n \<le> c + length ls"
  shows "take n (drop (o1 - b) ks) = take n (drop (o1 - c) ls)"
proof (rule nth_equalityI)
  show "length (take n (drop (o1 - b) ks)) = length (take n (drop (o1 - c) ls))"
    using assms by auto
next
  fix i
  assume "i < length (take n (drop (o1 - b) ks))"
  then have i: "i < n" by simp
  have "ks ! (o1 + i - b) = ls ! (o1 + i - c)"
    using assms i by (auto simp: win_agree_def)
  then show "take n (drop (o1 - b) ks) ! i = take n (drop (o1 - c) ls) ! i"
    using assms i by simp
qed

locale key_stream =
  fixes inv :: "'l \<Rightarrow> bool"
    and win :: "'l \<Rightarrow> key_window"
    and take_k :: "nat \<Rightarrow> 'l \<Rightarrow> key_error + (u64 \<times> bytes \<times> 'l)"
    and peek_k :: "u64 \<Rightarrow> nat \<Rightarrow> 'l \<Rightarrow> key_error + bytes"
    and consume_k :: "u64 \<Rightarrow> nat \<Rightarrow> 'l \<Rightarrow> key_error + 'l"
  assumes take_win:
      "inv l \<Longrightarrow> map_sum id (\<lambda>(off, ks, l'). (unat off, ks, win l')) (take_k n l) = win_take n (win l)"
    and take_inv: "inv l \<Longrightarrow> take_k n l = Inr (off, ks, l') \<Longrightarrow> inv l'"
    and peek_win: "inv l \<Longrightarrow> n < 2 ^ 64 \<Longrightarrow> peek_k off n l = win_peek (unat off) n (win l)"
    and consume_win:
      "inv l \<Longrightarrow> n < 2 ^ 64 \<Longrightarrow> map_sum id win (consume_k off n l) = win_consume (unat off) n (win l)"
    and consume_inv: "inv l \<Longrightarrow> n < 2 ^ 64 \<Longrightarrow> consume_k off n l = Inr l' \<Longrightarrow> inv l'"
begin

lemma take_Inr:
  assumes "inv l" and "take_k n l = Inr (off, ks, l')"
  shows "0 < n" and "n \<le> length (snd (win l))" and "unat off = fst (win l)"
    and "ks = take n (snd (win l))" and "win l' = (fst (win l) + n, drop n (snd (win l)))"
    and "length ks = n"
  using take_win [OF assms(1), of n] assms(2)
  by (auto simp: prod_eq_iff split: if_splits dest: sym [of _ "win_take n (win l)"])
    (cases "win l"; auto split: if_splits)+

lemma take_ok:
  assumes "inv l" and "0 < n" and "n \<le> length (snd (win l))"
  obtains off ks l' where "take_k n l = Inr (off, ks, l')"
proof (cases "take_k n l")
  case (Inl e)
  then show thesis using take_win [OF assms(1), of n] assms(2,3) by (cases "win l") simp
next
  case (Inr r)
  then show thesis using that by (cases r) auto
qed

lemma peek_Inr:
  assumes "inv l" and "n < 2 ^ 64" and "peek_k off n l = Inr ks"
  shows "0 < n" and "fst (win l) \<le> unat off"
    and "unat off + n \<le> fst (win l) + length (snd (win l))"
    and "ks = take n (drop (unat off - fst (win l)) (snd (win l)))" and "length ks = n"
  using peek_win [OF assms(1,2), of off] assms(3)
  by (cases "win l"; auto split: if_splits)+

text \<open>What one end takes is what the other end reads at that offset.\<close>

lemma take_peek_agree:
  assumes "inv l" and "inv r" and "win_agree (win l) (win r)" and "n < 2 ^ 64"
    and "take_k n l = Inr (off, ks, l')"
    and "fst (win r) \<le> fst (win l)"
    and "fst (win l) + n \<le> fst (win r) + length (snd (win r))"
  shows "peek_k off n r = Inr ks"
proof -
  obtain b kk where l: "win l = (b, kk)" by (cases "win l")
  obtain c ll where r: "win r = (c, ll)" by (cases "win r")
  note t = take_Inr [OF assms(1,5)]
  have "take n (drop (b - b) kk) = take n (drop (b - c) ll)"
    using assms t l r by (intro win_agree_slices) auto
  then show ?thesis
    using peek_win [OF assms(2,4), of off] assms t l r by simp
qed

lemma consume_after_peek:
  assumes "inv l" and "n < 2 ^ 64" and "peek_k off n l = Inr ks"
  obtains l' where "consume_k off n l = Inr l'" and "inv l'"
    and "win l' = (unat off + n, drop (unat off - fst (win l) + n) (snd (win l)))"
proof -
  note p = peek_Inr [OF assms]
  obtain b kk where w: "win l = (b, kk)" by (cases "win l")
  have c: "map_sum id win (consume_k off n l) = Inr (unat off + n, drop (unat off - b + n) kk)"
    using consume_win [OF assms(1,2), of off] p w by (auto simp del: diff_add_assoc2)
  then obtain l' where l': "consume_k off n l = Inr l'"
    by (cases "consume_k off n l") auto
  then show thesis
    using that consume_inv [OF assms(1,2) l'] c w by simp
qed

text \<open>A consumed offset can never be read again.\<close>

lemma consumed_gone:
  assumes "inv l" and "n < 2 ^ 64" and "consume_k off n l = Inr l'"
    and "unat off' < unat off + n" and "0 < m" and "m < 2 ^ 64"
  shows "peek_k off' m l' = Inl AlreadyConsumed"
proof -
  obtain b kk where w: "win l = (b, kk)" by (cases "win l")
  have "fst (win l') = unat off + n"
    using consume_win [OF assms(1,2), of off] assms(3) w by (auto split: if_splits)
  then show ?thesis
    using peek_win [OF consume_inv [OF assms(1-3)] assms(6), of off'] assms(4,5)
    by (cases "win l'") simp
qed

lemma taken_gone:
  assumes "inv l" and "take_k n l = Inr (off, ks, l')"
    and "unat off' < unat off + n" and "0 < m" and "m < 2 ^ 64"
  shows "peek_k off' m l' = Inl AlreadyConsumed"
  using peek_win [OF take_inv [OF assms(1,2)] assms(5), of off'] assms take_Inr [OF assms(1,2)]
  by simp

lemma take_take_adjacent:
  assumes "inv l" and "take_k n l = Inr (o1, k1, l')" and "take_k m l' = Inr (o2, k2, l'')"
  shows "unat o2 = unat o1 + length k1"
  using take_Inr [OF assms(1,2)] take_Inr [OF take_inv [OF assms(1,2)] assms(3)] by simp

lemma take_agree:
  assumes "inv l" and "win_agree (win l) w" and "take_k n l = Inr (off, ks, l')"
  shows "win_agree (win l') w"
  using take_Inr(5) [OF assms(1,3)] assms(2)
    win_agree_sym [OF win_agree_drop [OF win_agree_sym], of "fst (win l)" "snd (win l)" w n]
  by simp

end

definition lane_ok :: "key_lane \<Rightarrow> bool" where
  "lane_ok l \<longleftrightarrow> lane_inv l \<and> lane_end l < 2 ^ 64"

lemma lane_take_ok: "lane_ok l \<Longrightarrow> lane_take n l = Inr (off, ks, l') \<Longrightarrow> lane_ok l'"
  using lane_take_Inr [of n l off ks l'] lane_discard_inv lane_discard_end(2)
  by (simp add: lane_ok_def)

lemma lane_consume_through_ok:
  "lane_ok l \<Longrightarrow> n < 2 ^ 64 \<Longrightarrow> lane_consume_through off n l = Inr l' \<Longrightarrow> lane_ok l'"
  using lane_consume_through_Inr [of l n off l'] lane_discard_inv lane_discard_end(2)
  by (simp add: lane_ok_def)

interpretation kl: key_stream lane_ok lane_window lane_take lane_peek_at lane_consume_through
proof unfold_locales
  fix l off ks l' and n :: nat
  show "lane_ok l \<Longrightarrow> map_sum id (\<lambda>(off, ks, l'). (unat off, ks, lane_window l')) (lane_take n l)
      = win_take n (lane_window l)"
    by (simp add: lane_ok_def lane_take_window)
  show "lane_ok l \<Longrightarrow> lane_take n l = Inr (off, ks, l') \<Longrightarrow> lane_ok l'"
    by (rule lane_take_ok)
  show "lane_ok l \<Longrightarrow> n < 2 ^ 64 \<Longrightarrow> lane_peek_at off n l = win_peek (unat off) n (lane_window l)"
    by (simp add: lane_ok_def lane_peek_at_window)
  show "lane_ok l \<Longrightarrow> n < 2 ^ 64 \<Longrightarrow> map_sum id lane_window (lane_consume_through off n l)
      = win_consume (unat off) n (lane_window l)"
    by (simp add: lane_ok_def lane_consume_through_window)
  show "lane_ok l \<Longrightarrow> n < 2 ^ 64 \<Longrightarrow> lane_consume_through off n l = Inr l' \<Longrightarrow> lane_ok l'"
    by (rule lane_consume_through_ok)
qed

section \<open>Whole runs of a lane\<close>

text \<open>A sequence of calls on one lane; a call that returns an error leaves the lane as it was.\<close>

datatype lane_op = LDeposit bytes | LTake nat | LConsume u64 u64 | LWipe

fun lane_exec :: "lane_op \<Rightarrow> key_lane \<Rightarrow> key_lane" where
  "lane_exec (LDeposit key) l = (case lane_deposit key l of Inl _ \<Rightarrow> l | Inr l' \<Rightarrow> l')"
| "lane_exec (LTake n) l = (case lane_take n l of Inl _ \<Rightarrow> l | Inr (_, _, l') \<Rightarrow> l')"
| "lane_exec (LConsume off n) l =
     (case lane_consume_through off (unat n) l of Inl _ \<Rightarrow> l | Inr l' \<Rightarrow> l')"
| "lane_exec LWipe l = lane_wipe l"

fun lane_run :: "lane_op list \<Rightarrow> key_lane \<Rightarrow> key_lane" where
  "lane_run [] l = l"
| "lane_run (op # ops) l = lane_run ops (lane_exec op l)"

text \<open>The bytes a run deposits, and the offsets and bytes its takes hand out.\<close>

fun lane_deposited :: "lane_op \<Rightarrow> bytes" where
  "lane_deposited (LDeposit key) = (if length key \<le> LANE_CAPACITY then key else [])"
| "lane_deposited _ = []"

definition lane_stream :: "lane_op list \<Rightarrow> bytes" where
  "lane_stream ops = concat (map lane_deposited ops)"

fun lane_takes :: "lane_op list \<Rightarrow> key_lane \<Rightarrow> (nat \<times> bytes) list" where
  "lane_takes [] l = []"
| "lane_takes (op # ops) l =
     (case op of
        LTake n \<Rightarrow> (case lane_take n l of
                      Inl _ \<Rightarrow> lane_takes ops l
                    | Inr (off, ks, l') \<Rightarrow> (unat off, ks) # lane_takes ops l')
      | _ \<Rightarrow> lane_takes ops (lane_exec op l))"

definition lane_tracks :: "bytes \<Rightarrow> key_lane \<Rightarrow> bool" where
  "lane_tracks s l \<longleftrightarrow>
     lane_inv l \<and> unat (lane_base l) \<le> length s \<and> lane_keys l = drop (unat (lane_base l)) s"

lemma lane_tracks_end: "lane_tracks s l \<Longrightarrow> lane_end l = length s"
  using length_lane_keys [of l]
  by (auto simp: lane_tracks_def lane_end_def simp del: length_lane_keys)

lemma lane_tracks_ok: "lane_tracks s l \<Longrightarrow> length s < 2 ^ 64 \<Longrightarrow> lane_ok l"
  using lane_tracks_end [of s l] by (simp add: lane_tracks_def lane_ok_def)

lemma lane_tracks_new: "lane_tracks [] lane_new"
  by (simp add: lane_tracks_def lane_inv_new) (simp add: lane_new_def)

lemma lane_tracks_discard:
  assumes "lane_tracks s l" and "length s < 2 ^ 64" and "n \<le> lane_count l"
  shows "lane_tracks s (lane_discard n l)"
proof -
  have i: "lane_inv l" and e: "lane_end l < 2 ^ 64"
    using lane_tracks_ok [OF assms(1,2)] by (simp_all add: lane_ok_def)
  have "unat (lane_base l) + n \<le> length s"
    using assms(3) lane_tracks_end [OF assms(1)] by (simp add: lane_end_def)
  then show ?thesis
    using assms i lane_discard_inv [OF i assms(3)] lane_discard_keys [OF i assms(3)]
      lane_discard_end(1) [OF i assms(3) e]
    by (simp add: lane_tracks_def add.commute)
qed

lemma lane_tracks_deposit:
  assumes "lane_tracks s l" and "length (s @ key) < 2 ^ 64" and "lane_deposit key l = Inr l'"
  shows "lane_tracks (s @ key) l'"
proof -
  have i: "lane_inv l" and e: "lane_end l < 2 ^ 64"
    using lane_tracks_ok [OF assms(1)] assms(2) by (simp_all add: lane_ok_def)
  note k = lane_deposit_InrD [OF assms(3)]
  let ?lost = "length (lane_keys l @ key) - LANE_CAPACITY"
  have w: "lane_window l' = (unat (lane_base l) + ?lost, drop ?lost (lane_keys l @ key))"
    using lane_deposit_window [OF i e, of key] assms(3) k
    by (simp add: lane_window_def Let_def)
  have b: "unat (lane_base l) + lane_count l = length s"
    using lane_tracks_end [OF assms(1)] by (simp add: lane_end_def)
  have lost: "?lost \<le> lane_count l" using k by simp
  have "unat (lane_base l) \<le> length s" "lane_keys l = drop (unat (lane_base l)) s"
    using assms(1) by (simp_all add: lane_tracks_def)
  then have "lane_keys l @ key = drop (unat (lane_base l)) (s @ key)" by simp
  then have "drop ?lost (lane_keys l @ key) = drop (unat (lane_base l) + ?lost) (s @ key)"
    by (simp only: drop_drop add.commute)
  moreover have "length s \<le> length (s @ key)" by simp
  then have "unat (lane_base l) + ?lost \<le> length (s @ key)" using b lost by linarith
  ultimately show ?thesis
    using w lane_deposit_inv [OF i assms(3)] by (simp add: lane_tracks_def lane_window_def)
qed

lemma lane_tracks_exec:
  assumes "lane_tracks s l" and "length (s @ lane_deposited op) < 2 ^ 64"
  shows "lane_tracks (s @ lane_deposited op) (lane_exec op l)"
proof (cases op)
  case (LDeposit key)
  show ?thesis
  proof (cases "lane_deposit key l")
    case (Inl e)
    then have "lane_deposited op = []"
      using LDeposit lane_deposit_Inr [of l key] assms(1)
      by (cases "key = []") (auto simp: lane_tracks_def)
    then show ?thesis using LDeposit Inl assms(1) by simp
  next
    case (Inr l')
    then have "lane_deposited op = key" using LDeposit lane_deposit_InrD [OF Inr] by simp
    then show ?thesis using LDeposit Inr assms lane_tracks_deposit [OF assms(1) _ Inr] by simp
  qed
next
  case (LTake n)
  then show ?thesis
    using assms lane_take_Inr [of n l] lane_tracks_discard [of s l n]
    by (auto split: sum.splits)
next
  case (LConsume off n)
  then show ?thesis
    using assms lane_consume_through_Inr [of l "unat n" off] unsigned_less [of n]
      lane_tracks_discard [of s l]
    by (auto simp: lane_tracks_def split: sum.splits)
next
  case LWipe
  then show ?thesis
    using assms lane_tracks_ok [OF assms(1)] lane_tracks_end [OF assms(1)]
      lane_wipe_window [of l] lane_wipe_inv [of l]
    by (simp add: lane_tracks_def lane_ok_def lane_window_def lane_end_def)
qed

lemma lane_tracks_run:
  "lane_tracks s l \<Longrightarrow> length (s @ lane_stream ops) < 2 ^ 64 \<Longrightarrow>
   lane_tracks (s @ lane_stream ops) (lane_run ops l)"
proof (induction ops arbitrary: s l)
  case Nil
  then show ?case by (simp add: lane_stream_def)
next
  case (Cons op ops)
  then have "lane_tracks (s @ lane_deposited op) (lane_exec op l)"
    by (intro lane_tracks_exec) (simp_all add: lane_stream_def)
  then show ?case
    using Cons.IH [of "s @ lane_deposited op" "lane_exec op l"] Cons.prems
    by (simp add: lane_stream_def)
qed

lemma lane_run_ok:
  "length (lane_stream ops) < 2 ^ 64 \<Longrightarrow> lane_tracks (lane_stream ops) (lane_run ops lane_new)"
  using lane_tracks_run [OF lane_tracks_new, of ops] by simp

text \<open>The base never moves back, so what one take hands out no later take can.\<close>

lemma lane_exec_base:
  assumes "lane_ok l"
  shows "unat (lane_base l) \<le> unat (lane_base (lane_exec op l))"
proof (cases op)
  case (LDeposit key)
  show ?thesis
  proof (cases "lane_deposit key l")
    case (Inr l')
    then show ?thesis
      using LDeposit assms lane_deposit_window [of l key] lane_deposit_InrD [OF Inr]
      by (simp add: lane_ok_def lane_window_def Let_def)
  qed (simp add: LDeposit)
next
  case (LTake n)
  then show ?thesis
    using assms lane_take_Inr [of n l] lane_discard_end(1) [of l n]
    by (auto simp: lane_ok_def split: sum.splits)
next
  case (LConsume off n)
  show ?thesis
  proof (cases "lane_consume_through off (unat n) l")
    case (Inr l')
    have n: "unat n < 2 ^ 64" using unsigned_less [of n] by simp
    show ?thesis
      using LConsume Inr assms n lane_consume_through_Inr [OF _ n Inr]
        lane_discard_end(1) [of l "unat off - unat (lane_base l) + unat n"]
      by (simp add: lane_ok_def del: diff_add_assoc2)
  qed (simp add: LConsume)
next
  case LWipe
  then show ?thesis
    using assms lane_wipe_window(1) [of l] by (simp add: lane_ok_def lane_window_def)
qed

lemma lane_takes_step:
  "lane_takes (op # ops) l = lane_takes ops (lane_exec op l) \<or>
   (\<exists>n off ks. op = LTake n \<and> lane_take n l = Inr (off, ks, lane_exec op l) \<and>
      lane_takes (op # ops) l = (unat off, ks) # lane_takes ops (lane_exec op l))"
  by (cases op) (auto split: sum.splits)

lemma lane_takes_from:
  assumes "lane_tracks s l" and "length (s @ lane_stream ops) < 2 ^ 64"
  shows "(\<forall>(off, ks) \<in> set (lane_takes ops l).
      unat (lane_base l) \<le> off \<and> ks = take (length ks) (drop off (s @ lane_stream ops))) \<and>
    sorted_wrt (\<lambda>(o1, k1) (o2, k2). o1 + length k1 \<le> o2) (lane_takes ops l)"
  using assms
proof (induction ops arbitrary: s l)
  case Nil
  then show ?case by simp
next
  case (Cons op ops)
  let ?l = "lane_exec op l" and ?s = "s @ lane_deposited op"
  let ?S = "s @ lane_stream (op # ops)"
  have S: "?s @ lane_stream ops = ?S" by (simp add: lane_stream_def)
  have ok: "lane_ok l" using Cons.prems by (intro lane_tracks_ok) (auto simp: lane_stream_def)
  have tr: "lane_tracks ?s ?l" using Cons.prems
    by (intro lane_tracks_exec) (auto simp: lane_stream_def)
  have len: "length (?s @ lane_stream ops) < 2 ^ 64" using Cons.prems(2) by (simp only: S)
  have IH: "\<forall>(off, ks) \<in> set (lane_takes ops ?l).
      unat (lane_base ?l) \<le> off \<and> ks = take (length ks) (drop off ?S)"
    "sorted_wrt (\<lambda>(o1, k1) (o2, k2). o1 + length k1 \<le> o2) (lane_takes ops ?l)"
    using Cons.IH [OF tr len, unfolded S] by blast+
  have base: "unat (lane_base l) \<le> unat (lane_base ?l)" by (rule lane_exec_base [OF ok])
  from lane_takes_step [of op ops l] show ?case
  proof
    assume "lane_takes (op # ops) l = lane_takes ops ?l"
    then show ?thesis using IH base by auto
  next
    assume "\<exists>n off ks. op = LTake n \<and> lane_take n l = Inr (off, ks, ?l) \<and>
      lane_takes (op # ops) l = (unat off, ks) # lane_takes ops ?l"
    then obtain n off ks where t: "lane_take n l = Inr (off, ks, ?l)"
      and eq: "lane_takes (op # ops) l = (unat off, ks) # lane_takes ops ?l" by blast
    note k = kl.take_Inr [OF ok t]
    have off: "unat off = unat (lane_base l)" "unat off + length ks = unat (lane_base ?l)"
      using k by (simp_all add: lane_window_def)
    have content: "ks = take (length ks) (drop (unat off) ?S)"
    proof -
      have "unat off + n \<le> length s"
        using k lane_tracks_end [OF Cons.prems(1)] by (simp add: lane_window_def lane_end_def)
      moreover have "ks = take n (drop (unat off) s)"
        using k Cons.prems(1) by (simp add: lane_tracks_def lane_window_def)
      ultimately show ?thesis
        using k(6) take_drop_append [of "unat off" n s] by metis
    qed
    show ?thesis
      unfolding eq list.set ball_simps sorted_wrt.simps
      using IH base off content by auto
  qed
qed

section \<open>Properties of the key store\<close>

text \<open>
  C12. Refinement: on a lane that satisfies the invariant, \<open>deposit\<close>, \<open>take\<close>, \<open>peek_at\<close>,
  \<open>consume_through\<close> and \<open>wipe\<close> compute on the ring buffer exactly what the window
  specification says, error results included.
\<close>

theorem lane_refines_window:
  assumes "lane_inv l" and "lane_end l < 2 ^ 64" and "n < 2 ^ 64"
  shows "map_sum id lane_window (lane_deposit key l) = win_deposit key (lane_window l) \<and>
    map_sum id (\<lambda>(off, ks, l'). (unat off, ks, lane_window l')) (lane_take n l)
      = win_take n (lane_window l) \<and>
    lane_peek_at off n l = win_peek (unat off) n (lane_window l) \<and>
    map_sum id lane_window (lane_consume_through off n l)
      = win_consume (unat off) n (lane_window l) \<and>
    lane_window (lane_wipe l) = win_wipe (lane_window l)"
  using assms lane_deposit_window lane_take_window lane_peek_at_window
    lane_consume_through_window lane_wipe_window(1) by blast

theorem lane_refines_window_witness:
  "map_sum id lane_window (lane_deposit [7, 8] lane_new) = win_deposit [7, 8] (lane_window lane_new)"
  using lane_refines_window [of lane_new 1 "[7, 8]" 0] lane_inv_new by simp

text \<open>
  Every byte has one absolute offset: after any sequence of deposits, takes,
  consumptions and wipes from an empty lane, the lane satisfies its invariant (all bytes
  outside the window are zero), its end is the number of bytes deposited, and the bytes it
  holds are the deposited stream from its base offset on, however much was taken, skipped
  or pushed out by the sliding window.
\<close>

theorem lane_run_stream:
  assumes "length (lane_stream ops) < 2 ^ 64"
  defines "l \<equiv> lane_run ops lane_new"
  shows "lane_inv l \<and> lane_end l = length (lane_stream ops) \<and>
    lane_keys l = drop (unat (lane_base l)) (lane_stream ops)"
  using lane_run_ok [OF assms(1)] lane_tracks_end
  by (simp add: l_def lane_tracks_def)

theorem lane_run_stream_witness:
  "lane_keys (lane_run [LDeposit [1, 2, 3], LTake 2, LDeposit [4]] lane_new)
     = drop (unat (lane_base (lane_run [LDeposit [1, 2, 3], LTake 2, LDeposit [4]] lane_new)))
         [1, 2, 3, 4]"
  using lane_run_stream [of "[LDeposit [1, 2, 3], LTake 2, LDeposit [4]]"]
  by (simp add: lane_stream_def LANE_CAPACITY_def)

text \<open>
  C13. No key byte is handed out twice: in any run from an empty lane, the intervals
  of absolute offsets handed out by the successful \<open>take\<close> calls are disjoint and increasing,
  and each hands out exactly the bytes of the deposited stream at its offsets.
\<close>

theorem lane_takes_never_reuse:
  assumes "length (lane_stream ops) < 2 ^ 64"
  shows "sorted_wrt (\<lambda>(o1, k1) (o2, k2). o1 + length k1 \<le> o2) (lane_takes ops lane_new) \<and>
    (\<forall>(off, ks) \<in> set (lane_takes ops lane_new).
       ks = take (length ks) (drop off (lane_stream ops)))"
  using lane_takes_from [OF lane_tracks_new, of ops] assms by auto

theorem lane_takes_never_reuse_witness:
  "sorted_wrt (\<lambda>(o1, k1) (o2, k2). o1 + length k1 \<le> o2)
     (lane_takes [LDeposit [1, 2, 3], LTake 2, LTake 1] lane_new)"
  using lane_takes_never_reuse [of "[LDeposit [1, 2, 3], LTake 2, LTake 1]"]
  by (simp add: lane_stream_def LANE_CAPACITY_def)

text \<open>
  The two ends stay in step: if one end's deposits are a prefix of the other's (both
  are fed the same key stream, possibly one further than the other), then whatever each end
  took, skipped, wiped or lost to the sliding window, a successful \<open>peek_at\<close> at one end reads
  exactly the bytes a \<open>take\<close> at the other end handed out at that offset.
\<close>

theorem lane_ends_agree:
  assumes "length (lane_stream ops_b) < 2 ^ 64" and "length (lane_stream ops_a) < 2 ^ 64"
    and "lane_stream ops_a @ rest = lane_stream ops_b \<or> lane_stream ops_b @ rest = lane_stream ops_a"
    and "lane_take n (lane_run ops_a lane_new) = Inr (off, ks, l')"
    and "lane_peek_at off n (lane_run ops_b lane_new) = Inr ks'"
  shows "ks' = ks"
proof -
  let ?a = "lane_run ops_a lane_new" and ?b = "lane_run ops_b lane_new"
  have a: "lane_tracks (lane_stream ops_a) ?a" and b: "lane_tracks (lane_stream ops_b) ?b"
    using assms(1,2) by (simp_all add: lane_run_ok)
  have ok: "lane_ok ?a" "lane_ok ?b" using a b assms(1,2) by (auto intro: lane_tracks_ok)
  note t = kl.take_Inr [OF ok(1) assms(4)]
  have n: "n < 2 ^ 64"
    using t(2) lane_count_u64 [of ?a] a by (simp add: lane_window_def lane_tracks_def)
  note p = kl.peek_Inr [OF ok(2) n assms(5)]
  have ka: "ks = take n (drop (unat off) (lane_stream ops_a))"
    using t a by (simp add: lane_window_def lane_tracks_def)
  have kb: "ks' = take n (drop (unat off) (lane_stream ops_b))"
    using p b by (simp add: lane_window_def lane_tracks_def)
  have len: "unat off + n \<le> length (lane_stream ops_a)" "unat off + n \<le> length (lane_stream ops_b)"
    using t p lane_tracks_end [OF a] lane_tracks_end [OF b]
    by (simp_all add: lane_window_def lane_end_def)
  from assms(3) show ?thesis
  proof
    assume "lane_stream ops_a @ rest = lane_stream ops_b"
    then show ?thesis using ka kb take_drop_append [OF len(1), of rest] by simp
  next
    assume "lane_stream ops_b @ rest = lane_stream ops_a"
    then show ?thesis using ka kb take_drop_append [OF len(2), of rest] by simp
  qed
qed

theorem lane_ends_agree_witness:
  "\<exists>l'. lane_take 2 (lane_run [LDeposit [1, 2, 3]] lane_new) = Inr (0, [1, 2], l') \<and>
    lane_peek_at 0 2 (lane_run [LDeposit [1, 2, 3], LDeposit [4]] lane_new) = Inr [1, 2]"
proof -
  let ?a = "[LDeposit [1, 2, 3]]" and ?b = "[LDeposit [1, 2, 3], LDeposit [4]]"
  have sa: "lane_stream ?a = [1, 2, 3]" and sb: "lane_stream ?b = [1, 2, 3, 4]"
    by (simp_all add: lane_stream_def LANE_CAPACITY_def)
  have ta: "lane_tracks [1, 2, 3] (lane_run ?a lane_new)"
    and tb: "lane_tracks [1, 2, 3, 4] (lane_run ?b lane_new)"
    using lane_run_ok [of ?a] lane_run_ok [of ?b] sa sb by simp_all
  have ok: "lane_ok (lane_run ?a lane_new)" "lane_ok (lane_run ?b lane_new)"
    using lane_tracks_ok [OF ta] lane_tracks_ok [OF tb] by simp_all
  have base: "lane_base (lane_run ?a lane_new) = 0" "lane_base (lane_run ?b lane_new) = 0"
    by (simp_all add: lane_deposit_def lane_new_def LANE_CAPACITY_def)
  have w: "lane_window (lane_run ?a lane_new) = (0, [1, 2, 3])"
    "lane_window (lane_run ?b lane_new) = (0, [1, 2, 3, 4])"
    using ta tb base by (simp_all add: lane_window_def lane_tracks_def)
  from kl.take_ok [OF ok(1), of 2] w obtain off ks l'
    where t: "lane_take 2 (lane_run ?a lane_new) = Inr (off, ks, l')" by auto
  have "unat off = 0" "ks = [1, 2]"
    using kl.take_Inr [OF ok(1) t] w by (simp_all add: numeral_2_eq_2)
  then have o: "off = 0" "ks = [1, 2]" by (simp_all add: unsigned_eq_0_iff)
  have pk: "lane_peek_at 0 2 (lane_run ?b lane_new) = Inr [1, 2]"
    using kl.peek_win [OF ok(2), of 2 0] w by simp
  have "[1, 2] = ks"
    by (rule lane_ends_agree [of ?b ?a "[4]" 2 off ks l']) (use sa sb t pk o in auto)
  then show ?thesis using t pk o by auto
qed

end
