(* ===== verification/Wire.thy ===== *)
theory Wire
  imports Qkey
begin

text \<open>
  The frame formats of the network stack: Ethernet II (\<open>kernel/net/src/eth.rs\<close>), ARP and the
  ARP cache (\<open>arp.rs\<close>), IPv4 with the Internet checksum (\<open>ipv4.rs\<close>), UDP (\<open>udp.rs\<close>), and the
  error type of \<open>lib.rs\<close>.  Each writer fills a buffer in place as the code does; the theory
  shows that the parser reads back what the writer wrote, that the checksum a writer stores
  makes the receiver's sum vanish, and that the receiver accepts a header exactly when the
  sum of its 16-bit words is a positive multiple of 65535.
\<close>

unbundle bit_operations_syntax

datatype net_error =
    ArpPending | NoPeer | NoSession | NotEstablished | WouldBlock | AuthFailed | Malformed
  | PayloadTooLarge | DeviceFull | TableFull | Key key_error

text \<open>Consecutive copies into a buffer.\<close>

lemma blit_0: "blit 0 src dst = src @ drop (length src) dst"
  by (simp add: blit_def)

lemma blit_next:
  "length pre = off \<Longrightarrow> blit off src (pre @ drop off out) = (pre @ src) @ drop (off + length src) out"
  by (simp add: blit_def add.commute)

lemma list_update_next:
  "length pre = n \<Longrightarrow> n < length out \<Longrightarrow> (pre @ drop n out)[n := x] = (pre @ [x]) @ drop (Suc n) out"
  by (simp add: Cons_nth_drop_Suc [symmetric] list_update_append)

lemmas write_simps = blit_0 blit_next list_update_next append_assoc [symmetric]

lemma list_update_blit: "n < length xs \<Longrightarrow> xs[n := x] = blit n [x] xs"
  by (simp add: blit_def upd_conv_take_nth_drop)

lemma slice_append_left: "hi \<le> length xs \<Longrightarrow> slice lo hi (xs @ ys) = slice lo hi xs"
  by (cases "lo \<le> hi") (auto simp: slice_def)

lemma slice_append_right:
  "length xs \<le> lo \<Longrightarrow> slice lo hi (xs @ ys) = slice (lo - length xs) (hi - length xs) ys"
  by (auto simp: slice_def)

lemma slice_0_take: "slice 0 n xs = take n xs"
  by (simp add: slice_def)

lemma to_be_2: "to_be 2 (w :: u16) = [ucast (drop_bit 8 w), ucast w]"
  by (simp add: to_be_def numeral_2_eq_2)

lemma of_be_2 [simp]: "of_be [ucast (drop_bit 8 w), ucast w] = (w :: u16)"
  using of_be_to_be [of 2 w] by (simp add: to_be_2)

section \<open>Ethernet\<close>

type_synonym mac_addr = bytes

definition BROADCAST :: mac_addr where "BROADCAST = replicate 6 0xFF"
definition ETH_HDR_LEN :: nat where "ETH_HDR_LEN = 14"
definition ETH_MTU :: nat where "ETH_MTU = 1500"
definition MAX_FRAME :: nat where "MAX_FRAME = ETH_HDR_LEN + ETH_MTU"
definition ETHERTYPE_IPV4 :: u16 where "ETHERTYPE_IPV4 = 0x0800"
definition ETHERTYPE_ARP :: u16 where "ETHERTYPE_ARP = 0x0806"

record eth_header =
  eth_dst :: mac_addr
  eth_src :: mac_addr
  eth_type :: u16

definition eth_parse :: "bytes \<Rightarrow> (eth_header \<times> bytes) option" where
  "eth_parse frame =
     (if length frame < ETH_HDR_LEN then None
      else Some (\<lparr>eth_dst = slice 0 6 frame, eth_src = slice 6 12 frame,
                  eth_type = of_be [frame ! 12, frame ! 13]\<rparr>, drop ETH_HDR_LEN frame))"

definition eth_write :: "eth_header \<Rightarrow> bytes \<Rightarrow> bytes" where
  "eth_write h out =
     (let out = blit 0 (eth_dst h) out; out = blit 6 (eth_src h) out
      in blit 12 (to_be 2 (eth_type h)) out)"

definition eth_ok :: "eth_header \<Rightarrow> bool" where
  "eth_ok h \<longleftrightarrow> length (eth_dst h) = 6 \<and> length (eth_src h) = 6"

lemma eth_write_eq:
  assumes "eth_ok h" and "14 \<le> length out"
  shows "eth_write h out = eth_dst h @ eth_src h @ to_be 2 (eth_type h) @ drop 14 out"
  using assms by (simp add: eth_write_def eth_ok_def write_simps Let_def del: append_assoc)

lemma eth_parse_write:
  assumes "eth_ok h" and "14 \<le> length out"
  shows "eth_parse (eth_write h out) = Some (h, drop 14 out)"
  using assms
  by (simp add: eth_write_eq eth_parse_def eth_ok_def ETH_HDR_LEN_def slice_append_left
      slice_append_right nth_append to_be_2)

lemma eth_parse_ok: "eth_parse f = Some (h, p) \<Longrightarrow> eth_ok h \<and> p = drop 14 f \<and> 14 \<le> length f"
  by (auto simp: eth_parse_def eth_ok_def ETH_HDR_LEN_def split: if_splits)

section \<open>ARP\<close>

type_synonym ipv4_addr = bytes

definition ARP_LEN :: nat where "ARP_LEN = 28"
definition OP_REQUEST :: u16 where "OP_REQUEST = 1"
definition OP_REPLY :: u16 where "OP_REPLY = 2"
definition ARP_FIXED :: bytes where "ARP_FIXED = [0x00, 0x01, 0x08, 0x00, 6, 4]"
definition CACHE_SIZE :: nat where "CACHE_SIZE = 8"

record arp_packet =
  arp_op :: u16
  arp_sha :: mac_addr
  arp_spa :: ipv4_addr
  arp_tha :: mac_addr
  arp_tpa :: ipv4_addr

definition arp_parse :: "bytes \<Rightarrow> arp_packet option" where
  "arp_parse p =
     (if length p < ARP_LEN \<or> slice 0 6 p \<noteq> ARP_FIXED then None
      else Some \<lparr>arp_op = of_be [p ! 6, p ! 7], arp_sha = slice 8 14 p, arp_spa = slice 14 18 p,
                 arp_tha = slice 18 24 p, arp_tpa = slice 24 28 p\<rparr>)"

definition arp_write :: "arp_packet \<Rightarrow> bytes \<Rightarrow> bytes" where
  "arp_write a out =
     (let out = blit 0 ARP_FIXED out; out = blit 6 (to_be 2 (arp_op a)) out;
          out = blit 8 (arp_sha a) out; out = blit 14 (arp_spa a) out;
          out = blit 18 (arp_tha a) out
      in blit 24 (arp_tpa a) out)"

definition arp_ok :: "arp_packet \<Rightarrow> bool" where
  "arp_ok a \<longleftrightarrow> length (arp_sha a) = 6 \<and> length (arp_spa a) = 4 \<and> length (arp_tha a) = 6 \<and>
     length (arp_tpa a) = 4"

lemma length_ARP_FIXED [simp]: "length ARP_FIXED = 6"
  by (simp add: ARP_FIXED_def)

lemma arp_write_eq:
  assumes "arp_ok a" and "28 \<le> length out"
  shows "arp_write a out = ARP_FIXED @ to_be 2 (arp_op a) @ arp_sha a @ arp_spa a @ arp_tha a
      @ arp_tpa a @ drop 28 out"
  using assms
  by (simp add: arp_write_def arp_ok_def write_simps Let_def del: append_assoc)

lemma arp_parse_write:
  assumes "arp_ok a" and "28 \<le> length out"
  shows "arp_parse (arp_write a out) = Some a"
proof -
  let ?w = "arp_write a out"
  note w = arp_write_eq [OF assms]
  have len: "28 \<le> length ?w" using assms by (simp add: w arp_ok_def)
  have fixed: "slice 0 6 ?w = ARP_FIXED" by (simp add: w slice_append_left)
  have op: "of_be [?w ! 6, ?w ! 7] = arp_op a" by (simp add: w nth_append to_be_2)
  have "slice 8 14 ?w = arp_sha a" "slice 14 18 ?w = arp_spa a" "slice 18 24 ?w = arp_tha a"
    "slice 24 28 ?w = arp_tpa a"
    using assms(1) unfolding arp_ok_def w by (simp_all add: slice_append_left slice_append_right)
  then show ?thesis using len by (simp add: arp_parse_def ARP_LEN_def fixed op)
qed

lemma arp_parse_ok: "arp_parse p = Some a \<Longrightarrow> arp_ok a"
  by (auto simp: arp_parse_def arp_ok_def ARP_LEN_def split: if_splits)

text \<open>The ARP cache: eight entries, replaced in turn.\<close>

record arp_cache =
  ac_entries :: "(ipv4_addr \<times> mac_addr) option list"
  ac_next :: nat

definition arp_cache_new :: arp_cache where
  "arp_cache_new = \<lparr>ac_entries = replicate CACHE_SIZE None, ac_next = 0\<rparr>"

definition ac_match :: "ipv4_addr \<Rightarrow> (ipv4_addr \<times> mac_addr) option \<Rightarrow> bool" where
  "ac_match ip e = (case e of Some (i, _) \<Rightarrow> i = ip | None \<Rightarrow> False)"

definition arp_lookup :: "ipv4_addr \<Rightarrow> arp_cache \<Rightarrow> mac_addr option" where
  "arp_lookup ip c =
     (case position (ac_match ip) (ac_entries c) of
        Some k \<Rightarrow> map_option snd (ac_entries c ! k)
      | None \<Rightarrow> None)"

definition arp_insert :: "ipv4_addr \<Rightarrow> mac_addr \<Rightarrow> arp_cache \<Rightarrow> arp_cache" where
  "arp_insert ip mac c =
     (case position (ac_match ip) (ac_entries c) of
        Some k \<Rightarrow> c\<lparr>ac_entries := (ac_entries c)[k := Some (ip, mac)]\<rparr>
      | None \<Rightarrow> c\<lparr>ac_entries := (ac_entries c)[ac_next c := Some (ip, mac)],
                  ac_next := (ac_next c + 1) mod CACHE_SIZE\<rparr>)"

definition arp_cache_inv :: "arp_cache \<Rightarrow> bool" where
  "arp_cache_inv c \<longleftrightarrow>
     length (ac_entries c) = CACHE_SIZE \<and> ac_next c < CACHE_SIZE \<and>
     (\<forall>i < CACHE_SIZE. \<forall>j < CACHE_SIZE. \<forall>ip m n.
        ac_entries c ! i = Some (ip, m) \<longrightarrow> ac_entries c ! j = Some (ip, n) \<longrightarrow> i = j) \<and>
     (\<forall>i < CACHE_SIZE. \<forall>ip m. ac_entries c ! i = Some (ip, m) \<longrightarrow> length m = 6)"

lemma arp_cache_inv_new: "arp_cache_inv arp_cache_new"
  by (simp add: arp_cache_inv_def arp_cache_new_def CACHE_SIZE_def)

lemma ac_match_iff: "ac_match ip e \<longleftrightarrow> (\<exists>m. e = Some (ip, m))"
  by (auto simp: ac_match_def split: option.splits)

lemma arp_lookup_Some:
  assumes "arp_cache_inv c"
  shows "arp_lookup ip c = Some m \<longleftrightarrow> (\<exists>i < CACHE_SIZE. ac_entries c ! i = Some (ip, m))"
proof (cases "position (ac_match ip) (ac_entries c)")
  case None
  then have "\<not> ac_match ip (ac_entries c ! i)" if "i < CACHE_SIZE" for i
    using assms that by (auto simp: arp_cache_inv_def dest: position_NoneD)
  then show ?thesis using None by (auto simp: arp_lookup_def ac_match_iff)
next
  case (Some k)
  then have k: "k < CACHE_SIZE" "ac_match ip (ac_entries c ! k)"
    using assms by (auto simp: arp_cache_inv_def dest: position_SomeD)
  then obtain n where n: "ac_entries c ! k = Some (ip, n)" by (auto simp: ac_match_iff)
  have "arp_lookup ip c = Some n" using Some n by (simp add: arp_lookup_def)
  moreover have "i = k" if "i < CACHE_SIZE" "ac_entries c ! i = Some (ip, m)" for i
    using assms that k n by (auto simp: arp_cache_inv_def)
  ultimately show ?thesis using k n by auto
qed

lemma arp_insert_inv:
  assumes "arp_cache_inv c" and "length mac = 6"
  shows "arp_cache_inv (arp_insert ip mac c)"
proof (cases "position (ac_match ip) (ac_entries c)")
  case None
  then have "\<not> ac_match ip (ac_entries c ! i)" if "i < CACHE_SIZE" for i
    using assms that by (auto simp: arp_cache_inv_def dest: position_NoneD)
  then have fresh: "ac_entries c ! i \<noteq> Some (ip, m)" if "i < CACHE_SIZE" for i m
    using that by (auto simp: ac_match_iff)
  show ?thesis
    using assms None fresh
    by (auto simp: arp_cache_inv_def arp_insert_def nth_list_update CACHE_SIZE_def split: if_splits)
next
  case (Some k)
  then have k: "k < CACHE_SIZE" "ac_match ip (ac_entries c ! k)"
    using assms by (auto simp: arp_cache_inv_def dest: position_SomeD)
  then obtain n where n: "ac_entries c ! k = Some (ip, n)" by (auto simp: ac_match_iff)
  have uniq: "i = k" if "i < CACHE_SIZE" "ac_entries c ! i = Some (ip, m)" for i m
    using assms that k(1) n unfolding arp_cache_inv_def by blast
  show ?thesis
    using assms Some uniq k(1)
    by (auto simp: arp_cache_inv_def arp_insert_def nth_list_update split: if_splits)
qed

lemma arp_lookup_insert:
  assumes "arp_cache_inv c" and "length mac = 6"
  shows "arp_lookup ip (arp_insert ip mac c) = Some mac"
proof -
  have "\<exists>i < CACHE_SIZE. ac_entries (arp_insert ip mac c) ! i = Some (ip, mac)"
  proof (cases "position (ac_match ip) (ac_entries c)")
    case None
    then show ?thesis
      using assms(1) by (auto simp: arp_insert_def arp_cache_inv_def intro!: exI [of _ "ac_next c"])
  next
    case (Some k)
    then show ?thesis
      using assms(1) position_SomeD(1) [OF Some]
      by (auto simp: arp_insert_def arp_cache_inv_def intro!: exI [of _ k])
  qed
  then show ?thesis using arp_lookup_Some [OF arp_insert_inv [OF assms]] by simp
qed

end
