(* ===== verification/Inet.thy ===== *)
theory Inet
  imports Wire
begin

text \<open>
  IPv4 (\<open>kernel/net/src/ipv4.rs\<close>) and UDP (\<open>udp.rs\<close>) with the Internet checksum.  The sums of
  the code are 32-bit words that do not wrap for any frame that fits in memory of a NIC; a
  sum is accepted exactly when the sum of the 16-bit words is a positive multiple of 65535,
  and what \<open>write\<close> and \<open>finish\<close> store makes it one.
\<close>

unbundle bit_operations_syntax

section \<open>The Internet checksum\<close>

fun checksum_add :: "u32 \<Rightarrow> bytes \<Rightarrow> u32" where
  "checksum_add s (a # b # rest) = checksum_add (s + ucast (of_be [a, b] :: u16)) rest"
| "checksum_add s [b] = s + push_bit 8 (ucast b)"
| "checksum_add s [] = s"

lemma unat_low16: "unat (w AND 0xFFFF :: u32) = unat w mod 2 ^ 16"
proof -
  have "(0xFFFF :: u32) = mask 16" by (simp add: mask_eq_exp_minus_1)
  then have "w AND 0xFFFF = take_bit 16 w" by (simp only: take_bit_eq_mask)
  then have "unat (w AND 0xFFFF) = take_bit 16 (unat w)" by (simp only: unsigned_take_bit_eq)
  then show ?thesis by (simp only: take_bit_eq_mod)
qed

lemma checksum_fold:
  fixes s :: u32
  assumes "drop_bit 16 s \<noteq> 0"
  shows "unat ((s AND 0xFFFF) + drop_bit 16 s) = unat s mod 2 ^ 16 + unat s div 2 ^ 16"
    and "unat s mod 2 ^ 16 + unat s div 2 ^ 16 < unat s"
    and "(unat s mod 2 ^ 16 + unat s div 2 ^ 16) mod 65535 = unat s mod 65535"
    and "0 < unat s mod 2 ^ 16 + unat s div 2 ^ 16"
proof -
  have lt: "unat s < 2 ^ 32" using unsigned_less [of s] by simp
  have q: "unat s div 2 ^ 16 < 2 ^ 16" using lt by (simp add: div_less_iff_less_mult)
  have m: "unat s mod 2 ^ 16 < 2 ^ 16" by simp
  show "unat ((s AND 0xFFFF) + drop_bit 16 s) = unat s mod 2 ^ 16 + unat s div 2 ^ 16"
    using q m by (subst unat_add_fits) (simp_all only: unat_low16 unat_shr; simp)+
  have pos: "0 < unat s div 2 ^ 16"
    using assms by (metis gr0I unat_shr unsigned_eq_0_iff)
  have s: "unat s = 65535 * (unat s div 2 ^ 16) + (unat s mod 2 ^ 16 + unat s div 2 ^ 16)"
    using mod_mult_div_eq [of "unat s" "2 ^ 16"] by simp
  show "unat s mod 2 ^ 16 + unat s div 2 ^ 16 < unat s" using s pos by linarith
  show "(unat s mod 2 ^ 16 + unat s div 2 ^ 16) mod 65535 = unat s mod 65535"
    by (subst (3) s) (simp only: mod_mult_self4)
  show "0 < unat s mod 2 ^ 16 + unat s div 2 ^ 16" using pos by simp
qed

function checksum_finish :: "u32 \<Rightarrow> u16" where
  "checksum_finish s =
     (if drop_bit 16 s \<noteq> 0 then checksum_finish ((s AND 0xFFFF) + drop_bit 16 s)
      else NOT (ucast s))"
  by pat_completeness auto

termination
proof (relation "measure unat")
  show "((s AND 0xFFFF) + drop_bit 16 s, s) \<in> measure unat" if "drop_bit 16 s \<noteq> 0" for s :: u32
    unfolding in_measure checksum_fold(1) [OF that] by (rule checksum_fold(2) [OF that])
qed simp

declare checksum_finish.simps [simp del]

text \<open>The checksum is the complement of the sum modulo 65535, with 65535 standing for zero.\<close>

lemma checksum_finish_val:
  "unat (checksum_finish s) =
     (if unat s = 0 then 65535 else if unat s mod 65535 = 0 then 0 else 65535 - unat s mod 65535)"
proof (induction s rule: checksum_finish.induct)
  case (1 s)
  show ?case
  proof (cases "drop_bit 16 s = 0")
    case False
    let ?f = "unat s mod 2 ^ 16 + unat s div 2 ^ 16"
    have "?f \<noteq> 0" "unat s \<noteq> 0" using checksum_fold(2,4) [OF False] by simp_all
    moreover have "checksum_finish s = checksum_finish ((s AND 0xFFFF) + drop_bit 16 s)"
      using False by (subst checksum_finish.simps) simp
    ultimately show ?thesis
      using 1 [OF False] by (simp only: checksum_fold(1,3) [OF False] if_False)
  next
    case True
    then have "unat s div 2 ^ 16 = 0" by (metis unat_shr unsigned_0)
    then have lt: "unat s < 65536" by simp
    have u: "unat (ucast s :: u16) = unat s"
      using lt by (simp add: unsigned_ucast_eq take_bit_nat_eq_self)
    have "NOT (ucast s :: u16) = - 1 - ucast s" by (simp add: not_eq_complement)
    moreover have "unat (- 1 - ucast s :: u16) = unat (- 1 :: u16) - unat (ucast s :: u16)"
      by (rule unat_sub_le) simp
    ultimately have "unat (NOT (ucast s :: u16)) = 65535 - unat s" by (simp add: u unsigned_minus_1_eq_mask mask_eq_exp_minus_1)
    then have c: "unat (checksum_finish s) = 65535 - unat s"
      using True by (simp add: checksum_finish.simps)
    consider "unat s < 65535" | "unat s = 65535" using lt by linarith
    then show ?thesis by cases (simp_all add: c)
  qed
qed

lemma checksum_finish_zero:
  "checksum_finish s = 0 \<longleftrightarrow> 0 < unat s \<and> unat s mod 65535 = 0"
proof -
  have "checksum_finish s = 0 \<longleftrightarrow> unat (checksum_finish s) = 0" by (simp add: unsigned_eq_0_iff)
  then show ?thesis
    unfolding checksum_finish_val using mod_less_divisor [of 65535 "unat s"] by (auto split: if_splits)
qed

text \<open>The sum of the big-endian 16-bit words of a byte string, an odd byte padded with zero.\<close>

fun word_sum :: "bytes \<Rightarrow> nat" where
  "word_sum (a # b # rest) = 256 * unat a + unat b + word_sum rest"
| "word_sum [b] = 256 * unat b"
| "word_sum [] = 0"

lemma unat_u8_less: "unat (b :: u8) < 256"
  using unsigned_less [of b] by simp

lemma unat_of_be_2: "unat (of_be [a, b] :: u16) = 256 * unat a + unat b"
  using unat_of_le [of "[b, a]", where ?'a = 16] by (simp add: of_be_def)

lemma unat_ucast_u16: "unat (ucast (w :: u16) :: u32) = unat w"
  by (rule unat_ucast_fits, rule less_le_trans [OF unsigned_less]) simp

lemma word_sum_bound: "word_sum bs \<le> 65535 * length bs"
proof (induction bs rule: word_sum.induct)
  case (1 a b rest)
  then show ?case using unat_u8_less [of a] unat_u8_less [of b] by simp
next
  case (2 b)
  then show ?case using unat_u8_less [of b] by simp
qed simp

lemma word_sum_half: "2 * word_sum bs \<le> 65535 * (length bs + 1)"
proof (induction bs rule: word_sum.induct)
  case (1 a b rest)
  then show ?case using unat_u8_less [of a] unat_u8_less [of b] by simp
next
  case (2 b)
  then show ?case using unat_u8_less [of b] by simp
qed simp

lemma word_sum_append: "even (length xs) \<Longrightarrow> word_sum (xs @ ys) = word_sum xs + word_sum ys"
  by (induction xs rule: word_sum.induct) auto

lemma checksum_add_val:
  "unat s + word_sum bs < 2 ^ 32 \<Longrightarrow> unat (checksum_add s bs) = unat s + word_sum bs"
proof (induction s bs rule: checksum_add.induct)
  case (1 s a b rest)
  have s: "unat (s + ucast (of_be [a, b] :: u16)) = unat s + (256 * unat a + unat b)"
    using 1(2) by (subst unat_add_fits) (simp_all only: unat_ucast_u16 unat_of_be_2; simp)+
  show ?case using 1 by (simp add: s del: of_be_2)
next
  case (2 s b)
  have u: "unat (ucast b :: u32) = unat b"
    using unat_u8_less [of b] by (simp add: unsigned_ucast_eq take_bit_nat_eq_self)
  have p: "unat (push_bit 8 (ucast b) :: u32) = 256 * unat b"
    using unat_u8_less [of b] by (simp add: push_bit_eq_mult unat_word_ariths u)
  show ?case using 2 by (simp add: p)
qed simp

lemma checksum_finish_accepts:
  assumes "unat s + word_sum bs < 2 ^ 32"
  shows "checksum_finish (checksum_add s bs) = 0
    \<longleftrightarrow> 0 < unat s + word_sum bs \<and> (unat s + word_sum bs) mod 65535 = 0"
  by (simp add: checksum_finish_zero checksum_add_val [OF assms])

text \<open>Adding the checksum of a positive sum gives a positive multiple of 65535.\<close>

lemma checksum_closes:
  assumes "0 < unat s"
  shows "(unat s + unat (checksum_finish s)) mod 65535 = 0"
proof -
  have "unat s mod 65535 < 65535" by simp
  then show ?thesis
    using assms by (simp add: checksum_finish_val mod_add_left_eq [of "unat s", symmetric])
qed

section \<open>IPv4\<close>

definition IPV4_HDR_LEN :: nat where "IPV4_HDR_LEN = 20"
definition PROTO_UDP :: u8 where "PROTO_UDP = 17"
definition DEFAULT_TTL :: u8 where "DEFAULT_TTL = 64"
definition FLAG_DF :: u16 where "FLAG_DF = 0x4000"

record ipv4_header =
  ip_src :: ipv4_addr
  ip_dst :: ipv4_addr
  ip_protocol :: u8
  ip_ttl :: u8
  ip_id :: u16

definition ipv4_parse :: "bytes \<Rightarrow> (ipv4_header \<times> bytes) option" where
  "ipv4_parse p =
     (if length p < IPV4_HDR_LEN \<or> drop_bit 4 (p ! 0) \<noteq> 4 then None
      else
        let ihl = unat (p ! 0 AND 0x0F) * 4; total = unat (of_be [p ! 2, p ! 3] :: u16)
        in if ihl < IPV4_HDR_LEN \<or> total < ihl \<or> length p < total then None
           else if checksum_finish (checksum_add 0 (take ihl p)) \<noteq> 0 then None
           else if (of_be [p ! 6, p ! 7] :: u16) AND 0x3FFF \<noteq> 0 then None
           else Some (\<lparr>ip_src = slice 12 16 p, ip_dst = slice 16 20 p, ip_protocol = p ! 9,
                      ip_ttl = p ! 8, ip_id = of_be [p ! 4, p ! 5]\<rparr>, slice ihl total p))"

definition ipv4_write ::
  "ipv4_addr \<Rightarrow> ipv4_addr \<Rightarrow> u8 \<Rightarrow> u16 \<Rightarrow> nat \<Rightarrow> bytes \<Rightarrow> bytes" where
  "ipv4_write src dst protocol ident payload_len out =
     (let total = of_nat (IPV4_HDR_LEN + payload_len) :: u16;
          out = out[0 := 0x45]; out = out[1 := 0];
          out = blit 2 (to_be 2 total) out; out = blit 4 (to_be 2 ident) out;
          out = blit 6 (to_be 2 FLAG_DF) out;
          out = out[8 := DEFAULT_TTL]; out = out[9 := protocol];
          out = blit 10 [0, 0] out; out = blit 12 src out; out = blit 16 dst out;
          c = checksum_finish (checksum_add 0 (take IPV4_HDR_LEN out))
      in blit 10 (to_be 2 c) out)"

definition ipv4_front :: "u8 \<Rightarrow> u16 \<Rightarrow> nat \<Rightarrow> bytes" where
  "ipv4_front protocol ident payload_len =
     [0x45, 0] @ to_be 2 (of_nat (20 + payload_len) :: u16) @ to_be 2 ident @ to_be 2 FLAG_DF
       @ [DEFAULT_TTL, protocol]"

definition ipv4_checksum :: "ipv4_addr \<Rightarrow> ipv4_addr \<Rightarrow> u8 \<Rightarrow> u16 \<Rightarrow> nat \<Rightarrow> u16" where
  "ipv4_checksum src dst protocol ident payload_len =
     checksum_finish (checksum_add 0 (ipv4_front protocol ident payload_len @ [0, 0] @ src @ dst))"

lemma length_ipv4_front [simp]: "length (ipv4_front protocol ident payload_len) = 10"
  by (simp add: ipv4_front_def)

lemma blit_mid:
  "length pre = off \<Longrightarrow> length mid = length src \<Longrightarrow> blit off src (pre @ mid @ rest) = pre @ src @ rest"
  by (simp add: blit_def)

lemma list_update_first: "0 < length out \<Longrightarrow> out[0 := x] = [x] @ drop 1 out"
  by (cases out) auto

lemma ipv4_write_eq:
  assumes "length src = 4" "length dst = 4" "20 \<le> length out"
  shows "ipv4_write src dst protocol ident payload_len out =
    ipv4_front protocol ident payload_len @ to_be 2 (ipv4_checksum src dst protocol ident payload_len)
      @ src @ dst @ drop 20 out"
proof -
  let ?t = "to_be 2 (of_nat (20 + payload_len) :: u16)"
  have l: "0 < length out" "1 < length out" "8 < length out" "9 < length out"
    using assms(3) by linarith+
  define o1 where "o1 = blit 16 dst (blit 12 src (blit 10 [0, 0]
    ((blit 6 (to_be 2 FLAG_DF) (blit 4 (to_be 2 ident) (blit 2 ?t (out[0 := 0x45, 1 := 0]))))
      [8 := DEFAULT_TTL, 9 := protocol])))"
  have o1: "o1 = ipv4_front protocol ident payload_len @ [0, 0] @ (src @ dst @ drop 20 out)"
  proof -
    define pre where "pre = [0x45, 0 :: u8]"
    have "out[0 := 0x45, 1 := 0] = pre @ drop 2 out"
      using assms(3) by (cases out; cases "tl out") (auto simp: pre_def)
    moreover have "length pre = 2" by (simp add: pre_def)
    ultimately have "o1 = ((((((((pre @ ?t) @ to_be 2 ident) @ to_be 2 FLAG_DF) @ [DEFAULT_TTL])
        @ [protocol]) @ [0, 0]) @ src) @ dst) @ drop 20 out"
      unfolding o1_def using assms l
      by (simp add: blit_next list_update_next del: append_assoc of_nat_add)
    then show ?thesis by (simp add: ipv4_front_def pre_def)
  qed
  have "take 20 o1 = ipv4_front protocol ident payload_len @ [0, 0] @ src @ dst"
    using assms by (simp add: o1)
  then have "ipv4_write src dst protocol ident payload_len out
      = blit 10 (to_be 2 (ipv4_checksum src dst protocol ident payload_len)) o1"
    by (simp add: ipv4_write_def Let_def IPV4_HDR_LEN_def o1_def ipv4_checksum_def)
  also have "\<dots> = ipv4_front protocol ident payload_len
      @ to_be 2 (ipv4_checksum src dst protocol ident payload_len) @ (src @ dst @ drop 20 out)"
    unfolding o1 by (rule blit_mid) simp_all
  finally show ?thesis .
qed

lemma word_sum_checksum: "word_sum (to_be 2 (c :: u16)) = unat c"
  using unat_of_be_2 [of "ucast (drop_bit 8 c)" "ucast c"] by (simp add: to_be_2)

lemma word_sum_small: "length bs \<le> 65537 \<Longrightarrow> word_sum bs < 2 ^ 32"
  using word_sum_bound [of bs] by (simp add: less_le_trans)

lemma ipv4_header_sum:
  fixes protocol :: u8 and ident :: u16 and payload_len :: nat
  assumes "length src = 4" "length dst = 4"
  defines "h \<equiv> ipv4_front protocol ident payload_len
      @ to_be 2 (ipv4_checksum src dst protocol ident payload_len) @ src @ dst"
  shows "checksum_finish (checksum_add 0 h) = 0"
proof -
  let ?f = "ipv4_front protocol ident payload_len"
  define s0 where "s0 = checksum_add 0 (?f @ [0, 0] @ src @ dst)"
  have v0: "unat s0 = word_sum ?f + word_sum (src @ dst)"
  proof -
    have "word_sum (?f @ [0, 0] @ src @ dst) < 2 ^ 32" using assms(1,2) by (intro word_sum_small) simp
    then have "unat s0 = word_sum (?f @ [0, 0] @ src @ dst)"
      unfolding s0_def by (subst checksum_add_val) simp_all
    then show ?thesis by (simp add: word_sum_append)
  qed
  have pos: "0 < word_sum ?f" by (simp add: ipv4_front_def)
  have h: "word_sum h = unat s0 + unat (checksum_finish s0)"
    unfolding v0 h_def
    by (simp add: word_sum_append word_sum_checksum ipv4_checksum_def s0_def)
  have "word_sum h < 2 ^ 32" using assms by (intro word_sum_small) simp
  then show ?thesis
    using checksum_closes [of s0] pos by (subst checksum_finish_accepts) (simp_all add: h v0)
qed

lemma frag_DF [simp]: "FLAG_DF AND 0x3FFF = 0"
  by (simp add: FLAG_DF_def)

lemma ipv4_parse_write:
  assumes "length src = 4" "length dst = 4" "20 + payload_len \<le> length out"
    and "20 + payload_len < 2 ^ 16"
  shows "ipv4_parse (ipv4_write src dst protocol ident payload_len out) =
    Some (\<lparr>ip_src = src, ip_dst = dst, ip_protocol = protocol, ip_ttl = DEFAULT_TTL, ip_id = ident\<rparr>,
          slice 20 (20 + payload_len) out)"
proof -
  let ?w = "ipv4_write src dst protocol ident payload_len out"
  let ?c = "to_be 2 (ipv4_checksum src dst protocol ident payload_len)"
  have w: "?w = ipv4_front protocol ident payload_len @ ?c @ src @ dst @ drop 20 out"
    using assms by (intro ipv4_write_eq) simp_all
  have len: "length ?w = length out" using assms by (simp add: w)
  have b0: "?w ! 0 = 0x45" "?w ! 8 = DEFAULT_TTL" "?w ! 9 = protocol"
    by (simp_all add: w ipv4_front_def nth_append to_be_2)
  have b2: "of_be [?w ! 2, ?w ! 3] = (of_nat (20 + payload_len) :: u16)"
    "of_be [?w ! 4, ?w ! 5] = ident" "of_be [?w ! 6, ?w ! 7] = FLAG_DF"
    by (simp_all add: w ipv4_front_def nth_append to_be_2 del: of_nat_add)
  have total: "unat (of_nat (20 + payload_len) :: u16) = 20 + payload_len"
    using assms(4) by (intro unat_of_nat_fits) simp
  have hdr: "take 20 ?w = ipv4_front protocol ident payload_len @ ?c @ src @ dst"
    using assms by (simp add: w)
  have cks: "checksum_finish (checksum_add 0 (take 20 ?w)) = 0"
    unfolding hdr using assms by (intro ipv4_header_sum)
  have addrs: "slice 12 16 ?w = src" "slice 16 20 ?w = dst"
    "slice 20 (20 + payload_len) ?w = slice 20 (20 + payload_len) out"
    using assms by (simp_all add: w slice_append_left slice_append_right) (simp add: slice_def)
  show ?thesis
    unfolding ipv4_parse_def b0 b2 total IPV4_HDR_LEN_def Let_def
    using assms len by (simp add: cks addrs del: of_nat_add)
qed

text \<open>A header word changed after the first, other than between 0 and 65535, is noticed.\<close>

lemma word_sum_update:
  "even i \<Longrightarrow> i + 1 < length p \<Longrightarrow>
   word_sum (p[i := a, i + 1 := b]) + 256 * unat (p ! i) + unat (p ! (i + 1))
     = word_sum p + 256 * unat a + unat b"
proof (induction p arbitrary: i rule: word_sum.induct)
  case (1 x y rest)
  show ?case
  proof (cases "i = 0")
    case False
    then obtain j where j: "i = Suc (Suc j)" using 1(2) by (cases i; cases "i - 1") auto
    then show ?thesis using 1(1) [of j] 1(2,3) by simp
  qed simp
qed auto

lemma ipv4_parse_SomeD:
  assumes "ipv4_parse p = Some r"
  defines "ihl \<equiv> unat (p ! 0 AND 0x0F) * 4"
  shows "20 \<le> ihl" and "ihl \<le> length p" and "ihl \<le> 60"
    and "0 < word_sum (take ihl p)" and "word_sum (take ihl p) mod 65535 = 0"
proof -
  have p: "20 \<le> ihl" "ihl \<le> length p" "checksum_finish (checksum_add 0 (take ihl p)) = 0"
    using assms by (auto simp: ipv4_parse_def IPV4_HDR_LEN_def Let_def split: if_splits)
  have "p ! 0 AND 0x0F \<le> 0x0F" by (rule word_and_le1)
  then have "unat (p ! 0 AND 0x0F) \<le> 15" by (simp add: word_le_nat_alt)
  then show l: "ihl \<le> 60" by (simp add: ihl_def)
  then have "word_sum (take ihl p) < 2 ^ 32" by (intro word_sum_small) simp
  with p(3) show "0 < word_sum (take ihl p)" "word_sum (take ihl p) mod 65535 = 0"
    by (subst (asm) checksum_finish_accepts; simp)+
qed (use assms in \<open>auto simp: ipv4_parse_def IPV4_HDR_LEN_def Let_def split: if_splits\<close>)

lemma mod_zero_cancel:
  fixes m :: nat
  assumes "x mod m = 0" "y mod m = 0" "x + a = y + b"
  shows "a mod m = b mod m"
proof -
  have "a mod m = (x + a) mod m" "b mod m = (y + b) mod m"
    using assms(1,2) by (simp_all add: mod_add_left_eq [symmetric])
  then show ?thesis using assms(3) by simp
qed

lemma ipv4_detects_word_change:
  assumes "ipv4_parse p = Some r" and "even i" "2 \<le> i" "i + 1 < unat (p ! 0 AND 0x0F) * 4"
    and "(256 * unat a + unat b) mod 65535 \<noteq> (256 * unat (p ! i) + unat (p ! (i + 1))) mod 65535"
  shows "ipv4_parse (p[i := a, i + 1 := b]) = None"
proof (rule ccontr)
  let ?q = "p[i := a, i + 1 := b]" and ?ihl = "unat (p ! 0 AND 0x0F) * 4"
  assume "ipv4_parse ?q \<noteq> None"
  then obtain r' where q: "ipv4_parse ?q = Some r'" by auto
  have "?q ! 0 = p ! 0" using assms(3) by simp
  then have S: "word_sum (take ?ihl ?q) mod 65535 = 0"
    using ipv4_parse_SomeD(5) [OF q] by simp
  note P = ipv4_parse_SomeD [OF assms(1)]
  have t: "take ?ihl ?q = (take ?ihl p)[i := a, i + 1 := b]"
    by (simp add: take_update_swap)
  have "word_sum (take ?ihl ?q) + (256 * unat (p ! i) + unat (p ! (i + 1)))
      = word_sum (take ?ihl p) + (256 * unat a + unat b)"
    using word_sum_update [OF assms(2), of "take ?ihl p" a b] P(2) assms(4)
    unfolding t by simp
  then have "(256 * unat (p ! i) + unat (p ! (i + 1))) mod 65535 = (256 * unat a + unat b) mod 65535"
    by (rule mod_zero_cancel [OF S P(5)])
  then show False using assms(5) by simp
qed

section \<open>UDP\<close>

definition UDP_HDR_LEN :: nat where "UDP_HDR_LEN = 8"

definition pseudo_sum :: "ipv4_addr \<Rightarrow> ipv4_addr \<Rightarrow> u16 \<Rightarrow> u32" where
  "pseudo_sum src dst len =
     (let s = checksum_add 0 src; s = checksum_add s dst in s + ucast PROTO_UDP + ucast len)"

record udp_header =
  udp_src_port :: u16
  udp_dst_port :: u16

definition udp_parse :: "ipv4_addr \<Rightarrow> ipv4_addr \<Rightarrow> bytes \<Rightarrow> (udp_header \<times> bytes) option" where
  "udp_parse src dst seg =
     (if length seg < UDP_HDR_LEN then None
      else
        let len = unat (of_be [seg ! 4, seg ! 5] :: u16)
        in if len < UDP_HDR_LEN \<or> length seg < len then None
           else
             let seg = take len seg
             in if (of_be [seg ! 6, seg ! 7] :: u16) \<noteq> 0 \<and>
                   checksum_finish (checksum_add (pseudo_sum src dst (of_nat len)) seg) \<noteq> 0
                then None
                else Some (\<lparr>udp_src_port = of_be [seg ! 0, seg ! 1],
                           udp_dst_port = of_be [seg ! 2, seg ! 3]\<rparr>, drop UDP_HDR_LEN seg))"

definition udp_finish :: "udp_header \<Rightarrow> ipv4_addr \<Rightarrow> ipv4_addr \<Rightarrow> nat \<Rightarrow> bytes \<Rightarrow> nat \<times> bytes" where
  "udp_finish h src dst payload_len out =
     (let len = of_nat (UDP_HDR_LEN + payload_len) :: u16;
          out = blit 0 (to_be 2 (udp_src_port h)) out; out = blit 2 (to_be 2 (udp_dst_port h)) out;
          out = blit 4 (to_be 2 len) out; out = blit 6 [0, 0] out;
          c = checksum_finish (checksum_add (pseudo_sum src dst len) (take (unat len) out));
          c = (if c = 0 then 0xFFFF else c)
      in (unat len, blit 6 (to_be 2 c) out))"

definition udp_front :: "udp_header \<Rightarrow> nat \<Rightarrow> bytes" where
  "udp_front h payload_len =
     to_be 2 (udp_src_port h) @ to_be 2 (udp_dst_port h) @ to_be 2 (of_nat (8 + payload_len) :: u16)"

definition udp_checksum :: "udp_header \<Rightarrow> ipv4_addr \<Rightarrow> ipv4_addr \<Rightarrow> bytes \<Rightarrow> u16" where
  "udp_checksum h src dst payload =
     (let c = checksum_finish (checksum_add (pseudo_sum src dst (of_nat (8 + length payload)))
                (udp_front h (length payload) @ [0, 0] @ payload))
      in if c = 0 then 0xFFFF else c)"

lemma length_udp_front [simp]: "length (udp_front h n) = 6"
  by (simp add: udp_front_def)

lemma udp_finish_eq:
  assumes "8 + n \<le> length out" and "8 + n < 2 ^ 16"
  shows "udp_finish h src dst n out =
    (8 + n, udp_front h n @ to_be 2 (udp_checksum h src dst (slice 8 (8 + n) out)) @ drop 8 out)"
proof -
  let ?l = "of_nat (8 + n) :: u16"
  have u: "unat ?l = 8 + n" using assms(2) by (intro unat_of_nat_fits) simp
  define o1 where "o1 = blit 6 [0, 0] (blit 4 (to_be 2 ?l) (blit 2 (to_be 2 (udp_dst_port h))
    (blit 0 (to_be 2 (udp_src_port h)) out)))"
  have o1: "o1 = udp_front h n @ [0, 0] @ drop 8 out"
  proof -
    have "o1 = ((((to_be 2 (udp_src_port h)) @ to_be 2 (udp_dst_port h)) @ to_be 2 ?l) @ [0, 0]) @ drop 8 out"
      unfolding o1_def using assms(1) by (simp add: blit_0 blit_next del: append_assoc of_nat_add)
    then show ?thesis by (simp add: udp_front_def)
  qed
  have t: "take (8 + n) o1 = udp_front h n @ [0, 0] @ slice 8 (8 + n) out"
    by (simp add: o1 slice_def)
  have l: "length (slice 8 (8 + n) out) = n" using assms(1) by simp
  have "udp_finish h src dst n out
      = (8 + n, blit 6 (to_be 2 (udp_checksum h src dst (slice 8 (8 + n) out))) o1)"
    unfolding udp_finish_def udp_checksum_def Let_def UDP_HDR_LEN_def o1_def [symmetric] u t l by simp
  also have "blit 6 (to_be 2 (udp_checksum h src dst (slice 8 (8 + n) out))) o1
      = udp_front h n @ to_be 2 (udp_checksum h src dst (slice 8 (8 + n) out)) @ drop 8 out"
    unfolding o1 by (rule blit_mid) simp_all
  finally show ?thesis .
qed

lemma pseudo_sum_val:
  assumes "length src = 4" "length dst = 4"
  shows "unat (pseudo_sum src dst len) = word_sum src + word_sum dst + 17 + unat len"
proof -
  have b: "word_sum src \<le> 65535 * 4" "word_sum dst \<le> 65535 * 4" "unat len < 65536"
    using word_sum_bound [of src] word_sum_bound [of dst] assms unsigned_less [of len] by simp_all
  have s: "unat (checksum_add (checksum_add 0 src) dst) = word_sum src + word_sum dst"
    using b by (simp add: checksum_add_val)
  have p: "unat (ucast PROTO_UDP :: u32) = 17" by (simp add: PROTO_UDP_def)
  have "unat (checksum_add (checksum_add 0 src) dst + ucast PROTO_UDP) = word_sum src + word_sum dst + 17"
    using b by (subst unat_add_fits) (simp_all add: s p)
  then show ?thesis
    unfolding pseudo_sum_def Let_def
    using b by (subst unat_add_fits) (simp_all add: unat_ucast_u16)
qed

text \<open>The two checks of the receiver: the length and the sum over pseudo header and segment.\<close>

lemma udp_sum_closes:
  assumes "length src = 4" "length dst = 4" "length pl < 65528"
  shows "checksum_finish (checksum_add (pseudo_sum src dst (of_nat (8 + length pl)))
      (udp_front h (length pl) @ to_be 2 (udp_checksum h src dst pl) @ pl)) = 0"
    and "udp_checksum h src dst pl \<noteq> 0"
proof -
  let ?f = "udp_front h (length pl)" and ?ps = "pseudo_sum src dst (of_nat (8 + length pl))"
  let ?s = "checksum_add ?ps (?f @ [0, 0] @ pl)"
  have u: "unat (of_nat (8 + length pl) :: u16) = 8 + length pl"
    using assms(3) by (intro unat_of_nat_fits) simp
  have ps: "unat ?ps \<le> 600000" "0 < unat ?ps"
    using word_sum_bound [of src] word_sum_bound [of dst] assms
    unfolding pseudo_sum_val [OF assms(1,2)] u by simp_all
  have big: "word_sum (?f @ x @ pl) \<le> 65535 * 32768" if "length x = 2" for x
    using word_sum_half [of "?f @ x @ pl"] assms(3) that by simp
  have fit: "unat ?ps + word_sum (?f @ x @ pl) < 2 ^ 32" if "length x = 2" for x
    using big [OF that] ps by simp
  have s: "unat ?s = unat ?ps + (word_sum ?f + word_sum pl)"
    using checksum_add_val [OF fit [of "[0, 0]"]] by (simp add: word_sum_append)
  have s0: "0 < unat ?s" using s ps by simp
  let ?c = "udp_checksum h src dst pl"
  have c: "?c = (if checksum_finish ?s = 0 then 0xFFFF else checksum_finish ?s)"
    by (simp add: udp_checksum_def Let_def)
  then show "?c \<noteq> 0" by simp
  have "(unat ?s + unat ?c) mod 65535 = 0"
  proof (cases "checksum_finish ?s = 0")
    case True
    then show ?thesis using checksum_closes [OF s0] by (simp add: c)
  next
    case False
    then show ?thesis using checksum_closes [OF s0] by (simp add: c)
  qed
  moreover have "word_sum (?f @ to_be 2 ?c @ pl) = word_sum ?f + unat ?c + word_sum pl"
    by (simp add: word_sum_append word_sum_checksum)
  ultimately show "checksum_finish (checksum_add ?ps (?f @ to_be 2 ?c @ pl)) = 0"
    using fit [of "to_be 2 ?c"] ps s by (subst checksum_finish_accepts) (simp_all add: ac_simps)
qed

lemma udp_parse_finish:
  assumes "length src = 4" "length dst = 4" "8 + n \<le> length out" "8 + n < 2 ^ 16"
    and k: "8 + n \<le> k"
  shows "udp_parse src dst (take k (snd (udp_finish h src dst n out))) = Some (h, slice 8 (8 + n) out)"
proof -
  define pl where "pl = slice 8 (8 + n) out"
  have n: "length pl = n" using assms(3) by (simp add: pl_def)
  let ?c = "udp_checksum h src dst pl"
  let ?w = "take k (snd (udp_finish h src dst n out))"
  have w: "?w = udp_front h n @ to_be 2 ?c @ take (k - 8) (drop 8 out)"
    using k by (simp add: udp_finish_eq [OF assms(3,4)] pl_def)
  have sm: "length pl < 65528" using n assms(4) by simp
  have u: "unat (of_nat (8 + n) :: u16) = 8 + n" using assms(4) by (intro unat_of_nat_fits) simp
  have "length (take (k - 8) (drop 8 out)) = min (length out - 8) (k - 8)" by simp
  then have len: "8 + n \<le> length ?w" using assms(3) k by (simp add: w) linarith
  have b: "of_be [?w ! 4, ?w ! 5] = (of_nat (8 + n) :: u16)"
    by (simp add: w udp_front_def nth_append to_be_2 del: of_nat_add)
  have "take (8 + n) ?w = udp_front h n @ to_be 2 ?c @ take n (take (k - 8) (drop 8 out))"
    by (simp add: w)
  also have "take n (take (k - 8) (drop 8 out)) = pl"
    using k by (simp add: pl_def slice_def min_def)
  finally have t: "take (8 + n) ?w = udp_front h n @ to_be 2 ?c @ pl" .
  have e: "of_be [(udp_front h n @ to_be 2 ?c @ pl) ! 0, (udp_front h n @ to_be 2 ?c @ pl) ! 1] = udp_src_port h"
    "of_be [(udp_front h n @ to_be 2 ?c @ pl) ! 2, (udp_front h n @ to_be 2 ?c @ pl) ! 3] = udp_dst_port h"
    "drop 8 (udp_front h n @ to_be 2 ?c @ pl) = pl"
    by (simp_all add: udp_front_def nth_append to_be_2)
  show ?thesis
    unfolding udp_parse_def Let_def b u t UDP_HDR_LEN_def e
    using len udp_sum_closes(1) [OF assms(1,2) sm, of h] by (simp add: n pl_def [symmetric] not_less del: of_nat_add length_take)
qed

end
