(* ===== verification/Qtls.thy ===== *)
theory Qtls
  imports Uhf Inet
begin

text \<open>
  The record layer (\<open>kernel/net/src/qtls.rs\<close>): one-time-pad encryption and a one-time
  Poly1305 tag, both keyed with bytes taken from a key lane.  The theory shows that \<open>open\<close>
  inverts \<open>seal\<close> when the two lanes hold the same stream, that any rejected record leaves the
  receiver's lane exactly as it was, that an accepted record can never be accepted again, that
  the records of any list of messages are perfectly secret under a uniform key stream, and that
  lost records do no harm.
\<close>

unbundle bit_operations_syntax

definition QTLS_PORT :: u16 where "QTLS_PORT = 4433"
definition QTLS_VERSION :: u8 where "QTLS_VERSION = 1"
definition RECORD_HDR_LEN :: nat where "RECORD_HDR_LEN = 14"
definition TAG_LEN :: nat where "TAG_LEN = POLY1305_TAG_LEN"
definition MAC_KEY_LEN :: nat where "MAC_KEY_LEN = POLY1305_KEY_LEN"
definition MAX_RECORD_PAYLOAD :: nat where "MAX_RECORD_PAYLOAD = 1400"
definition MAX_RECORD_LEN :: nat where
  "MAX_RECORD_LEN = RECORD_HDR_LEN + MAX_RECORD_PAYLOAD + TAG_LEN"

definition key_cost :: "nat \<Rightarrow> nat" where
  "key_cost payload_len = MAC_KEY_LEN + payload_len"

lemmas qtls_lens = RECORD_HDR_LEN_def TAG_LEN_def MAC_KEY_LEN_def POLY1305_TAG_LEN_def
  POLY1305_KEY_LEN_def MAX_RECORD_PAYLOAD_def MAX_RECORD_LEN_def key_cost_def

datatype content_type = Hello | HelloAck | Data | Close

fun ctype_byte :: "content_type \<Rightarrow> u8" where
  "ctype_byte Hello = 1"
| "ctype_byte HelloAck = 2"
| "ctype_byte Data = 3"
| "ctype_byte Close = 4"

definition ctype_from_u8 :: "u8 \<Rightarrow> content_type option" where
  "ctype_from_u8 v =
     (if v = 1 then Some Hello else if v = 2 then Some HelloAck else if v = 3 then Some Data
      else if v = 4 then Some Close else None)"

lemma ctype_from_byte [simp]: "ctype_from_u8 (ctype_byte c) = Some c"
  by (cases c) (simp_all add: ctype_from_u8_def)

record record_header =
  rh_ctype :: content_type
  rh_session_id :: u16
  rh_key_offset :: u64
  rh_length :: u16

definition header_write :: "record_header \<Rightarrow> bytes \<Rightarrow> bytes" where
  "header_write h out =
     (let out = out[0 := ctype_byte (rh_ctype h)]; out = out[1 := QTLS_VERSION];
          out = blit 2 (to_be 2 (rh_session_id h)) out;
          out = blit 4 (to_be 8 (rh_key_offset h)) out
      in blit 12 (to_be 2 (rh_length h)) out)"

definition header_parse :: "bytes \<Rightarrow> net_error + record_header" where
  "header_parse rc =
     (if length rc < RECORD_HDR_LEN + TAG_LEN \<or> rc ! 1 \<noteq> QTLS_VERSION then Inl Malformed
      else case ctype_from_u8 (rc ! 0) of
        None \<Rightarrow> Inl Malformed
      | Some ctype \<Rightarrow>
          (let len = of_be [rc ! 12, rc ! 13] :: u16
           in if MAX_RECORD_PAYLOAD < unat len \<or> length rc \<noteq> RECORD_HDR_LEN + unat len + TAG_LEN
              then Inl Malformed
              else Inr \<lparr>rh_ctype = ctype, rh_session_id = of_be [rc ! 2, rc ! 3],
                        rh_key_offset = of_be (slice 4 12 rc), rh_length = len\<rparr>))"

definition record_mac :: "bytes \<Rightarrow> bytes \<Rightarrow> bytes" where
  "record_mac key authenticated = poly1305_mac (poly1305_key_new (take MAC_KEY_LEN key)) authenticated"

text \<open>The scratch array \<open>key\<close> of the longest record, its front filled from the lane.\<close>

definition key_scratch :: "bytes \<Rightarrow> bytes" where
  "key_scratch ks = blit 0 ks (replicate (key_cost MAX_RECORD_PAYLOAD) 0)"

definition seal ::
  "key_lane \<Rightarrow> content_type \<Rightarrow> u16 \<Rightarrow> bytes \<Rightarrow> bytes \<Rightarrow> (net_error + nat) \<times> key_lane \<times> bytes" where
  "seal tx ctype session_id plaintext out =
     (let len = length plaintext
      in if MAX_RECORD_PAYLOAD < len then (Inl PayloadTooLarge, tx, out)
         else
           let total = RECORD_HDR_LEN + len + TAG_LEN
           in if length out < total then (Inl PayloadTooLarge, tx, out)
              else case lane_take (key_cost len) tx of
                Inl e \<Rightarrow> (Inl (Key e), tx, out)
              | Inr (key_offset, ks, tx') \<Rightarrow>
                  let key = key_scratch ks;
                      out = header_write \<lparr>rh_ctype = ctype, rh_session_id = session_id,
                              rh_key_offset = key_offset, rh_length = of_nat len\<rparr> out;
                      pad = slice MAC_KEY_LEN (MAC_KEY_LEN + len) key;
                      out = blit RECORD_HDR_LEN (xor_bytes plaintext pad) out;
                      tag = record_mac key (take (RECORD_HDR_LEN + len) out);
                      out = blit (RECORD_HDR_LEN + len) tag out
                  in (Inr total, tx', out))"

definition open_record ::
  "key_lane \<Rightarrow> bytes \<Rightarrow> bytes \<Rightarrow> (net_error + record_header \<times> nat) \<times> key_lane \<times> bytes" where
  "open_record rx rc out =
     (case header_parse rc of
        Inl e \<Rightarrow> (Inl e, rx, out)
      | Inr hdr \<Rightarrow>
          let len = unat (rh_length hdr)
          in if length out < len then (Inl PayloadTooLarge, rx, out)
             else case lane_peek_at (rh_key_offset hdr) (key_cost len) rx of
               Inl e \<Rightarrow> (Inl (Key e), rx, out)
             | Inr ks \<Rightarrow>
                 let key = key_scratch ks;
                     expected = record_mac key (take (RECORD_HDR_LEN + len) rc);
                     tag = drop (RECORD_HDR_LEN + len) rc
                 in if \<not> ct_eq_16 expected tag then (Inl AuthFailed, rx, out)
                    else case lane_consume_through (rh_key_offset hdr) (key_cost len) rx of
                      Inl e \<Rightarrow> (Inl (Key e), rx, out)
                    | Inr rx' \<Rightarrow>
                        let pad = slice MAC_KEY_LEN (MAC_KEY_LEN + len) key
                        in (Inr (hdr, len), rx',
                            blit 0 (xor_bytes (slice RECORD_HDR_LEN (RECORD_HDR_LEN + len) rc) pad) out))"

section \<open>The header\<close>

definition header_bytes :: "record_header \<Rightarrow> bytes" where
  "header_bytes h =
     [ctype_byte (rh_ctype h), QTLS_VERSION] @ to_be 2 (rh_session_id h) @ to_be 8 (rh_key_offset h)
       @ to_be 2 (rh_length h)"

lemma length_header_bytes [simp]: "length (header_bytes h) = 14"
  by (simp add: header_bytes_def)

lemma header_write_eq:
  assumes "14 \<le> length out"
  shows "header_write h out = header_bytes h @ drop 14 out"
proof -
  define pre where "pre = [ctype_byte (rh_ctype h), QTLS_VERSION]"
  have "out[0 := ctype_byte (rh_ctype h), 1 := QTLS_VERSION] = pre @ drop 2 out"
    using assms by (cases out; cases "tl out") (auto simp: pre_def)
  moreover have "length pre = 2" by (simp add: pre_def)
  ultimately have "header_write h out = (((pre @ to_be 2 (rh_session_id h)) @ to_be 8 (rh_key_offset h))
      @ to_be 2 (rh_length h)) @ drop 14 out"
    unfolding header_write_def Let_def by (simp add: blit_next del: append_assoc)
  then show ?thesis by (simp add: header_bytes_def pre_def)
qed

lemma header_parse_bytes:
  assumes "unat (rh_length h) \<le> MAX_RECORD_PAYLOAD"
    and "length rest = unat (rh_length h) + TAG_LEN"
  shows "header_parse (header_bytes h @ rest) = Inr h"
proof -
  let ?w = "header_bytes h @ rest"
  have "?w ! 0 = ctype_byte (rh_ctype h)" "?w ! 1 = QTLS_VERSION"
    "of_be [?w ! 2, ?w ! 3] = rh_session_id h" "of_be [?w ! 12, ?w ! 13] = rh_length h"
    by (simp_all add: header_bytes_def nth_append to_be_2)
  moreover have "slice 4 12 ?w = to_be 8 (rh_key_offset h)"
    by (simp add: header_bytes_def slice_append_left slice_append_right slice_def)
  ultimately show ?thesis
    using assms by (simp add: header_parse_def Let_def RECORD_HDR_LEN_def)
qed

lemma header_parse_Inr:
  assumes "header_parse rc = Inr h"
  shows "length rc = 30 + unat (rh_length h)" and "unat (rh_length h) \<le> 1400"
  using assms by (auto simp: header_parse_def qtls_lens Let_def split: if_splits option.splits)

section \<open>Sealing and opening\<close>

definition sealed :: "record_header \<Rightarrow> bytes \<Rightarrow> bytes \<Rightarrow> bytes" where
  "sealed h ks plaintext =
     (let body = header_bytes h @ xor_bytes plaintext (drop 32 ks)
      in body @ poly1305_mac (poly1305_key_new (take 32 ks)) body)"

lemma key_scratch_parts:
  assumes "length ks = 32 + n" and "n \<le> 1400"
  shows "take 32 (key_scratch ks) = take 32 ks" and "slice 32 (32 + n) (key_scratch ks) = drop 32 ks"
  using assms by (simp_all add: key_scratch_def blit_0 slice_def)

lemma length_sealed:
  "length ks = 32 + length plaintext \<Longrightarrow> length (sealed h ks plaintext) = 30 + length plaintext"
  by (simp add: sealed_def Let_def)

lemma seal_Inr:
  assumes "seal tx c sid plaintext out = (Inr n, tx', out')"
  obtains off ks where "lane_take (32 + length plaintext) tx = Inr (off, ks, tx')"
    and "length ks = 32 + length plaintext" and "length plaintext \<le> 1400"
    and "n = 30 + length plaintext" and "length out' = length out" and "n \<le> length out"
    and "take n out' = sealed \<lparr>rh_ctype = c, rh_session_id = sid, rh_key_offset = off,
                               rh_length = of_nat (length plaintext)\<rparr> ks plaintext"
proof -
  let ?len = "length plaintext"
  from assms have len: "?len \<le> 1400" and tot: "30 + ?len \<le> length out" and n: "n = 30 + ?len"
    by (auto simp: seal_def Let_def qtls_lens split: if_splits sum.splits prod.splits)
  from assms obtain off ks where tk: "lane_take (32 + ?len) tx = Inr (off, ks, tx')"
    by (auto simp: seal_def Let_def qtls_lens split: if_splits sum.splits prod.splits)
  have ks: "length ks = 32 + ?len" using lane_take_Inr [OF tk] by (simp add: lane_copy_out_def)
  let ?h = "\<lparr>rh_ctype = c, rh_session_id = sid, rh_key_offset = off, rh_length = of_nat ?len\<rparr>"
  let ?ct = "xor_bytes plaintext (drop 32 ks)"
  let ?body = "header_bytes ?h @ ?ct"
  have hw: "header_write ?h out = header_bytes ?h @ drop 14 out"
    using tot by (intro header_write_eq) simp
  have b1: "blit 14 ?ct (header_bytes ?h @ drop 14 out) = ?body @ drop (14 + ?len) out"
    using ks by (subst blit_next) simp_all
  have b2: "blit (14 + ?len) tg (header_bytes ?h @ ?ct @ drop (14 + ?len) out)
      = header_bytes ?h @ ?ct @ tg @ drop (14 + ?len + length tg) out" for tg
    using ks by (simp add: blit_def ac_simps)
  have tb: "take (14 + ?len) (?body @ drop (14 + ?len) out) = ?body" using ks by simp
  have out': "out' = sealed ?h ks plaintext @ drop (30 + ?len) out"
    using assms tk len tot ks
    by (auto simp: seal_def Let_def qtls_lens key_scratch_parts hw b1 b2 tb record_mac_def sealed_def)
  then have "take n out' = sealed ?h ks plaintext" "length out' = length out"
    using length_sealed [OF ks] n tot by simp_all
  with tk ks len n tot show thesis by (intro that) auto
qed

text \<open>What \<open>open\<close> does on a well-formed record whose key bytes are there.\<close>

lemma open_record_sealed:
  assumes "lane_ok rx" and "length ks = 32 + length plaintext" and "length plaintext \<le> 1400"
    and "rh_length h = of_nat (length plaintext)"
    and "lane_peek_at (rh_key_offset h) (32 + length plaintext) rx = Inr ks"
    and "length plaintext \<le> length buf"
  obtains rx' where "open_record rx (sealed h ks plaintext) buf
      = (Inr (h, length plaintext), rx', blit 0 plaintext buf)"
    and "lane_consume_through (rh_key_offset h) (32 + length plaintext) rx = Inr rx'"
proof -
  let ?len = "length plaintext" and ?rc = "sealed h ks plaintext"
  let ?body = "header_bytes h @ xor_bytes plaintext (drop 32 ks)"
  have u: "unat (rh_length h) = ?len" using assms(3,4) by simp
  have rc: "?rc = ?body @ poly1305_mac (poly1305_key_new (take 32 ks)) ?body"
    by (simp add: sealed_def Let_def)
  have parse: "header_parse ?rc = Inr h"
    unfolding rc append_assoc
    by (rule header_parse_bytes) (use assms u in \<open>simp_all add: qtls_lens\<close>)
  have parts: "take (14 + ?len) ?rc = ?body" "drop (14 + ?len) ?rc = poly1305_mac (poly1305_key_new (take 32 ks)) ?body"
    "slice 14 (14 + ?len) ?rc = xor_bytes plaintext (drop 32 ks)"
    using assms(2) by (simp_all add: rc slice_append_left slice_append_right)
  obtain rx' where cons: "lane_consume_through (rh_key_offset h) (32 + ?len) rx = Inr rx'"
    using kl.consume_after_peek [OF assms(1) _ assms(5)] assms(3) by force
  have "open_record rx ?rc buf = (Inr (h, ?len), rx', blit 0 plaintext buf)"
    using assms parse cons
    by (simp add: open_record_def Let_def qtls_lens u parts key_scratch_parts record_mac_def ct_eq_16_iff)
  then show thesis using cons by (rule that)
qed

text \<open>Everything an accepted record tells: its shape, its tag, the key it used and the lane after it.\<close>

lemma open_record_Inr:
  assumes "lane_ok rx" and "open_record rx rc buf = (Inr (h, n), rx', buf')"
  obtains ks where "header_parse rc = Inr h" and "n = unat (rh_length h)" and "n \<le> length buf"
    and "lane_peek_at (rh_key_offset h) (32 + n) rx = Inr ks"
    and "lane_consume_through (rh_key_offset h) (32 + n) rx = Inr rx'"
    and "drop (14 + n) rc = poly1305_mac (poly1305_key_new (take 32 ks)) (take (14 + n) rc)"
    and "buf' = blit 0 (xor_bytes (slice 14 (14 + n) rc) (drop 32 ks)) buf"
proof -
  obtain h' where hp: "header_parse rc = Inr h'"
    using assms(2) by (cases "header_parse rc") (auto simp: open_record_def)
  have len: "unat (rh_length h') \<le> 1400" "length rc = 30 + unat (rh_length h')"
    using header_parse_Inr [OF hp] by simp_all
  obtain ks where pk: "lane_peek_at (rh_key_offset h') (32 + unat (rh_length h')) rx = Inr ks"
    using assms(2) hp
    by (cases "lane_peek_at (rh_key_offset h') (32 + unat (rh_length h')) rx")
      (auto simp: open_record_def Let_def qtls_lens split: if_splits)
  have ks: "length ks = 32 + unat (rh_length h')"
    using kl.peek_Inr(5) [OF assms(1) _ pk] len by simp
  have cmp: "ct_eq_16 (poly1305_mac k m) (drop (14 + unat (rh_length h')) rc)
      \<longleftrightarrow> poly1305_mac k m = drop (14 + unat (rh_length h')) rc" for k m
    using len by (intro ct_eq_16_iff) simp_all
  have all: "h' = h \<and> n = unat (rh_length h) \<and> n \<le> length buf
      \<and> lane_consume_through (rh_key_offset h) (32 + n) rx = Inr rx'
      \<and> poly1305_mac (poly1305_key_new (take 32 ks)) (take (14 + n) rc) = drop (14 + n) rc
      \<and> buf' = blit 0 (xor_bytes (slice 14 (14 + n) rc) (drop 32 ks)) buf"
    using assms(2) hp pk ks len
    by (auto simp: open_record_def Let_def qtls_lens key_scratch_parts record_mac_def cmp
        split: if_splits sum.splits)
  show thesis by (rule that [of ks]) (use all hp pk in auto)
qed

lemma seal_lane_ok:
  assumes "lane_ok tx" and "seal tx c sid plaintext out = (r, tx', out')"
  shows "lane_ok tx'"
proof (cases r)
  case (Inl e)
  then have "tx' = tx"
    using assms(2) by (auto simp: seal_def Let_def split: if_splits sum.splits prod.splits)
  then show ?thesis using assms(1) by simp
next
  case (Inr n)
  then obtain off ks where "lane_take (32 + length plaintext) tx = Inr (off, ks, tx')"
    using seal_Inr assms(2) by blast
  then show ?thesis by (rule lane_take_ok [OF assms(1)])
qed

lemma open_error_unchanged:
  "open_record rx rc buf = (Inl e, rx', buf') \<Longrightarrow> rx' = rx \<and> buf' = buf"
  by (auto simp: open_record_def Let_def split: if_splits sum.splits)

lemma open_lane_ok:
  assumes "lane_ok rx" and "open_record rx rc buf = (r, rx', buf')"
  shows "lane_ok rx'"
proof (cases r)
  case (Inl e)
  then show ?thesis using assms open_error_unchanged by blast
next
  case (Inr p)
  obtain h n where p: "p = (h, n)" by (cases p)
  obtain ks where cons: "lane_consume_through (rh_key_offset h) (32 + n) rx = Inr rx'"
    and "header_parse rc = Inr h" "n = unat (rh_length h)"
    using open_record_Inr [OF assms(1), of rc buf h n rx' buf'] assms(2) Inr p by blast
  then have "n \<le> 1400" using header_parse_Inr by blast
  then have "32 + n < 2 ^ 64" by simp
  then show ?thesis by (rule lane_consume_through_ok [OF assms(1) _ cons])
qed

text \<open>The two ends stay in step: one record sealed and opened.\<close>

lemma seal_open_agree:
  assumes "lane_ok tx" and "lane_ok rx" and "win_agree (lane_window tx) (lane_window rx)"
    and "unat (lane_base rx) \<le> unat (lane_base tx)"
    and "unat (lane_base tx) + key_cost (length plaintext) \<le> lane_end rx"
    and "seal tx c sid plaintext out = (Inr n, tx', out')"
    and "length plaintext \<le> length buf"
  shows "\<exists>rx' off. open_record rx (take n out') buf
      = (Inr (\<lparr>rh_ctype = c, rh_session_id = sid, rh_key_offset = off,
               rh_length = of_nat (length plaintext)\<rparr>, length plaintext), rx', blit 0 plaintext buf)
    \<and> off = lane_base tx \<and> lane_base rx' = lane_base tx' \<and> lane_ok rx'
    \<and> win_agree (lane_window tx') (lane_window rx')"
proof -
  let ?n = "32 + length plaintext"
  obtain off ks where tk: "lane_take ?n tx = Inr (off, ks, tx')" and ks: "length ks = ?n"
    and len: "length plaintext \<le> 1400"
    and rc: "take n out' = sealed \<lparr>rh_ctype = c, rh_session_id = sid, rh_key_offset = off,
               rh_length = of_nat (length plaintext)\<rparr> ks plaintext"
    by (rule seal_Inr [OF assms(6)])
  let ?h = "\<lparr>rh_ctype = c, rh_session_id = sid, rh_key_offset = off,
               rh_length = of_nat (length plaintext)\<rparr> :: record_header"
  have pk: "lane_peek_at off ?n rx = Inr ks"
    using assms(1-5) tk len
    by (intro kl.take_peek_agree) (simp_all add: lane_window_def lane_end_def qtls_lens)
  obtain rx' where o: "open_record rx (sealed ?h ks plaintext) buf
      = (Inr (?h, length plaintext), rx', blit 0 plaintext buf)"
    and cons: "lane_consume_through off ?n rx = Inr rx'"
    using open_record_sealed [OF assms(2) ks len _ _ assms(7), of ?h] pk by auto
  note t = kl.take_Inr [OF assms(1) tk]
  have fits: "?n < 2 ^ 64" using len by simp
  obtain rx2 where "lane_consume_through off ?n rx = Inr rx2" "lane_ok rx2"
    "lane_window rx2 = (unat off + ?n, drop (unat off - fst (lane_window rx) + ?n) (snd (lane_window rx)))"
    by (rule kl.consume_after_peek [OF assms(2) fits pk])
  then have w: "lane_window rx' = (unat off + ?n, drop (unat off - fst (lane_window rx) + ?n) (snd (lane_window rx)))"
    and ok: "lane_ok rx'" using cons by simp_all
  have w': "lane_window tx' = (unat off + ?n, drop ?n (snd (lane_window tx)))"
    using t(3,5) by simp
  have base: "lane_base rx' = lane_base tx'"
    using arg_cong [OF w, of fst] arg_cong [OF w', of fst] by (simp add: lane_window_def word_unat_eq_iff)
  have "win_agree (lane_window tx') (lane_window rx)"
    by (rule kl.take_agree [OF assms(1,3) tk])
  then have "win_agree (lane_window tx') (lane_window rx')"
    using w win_agree_drop [of "lane_window tx'" "fst (lane_window rx)" "snd (lane_window rx)"
        "unat off - fst (lane_window rx) + ?n"] kl.peek_Inr(2) [OF assms(2) _ pk] len
    by simp
  moreover have "off = lane_base tx"
    using t(3) by (simp add: lane_window_def word_unat_eq_iff)
  ultimately show ?thesis using o rc base ok by auto
qed

section \<open>Properties\<close>

text \<open>
  C1. What one end seals, the other end opens: if the two lanes agree wherever both hold key
  bytes and the receiver still holds the bytes the sender is about to use, the receiver
  recovers the type, session, offset and plaintext, its lane moves exactly to the sender's
  offset, and the two lanes still agree.
\<close>

theorem qtls_seal_open:
  assumes "lane_ok tx" and "lane_ok rx" and "win_agree (lane_window tx) (lane_window rx)"
    and "unat (lane_base rx) \<le> unat (lane_base tx)"
    and "unat (lane_base tx) + key_cost (length plaintext) \<le> lane_end rx"
    and "seal tx c sid plaintext out = (Inr n, tx', out')"
    and "length plaintext \<le> length buf"
  shows "\<exists>rx' off. open_record rx (take n out') buf
      = (Inr (\<lparr>rh_ctype = c, rh_session_id = sid, rh_key_offset = off,
               rh_length = of_nat (length plaintext)\<rparr>, length plaintext), rx', blit 0 plaintext buf)
    \<and> off = lane_base tx \<and> lane_base rx' = lane_base tx' \<and> lane_ok rx'
    \<and> win_agree (lane_window tx') (lane_window rx')"
  using assms by (rule seal_open_agree)

text \<open>Concrete lanes for the witnesses: both ends got the same bytes.\<close>

definition demo_key :: bytes where
  "demo_key = map (\<lambda>i. of_nat (7 * i + 3)) [0..<100]"

definition demo_lane :: key_lane where
  "demo_lane = (case lane_deposit demo_key lane_new of Inr l \<Rightarrow> l | Inl _ \<Rightarrow> lane_new)"

lemma demo_lane_facts:
  "lane_ok demo_lane" "lane_base demo_lane = 0" "lane_count demo_lane = 100"
  "lane_keys demo_lane = demo_key"
proof -
  have k: "demo_key \<noteq> []" "length demo_key \<le> LANE_CAPACITY" "length demo_key = 100"
    by (simp_all add: demo_key_def LANE_CAPACITY_def)
  obtain l where l: "lane_deposit demo_key lane_new = Inr l" "lane_inv l"
    "lane_keys l = drop (length (lane_keys lane_new @ demo_key) - LANE_CAPACITY) (lane_keys lane_new @ demo_key)"
    "lane_base l = lane_base lane_new + of_nat (length (lane_keys lane_new @ demo_key) - LANE_CAPACITY)"
    by (rule lane_deposit_Inr [OF lane_inv_new k(1,2)])
  have d: "demo_lane = l" by (simp add: demo_lane_def l)
  have c: "lane_count l = 100" using arg_cong [OF l(3), of length] k by (simp add: LANE_CAPACITY_def)
  show "lane_keys demo_lane = demo_key" using l(3) k by (simp add: d LANE_CAPACITY_def)
  show "lane_base demo_lane = 0" using l(4) k by (simp add: d LANE_CAPACITY_def lane_new_def)
  then show "lane_ok demo_lane" using l(2) c by (simp add: d lane_ok_def lane_end_def)
  show "lane_count demo_lane = 100" by (simp add: d c)
qed

lemma seal_ok:
  assumes "lane_ok tx" and "length plaintext \<le> 1400" and "30 + length plaintext \<le> length out"
    and "32 + length plaintext \<le> lane_count tx"
  obtains tx' out' where "seal tx c sid plaintext out = (Inr (30 + length plaintext), tx', out')"
    and "lane_base tx' = lane_base tx + of_nat (32 + length plaintext)"
    and "lane_end tx' = lane_end tx"
proof -
  obtain off ks tx' where tk: "lane_take (32 + length plaintext) tx = Inr (off, ks, tx')"
    using kl.take_ok [OF assms(1), of "32 + length plaintext"] assms(4) by (auto simp: lane_window_def)
  from lane_take_Inr [OF tk] have tx': "tx' = lane_discard (32 + length plaintext) tx" by simp
  have i: "lane_inv tx" "lane_end tx < 2 ^ 64" using assms(1) by (simp_all add: lane_ok_def)
  have "lane_base tx' = lane_base tx + of_nat (32 + length plaintext)" "lane_end tx' = lane_end tx"
    using i assms(4) by (simp_all add: tx' lane_discard_fields lane_discard_end(2) del: of_nat_add)
  moreover obtain out' where "seal tx c sid plaintext out = (Inr (30 + length plaintext), tx', out')"
    using assms tk by (simp add: seal_def Let_def qtls_lens)
  ultimately show thesis using that by blast
qed

theorem qtls_seal_open_witness:
  "\<exists>n tx' out' rx' h. seal demo_lane Data 7 [1, 2, 3] (replicate 40 0) = (Inr n, tx', out')
    \<and> open_record demo_lane (take n out') [9, 9, 9, 9] = (Inr (h, 3), rx', [1, 2, 3, 9])
    \<and> rh_ctype h = Data \<and> rh_session_id h = 7 \<and> lane_base rx' = lane_base tx'"
proof -
  obtain tx' out' where s: "seal demo_lane Data 7 [1, 2, 3] (replicate 40 0) = (Inr 33, tx', out')"
    by (rule seal_ok [OF demo_lane_facts(1), of "[1, 2, 3]" "replicate 40 0" Data 7])
      (auto simp: demo_lane_facts)
  have "win_agree (lane_window demo_lane) (lane_window demo_lane)" by (simp add: win_agree_def)
  from qtls_seal_open [OF demo_lane_facts(1) demo_lane_facts(1) this _ _ s, of "[9, 9, 9, 9]"]
  have "\<exists>rx' off. open_record demo_lane (take 33 out') [9, 9, 9, 9]
      = (Inr (\<lparr>rh_ctype = Data, rh_session_id = 7, rh_key_offset = off, rh_length = 3\<rparr>, 3), rx', [1, 2, 3, 9])
    \<and> lane_base rx' = lane_base tx'"
    by (auto simp: demo_lane_facts lane_end_def qtls_lens blit_def)
  then show ?thesis using s by fastforce
qed

lemma demo_open:
  "\<exists>n out' rx' h. open_record demo_lane (take n out') [9, 9, 9, 9] = (Inr (h, 3), rx', [1, 2, 3, 9])"
proof -
  let ?h = "\<lparr>rh_ctype = Data, rh_session_id = 7, rh_key_offset = 0, rh_length = 3\<rparr> :: record_header"
  let ?rc = "sealed ?h (take 35 demo_key) [1, 2, 3]"
  have l: "length demo_key = 100" by (simp add: demo_key_def)
  have pk: "lane_peek_at 0 35 demo_lane = Inr (take 35 demo_key)"
    by (simp add: lane_peek_at_window demo_lane_facts(1) [unfolded lane_ok_def] lane_window_def
        demo_lane_facts l)
  have "length (take 35 demo_key) = 32 + length [1, 2, 3 :: u8]" by (simp add: l)
  then obtain rx' where o: "open_record demo_lane ?rc [9, 9, 9, 9]
      = (Inr (?h, length [1, 2, 3 :: u8]), rx', blit 0 [1, 2, 3] [9, 9, 9, 9])"
    by (rule open_record_sealed [OF demo_lane_facts(1), of _ _ ?h "[9, 9, 9, 9]"]) (simp_all add: pk)
  have "blit 0 [1, 2, 3] [9, 9, 9, 9] = [1, 2, 3, 9 :: u8]" "length [1, 2, 3 :: u8] = 3"
    by (simp_all add: blit_def)
  with o have "open_record demo_lane (take (length ?rc) ?rc) [9, 9, 9, 9] = (Inr (?h, 3), rx', [1, 2, 3, 9])"
    by (simp only: take_all order_refl)
  then show ?thesis by blast
qed

text \<open>
  A record that is rejected, for whatever reason, burns no key and writes nothing: lane and
  output buffer are exactly as before.  (The code reads key bytes before it checks the tag.)
\<close>

theorem qtls_rejected_record_keeps_lane:
  assumes "open_record rx rc buf = (Inl e, rx', buf')"
  shows "rx' = rx \<and> buf' = buf"
  using assms by (rule open_error_unchanged)

theorem qtls_rejected_record_keeps_lane_witness:
  "snd (open_record demo_lane [1, 2, 3] []) = (demo_lane, [])"
proof -
  have "open_record demo_lane [1, 2, 3] [] = (Inl Malformed, snd (open_record demo_lane [1, 2, 3] []))"
    by (simp add: open_record_def header_parse_def qtls_lens)
  then have "open_record demo_lane [1, 2, 3] [] = (Inl Malformed,
      fst (snd (open_record demo_lane [1, 2, 3] [])), snd (snd (open_record demo_lane [1, 2, 3] [])))"
    by simp
  from qtls_rejected_record_keeps_lane [OF this] show ?thesis by (simp add: prod_eq_iff)
qed

text \<open>
  C3. No replay: after a record has been accepted, no record whose key bytes start before the
  end of the accepted one's is accepted again, whatever its contents; the lane rejects it as
  already consumed or it fails earlier, and nothing changes.
\<close>

theorem qtls_no_replay:
  assumes "lane_ok rx" and "open_record rx rc buf = (Inr (h, n), rx', buf')"
    and "header_parse rc2 = Inr h2" and "unat (rh_key_offset h2) < unat (rh_key_offset h) + key_cost n"
    and "unat (rh_length h2) \<le> length buf2"
  shows "open_record rx' rc2 buf2 = (Inl (Key AlreadyConsumed), rx', buf2)"
proof -
  obtain ks where hp: "header_parse rc = Inr h" and n: "n = unat (rh_length h)"
    and cons: "lane_consume_through (rh_key_offset h) (32 + n) rx = Inr rx'"
    by (rule open_record_Inr [OF assms(1,2)])
  have b: "n \<le> 1400" "unat (rh_length h2) \<le> 1400"
    using header_parse_Inr [OF hp] header_parse_Inr [OF assms(3)] n by simp_all
  have "lane_peek_at (rh_key_offset h2) (32 + unat (rh_length h2)) rx' = Inl AlreadyConsumed"
    using b assms(4) by (intro kl.consumed_gone [OF assms(1) _ cons]) (simp_all add: qtls_lens)
  then show ?thesis
    using assms(3,5) by (simp add: open_record_def Let_def qtls_lens)
qed

theorem qtls_no_replay_witness:
  "\<exists>n out' rx' h. open_record demo_lane (take n out') [9, 9, 9, 9] = (Inr (h, 3), rx', [1, 2, 3, 9])
    \<and> open_record rx' (take n out') [9, 9, 9, 9] = (Inl (Key AlreadyConsumed), rx', [9, 9, 9, 9])"
proof -
  obtain n out' rx' h where o: "open_record demo_lane (take n out') [9, 9, 9, 9] = (Inr (h, 3), rx', [1, 2, 3, 9])"
    using demo_open by blast
  have hp: "header_parse (take n out') = Inr h" "unat (rh_length h) = 3"
    using open_record_Inr [OF demo_lane_facts(1) o] by auto
  from qtls_no_replay [OF demo_lane_facts(1) o hp(1), of "[9, 9, 9, 9]"] hp(2)
  have "open_record rx' (take n out') [9, 9, 9, 9] = (Inl (Key AlreadyConsumed), rx', [9, 9, 9, 9])"
    by (simp add: qtls_lens)
  with o show ?thesis by blast
qed

text \<open>
  When the key runs out, \<open>seal\<close> refuses: nothing is written, no key byte is used, and no
  weaker cipher takes over.
\<close>

theorem qtls_exhausted_refuses:
  assumes "length plaintext \<le> MAX_RECORD_PAYLOAD" and "lane_count tx < key_cost (length plaintext)"
    and "RECORD_HDR_LEN + length plaintext + TAG_LEN \<le> length out"
  shows "seal tx c sid plaintext out = (Inl (Key InsufficientKey), tx, out)"
  using assms by (simp add: seal_def lane_take_def Let_def qtls_lens)

theorem qtls_exhausted_refuses_witness:
  "seal lane_new Data 1 [5] (replicate 31 0) = (Inl (Key InsufficientKey), lane_new, replicate 31 0)"
  by (rule qtls_exhausted_refuses) (simp_all add: qtls_lens lane_new_def)

section \<open>Secrecy of the records on the wire\<close>

text \<open>
  The results of sealing a list of messages in turn: an observer sees the records, and which calls
  failed.
\<close>

fun wire_records :: "(content_type \<times> u16 \<times> bytes) list \<Rightarrow> key_lane \<Rightarrow> (net_error + bytes) list" where
  "wire_records [] tx = []"
| "wire_records ((c, sid, p) # ms) tx =
     (case seal tx c sid p (replicate MAX_RECORD_LEN 0) of
        (Inl e, tx', rc) \<Rightarrow> Inl e # wire_records ms tx'
      | (Inr n, tx', rc) \<Rightarrow> Inr (take n rc) # wire_records ms tx')"

text \<open>The same on the stream of key bytes from an offset on.\<close>

fun stream_records :: "(content_type \<times> u16 \<times> bytes) list \<Rightarrow> u64 \<Rightarrow> bytes \<Rightarrow> (net_error + bytes) list" where
  "stream_records [] off ks = []"
| "stream_records ((c, sid, p) # ms) off ks =
     (let n = 32 + length p
      in if 1400 < length p then Inl PayloadTooLarge # stream_records ms off ks
         else if length ks < n then Inl (Key InsufficientKey) # stream_records ms off ks
         else Inr (sealed \<lparr>rh_ctype = c, rh_session_id = sid, rh_key_offset = off,
                           rh_length = of_nat (length p)\<rparr> (take n ks) p)
           # stream_records ms (off + of_nat n) (drop n ks))"

lemma wire_records_stream:
  "lane_inv tx \<Longrightarrow> wire_records ms tx = stream_records ms (lane_base tx) (lane_keys tx)"
proof (induction ms arbitrary: tx)
  case (Cons m ms)
  obtain c sid p where m: "m = (c, sid, p)" by (cases m)
  let ?n = "32 + length p" and ?out = "replicate MAX_RECORD_LEN (0 :: u8)"
  consider "1400 < length p" | "length p \<le> 1400" "lane_count tx < ?n" | "length p \<le> 1400" "?n \<le> lane_count tx"
    by linarith
  then show ?case
  proof cases
    case 1
    then have "seal tx c sid p ?out = (Inl PayloadTooLarge, tx, ?out)" by (simp add: seal_def qtls_lens)
    then show ?thesis using Cons 1 by (simp add: m)
  next
    case 2
    then have "seal tx c sid p ?out = (Inl (Key InsufficientKey), tx, ?out)"
      by (simp add: seal_def lane_take_def Let_def qtls_lens)
    then show ?thesis using Cons 2 by (simp add: m)
  next
    case 3
    have tk: "lane_take ?n tx = Inr (lane_base tx, take ?n (lane_keys tx), lane_discard ?n tx)"
      using 3 Cons.prems by (simp add: lane_take_def lane_copy_out_keys)
    obtain tx' out' where s: "seal tx c sid p ?out = (Inr (30 + length p), tx', out')"
      using 3 tk by (auto simp: seal_def Let_def qtls_lens)
    have rc: "tx' = lane_discard ?n tx"
      "take (30 + length p) out' = sealed \<lparr>rh_ctype = c, rh_session_id = sid, rh_key_offset = lane_base tx,
         rh_length = of_nat (length p)\<rparr> (take ?n (lane_keys tx)) p"
      by (rule seal_Inr [OF s]; use tk in simp)+
    have "wire_records ms tx' = stream_records ms (lane_base tx + of_nat ?n) (drop ?n (lane_keys tx))"
      using Cons.IH [of tx'] Cons.prems 3
      by (simp add: rc(1) lane_discard_inv lane_discard_fields lane_discard_keys del: of_nat_add)
    then show ?thesis using s 3 by (simp add: m rc(2) Let_def del: of_nat_add)
  qed
qed simp

text \<open>The messages differ in nothing but the bytes of the plaintexts.\<close>

fun same_shape :: "content_type \<times> u16 \<times> bytes \<Rightarrow> content_type \<times> u16 \<times> bytes \<Rightarrow> bool" where
  "same_shape (c, sid, p) (c', sid', q) \<longleftrightarrow> c' = c \<and> sid' = sid \<and> length q = length p"

text \<open>The key stream under which the second messages give the records of the first.\<close>

fun rekey :: "(content_type \<times> u16 \<times> bytes) list \<Rightarrow> (content_type \<times> u16 \<times> bytes) list \<Rightarrow> bytes \<Rightarrow> bytes" where
  "rekey ((_, _, p) # ps) ((_, _, q) # qs) ks =
     (let n = 32 + length p
      in if 1400 < length p \<or> length ks < n then rekey ps qs ks
         else take 32 ks @ xor_bytes (xor_bytes p q) (take (length p) (drop 32 ks)) @ rekey ps qs (drop n ks))"
| "rekey _ _ ks = ks"

lemma length_rekey: "list_all2 same_shape ps qs \<Longrightarrow> length (rekey ps qs ks) = length ks"
proof (induction ps qs arbitrary: ks rule: list_all2_induct)
  case (Cons m ps m' qs)
  then show ?case by (cases m; cases m') (auto simp: Let_def)
qed simp

lemma xor_twice:
  assumes "length q = length p" and "length ks = length p"
  shows "xor_bytes q (xor_bytes (xor_bytes p q) ks) = xor_bytes p ks"
    and "xor_bytes (xor_bytes q p) (xor_bytes (xor_bytes p q) ks) = ks"
proof -
  have x: "b XOR ((a XOR b) XOR k) = a XOR k" "(b XOR a) XOR ((a XOR b) XOR k) = k" for a b k :: u8
    by (rule bit_word_eqI, auto simp: bit_xor_iff)+
  show "xor_bytes q (xor_bytes (xor_bytes p q) ks) = xor_bytes p ks"
    "xor_bytes (xor_bytes q p) (xor_bytes (xor_bytes p q) ks) = ks"
    using assms by (intro nth_equalityI; simp add: x)+
qed

lemma rekey_records:
  "list_all2 same_shape ps qs \<Longrightarrow> stream_records qs off (rekey ps qs ks) = stream_records ps off ks"
proof (induction ps qs arbitrary: off ks rule: list_all2_induct)
  case (Cons m ps m' qs)
  obtain c sid p q where m: "m = (c, sid, p)" "m' = (c, sid, q)" and l: "length q = length p"
    using Cons.hyps(1) by (cases m; cases m') auto
  show ?case
  proof (cases "1400 < length p \<or> length ks < 32 + length p")
    case True
    then show ?thesis using Cons l length_rekey [OF Cons.hyps(2)] by (auto simp: m Let_def)
  next
    case False
    let ?pad = "take (length p) (drop 32 ks)"
    have pad: "length ?pad = length p" using False by auto
    have "sealed h (take 32 ks @ xor_bytes (xor_bytes p q) ?pad) q = sealed h (take (32 + length p) ks) p" for h
      using False l xor_twice(1) [OF l pad] by (simp add: sealed_def take_add)
    then show ?thesis using Cons.IH False l pad length_rekey [OF Cons.hyps(2)] by (simp add: m Let_def)
  qed
qed simp

lemma rekey_back: "list_all2 same_shape ps qs \<Longrightarrow> rekey qs ps (rekey ps qs ks) = ks"
proof (induction ps qs arbitrary: ks rule: list_all2_induct)
  case (Cons m ps m' qs)
  obtain c sid p q where m: "m = (c, sid, p)" "m' = (c, sid, q)" and l: "length q = length p"
    using Cons.hyps(1) by (cases m; cases m') auto
  show ?case
  proof (cases "1400 < length p \<or> length ks < 32 + length p")
    case True
    then show ?thesis using Cons l length_rekey [OF Cons.hyps(2)] by (auto simp: m Let_def)
  next
    case False
    let ?pad = "take (length p) (drop 32 ks)"
    have pad: "length ?pad = length p" using False by auto
    have "take 32 ks @ ?pad @ drop (32 + length p) ks = take (32 + length p) ks @ drop (32 + length p) ks"
      by (simp only: take_add append_assoc)
    then have "take 32 ks @ ?pad @ drop (32 + length p) ks = ks" by (simp only: append_take_drop_id)
    then show ?thesis
      using Cons.IH False l pad xor_twice(2) [OF l pad] length_rekey [OF Cons.hyps(2)] by (simp add: m Let_def)
  qed
qed simp

lemma deposit_empty:
  assumes "lane_inv l" and "lane_count l = 0"
  shows "lane_deposit k l = Inr l' \<Longrightarrow> lane_inv l' \<and> lane_keys l' = k \<and> lane_base l' = lane_base l"
    and "k \<noteq> [] \<Longrightarrow> length k \<le> LANE_CAPACITY \<Longrightarrow> \<exists>l'. lane_deposit k l = Inr l'"
proof -
  have e: "lane_keys l = []" using assms(2) by (simp flip: length_0_conv)
  show "lane_deposit k l = Inr l' \<Longrightarrow> lane_inv l' \<and> lane_keys l' = k \<and> lane_base l' = lane_base l"
    using lane_deposit_Inr [OF assms(1), of k] lane_deposit_InrD [of k l l'] e by force
  show "k \<noteq> [] \<Longrightarrow> length k \<le> LANE_CAPACITY \<Longrightarrow> \<exists>l'. lane_deposit k l = Inr l'"
    by (rule lane_deposit_Inr [OF assms(1), of k]) auto
qed

text \<open>
  C4. Perfect secrecy in the sense of Shannon.  Two lists of messages that differ only in the bytes
  of the plaintexts (same number, types, sessions and lengths) are sealed in turn with a lane that
  was filled with a key stream.  Then everything an observer may see on the wire, headers and tags
  of all records and refusals included, arises from the same number of key streams for the one list
  as for the other: under a uniformly chosen key stream both are seen with the same probability.
  This fails as soon as a pad byte is used twice, is a byte of a tag's key, or is left out.
\<close>

theorem qtls_perfect_secrecy:
  assumes "lane_inv tx" and "lane_count tx = 0" and "list_all2 same_shape ps qs"
  shows "card {key. length key = n \<and> (\<exists>tx'. lane_deposit key tx = Inr tx' \<and> wire_records ps tx' = seen)}
    = card {key. length key = n \<and> (\<exists>tx'. lane_deposit key tx = Inr tx' \<and> wire_records qs tx' = seen)}"
proof -
  let ?keys = "\<lambda>ms. {key. length key = n \<and> (\<exists>tx'. lane_deposit key tx = Inr tx' \<and> wire_records ms tx' = seen)}"
  have keys: "?keys ms = {key. length key = n \<and> n \<noteq> 0 \<and> n \<le> LANE_CAPACITY
      \<and> stream_records ms (lane_base tx) key = seen}" for ms
    using deposit_empty [OF assms(1,2)]
    by (auto simp: wire_records_stream dest: lane_deposit_InrD) (use deposit_empty [OF assms(1,2)] wire_records_stream in metis)
  have sym: "list_all2 same_shape qs ps"
    using assms(3) by (induction rule: list_all2_induct) auto
  have "bij_betw (rekey ps qs) (?keys ps) (?keys qs)"
    unfolding keys
    by (rule bij_betw_byWitness [where f' = "rekey qs ps"])
      (use assms(3) sym in \<open>auto simp: rekey_back rekey_records length_rekey\<close>)
  then show ?thesis by (rule bij_betw_same_card)
qed

theorem qtls_perfect_secrecy_witness:
  "let ps = [(Data, 7, [1, 2, 3]), (Close, 7, [])]; qs = [(Data, 7, [4, 5, 6]), (Close, 7, [])];
       seen = wire_records ps demo_lane
   in demo_key \<in> {key. length key = 100 \<and> (\<exists>tx'. lane_deposit key lane_new = Inr tx' \<and> wire_records ps tx' = seen)}
    \<and> card {key. length key = 100 \<and> (\<exists>tx'. lane_deposit key lane_new = Inr tx' \<and> wire_records ps tx' = seen)}
      = card {key. length key = 100 \<and> (\<exists>tx'. lane_deposit key lane_new = Inr tx' \<and> wire_records qs tx' = seen)}"
proof -
  let ?ps = "[(Data, 7, [1, 2, 3]), (Close, 7, [])] :: (content_type \<times> u16 \<times> bytes) list"
  have e: "lane_inv lane_new" "lane_count lane_new = 0" by (simp_all add: lane_inv_new) (simp add: lane_new_def)
  have k: "demo_key \<noteq> []" "length demo_key = 100" by (simp_all add: demo_key_def)
  then obtain l where "lane_deposit demo_key lane_new = Inr l"
    using deposit_empty(2) [OF e] by (force simp: LANE_CAPACITY_def)
  then have "lane_deposit demo_key lane_new = Inr demo_lane" by (simp add: demo_lane_def)
  moreover have "list_all2 same_shape ?ps [(Data, 7, [4, 5, 6]), (Close, 7, [])]" by simp
  note qtls_perfect_secrecy [OF e this, of 100 "wire_records ?ps demo_lane"]
  ultimately show ?thesis unfolding Let_def using k by (simp del: wire_records.simps)
qed

section \<open>A one-way channel that loses records\<close>

text \<open>
  The sender seals one message after the other; \<open>True\<close> marks the records that arrive.  What
  the receiver reads is the list of type, session and plaintext.
\<close>

fun transmit ::
    "(bool \<times> content_type \<times> u16 \<times> bytes) list \<Rightarrow> key_lane \<Rightarrow> key_lane \<Rightarrow> (content_type \<times> u16 \<times> bytes) list" where
  "transmit [] tx rx = []"
| "transmit ((arrives, c, sid, p) # ms) tx rx =
     (case seal tx c sid p (replicate MAX_RECORD_LEN 0) of
        (Inl e, tx', rc) \<Rightarrow> transmit ms tx' rx
      | (Inr n, tx', rc) \<Rightarrow>
          if \<not> arrives then transmit ms tx' rx
          else (case open_record rx (take n rc) (replicate MAX_RECORD_PAYLOAD 0) of
                  (Inl e, rx', pt) \<Rightarrow> transmit ms tx' rx'
                | (Inr (h, k), rx', pt) \<Rightarrow>
                    (rh_ctype h, rh_session_id h, take k pt) # transmit ms tx' rx'))"

text \<open>
  C2. Lost records do no harm: every record that arrives is read correctly, in order, whatever
  the records lost between them (the receiver skips their key bytes), as long as both lanes
  hold enough key.
\<close>

theorem qtls_survives_loss:
  assumes "lane_ok tx" and "lane_ok rx" and "win_agree (lane_window tx) (lane_window rx)"
    and "unat (lane_base rx) \<le> unat (lane_base tx)"
    and "\<forall>(_, _, _, p) \<in> set ms. length p \<le> MAX_RECORD_PAYLOAD"
    and "(\<Sum>(_, _, _, p) \<leftarrow> ms. key_cost (length p)) \<le> lane_count tx"
    and "lane_end tx \<le> lane_end rx"
  shows "transmit ms tx rx = map snd (filter fst ms)"
  using assms
proof (induction ms arbitrary: tx rx)
  case (Cons m ms)
  obtain arrives c sid p where m: "m = (arrives, c, sid, p)" by (cases m)
  let ?out = "replicate MAX_RECORD_LEN (0 :: u8)" and ?buf = "replicate MAX_RECORD_PAYLOAD (0 :: u8)"
  have len: "length p \<le> 1400" "32 + length p \<le> lane_count tx"
    using Cons.prems(5,6) by (auto simp: m qtls_lens)
  obtain tx' out' where s: "seal tx c sid p ?out = (Inr (30 + length p), tx', out')"
    and base: "lane_base tx' = lane_base tx + of_nat (32 + length p)"
    and e: "lane_end tx' = lane_end tx"
    by (rule seal_ok [OF Cons.prems(1) len(1) _ len(2), of ?out]) (use len in \<open>simp_all add: qtls_lens\<close>)
  have ok: "lane_ok tx'" by (rule seal_lane_ok [OF Cons.prems(1) s])
  have ub: "unat (lane_base tx') = unat (lane_base tx) + (32 + length p)"
    unfolding base using Cons.prems(1) len(2) by (intro unat_u64_add) (simp add: lane_ok_def lane_end_def)
  have cnt: "lane_count tx' + (32 + length p) = lane_count tx"
    using e ub by (simp add: lane_end_def)
  have rest: "\<forall>(_, _, _, p) \<in> set ms. length p \<le> MAX_RECORD_PAYLOAD"
    "(\<Sum>(_, _, _, p) \<leftarrow> ms. key_cost (length p)) \<le> lane_count tx'"
    using Cons.prems(5,6) cnt by (auto simp: m qtls_lens)
  show ?case
  proof (cases arrives)
    case False
    obtain off ks where tk: "lane_take (32 + length p) tx = Inr (off, ks, tx')"
      using seal_Inr [OF s] by blast
    have "win_agree (lane_window tx') (lane_window rx)"
      by (rule kl.take_agree [OF Cons.prems(1,3) tk])
    then have "transmit ms tx' rx = map snd (filter fst ms)"
      using Cons.prems(4,7) ub e by (intro Cons.IH [OF ok Cons.prems(2) _ _ rest]) simp_all
    then show ?thesis using s False by (simp add: m)
  next
    case True
    have "unat (lane_base tx) + key_cost (length p) \<le> lane_end rx"
      using Cons.prems(7) len(2) by (simp add: lane_end_def qtls_lens)
    moreover have "length p \<le> length ?buf" using len(1) by (simp add: qtls_lens)
    ultimately obtain rx' off where o: "open_record rx (take (30 + length p) out') ?buf
        = (Inr (\<lparr>rh_ctype = c, rh_session_id = sid, rh_key_offset = off, rh_length = of_nat (length p)\<rparr>,
            length p), rx', blit 0 p ?buf)"
      and r: "lane_base rx' = lane_base tx'" "lane_ok rx'" "win_agree (lane_window tx') (lane_window rx')"
      using seal_open_agree [OF Cons.prems(1-4) _ s, of ?buf] by auto
    obtain ks where cons: "lane_consume_through off (32 + length p) rx = Inr rx'"
      using open_record_Inr [OF Cons.prems(2) o] by auto
    have "lane_end rx' = lane_end rx"
      using lane_consume_through_Inr [OF _ _ cons] len(1) Cons.prems(2) lane_discard_end(2)
      by (simp add: lane_ok_def)
    then have "transmit ms tx' rx' = map snd (filter fst ms)"
      using Cons.prems(7) r e by (intro Cons.IH [OF ok r(2,3) _ rest]) simp_all
    then show ?thesis using s o True by (simp add: m blit_def)
  qed
qed simp

theorem qtls_survives_loss_witness:
  "transmit [(True, Hello, 1, []), (False, Data, 1, [1]), (True, Data, 1, [2])] demo_lane demo_lane
     = [(Hello, 1, []), (Data, 1, [2])]"
proof -
  have "win_agree (lane_window demo_lane) (lane_window demo_lane)" by (simp add: win_agree_def)
  then have "transmit [(True, Hello, 1, []), (False, Data, 1, [1]), (True, Data, 1, [2])] demo_lane demo_lane
      = map snd (filter fst [(True, Hello, 1, []), (False, Data, 1, [1]), (True, Data, 1, [2])])"
    by (rule qtls_survives_loss [OF demo_lane_facts(1) demo_lane_facts(1)])
      (simp_all add: demo_lane_facts qtls_lens)
  then show ?thesis by (simp del: transmit.simps)
qed

end
