(* ===== verification/Device.thy ===== *)
theory Device
  imports Inet
begin

text \<open>
  The network card interface (\<open>kernel/net/src/device.rs\<close>): the trait \<open>NetDevice\<close> as a record
  of operations, the laws the stack relies on as the locale \<open>net_device\<close>, and the loopback
  card of the kernel, a ring of four frames, which satisfies both the laws of the trait and
  those of a bounded queue.
\<close>

section \<open>The trait\<close>

record 'd nic =
  nic_mac :: "'d \<Rightarrow> mac_addr"
  nic_transmit :: "bytes \<Rightarrow> 'd \<Rightarrow> (net_error + unit) \<times> 'd"
  nic_receive :: "bytes \<Rightarrow> 'd \<Rightarrow> nat option \<times> bytes \<times> 'd"

text \<open>
  What sending relies on, and the laws of the whole trait.  The first is kept apart because a
  property of a card may be kept by \<open>transmit\<close> and not by \<open>receive\<close>.
\<close>

locale net_card =
  fixes ok :: "'d \<Rightarrow> bool" and N :: "'d nic"
  assumes mac_length: "ok d \<Longrightarrow> length (nic_mac N d) = 6"
    and transmit_ok: "ok d \<Longrightarrow> nic_transmit N f d = (r, d') \<Longrightarrow> ok d' \<and> nic_mac N d' = nic_mac N d"

locale net_device = net_card ok N for ok :: "'d \<Rightarrow> bool" and N :: "'d nic" +
  assumes receive_ok: "ok d \<Longrightarrow> nic_receive N buf d = (q, buf', d') \<Longrightarrow>
        ok d' \<and> nic_mac N d' = nic_mac N d \<and> length buf' = length buf"
    and receive_fits: "ok d \<Longrightarrow> nic_receive N buf d = (Some n, buf', d') \<Longrightarrow> n \<le> length buf"

section \<open>The loopback device\<close>

definition LOOPBACK_SLOTS :: nat where "LOOPBACK_SLOTS = 4"

record loopback =
  lb_mac :: mac_addr
  lb_slots :: "bytes list"
  lb_lens :: "nat list"
  lb_head :: nat
  lb_count :: nat

definition loopback_new :: "mac_addr \<Rightarrow> loopback" where
  "loopback_new mac =
     \<lparr>lb_mac = mac, lb_slots = replicate LOOPBACK_SLOTS (replicate MAX_FRAME 0),
      lb_lens = replicate LOOPBACK_SLOTS 0, lb_head = 0, lb_count = 0\<rparr>"

definition loopback_transmit :: "bytes \<Rightarrow> loopback \<Rightarrow> (net_error + unit) \<times> loopback" where
  "loopback_transmit frame d =
     (if MAX_FRAME < length frame then (Inl PayloadTooLarge, d)
      else if lb_count d = LOOPBACK_SLOTS then (Inl DeviceFull, d)
      else
        let slot = (lb_head d + lb_count d) mod LOOPBACK_SLOTS
        in (Inr (), d\<lparr>lb_slots := (lb_slots d)[slot := blit 0 frame (lb_slots d ! slot)],
                     lb_lens := (lb_lens d)[slot := length frame], lb_count := lb_count d + 1\<rparr>))"

definition loopback_receive :: "bytes \<Rightarrow> loopback \<Rightarrow> nat option \<times> bytes \<times> loopback" where
  "loopback_receive buf d =
     (if lb_count d = 0 then (None, buf, d)
      else
        let n = min (lb_lens d ! lb_head d) (length buf);
            slot = lb_slots d ! lb_head d
        in (Some n, blit 0 (take n slot) buf,
            d\<lparr>lb_slots := (lb_slots d)[lb_head d := blit 0 (replicate n 0) slot],
              lb_head := (lb_head d + 1) mod LOOPBACK_SLOTS, lb_count := lb_count d - 1\<rparr>))"

definition loopback_nic :: "loopback nic" where
  "loopback_nic = \<lparr>nic_mac = lb_mac, nic_transmit = loopback_transmit, nic_receive = loopback_receive\<rparr>"

lemma loopback_nic_simps [simp]:
  "nic_mac loopback_nic = lb_mac" "nic_transmit loopback_nic = loopback_transmit"
  "nic_receive loopback_nic = loopback_receive"
  by (simp_all add: loopback_nic_def)

definition loopback_inv :: "loopback \<Rightarrow> bool" where
  "loopback_inv d \<longleftrightarrow>
     length (lb_mac d) = 6 \<and> length (lb_slots d) = LOOPBACK_SLOTS \<and> length (lb_lens d) = LOOPBACK_SLOTS \<and>
     lb_head d < LOOPBACK_SLOTS \<and> lb_count d \<le> LOOPBACK_SLOTS \<and>
     (\<forall>i < LOOPBACK_SLOTS. length (lb_slots d ! i) = MAX_FRAME \<and> lb_lens d ! i \<le> MAX_FRAME)"

text \<open>The frames on the wire, oldest first.\<close>

definition loopback_frames :: "loopback \<Rightarrow> bytes list" where
  "loopback_frames d = ring_view (slot_view (lb_slots d) (lb_lens d)) (lb_head d) (lb_count d)"

lemma LOOPBACK_SLOTS_pos [simp]: "0 < LOOPBACK_SLOTS"
  by (simp add: LOOPBACK_SLOTS_def)

lemma loopback_inv_new: "length mac = 6 \<Longrightarrow> loopback_inv (loopback_new mac)"
  by (simp add: loopback_inv_def loopback_new_def)

lemma loopback_frames_new [simp]: "loopback_frames (loopback_new mac) = []"
  by (simp add: loopback_frames_def loopback_new_def)

lemma length_loopback_frames [simp]: "length (loopback_frames d) = lb_count d"
  by (simp add: loopback_frames_def)

lemma loopback_transmit_full:
  "loopback_inv d \<Longrightarrow> length f \<le> MAX_FRAME \<Longrightarrow> lb_count d = LOOPBACK_SLOTS \<Longrightarrow>
   loopback_transmit f d = (Inl DeviceFull, d)"
  by (simp add: loopback_transmit_def)

lemma loopback_transmit_room:
  assumes "loopback_inv d" and "length f \<le> MAX_FRAME" and "lb_count d < LOOPBACK_SLOTS"
  obtains d' where "loopback_transmit f d = (Inr (), d')" and "loopback_inv d'"
    and "loopback_frames d' = loopback_frames d @ [f]" and "lb_mac d' = lb_mac d"
proof -
  let ?slot = "(lb_head d + lb_count d) mod LOOPBACK_SLOTS"
  let ?new = "blit 0 f (lb_slots d ! ?slot)"
  define d' where "d' = d\<lparr>lb_slots := (lb_slots d)[?slot := ?new],
      lb_lens := (lb_lens d)[?slot := length f], lb_count := lb_count d + 1\<rparr>"
  have s: "?slot < LOOPBACK_SLOTS" by simp
  have l: "length (lb_slots d ! ?slot) = MAX_FRAME" "length (lb_slots d) = LOOPBACK_SLOTS"
    "length (lb_lens d) = LOOPBACK_SLOTS"
    using assms(1) s by (simp_all add: loopback_inv_def)
  have "length ?new = MAX_FRAME" using l assms(2) by simp
  then have inv: "loopback_inv d'"
    using assms s by (auto simp: loopback_inv_def d'_def nth_list_update)
  have fr: "loopback_frames d' = loopback_frames d @ [f]"
    using assms(2,3) l ring_view_push [of "lb_count d" "slot_view (lb_slots d) (lb_lens d)" "lb_head d" f]
    by (simp add: loopback_frames_def d'_def slot_view_store)
  have tr: "loopback_transmit f d = (Inr (), d')"
    using assms by (simp add: loopback_transmit_def d'_def Let_def)
  have "lb_mac d' = lb_mac d" by (simp add: d'_def)
  with tr inv fr show thesis by (rule that)
qed

lemma loopback_receive_empty: "lb_count d = 0 \<Longrightarrow> loopback_receive buf d = (None, buf, d)"
  by (simp add: loopback_receive_def)

lemma loopback_receive_front:
  assumes "loopback_inv d" and "lb_count d \<noteq> 0" and "MAX_FRAME \<le> length buf"
  obtains f d' where "loopback_receive buf d = (Some (length f), blit 0 f buf, d')" and "loopback_inv d'"
    and "loopback_frames d = f # loopback_frames d'" and "lb_mac d' = lb_mac d"
    and "length f \<le> MAX_FRAME"
proof -
  let ?h = "lb_head d" and ?m = "slot_view (lb_slots d) (lb_lens d)"
  let ?n = "lb_lens d ! ?h" and ?slot = "lb_slots d ! lb_head d"
  have h: "?h < LOOPBACK_SLOTS" and l: "length (lb_slots d) = LOOPBACK_SLOTS"
    "length (lb_lens d) = LOOPBACK_SLOTS" "length ?slot = MAX_FRAME" "?n \<le> MAX_FRAME"
    using assms(1) by (simp_all add: loopback_inv_def)
  define f where "f = take ?n ?slot"
  have f: "length f = ?n" "?m ! ?h = f" using h l by (simp_all add: f_def)
  define d' where "d' = d\<lparr>lb_slots := (lb_slots d)[?h := blit 0 (replicate ?n 0) ?slot],
      lb_head := (?h + 1) mod LOOPBACK_SLOTS, lb_count := lb_count d - 1\<rparr>"
  have "length (blit 0 (replicate ?n 0) ?slot) = MAX_FRAME" using l by (subst length_blit) simp_all
  then have "loopback_inv d'"
    using assms(1) h by (auto simp: loopback_inv_def d'_def nth_list_update)
  moreover have "loopback_receive buf d = (Some (length f), blit 0 f buf, d')"
    using assms(2,3) l f by (simp add: loopback_receive_def d'_def f_def Let_def min_absorb1)
  moreover have "loopback_frames d = f # loopback_frames d'"
  proof -
    obtain k where k: "lb_count d = Suc k" using assms(2) by (cases "lb_count d") auto
    have ml: "length ?m = LOOPBACK_SLOTS" using l by simp
    have kl: "k < LOOPBACK_SLOTS" using assms(1) k by (simp add: loopback_inv_def)
    have "loopback_frames d' = ring_view ?m ((?h + 1) mod length ?m) k"
      using k kl h l ring_view_next_update [of ?h ?m k]
      by (simp add: loopback_frames_def d'_def slot_view_clear)
    moreover have "loopback_frames d = ?m ! ?h # ring_view ?m ((?h + 1) mod length ?m) k"
      unfolding loopback_frames_def k by (rule ring_view_Suc_left) (simp only: ml h)
    ultimately show ?thesis using f by simp
  qed
  moreover have "lb_mac d' = lb_mac d" "length f \<le> MAX_FRAME" using f l by (simp_all add: d'_def)
  ultimately show thesis by (intro that)
qed

text \<open>The loopback card satisfies the laws of the trait.\<close>

interpretation lbn: net_device loopback_inv loopback_nic
proof unfold_locales
  fix d d' :: loopback and f buf buf' r q n
  show "loopback_inv d \<Longrightarrow> length (nic_mac loopback_nic d) = 6" by (simp add: loopback_inv_def)
  show "loopback_inv d' \<and> nic_mac loopback_nic d' = nic_mac loopback_nic d"
    if i: "loopback_inv d" and t: "nic_transmit loopback_nic f d = (r, d')"
  proof (cases "length f \<le> MAX_FRAME \<and> lb_count d < LOOPBACK_SLOTS")
    case True
    then obtain d2 where "loopback_transmit f d = (Inr (), d2)" "loopback_inv d2" "lb_mac d2 = lb_mac d"
      using loopback_transmit_room [OF i, of f] by metis
    then show ?thesis using i t by simp
  next
    case False
    then have "d' = d"
      using i t by (auto simp: loopback_transmit_def loopback_inv_def Let_def split: if_splits)
    then show ?thesis using i t by simp
  qed
  show "loopback_inv d' \<and> nic_mac loopback_nic d' = nic_mac loopback_nic d \<and> length buf' = length buf"
    if i: "loopback_inv d" and r: "nic_receive loopback_nic buf d = (q, buf', d')"
  proof (cases "lb_count d = 0")
    case False
    let ?n = "min (lb_lens d ! lb_head d) (length buf)" and ?s = "lb_slots d ! lb_head d"
    have l: "length ?s = MAX_FRAME" "lb_lens d ! lb_head d \<le> MAX_FRAME" using i by (simp_all add: loopback_inv_def)
    have "length (blit 0 (take ?n ?s) buf) = length buf"
      by (rule length_blit) simp
    moreover have "length (blit 0 (replicate ?n 0) ?s) = MAX_FRAME"
      using l by (subst length_blit) simp_all
    ultimately show ?thesis
      using i r False by (auto simp: loopback_receive_def loopback_inv_def Let_def nth_list_update)
  next
    case True
    then show ?thesis using i r by (simp add: loopback_receive_def)
  qed
  show "loopback_inv d \<Longrightarrow> nic_receive loopback_nic buf d = (Some n, buf', d') \<Longrightarrow> n \<le> length buf"
    by (auto simp: loopback_receive_def Let_def split: if_splits)
qed

text \<open>Seen through a buffer of \<open>MAX_FRAME\<close> bytes it is a bounded first-in first-out queue.\<close>

definition lb_push :: "bytes \<Rightarrow> loopback \<Rightarrow> loopback option" where
  "lb_push f d = (case loopback_transmit f d of (Inl _, _) \<Rightarrow> None | (Inr _, d') \<Rightarrow> Some d')"

definition lb_pop :: "loopback \<Rightarrow> (bytes \<times> loopback) option" where
  "lb_pop d = (case loopback_receive (replicate MAX_FRAME 0) d of
     (None, _, _) \<Rightarrow> None | (Some n, buf, d') \<Rightarrow> Some (take n buf, d'))"

interpretation lbq: bounded_fifo loopback_inv loopback_frames LOOPBACK_SLOTS
    "\<lambda>f. length f \<le> MAX_FRAME" lb_push lb_pop
proof unfold_locales
  fix q q' :: loopback and x :: bytes
  assume i: "loopback_inv q"
  show "length (loopback_frames q) \<le> LOOPBACK_SLOTS" using i by (simp add: loopback_inv_def)
  show "lb_push x q = None \<longleftrightarrow> length (loopback_frames q) = LOOPBACK_SLOTS" if "length x \<le> MAX_FRAME"
    using i that loopback_transmit_full [OF i that]
    by (auto simp: lb_push_def loopback_transmit_def loopback_inv_def Let_def)
  show "loopback_inv q' \<and> loopback_frames q' = loopback_frames q @ [x]"
    if x: "length x \<le> MAX_FRAME" and p: "lb_push x q = Some q'"
  proof -
    have "lb_count q < LOOPBACK_SLOTS"
      using i x p loopback_transmit_full [OF i x]
      by (cases "lb_count q = LOOPBACK_SLOTS") (auto simp: lb_push_def loopback_inv_def)
    then obtain d' where "loopback_transmit x q = (Inr (), d')" "loopback_inv d'"
      "loopback_frames d' = loopback_frames q @ [x]"
      using loopback_transmit_room [OF i x] by metis
    then show ?thesis using p by (simp add: lb_push_def)
  qed
  show "lb_pop q = None \<longleftrightarrow> loopback_frames q = []"
    by (auto simp: lb_pop_def loopback_receive_def Let_def simp flip: length_0_conv)
  show "loopback_inv q' \<and> loopback_frames q = x # loopback_frames q'" if "lb_pop q = Some (x, q')"
  proof -
    have c: "lb_count q \<noteq> 0"
      using that by (cases "lb_count q = 0") (simp_all add: lb_pop_def loopback_receive_empty)
    obtain f d' where r: "loopback_receive (replicate MAX_FRAME 0) q
        = (Some (length f), blit 0 f (replicate MAX_FRAME 0), d')" "loopback_inv d'"
      "loopback_frames q = f # loopback_frames d'" "length f \<le> MAX_FRAME"
      by (rule loopback_receive_front [OF i c, of "replicate MAX_FRAME 0"]) simp
    then have "x = f" "q' = d'" using that by (auto simp: lb_pop_def blit_def)
    then show ?thesis using r by simp
  qed
qed

end
