(* ===== verification/Stack.thy ===== *)
theory Stack
  imports Qtls Device
begin

text \<open>
  The network stack of the kernel (\<open>kernel/net/src/stack.rs\<close>, \<open>lib.rs\<close>): receive queues,
  sessions, peers, the socket calls \<open>listen\<close>, \<open>connect\<close>, \<open>accept\<close>, \<open>send\<close>, \<open>recv\<close>,
  \<open>close\<close>, and the receive path \<open>poll\<close> / \<open>handle_frame\<close> / \<open>handle_arp\<close> / \<open>handle_ipv4\<close> /
  \<open>handle_qtls\<close>.  The card is any value \<open>N\<close> of the trait \<open>nic\<close>.  This theory holds the
  definitions and the queue; \<open>Stack_Props\<close> has the invariant and the properties.
\<close>

unbundle bit_operations_syntax

definition MAX_PEERS :: nat where "MAX_PEERS = 2"
definition MAX_SESSIONS :: nat where "MAX_SESSIONS = 4"
definition MAX_LISTEN :: nat where "MAX_LISTEN = 4"
definition RX_SLOTS :: nat where "RX_SLOTS = 4"
definition EPHEMERAL_BASE :: u16 where "EPHEMERAL_BASE = 49152"

section \<open>Receive queues\<close>

datatype session_state = Free | HelloSent | Established | Closed

record rx_queue =
  rxq_msgs :: "bytes list"
  rxq_lens :: "nat list"
  rxq_head :: nat
  rxq_count :: nat

definition rxq_new :: rx_queue where
  "rxq_new = \<lparr>rxq_msgs = replicate RX_SLOTS (replicate MAX_RECORD_PAYLOAD 0),
              rxq_lens = replicate RX_SLOTS 0, rxq_head = 0, rxq_count = 0\<rparr>"

definition rxq_push :: "bytes \<Rightarrow> rx_queue \<Rightarrow> bool \<times> rx_queue" where
  "rxq_push data q =
     (if rxq_count q = RX_SLOTS then (False, q)
      else
        let s = (rxq_head q + rxq_count q) mod RX_SLOTS
        in (True, q\<lparr>rxq_msgs := (rxq_msgs q)[s := blit 0 data (rxq_msgs q ! s)],
                    rxq_lens := (rxq_lens q)[s := length data], rxq_count := rxq_count q + 1\<rparr>))"

definition rxq_pop :: "bytes \<Rightarrow> rx_queue \<Rightarrow> nat option \<times> bytes \<times> rx_queue" where
  "rxq_pop out q =
     (if rxq_count q = 0 then (None, out, q)
      else
        let n = rxq_lens q ! rxq_head q
        in if length out < n then (None, out, q)
           else (Some n, blit 0 (take n (rxq_msgs q ! rxq_head q)) out,
                 q\<lparr>rxq_msgs := (rxq_msgs q)[rxq_head q := map (\<lambda>_. 0) (rxq_msgs q ! rxq_head q)],
                   rxq_head := (rxq_head q + 1) mod RX_SLOTS, rxq_count := rxq_count q - 1\<rparr>))"

definition rxq_wipe :: "rx_queue \<Rightarrow> rx_queue" where
  "rxq_wipe q = q\<lparr>rxq_msgs := map (map (\<lambda>_. 0)) (rxq_msgs q), rxq_count := 0\<rparr>"

section \<open>Sessions, peers, the stack\<close>

record session =
  ses_state :: session_state
  ses_id :: u16
  ses_peer_ip :: ipv4_addr
  ses_peer_port :: u16
  ses_local_port :: u16
  ses_accepted :: bool
  ses_rx :: rx_queue

definition session_empty :: session where
  "session_empty =
     \<lparr>ses_state = Free, ses_id = 0, ses_peer_ip = replicate 4 0, ses_peer_port = 0,
      ses_local_port = 0, ses_accepted = True, ses_rx = rxq_new\<rparr>"

record peer =
  peer_ip :: "ipv4_addr option"
  peer_keys :: peer_keys

record 'd net_stack =
  ns_dev :: 'd
  ns_ip :: ipv4_addr
  ns_arp :: arp_cache
  ns_peers :: "peer list"
  ns_sessions :: "session list"
  ns_listen :: "u16 list"
  ns_ip_id :: u16
  ns_next_session :: u16

definition stack_new :: "'d \<Rightarrow> 'd net_stack" where
  "stack_new dev =
     \<lparr>ns_dev = dev, ns_ip = replicate 4 0, ns_arp = arp_cache_new,
      ns_peers = replicate MAX_PEERS \<lparr>peer_ip = None, peer_keys = peer_keys_new RoleA\<rparr>,
      ns_sessions = replicate MAX_SESSIONS session_empty, ns_listen = replicate MAX_LISTEN 0,
      ns_ip_id = 1, ns_next_session = 1\<rparr>"

definition stack_configure :: "ipv4_addr \<Rightarrow> 'd net_stack \<Rightarrow> 'd net_stack" where
  "stack_configure ip s = s\<lparr>ns_ip := ip\<rparr>"

definition peer_index :: "ipv4_addr \<Rightarrow> 'd net_stack \<Rightarrow> nat option" where
  "peer_index ip s = position (\<lambda>p. peer_ip p = Some ip) (ns_peers s)"

definition register_peer :: "ipv4_addr \<Rightarrow> link_role \<Rightarrow> 'd net_stack \<Rightarrow> (net_error + unit) \<times> 'd net_stack" where
  "register_peer ip role s =
     (if peer_index ip s \<noteq> None then (Inr (), s)
      else case position (\<lambda>p. peer_ip p = None) (ns_peers s) of
        None \<Rightarrow> (Inl TableFull, s)
      | Some i \<Rightarrow>
          let p = ns_peers s ! i
          in (Inr (), s\<lparr>ns_peers := (ns_peers s)[i := p\<lparr>peer_ip := Some ip,
                         peer_keys := (peer_keys p)\<lparr>pk_role := role\<rparr>\<rparr>]\<rparr>))"

definition set_keys :: "nat \<Rightarrow> peer_keys \<Rightarrow> 'd net_stack \<Rightarrow> 'd net_stack" where
  "set_keys pi k s = s\<lparr>ns_peers := (ns_peers s)[pi := (ns_peers s ! pi)\<lparr>peer_keys := k\<rparr>]\<rparr>"

definition set_session :: "nat \<Rightarrow> session \<Rightarrow> 'd net_stack \<Rightarrow> 'd net_stack" where
  "set_session si v s = s\<lparr>ns_sessions := (ns_sessions s)[si := v]\<rparr>"

definition keys_of :: "'d net_stack \<Rightarrow> nat \<Rightarrow> peer_keys" where
  "keys_of s pi = peer_keys (ns_peers s ! pi)"

definition deposit_key_block ::
  "ipv4_addr \<Rightarrow> u64 \<Rightarrow> bytes \<Rightarrow> 'd net_stack \<Rightarrow> (net_error + unit) \<times> 'd net_stack" where
  "deposit_key_block ip seqno key s =
     (case peer_index ip s of
        None \<Rightarrow> (Inl NoPeer, s)
      | Some i \<Rightarrow>
          (case peer_deposit_block seqno key (keys_of s i) of
             Inl e \<Rightarrow> (Inl (Key e), s)
           | Inr k \<Rightarrow> (Inr (), set_keys i k s)))"

definition key_available :: "ipv4_addr \<Rightarrow> 'd net_stack \<Rightarrow> (nat \<times> nat) option" where
  "key_available ip s =
     (case peer_index ip s of
        None \<Rightarrow> None
      | Some i \<Rightarrow> Some (lane_available (peer_tx (keys_of s i)), lane_available (peer_rx (keys_of s i))))"

definition wipe_keys :: "'d net_stack \<Rightarrow> 'd net_stack" where
  "wipe_keys s =
     s\<lparr>ns_peers := map (\<lambda>p. p\<lparr>peer_keys := peer_wipe (peer_keys p)\<rparr>) (ns_peers s),
       ns_sessions := map (\<lambda>v. v\<lparr>ses_rx := rxq_wipe (ses_rx v)\<rparr>) (ns_sessions s)\<rparr>"

section \<open>Sending\<close>

definition L3 :: nat where "L3 = ETH_HDR_LEN"
definition L4 :: nat where "L4 = L3 + IPV4_HDR_LEN"
definition L7 :: nat where "L7 = L4 + UDP_HDR_LEN"

definition send_frame :: "'d nic \<Rightarrow> bytes \<Rightarrow> 'd net_stack \<Rightarrow> (net_error + unit) \<times> 'd net_stack" where
  "send_frame N f s = (let (r, d) = nic_transmit N f (ns_dev s) in (r, s\<lparr>ns_dev := d\<rparr>))"

definition send_arp ::
  "'d nic \<Rightarrow> mac_addr \<Rightarrow> arp_packet \<Rightarrow> 'd net_stack \<Rightarrow> (net_error + unit) \<times> 'd net_stack" where
  "send_arp N dst pkt s =
     (let f = replicate (ETH_HDR_LEN + ARP_LEN) 0;
          f = eth_write \<lparr>eth_dst = dst, eth_src = nic_mac N (ns_dev s), eth_type = ETHERTYPE_ARP\<rparr> f;
          f = take ETH_HDR_LEN f @ arp_write pkt (drop ETH_HDR_LEN f)
      in send_frame N f s)"

definition resolve :: "'d nic \<Rightarrow> ipv4_addr \<Rightarrow> 'd net_stack \<Rightarrow> (net_error + mac_addr) \<times> 'd net_stack" where
  "resolve N ip s =
     (case arp_lookup ip (ns_arp s) of
        Some mac \<Rightarrow> (Inr mac, s)
      | None \<Rightarrow>
          let req = \<lparr>arp_op = OP_REQUEST, arp_sha = nic_mac N (ns_dev s), arp_spa = ns_ip s,
                     arp_tha = replicate 6 0, arp_tpa = ip\<rparr>
          in case send_arp N BROADCAST req s of
               (Inl e, s) \<Rightarrow> (Inl e, s)
             | (Inr _, s) \<Rightarrow> (Inl ArpPending, s))"

definition send_udp ::
  "'d nic \<Rightarrow> mac_addr \<Rightarrow> ipv4_addr \<Rightarrow> u16 \<Rightarrow> u16 \<Rightarrow> bytes \<Rightarrow> 'd net_stack
   \<Rightarrow> (net_error + unit) \<times> 'd net_stack" where
  "send_udp N dst_mac dst sport dport payload s =
     (let total = L7 + length payload
      in if MAX_FRAME < total then (Inl PayloadTooLarge, s)
         else
           let f = replicate MAX_FRAME 0;
               f = eth_write \<lparr>eth_dst = dst_mac, eth_src = nic_mac N (ns_dev s),
                             eth_type = ETHERTYPE_IPV4\<rparr> f;
               f = blit L7 payload f;
               (udp_len, seg) = udp_finish \<lparr>udp_src_port = sport, udp_dst_port = dport\<rparr>
                                  (ns_ip s) dst (length payload) (drop L4 f);
               f = take L4 f @ seg;
               ident = ns_ip_id s;
               s = s\<lparr>ns_ip_id := ns_ip_id s + 1\<rparr>;
               f = take L3 f @ ipv4_write (ns_ip s) dst PROTO_UDP ident udp_len (drop L3 f)
           in send_frame N (take total f) s)"

definition send_record ::
  "'d nic \<Rightarrow> nat \<Rightarrow> nat \<Rightarrow> content_type \<Rightarrow> bytes \<Rightarrow> 'd net_stack
   \<Rightarrow> (net_error + unit) \<times> 'd net_stack" where
  "send_record N pi si ctype data s =
     (let v = ns_sessions s ! si
      in case resolve N (ses_peer_ip v) s of
           (Inl e, s) \<Rightarrow> (Inl e, s)
         | (Inr dst_mac, s) \<Rightarrow>
             let k = keys_of s pi
             in case seal (peer_tx k) ctype (ses_id v) data (replicate MAX_RECORD_LEN 0) of
                  (Inl e, tx, rc) \<Rightarrow> (Inl e, set_keys pi (peer_set_tx tx k) s)
                | (Inr n, tx, rc) \<Rightarrow>
                    send_udp N dst_mac (ses_peer_ip v) (ses_local_port v) (ses_peer_port v) (take n rc)
                      (set_keys pi (peer_set_tx tx k) s))"

section \<open>The socket calls\<close>

definition stack_listen :: "u16 \<Rightarrow> 'd net_stack \<Rightarrow> (net_error + unit) \<times> 'd net_stack" where
  "stack_listen port s =
     (if port \<in> set (ns_listen s) then (Inr (), s)
      else case position (\<lambda>p. p = 0) (ns_listen s) of
        None \<Rightarrow> (Inl TableFull, s)
      | Some i \<Rightarrow> (Inr (), s\<lparr>ns_listen := (ns_listen s)[i := port]\<rparr>))"

definition connect :: "'d nic \<Rightarrow> ipv4_addr \<Rightarrow> u16 \<Rightarrow> 'd net_stack \<Rightarrow> (net_error + nat) \<times> 'd net_stack" where
  "connect N ip port s =
     (case peer_index ip s of
        None \<Rightarrow> (Inl NoPeer, s)
      | Some pi \<Rightarrow>
          (case resolve N ip s of
             (Inl e, s) \<Rightarrow> (Inl e, s)
           | (Inr _, s) \<Rightarrow>
               (case position (\<lambda>v. ses_state v = Free) (ns_sessions s) of
                  None \<Rightarrow> (Inl TableFull, s)
                | Some si \<Rightarrow>
                    let ident = ns_next_session s;
                        s = s\<lparr>ns_next_session := max (ns_next_session s + 1) 1\<rparr>;
                        local_port = EPHEMERAL_BASE + ident mod 16384;
                        s = set_session si \<lparr>ses_state = HelloSent, ses_id = ident, ses_peer_ip = ip,
                              ses_peer_port = port, ses_local_port = local_port, ses_accepted = True,
                              ses_rx = rxq_new\<rparr> s
                    in case send_record N pi si Hello [] s of
                         (Inl e, s) \<Rightarrow>
                           (Inl e, set_session si ((ns_sessions s ! si)\<lparr>ses_state := Free\<rparr>) s)
                       | (Inr _, s) \<Rightarrow> (Inr si, s))))"

definition accept :: "u16 \<Rightarrow> 'd net_stack \<Rightarrow> nat option \<times> 'd net_stack" where
  "accept port s =
     (case position (\<lambda>v. ses_state v = Established \<and> \<not> ses_accepted v \<and> ses_local_port v = port)
             (ns_sessions s) of
        None \<Rightarrow> (None, s)
      | Some si \<Rightarrow> (Some si, set_session si ((ns_sessions s ! si)\<lparr>ses_accepted := True\<rparr>) s))"

definition stack_state :: "nat \<Rightarrow> 'd net_stack \<Rightarrow> session_state" where
  "stack_state h s = (if h < length (ns_sessions s) then ses_state (ns_sessions s ! h) else Free)"

definition stack_send :: "'d nic \<Rightarrow> nat \<Rightarrow> bytes \<Rightarrow> 'd net_stack \<Rightarrow> (net_error + nat) \<times> 'd net_stack" where
  "stack_send N h data s =
     (if length (ns_sessions s) \<le> h then (Inl NoSession, s)
      else
        let v = ns_sessions s ! h
        in if ses_state v \<noteq> Established then (Inl NotEstablished, s)
           else case peer_index (ses_peer_ip v) s of
             None \<Rightarrow> (Inl NoPeer, s)
           | Some pi \<Rightarrow>
               let n = min (length data) MAX_RECORD_PAYLOAD
               in case send_record N pi h Data (take n data) s of
                    (Inl e, s) \<Rightarrow> (Inl e, s)
                  | (Inr _, s) \<Rightarrow> (Inr n, s))"

definition stack_recv :: "nat \<Rightarrow> bytes \<Rightarrow> 'd net_stack \<Rightarrow> (net_error + nat) \<times> bytes \<times> 'd net_stack" where
  "stack_recv h out s =
     (if length (ns_sessions s) \<le> h then (Inl NoSession, out, s)
      else
        let v = ns_sessions s ! h
        in case rxq_pop out (ses_rx v) of
             (Some n, out, q) \<Rightarrow> (Inr n, out, set_session h (v\<lparr>ses_rx := q\<rparr>) s)
           | (None, out, q) \<Rightarrow>
               (case ses_state v of
                  Closed \<Rightarrow> (Inr 0, out, s)
                | Free \<Rightarrow> (Inl NoSession, out, s)
                | _ \<Rightarrow> (Inl WouldBlock, out, s)))"

definition stack_close :: "'d nic \<Rightarrow> nat \<Rightarrow> 'd net_stack \<Rightarrow> (net_error + unit) \<times> 'd net_stack" where
  "stack_close N h s =
     (if length (ns_sessions s) \<le> h then (Inl NoSession, s)
      else
        let v = ns_sessions s ! h;
            s = (if ses_state v = Established then
                   (case peer_index (ses_peer_ip v) s of
                      None \<Rightarrow> s
                    | Some pi \<Rightarrow> snd (send_record N pi h Close [] s))
                 else s);
            s = set_session h ((ns_sessions s ! h)\<lparr>ses_rx := rxq_wipe (ses_rx (ns_sessions s ! h))\<rparr>) s
        in (Inr (), set_session h session_empty s))"

section \<open>Receiving\<close>

definition handle_arp :: "'d nic \<Rightarrow> bytes \<Rightarrow> 'd net_stack \<Rightarrow> 'd net_stack" where
  "handle_arp N p s =
     (case arp_parse p of
        None \<Rightarrow> s
      | Some a \<Rightarrow>
          if arp_tpa a \<noteq> ns_ip s then s
          else
            let s = (if peer_index (arp_spa a) s \<noteq> None
                     then s\<lparr>ns_arp := arp_insert (arp_spa a) (arp_sha a) (ns_arp s)\<rparr> else s)
            in if arp_op a = OP_REQUEST
               then snd (send_arp N (arp_sha a) \<lparr>arp_op = OP_REPLY, arp_sha = nic_mac N (ns_dev s),
                      arp_spa = ns_ip s, arp_tha = arp_sha a, arp_tpa = arp_spa a\<rparr> s)
               else s)"

definition find_session :: "ipv4_addr \<Rightarrow> u16 \<Rightarrow> u16 \<Rightarrow> u16 \<Rightarrow> 'd net_stack \<Rightarrow> nat option" where
  "find_session src src_port dst_port session_id s =
     position (\<lambda>v. ses_state v \<noteq> Free \<and> ses_peer_ip v = src \<and> ses_peer_port v = src_port \<and>
        ses_local_port v = dst_port \<and> ses_id v = session_id) (ns_sessions s)"

text \<open>The last part of \<open>handle_qtls\<close>: what an authentic record does to its session.\<close>

definition deliver_record ::
  "'d nic \<Rightarrow> nat \<Rightarrow> nat option \<Rightarrow> ipv4_addr \<Rightarrow> u16 \<Rightarrow> u16 \<Rightarrow> record_header \<Rightarrow> bytes \<Rightarrow> 'd net_stack
   \<Rightarrow> 'd net_stack" where
  "deliver_record N pi existing src src_port dst_port hdr pt s =
     (case (rh_ctype hdr, existing) of
        (Hello, None) \<Rightarrow>
          (case position (\<lambda>v. ses_state v = Free) (ns_sessions s) of
             None \<Rightarrow> s
           | Some si \<Rightarrow>
               snd (send_record N pi si HelloAck []
                 (set_session si \<lparr>ses_state = Established, ses_id = rh_session_id hdr,
                    ses_peer_ip = src, ses_peer_port = src_port, ses_local_port = dst_port,
                    ses_accepted = False, ses_rx = rxq_new\<rparr> s)))
      | (HelloAck, Some si) \<Rightarrow>
          if ses_state (ns_sessions s ! si) = HelloSent
          then set_session si ((ns_sessions s ! si)\<lparr>ses_state := Established\<rparr>) s else s
      | (Data, Some si) \<Rightarrow>
          if ses_state (ns_sessions s ! si) = Established
          then set_session si ((ns_sessions s ! si)
                 \<lparr>ses_rx := snd (rxq_push pt (ses_rx (ns_sessions s ! si)))\<rparr>) s
          else s
      | (Close, Some si) \<Rightarrow> set_session si ((ns_sessions s ! si)\<lparr>ses_state := Closed\<rparr>) s
      | _ \<Rightarrow> s)"

definition handle_qtls ::
  "'d nic \<Rightarrow> ipv4_addr \<Rightarrow> u16 \<Rightarrow> u16 \<Rightarrow> bytes \<Rightarrow> 'd net_stack \<Rightarrow> 'd net_stack" where
  "handle_qtls N src src_port dst_port rc s =
     (case peer_index src s of
        None \<Rightarrow> s
      | Some pi \<Rightarrow>
          (case header_parse rc of
             Inl _ \<Rightarrow> s
           | Inr hdr \<Rightarrow>
               let existing = find_session src src_port dst_port (rh_session_id hdr) s;
                   fresh_hello = (rh_ctype hdr = Hello \<and> existing = None \<and> dst_port \<in> set (ns_listen s))
               in if existing = None \<and> \<not> fresh_hello then s
                  else
                    let k = keys_of s pi
                    in case open_record (peer_rx k) rc (replicate MAX_RECORD_PAYLOAD 0) of
                         (Inl _, rx, pt) \<Rightarrow> set_keys pi (peer_set_rx rx k) s
                       | (Inr (hdr, len), rx, pt) \<Rightarrow>
                           deliver_record N pi existing src src_port dst_port hdr (take len pt)
                             (set_keys pi (peer_set_rx rx k) s)))"

definition handle_ipv4 :: "'d nic \<Rightarrow> bytes \<Rightarrow> 'd net_stack \<Rightarrow> 'd net_stack" where
  "handle_ipv4 N p s =
     (case ipv4_parse p of
        None \<Rightarrow> s
      | Some (ip, seg) \<Rightarrow>
          if ip_dst ip \<noteq> ns_ip s \<or> ip_protocol ip \<noteq> PROTO_UDP then s
          else case udp_parse (ip_src ip) (ip_dst ip) seg of
            None \<Rightarrow> s
          | Some (udp, rc) \<Rightarrow> handle_qtls N (ip_src ip) (udp_src_port udp) (udp_dst_port udp) rc s)"

definition handle_frame :: "'d nic \<Rightarrow> bytes \<Rightarrow> 'd net_stack \<Rightarrow> 'd net_stack" where
  "handle_frame N frame s =
     (case eth_parse frame of
        None \<Rightarrow> s
      | Some (eth, payload) \<Rightarrow>
          if eth_dst eth \<noteq> nic_mac N (ns_dev s) \<and> eth_dst eth \<noteq> BROADCAST then s
          else if eth_type eth = ETHERTYPE_ARP then handle_arp N payload s
          else if eth_type eth = ETHERTYPE_IPV4 then handle_ipv4 N payload s
          else s)"

text \<open>
  \<open>poll\<close> runs until the card has no more frames; a card that always has one (or a loopback card
  whose replies keep coming back) keeps it running, so the loop has fuel and running out is the
  value \<open>None\<close>.
\<close>

fun poll_loop :: "nat \<Rightarrow> 'd nic \<Rightarrow> bytes \<Rightarrow> 'd net_stack \<Rightarrow> (nat \<times> 'd net_stack) option" where
  "poll_loop 0 N frame s = None"
| "poll_loop (Suc fuel) N frame s =
     (case nic_receive N frame (ns_dev s) of
        (None, frame, d) \<Rightarrow> Some (0, s\<lparr>ns_dev := d\<rparr>)
      | (Some len, frame, d) \<Rightarrow>
          map_option (\<lambda>(n, s). (n + 1, s))
            (poll_loop fuel N frame (handle_frame N (take len frame) (s\<lparr>ns_dev := d\<rparr>))))"

definition poll :: "nat \<Rightarrow> 'd nic \<Rightarrow> 'd net_stack \<Rightarrow> (nat \<times> 'd net_stack) option" where
  "poll fuel N s = poll_loop fuel N (replicate MAX_FRAME 0) s"

section \<open>The receive queue is a bounded queue\<close>

definition rxq_inv :: "rx_queue \<Rightarrow> bool" where
  "rxq_inv q \<longleftrightarrow>
     length (rxq_msgs q) = RX_SLOTS \<and> length (rxq_lens q) = RX_SLOTS \<and> rxq_head q < RX_SLOTS \<and>
     rxq_count q \<le> RX_SLOTS \<and>
     (\<forall>i < RX_SLOTS. length (rxq_msgs q ! i) = MAX_RECORD_PAYLOAD \<and> rxq_lens q ! i \<le> MAX_RECORD_PAYLOAD)"

definition rxq_view :: "rx_queue \<Rightarrow> bytes list" where
  "rxq_view q = ring_view (slot_view (rxq_msgs q) (rxq_lens q)) (rxq_head q) (rxq_count q)"

lemma RX_SLOTS_pos [simp]: "0 < RX_SLOTS"
  by (simp add: RX_SLOTS_def)

lemma length_rxq_view [simp]: "length (rxq_view q) = rxq_count q"
  by (simp add: rxq_view_def)

lemma rxq_new_inv [simp]: "rxq_inv rxq_new" "rxq_view rxq_new = []"
  by (simp_all add: rxq_inv_def rxq_view_def rxq_new_def)

lemma rxq_wipe_inv [simp]: "rxq_inv q \<Longrightarrow> rxq_inv (rxq_wipe q)"
  by (simp add: rxq_inv_def rxq_wipe_def)

lemma rxq_push_cases:
  assumes "rxq_inv q" and "length data \<le> MAX_RECORD_PAYLOAD" and "rxq_push data q = (b, q')"
  shows "rxq_inv q'" and "b \<longleftrightarrow> rxq_count q < RX_SLOTS"
    and "rxq_view q' = (if b then rxq_view q @ [data] else rxq_view q)"
proof -
  have "rxq_inv q' \<and> (b \<longleftrightarrow> rxq_count q < RX_SLOTS)
      \<and> rxq_view q' = (if b then rxq_view q @ [data] else rxq_view q)"
  proof (cases "rxq_count q = RX_SLOTS")
    case True
    then show ?thesis using assms by (simp add: rxq_push_def)
  next
    case False
    let ?s = "(rxq_head q + rxq_count q) mod RX_SLOTS"
    have s: "?s < RX_SLOTS" by simp
    have l: "length (rxq_msgs q ! ?s) = MAX_RECORD_PAYLOAD" "length (rxq_msgs q) = RX_SLOTS"
      "length (rxq_lens q) = RX_SLOTS" "rxq_count q < RX_SLOTS"
      using assms(1) s False by (simp_all add: rxq_inv_def)
    have q': "b" "q' = q\<lparr>rxq_msgs := (rxq_msgs q)[?s := blit 0 data (rxq_msgs q ! ?s)],
        rxq_lens := (rxq_lens q)[?s := length data], rxq_count := rxq_count q + 1\<rparr>"
      using assms(3) False by (simp_all add: rxq_push_def Let_def)
    have "length (blit 0 data (rxq_msgs q ! ?s)) = MAX_RECORD_PAYLOAD" using l assms(2) by simp
    then have "rxq_inv q'"
      using assms(1,2) s l(4) by (auto simp: rxq_inv_def q' nth_list_update)
    moreover have "rxq_view q' = rxq_view q @ [data]"
      using assms(2) l ring_view_push [of "rxq_count q" "slot_view (rxq_msgs q) (rxq_lens q)" "rxq_head q" data]
      by (simp add: rxq_view_def q' slot_view_store)
    ultimately show ?thesis using l q' by simp
  qed
  then show "rxq_inv q'" and "b \<longleftrightarrow> rxq_count q < RX_SLOTS"
    and "rxq_view q' = (if b then rxq_view q @ [data] else rxq_view q)" by auto
qed

lemma rxq_pop_cases:
  assumes "rxq_inv q" and "rxq_pop out q = (r, out', q')"
  shows "r = None \<Longrightarrow> out' = out \<and> q' = q \<and> (rxq_view q = [] \<or> length out < length (hd (rxq_view q)))"
    and "r = Some n \<Longrightarrow> rxq_inv q' \<and> rxq_view q = take n out' # rxq_view q' \<and> n \<le> length out
          \<and> out' = blit 0 (take n out') out"
proof -
  let ?h = "rxq_head q" and ?m = "slot_view (rxq_msgs q) (rxq_lens q)"
  let ?n = "rxq_lens q ! ?h" and ?slot = "rxq_msgs q ! ?h"
  have h: "?h < RX_SLOTS" and l: "length (rxq_msgs q) = RX_SLOTS"
    "length (rxq_lens q) = RX_SLOTS" "length ?slot = MAX_RECORD_PAYLOAD" "?n \<le> MAX_RECORD_PAYLOAD"
    using assms(1) by (simp_all add: rxq_inv_def)
  have ml: "length ?m = RX_SLOTS" "?m ! ?h = take ?n ?slot" using l h by simp_all
  have hd: "rxq_view q = take ?n ?slot # ring_view ?m ((?h + 1) mod length ?m) k"
    if "rxq_count q = Suc k" for k
    unfolding rxq_view_def that ml(2) [symmetric] by (rule ring_view_Suc_left) (simp only: ml h)
  show "out' = out \<and> q' = q \<and> (rxq_view q = [] \<or> length out < length (hd (rxq_view q)))" if "r = None"
  proof (cases "rxq_count q")
    case 0
    then show ?thesis using assms(2) by (simp add: rxq_pop_def rxq_view_def)
  next
    case (Suc k)
    then have "length out < ?n" "out' = out" "q' = q"
      using assms(2) that by (auto simp: rxq_pop_def Let_def split: if_splits)
    moreover have "length (take ?n ?slot) = ?n" using l by simp
    ultimately show ?thesis using hd [OF Suc] by simp
  qed
  show "rxq_inv q' \<and> rxq_view q = take n out' # rxq_view q' \<and> n \<le> length out
      \<and> out' = blit 0 (take n out') out" if "r = Some n"
  proof -
    have c: "rxq_count q \<noteq> 0"
      using assms(2) that by (cases "rxq_count q = 0") (simp_all add: rxq_pop_def)
    then obtain k where k: "rxq_count q = Suc k" by (cases "rxq_count q") auto
    have n: "n = ?n" "n \<le> length out" "out' = blit 0 (take n ?slot) out"
      and q': "q' = q\<lparr>rxq_msgs := (rxq_msgs q)[?h := map (\<lambda>_. 0) ?slot],
        rxq_head := (?h + 1) mod RX_SLOTS, rxq_count := k\<rparr>"
      using assms(2) that c k by (auto simp: rxq_pop_def Let_def split: if_splits)
    have kl: "k < RX_SLOTS" using assms(1) k by (simp add: rxq_inv_def)
    have "rxq_inv q'" using assms(1) h kl by (auto simp: rxq_inv_def q' nth_list_update)
    moreover have "rxq_view q' = ring_view ?m ((?h + 1) mod length ?m) k"
      using kl h l ring_view_next_update [of ?h ?m k]
      by (simp add: rxq_view_def q' slot_view_clear)
    moreover have "take n out' = take ?n ?slot" using n l by (simp add: blit_def)
    ultimately show ?thesis using hd [OF k] n by simp
  qed
qed

definition rxq_push_opt :: "bytes \<Rightarrow> rx_queue \<Rightarrow> rx_queue option" where
  "rxq_push_opt data q = (case rxq_push data q of (b, q') \<Rightarrow> if b then Some q' else None)"

definition rxq_pop_opt :: "rx_queue \<Rightarrow> (bytes \<times> rx_queue) option" where
  "rxq_pop_opt q = (case rxq_pop (replicate MAX_RECORD_PAYLOAD 0) q of
     (None, _, _) \<Rightarrow> None | (Some n, out, q') \<Rightarrow> Some (take n out, q'))"

interpretation rxf: bounded_fifo rxq_inv rxq_view RX_SLOTS "\<lambda>m. length m \<le> MAX_RECORD_PAYLOAD"
    rxq_push_opt rxq_pop_opt
proof unfold_locales
  fix q q' :: rx_queue and x :: bytes
  assume i: "rxq_inv q"
  show "length (rxq_view q) \<le> RX_SLOTS" using i by (simp add: rxq_inv_def)
  have c: "rxq_count q \<le> RX_SLOTS" using i by (simp add: rxq_inv_def)
  obtain b q1 where p: "rxq_push x q = (b, q1)" by (cases "rxq_push x q")
  show "rxq_push_opt x q = None \<longleftrightarrow> length (rxq_view q) = RX_SLOTS" if "length x \<le> MAX_RECORD_PAYLOAD"
    using rxq_push_cases(2) [OF i that p] c by (auto simp: rxq_push_opt_def p)
  show "rxq_inv q' \<and> rxq_view q' = rxq_view q @ [x]"
    if "length x \<le> MAX_RECORD_PAYLOAD" "rxq_push_opt x q = Some q'"
    using rxq_push_cases [OF i that(1) p] that(2) by (auto simp: rxq_push_opt_def p split: if_splits)
  obtain r o1 q2 where o: "rxq_pop (replicate MAX_RECORD_PAYLOAD 0) q = (r, o1, q2)"
    by (cases "rxq_pop (replicate MAX_RECORD_PAYLOAD 0) q") auto
  have big: "length (hd (rxq_view q)) \<le> MAX_RECORD_PAYLOAD" if "rxq_view q \<noteq> []"
  proof -
    have "rxq_count q \<noteq> 0" using that by (cases "rxq_count q = 0") (simp_all add: rxq_view_def)
    then show ?thesis using i
      by (simp add: rxq_view_def hd_conv_nth ring_view_def rxq_inv_def)
  qed
  show "rxq_pop_opt q = None \<longleftrightarrow> rxq_view q = []"
  proof (cases r)
    case None
    then show ?thesis using rxq_pop_cases(1) [OF i o] big by (force simp: rxq_pop_opt_def o)
  next
    case (Some n)
    then show ?thesis using rxq_pop_cases(2) [OF i o Some] by (simp add: rxq_pop_opt_def o)
  qed
  show "rxq_inv q' \<and> rxq_view q = x # rxq_view q'" if "rxq_pop_opt q = Some (x, q')"
    using rxq_pop_cases(2) [OF i o] that by (cases r) (auto simp: rxq_pop_opt_def o)
qed

end
