(* ===== verification/Stack_Inv.thy ===== *)
theory Stack_Inv
  imports Stack
begin

text \<open>
  The invariant of the network stack and which parts of its state each call changes.  The
  lemmas about the card are proved inside the locales \<open>net_card\<close> and \<open>net_device\<close>, from the laws of the trait.
\<close>

unbundle bit_operations_syntax

section \<open>The parts a call changes\<close>

text \<open>The state is updated by the card, by the counter of IP packets, and by nothing else.\<close>

definition sent_from :: "'d net_stack \<Rightarrow> 'd net_stack \<Rightarrow> bool" where
  "sent_from s s' \<longleftrightarrow>
     ns_ip s' = ns_ip s \<and> ns_arp s' = ns_arp s \<and> ns_peers s' = ns_peers s \<and>
     ns_sessions s' = ns_sessions s \<and> ns_listen s' = ns_listen s \<and>
     ns_next_session s' = ns_next_session s"

lemma sent_from_refl [intro]: "sent_from s s"
  by (simp add: sent_from_def)

lemma sent_from_trans: "sent_from s t \<Longrightarrow> sent_from t u \<Longrightarrow> sent_from s u"
  by (simp add: sent_from_def)

lemmas sent_fromD = sent_from_def [THEN iffD1]

lemma send_frame_sent: "sent_from s (snd (send_frame N f s))"
  by (simp add: send_frame_def sent_from_def split: prod.splits)

lemma send_arp_sent: "sent_from s (snd (send_arp N dst pkt s))"
  by (simp add: send_arp_def send_frame_sent Let_def)

lemma resolve_sent: "sent_from s (snd (resolve N ip s))"
  using send_arp_sent [of s N BROADCAST]
  by (auto simp: resolve_def Let_def split: option.splits prod.splits sum.splits)
    (metis snd_conv)+

lemma send_udp_sent: "sent_from s (snd (send_udp N m dst sp dp pl s))"
proof -
  have "sent_from s (s\<lparr>ns_ip_id := i\<rparr>)" for i by (simp add: sent_from_def)
  then show ?thesis
    by (auto simp: send_udp_def Let_def split: prod.splits intro: sent_from_trans send_frame_sent)
qed

lemma set_keys_same [simp]: "set_keys pi (keys_of s pi) s = s"
  by (simp add: set_keys_def keys_of_def)

lemma peer_set_tx_same [simp]: "peer_set_tx (peer_tx k) k = k"
  by (simp add: peer_set_tx_def peer_tx_def)

lemma peer_set_rx_same [simp]: "peer_set_rx (peer_rx k) k = k"
  by (simp add: peer_set_rx_def peer_rx_def)

lemma keys_of_sent: "sent_from s s' \<Longrightarrow> keys_of s' pi = keys_of s pi"
  by (simp add: sent_from_def keys_of_def)

lemma set_keys_sent: "sent_from s s' \<Longrightarrow> sent_from (set_keys pi k s) (set_keys pi k s')"
  by (simp add: sent_from_def set_keys_def)

text \<open>\<open>send_record\<close> only moves the sending lane of the peer.\<close>

lemma send_record_effect:
  obtains tx where "sent_from (set_keys pi (peer_set_tx tx (keys_of s pi)) s) (snd (send_record N pi si c data s))"
    and "tx = fst (snd (seal (peer_tx (keys_of s pi)) c (ses_id (ns_sessions s ! si)) data (replicate MAX_RECORD_LEN 0)))
      \<or> tx = peer_tx (keys_of s pi)"
proof -
  let ?v = "ns_sessions s ! si" and ?k = "keys_of s pi"
  obtain r s1 where r: "resolve N (ses_peer_ip ?v) s = (r, s1)" by (cases "resolve N (ses_peer_ip ?v) s")
  have s1: "sent_from s s1" using resolve_sent [of s N "ses_peer_ip ?v"] by (simp add: r)
  obtain q tx rc where q: "seal (peer_tx ?k) c (ses_id ?v) data (replicate MAX_RECORD_LEN 0) = (q, tx, rc)"
    by (cases "seal (peer_tx ?k) c (ses_id ?v) data (replicate MAX_RECORD_LEN 0)") auto
  show thesis
  proof (cases r)
    case (Inl e)
    then show ?thesis using that [of "peer_tx ?k"] s1 by (simp add: send_record_def r)
  next
    case (Inr m)
    note k1 = set_keys_sent [OF s1, of pi "peer_set_tx tx ?k"]
    have "sent_from (set_keys pi (peer_set_tx tx ?k) s) (snd (send_record N pi si c data s))"
      using k1 q Inr sent_from_trans [OF k1 send_udp_sent]
      by (cases q) (simp_all add: send_record_def r keys_of_sent [OF s1] Let_def)
    then show ?thesis using that [of tx] q by simp
  qed
qed

section \<open>The invariant\<close>

definition session_ok :: "session \<Rightarrow> bool" where
  "session_ok v \<longleftrightarrow> rxq_inv (ses_rx v) \<and> length (ses_peer_ip v) = 4"

definition keys_ok :: "peer_keys \<Rightarrow> bool" where
  "keys_ok k \<longleftrightarrow> length (pk_lanes k) = 2 \<and> (\<forall>l \<in> set (pk_lanes k). lane_inv l)"

definition peer_ok :: "peer \<Rightarrow> bool" where
  "peer_ok p \<longleftrightarrow> keys_ok (peer_keys p) \<and> (\<forall>ip. peer_ip p = Some ip \<longrightarrow> length ip = 4)"

definition peers_distinct :: "peer list \<Rightarrow> bool" where
  "peers_distinct ps \<longleftrightarrow> (\<forall>i < length ps. \<forall>j < length ps. \<forall>ip.
     peer_ip (ps ! i) = Some ip \<longrightarrow> peer_ip (ps ! j) = Some ip \<longrightarrow> i = j)"

definition stack_inv :: "('d \<Rightarrow> bool) \<Rightarrow> 'd net_stack \<Rightarrow> bool" where
  "stack_inv ok s \<longleftrightarrow>
     ok (ns_dev s) \<and> length (ns_ip s) = 4 \<and> arp_cache_inv (ns_arp s) \<and>
     length (ns_peers s) = MAX_PEERS \<and> (\<forall>p \<in> set (ns_peers s). peer_ok p) \<and> peers_distinct (ns_peers s) \<and>
     length (ns_sessions s) = MAX_SESSIONS \<and> (\<forall>v \<in> set (ns_sessions s). session_ok v) \<and>
     length (ns_listen s) = MAX_LISTEN"

lemma keys_ok_new [simp]: "keys_ok (peer_keys_new r)"
  by (simp add: keys_ok_def peer_keys_new_def lane_inv_new)

lemma stack_inv_new: "ok d \<Longrightarrow> stack_inv ok (stack_new d)"
  by (auto simp: stack_inv_def stack_new_def arp_cache_inv_new peer_ok_def peers_distinct_def
      session_ok_def session_empty_def)

lemma keys_ok_lanes:
  assumes "keys_ok k"
  shows "lane_inv (peer_tx k)" and "lane_inv (peer_rx k)"
  using assms by (cases "pk_role k"; simp add: keys_ok_def peer_tx_def peer_rx_def rx_lane_def)+

lemma keys_ok_set:
  assumes "keys_ok k" and "lane_inv l"
  shows "keys_ok (peer_set_tx l k)" and "keys_ok (peer_set_rx l k)"
  using assms set_update_subset_insert [of "pk_lanes k"]
  by (fastforce simp: keys_ok_def peer_set_tx_def peer_set_rx_def)+

lemma keys_ok_deposit:
  assumes "keys_ok k" and "peer_deposit_block n key k = Inr k'"
  shows "keys_ok k'"
proof -
  let ?i = "unat (n AND 1)"
  have "n AND 1 \<le> 1" by (rule word_and_le1)
  then have i: "?i < 2" by (simp add: word_le_nat_alt)
  obtain l where l: "lane_deposit key (pk_lanes k ! ?i) = Inr l" and k': "k' = k\<lparr>pk_lanes := (pk_lanes k)[?i := l]\<rparr>"
    using assms(2) by (auto simp: peer_deposit_block_def Let_def split: sum.splits)
  have "lane_inv (pk_lanes k ! ?i)" using assms(1) i by (simp add: keys_ok_def)
  then have "lane_inv l" using l by (rule lane_deposit_inv)
  then show ?thesis
    using assms(1) set_update_subset_insert [of "pk_lanes k" ?i l] by (fastforce simp: keys_ok_def k')
qed

lemma keys_ok_wipe: "keys_ok k \<Longrightarrow> keys_ok (peer_wipe k)"
  by (auto simp: keys_ok_def peer_wipe_def lane_wipe_inv)

lemma seal_lane_inv:
  assumes "lane_inv l"
  shows "lane_inv (fst (snd (seal l c sid p out)))"
proof (cases "lane_take (key_cost (length p)) l")
  case (Inr r)
  obtain off ks l' where r: "r = (off, ks, l')" by (cases r)
  have tk: "lane_take (key_cost (length p)) l = Inr (off, ks, l')" using Inr r by simp
  have "lane_inv l'"
    using lane_take_Inr [OF tk] lane_discard_inv [OF assms] by simp
  then show ?thesis using assms Inr r by (simp add: seal_def Let_def)
qed (use assms in \<open>simp add: seal_def Let_def\<close>)

lemma open_lane_inv:
  assumes "lane_inv l" and "open_record l rc out = (r, l', out')"
  shows "lane_inv l'"
proof -
  have "l' = l \<or> (\<exists>h. header_parse rc = Inr h
      \<and> lane_consume_through (rh_key_offset h) (key_cost (unat (rh_length h))) l = Inr l')"
    using assms(2) by (auto simp: open_record_def Let_def split: sum.splits if_splits)
  then show ?thesis
  proof
    assume "\<exists>h. header_parse rc = Inr h
      \<and> lane_consume_through (rh_key_offset h) (key_cost (unat (rh_length h))) l = Inr l'"
    then obtain h where h: "header_parse rc = Inr h"
      and c: "lane_consume_through (rh_key_offset h) (key_cost (unat (rh_length h))) l = Inr l'" by blast
    have "key_cost (unat (rh_length h)) < 2 ^ 64"
      using header_parse_Inr(2) [OF h] by (simp add: qtls_lens)
    from lane_consume_through_Inr [OF assms(1) this c] lane_discard_inv [OF assms(1)]
    show ?thesis by simp
  qed (use assms in simp)
qed

lemma open_record_length:
  assumes "open_record l rc out = (Inr (h, n), l', out')"
  shows "length out' = length out" and "n \<le> 1400" and "n \<le> length out" and "header_parse rc = Inr h"
    and "n = unat (rh_length h)"
proof -
  show h: "header_parse rc = Inr h" "n = unat (rh_length h)" and n: "n \<le> length out"
    using assms by (auto simp: open_record_def Let_def split: sum.splits if_splits)
  then show "n \<le> 1400" using header_parse_Inr by blast
  obtain x where "out' = blit 0 (xor_bytes (slice RECORD_HDR_LEN (RECORD_HDR_LEN + n) rc) x) out"
    using assms by (auto simp: open_record_def Let_def split: sum.splits if_splits)
  moreover have "length (slice RECORD_HDR_LEN (RECORD_HDR_LEN + n) rc) \<le> n" by (simp add: slice_def)
  ultimately show "length out' = length out"
    using n by (simp add: min_le_iff_disj)
qed

lemma peers_distinct_update:
  "peers_distinct ps \<Longrightarrow> peer_ip p = peer_ip (ps ! i) \<Longrightarrow> i < length ps \<Longrightarrow> peers_distinct (ps[i := p])"
  by (auto simp: peers_distinct_def nth_list_update)

lemma stack_inv_keys:
  assumes "stack_inv ok s" and "keys_ok k"
  shows "stack_inv ok (set_keys pi k s)"
proof (cases "pi < length (ns_peers s)")
  case True
  then have "peer_ok (ns_peers s ! pi)" using assms(1) by (simp add: stack_inv_def)
  then have "peer_ok ((ns_peers s ! pi)\<lparr>peer_keys := k\<rparr>)" using assms(2) by (simp add: peer_ok_def)
  then show ?thesis
    using assms True set_update_subset_insert [of "ns_peers s"]
    by (fastforce simp: stack_inv_def set_keys_def intro: peers_distinct_update)
next
  case False
  then have "set_keys pi k s = s" by (simp add: set_keys_def list_update_beyond)
  then show ?thesis using assms by simp
qed

lemma stack_inv_session:
  "stack_inv ok s \<Longrightarrow> session_ok v \<Longrightarrow> stack_inv ok (set_session si v s)"
  using set_update_subset_insert [of "ns_sessions s" si v]
  by (fastforce simp: stack_inv_def set_session_def)

lemma stack_inv_keys_ok: "stack_inv ok s \<Longrightarrow> pi < MAX_PEERS \<Longrightarrow> keys_ok (keys_of s pi)"
  by (simp add: stack_inv_def keys_of_def peer_ok_def)

lemma stack_inv_session_ok: "stack_inv ok s \<Longrightarrow> si < MAX_SESSIONS \<Longrightarrow> session_ok (ns_sessions s ! si)"
  by (simp add: stack_inv_def)

lemma peer_index_bound: "peer_index ip s = Some pi \<Longrightarrow> stack_inv ok s \<Longrightarrow> pi < MAX_PEERS"
  using position_SomeD(1) by (fastforce simp: peer_index_def stack_inv_def)

lemma session_bound: "position P (ns_sessions s) = Some si \<Longrightarrow> stack_inv ok s \<Longrightarrow> si < MAX_SESSIONS"
  using position_SomeD(1) by (fastforce simp: stack_inv_def)

lemma stack_inv_sent: "stack_inv ok s \<Longrightarrow> sent_from s s' \<Longrightarrow> ok (ns_dev s') \<Longrightarrow> stack_inv ok s'"
  by (simp add: stack_inv_def sent_from_def)

text \<open>A call that keeps the card in order and its address.\<close>

definition dev_kept :: "('d \<Rightarrow> bool) \<Rightarrow> 'd nic \<Rightarrow> 'd net_stack \<Rightarrow> 'd net_stack \<Rightarrow> bool" where
  "dev_kept ok N s s' \<longleftrightarrow>
     (ok (ns_dev s) \<longrightarrow> ok (ns_dev s') \<and> nic_mac N (ns_dev s') = nic_mac N (ns_dev s))"

lemma dev_kept_refl [simp]: "dev_kept ok N s s"
  by (simp add: dev_kept_def)

lemma dev_kept_trans: "dev_kept ok N s t \<Longrightarrow> dev_kept ok N t u \<Longrightarrow> dev_kept ok N s u"
  by (simp add: dev_kept_def)

lemma dev_kept_set [simp]:
  "dev_kept ok N (set_keys pi k s) s' \<longleftrightarrow> dev_kept ok N s s'"
  "dev_kept ok N s (set_keys pi k s') \<longleftrightarrow> dev_kept ok N s s'"
  "dev_kept ok N (set_session si v s) s' \<longleftrightarrow> dev_kept ok N s s'"
  "dev_kept ok N s (set_session si v s') \<longleftrightarrow> dev_kept ok N s s'"
  "dev_kept ok N (s\<lparr>ns_ip_id := i\<rparr>) s' \<longleftrightarrow> dev_kept ok N s s'"
  "dev_kept ok N (s\<lparr>ns_next_session := j\<rparr>) s' \<longleftrightarrow> dev_kept ok N s s'"
  "dev_kept ok N (s\<lparr>ns_arp := c\<rparr>) s' \<longleftrightarrow> dev_kept ok N s s'"
  by (simp_all add: dev_kept_def set_keys_def set_session_def)

lemma set_simps [simp]:
  "ns_sessions (set_keys pi k s) = ns_sessions s" "ns_ip (set_keys pi k s) = ns_ip s"
  "ns_arp (set_keys pi k s) = ns_arp s" "ns_listen (set_keys pi k s) = ns_listen s"
  "ns_dev (set_keys pi k s) = ns_dev s" "ns_peers (set_session si v s) = ns_peers s"
  "ns_ip (set_session si v s) = ns_ip s" "ns_arp (set_session si v s) = ns_arp s"
  "ns_listen (set_session si v s) = ns_listen s" "ns_dev (set_session si v s) = ns_dev s"
  "ns_sessions (set_session si v s) = (ns_sessions s)[si := v]"
  "keys_of (set_session si v s) = keys_of s"
  by (simp_all add: set_keys_def set_session_def keys_of_def fun_eq_iff)

lemma stack_inv_dev:
  "stack_inv ok s \<Longrightarrow> sent_from s s' \<Longrightarrow> dev_kept ok N s s' \<Longrightarrow> stack_inv ok s'"
  using stack_inv_sent [of ok s s'] by (simp add: dev_kept_def) (simp add: stack_inv_def)

context net_card
begin

lemma send_frame_dev: "dev_kept ok N s (snd (send_frame N f s))"
  using transmit_ok [of "ns_dev s" f] by (auto simp: send_frame_def dev_kept_def split: prod.splits)

lemma send_arp_dev: "dev_kept ok N s (snd (send_arp N dst pkt s))"
  by (simp add: send_arp_def Let_def send_frame_dev)

lemma resolve_dev: "dev_kept ok N s (snd (resolve N ip s))"
proof (cases "arp_lookup ip (ns_arp s)")
  case None
  let ?req = "\<lparr>arp_op = OP_REQUEST, arp_sha = nic_mac N (ns_dev s), arp_spa = ns_ip s,
                     arp_tha = replicate 6 0, arp_tpa = ip\<rparr>"
  obtain r t where rt: "send_arp N BROADCAST ?req s = (r, t)" by (cases "send_arp N BROADCAST ?req s")
  have "dev_kept ok N s t" using send_arp_dev [of s BROADCAST ?req] rt by simp
  then show ?thesis using None rt by (cases r) (simp_all add: resolve_def Let_def)
qed (simp add: resolve_def)

lemma send_udp_dev: "dev_kept ok N s (snd (send_udp N m dst sp dp pl s))"
proof -
  have "dev_kept ok N s (snd (send_frame N f (s\<lparr>ns_ip_id := i\<rparr>)))" for f i
    using send_frame_dev [of "s\<lparr>ns_ip_id := i\<rparr>" f] by simp
  then show ?thesis by (simp add: send_udp_def Let_def split: prod.splits)
qed

lemma send_record_dev: "dev_kept ok N s (snd (send_record N pi si c data s))"
proof -
  let ?v = "ns_sessions s ! si"
  obtain r s1 where r: "resolve N (ses_peer_ip ?v) s = (r, s1)" by (cases "resolve N (ses_peer_ip ?v) s")
  have s1: "dev_kept ok N s s1" using resolve_dev [of s "ses_peer_ip ?v"] by (simp add: r)
  show ?thesis
  proof (cases r)
    case (Inr m)
    obtain q tx rc where q: "seal (peer_tx (keys_of s1 pi)) c (ses_id ?v) data
        (replicate MAX_RECORD_LEN 0) = (q, tx, rc)" by (metis prod.collapse)
    have "dev_kept ok N s (snd (send_udp N m a b d e (set_keys pi k s1)))" for a b d e k
      using dev_kept_trans [OF s1] send_udp_dev [of "set_keys pi k s1" m a b d e] by simp
    then show ?thesis using s1 q Inr by (cases q) (simp_all add: send_record_def r Let_def)
  qed (use s1 in \<open>simp add: send_record_def r\<close>)
qed

lemma send_record_inv:
  assumes "stack_inv ok s" and "pi < MAX_PEERS"
  shows "stack_inv ok (snd (send_record N pi si c data s))"
proof -
  let ?k = "keys_of s pi"
  have k: "keys_ok ?k" by (rule stack_inv_keys_ok [OF assms])
  obtain tx where t: "sent_from (set_keys pi (peer_set_tx tx ?k) s) (snd (send_record N pi si c data s))"
    and tx: "tx = fst (snd (seal (peer_tx ?k) c (ses_id (ns_sessions s ! si)) data (replicate MAX_RECORD_LEN 0)))
      \<or> tx = peer_tx ?k"
    by (rule send_record_effect)
  have "lane_inv tx" using tx seal_lane_inv keys_ok_lanes(1) [OF k] by blast
  then have "stack_inv ok (set_keys pi (peer_set_tx tx ?k) s)"
    using assms(1) keys_ok_set(1) [OF k] by (intro stack_inv_keys)
  then show ?thesis
    by (rule stack_inv_dev [where N = N]) (simp_all add: t send_record_dev)
qed

lemma send_record_sessions [simp]: "ns_sessions (snd (send_record N pi si c data s)) = ns_sessions s"
  by (rule send_record_effect [where N = N and pi = pi and s = s and si = si and c = c and data = data])
    (simp add: sent_from_def)

lemma resolve_inv: "stack_inv ok s \<Longrightarrow> stack_inv ok (snd (resolve N ip s))"
  by (rule stack_inv_dev [OF _ resolve_sent resolve_dev])

section \<open>Every call and every frame keeps the invariant\<close>

lemma connect_inv:
  assumes "stack_inv ok s"
  shows "stack_inv ok (snd (connect N ip port s))"
proof (cases "peer_index ip s")
  case (Some pi)
  obtain r s1 where r: "resolve N ip s = (r, s1)" by (cases "resolve N ip s")
  have s1: "stack_inv ok s1" using resolve_inv [OF assms, of ip] by (simp add: r)
  have pi: "pi < MAX_PEERS" using Some assms by (rule peer_index_bound)
  have ip: "length ip = 4"
    using Some assms position_SomeD [of _ "ns_peers s" pi]
    by (fastforce simp: peer_index_def stack_inv_def peer_ok_def in_set_conv_nth)
  show ?thesis
  proof (cases "position (\<lambda>v. ses_state v = Free) (ns_sessions s1)")
    case None
    then show ?thesis using Some s1 by (cases r) (simp_all add: connect_def r)
  next
    case (Some si)
    let ?s2 = "s1\<lparr>ns_next_session := max (ns_next_session s1 + 1) 1\<rparr>"
    let ?v = "\<lparr>ses_state = HelloSent, ses_id = ns_next_session s1, ses_peer_ip = ip, ses_peer_port = port,
      ses_local_port = EPHEMERAL_BASE + ns_next_session s1 mod 16384, ses_accepted = True, ses_rx = rxq_new\<rparr>"
    have "stack_inv ok ?s2" using s1 by (simp add: stack_inv_def)
    then have s3: "stack_inv ok (set_session si ?v ?s2)"
      using ip by (intro stack_inv_session) (simp_all add: session_ok_def)
    let ?t = "send_record N pi si Hello [] (set_session si ?v ?s2)"
    have t: "stack_inv ok (snd ?t)" by (rule send_record_inv [OF s3 pi])
    have "session_ok (ns_sessions (snd ?t) ! si)"
      using stack_inv_session_ok [OF t] session_bound [OF Some s1] by simp
    then have "session_ok ((ns_sessions (snd ?t) ! si)\<lparr>ses_state := Free\<rparr>)" by (simp add: session_ok_def)
    then have "stack_inv ok (set_session si ((ns_sessions (snd ?t) ! si)\<lparr>ses_state := Free\<rparr>) (snd ?t))"
      using t by (intro stack_inv_session)
    then show ?thesis
      using \<open>peer_index ip s = Some pi\<close> Some s1 t
      by (cases r; cases "fst ?t"; cases ?t) (simp_all add: connect_def r Let_def)
  qed
qed (use assms in \<open>simp add: connect_def\<close>)

lemma stack_send_inv:
  assumes "stack_inv ok s"
  shows "stack_inv ok (snd (stack_send N h data s))"
proof (cases "peer_index (ses_peer_ip (ns_sessions s ! h)) s")
  case (Some pi)
  have "stack_inv ok (snd (send_record N pi h Data d s))" for d
    by (rule send_record_inv [OF assms peer_index_bound [OF Some assms]])
  then show ?thesis
    using assms Some by (auto simp: stack_send_def Let_def split: prod.splits sum.splits) (metis snd_conv)+
qed (use assms in \<open>simp add: stack_send_def Let_def\<close>)

lemma stack_recv_inv:
  assumes "stack_inv ok s"
  shows "stack_inv ok (snd (snd (stack_recv h out s)))"
proof (cases "h < MAX_SESSIONS")
  case True
  have v: "session_ok (ns_sessions s ! h)" by (rule stack_inv_session_ok [OF assms True])
  obtain r o1 q where p: "rxq_pop out (ses_rx (ns_sessions s ! h)) = (r, o1, q)" by (metis prod.collapse)
  show ?thesis
  proof (cases r)
    case None
    then show ?thesis using assms by (simp add: stack_recv_def Let_def p split: session_state.splits)
  next
    case (Some n)
    then have "rxq_inv q" using rxq_pop_cases(2) [OF _ p Some] v by (simp add: session_ok_def)
    then have "session_ok ((ns_sessions s ! h)\<lparr>ses_rx := q\<rparr>)" using v by (simp add: session_ok_def)
    then show ?thesis
      using assms Some by (simp add: stack_recv_def Let_def p stack_inv_session)
  qed
qed (use assms in \<open>simp add: stack_recv_def stack_inv_def\<close>)

lemma session_empty_ok [simp]: "session_ok session_empty"
  by (simp add: session_ok_def session_empty_def)

lemma stack_close_inv:
  assumes "stack_inv ok s"
  shows "stack_inv ok (snd (stack_close N h s))"
proof (cases "h < MAX_SESSIONS")
  case True
  define t where "t = (if ses_state (ns_sessions s ! h) = Established then
      (case peer_index (ses_peer_ip (ns_sessions s ! h)) s of
         None \<Rightarrow> s | Some pi \<Rightarrow> snd (send_record N pi h Close [] s)) else s)"
  have t: "stack_inv ok t"
    using assms by (auto simp: t_def split: option.splits intro: send_record_inv peer_index_bound)
  have "session_ok (ns_sessions t ! h)" by (rule stack_inv_session_ok [OF t True])
  then have "session_ok ((ns_sessions t ! h)\<lparr>ses_rx := rxq_wipe (ses_rx (ns_sessions t ! h))\<rparr>)"
    by (simp add: session_ok_def)
  then show ?thesis
    using assms True t
    by (simp add: stack_close_def Let_def t_def [symmetric] stack_inv_session)
qed (use assms in \<open>simp add: stack_close_def stack_inv_def\<close>)

lemma deliver_record_inv:
  assumes "stack_inv ok s" and "pi < MAX_PEERS" and "length src = 4" and "length pt \<le> MAX_RECORD_PAYLOAD"
    and "\<And>si. existing = Some si \<Longrightarrow> si < MAX_SESSIONS"
  shows "stack_inv ok (deliver_record N pi existing src sp dp hdr pt s)"
proof (cases existing)
  case None
  show ?thesis
  proof (cases "position (\<lambda>v. ses_state v = Free) (ns_sessions s)")
    case (Some si)
    have "stack_inv ok (set_session si \<lparr>ses_state = Established, ses_id = i, ses_peer_ip = src,
        ses_peer_port = sp, ses_local_port = dp, ses_accepted = False, ses_rx = rxq_new\<rparr> s)" for i
      using assms by (intro stack_inv_session) (simp_all add: session_ok_def)
    then show ?thesis
      using None Some assms send_record_inv [OF _ assms(2)]
      by (simp add: deliver_record_def split: content_type.split)
  qed (use None assms in \<open>simp add: deliver_record_def split: content_type.split\<close>)
next
  case (Some si)
  have v: "session_ok (ns_sessions s ! si)" using assms Some by (intro stack_inv_session_ok) auto
  obtain b q where p: "rxq_push pt (ses_rx (ns_sessions s ! si)) = (b, q)" by (metis prod.collapse)
  have "rxq_inv q" using rxq_push_cases(1) [OF _ assms(4) p] v by (simp add: session_ok_def)
  then show ?thesis
    using Some assms v p
    by (auto simp: deliver_record_def session_ok_def split: content_type.split intro!: stack_inv_session)
qed

lemma handle_qtls_inv:
  assumes "stack_inv ok s" and "length src = 4"
  shows "stack_inv ok (handle_qtls N src sp dp rc s)"
proof (cases "peer_index src s")
  case (Some pi)
  have pi: "pi < MAX_PEERS" using Some assms(1) by (rule peer_index_bound)
  have k: "keys_ok (keys_of s pi)" by (rule stack_inv_keys_ok [OF assms(1) pi])
  obtain r rx pt where o: "open_record (peer_rx (keys_of s pi)) rc (replicate MAX_RECORD_PAYLOAD 0) = (r, rx, pt)"
    by (metis prod.collapse)
  have "lane_inv rx" by (rule open_lane_inv [OF keys_ok_lanes(2) [OF k] o])
  then have t: "stack_inv ok (set_keys pi (peer_set_rx rx (keys_of s pi)) s)"
    using assms(1) keys_ok_set(2) [OF k] by (intro stack_inv_keys)
  have fs: "si < MAX_SESSIONS" if "find_session src sp dp i s = Some si" for i si
    using session_bound [OF _ assms(1)] that by (simp add: find_session_def)
  have len: "length pt = MAX_RECORD_PAYLOAD" if "r = Inr (h, n)" for h n
    using open_record_length(1) o that by fastforce
  have d: "stack_inv ok (deliver_record N pi ex src sp dp h (take n pt)
      (set_keys pi (peer_set_rx rx (keys_of s pi)) s))"
    if "r = Inr (h, n)" "find_session src sp dp i s = ex" for h n i ex
    using len [OF that(1)] that(2) by (intro deliver_record_inv [OF t pi assms(2)] fs) auto
  show ?thesis
    using Some assms(1) t d
    by (auto simp: handle_qtls_def Let_def o split: sum.splits prod.splits if_splits)
qed (use assms in \<open>simp add: handle_qtls_def\<close>)

lemma ipv4_parse_src: "ipv4_parse p = Some (h, seg) \<Longrightarrow> length (ip_src h) = 4 \<and> length (ip_dst h) = 4"
  by (auto simp: ipv4_parse_def IPV4_HDR_LEN_def Let_def split: if_splits)

lemma handle_arp_inv:
  assumes "stack_inv ok s"
  shows "stack_inv ok (handle_arp N p s)"
proof (cases "arp_parse p")
  case (Some a)
  define t where "t = (if peer_index (arp_spa a) s \<noteq> None
      then s\<lparr>ns_arp := arp_insert (arp_spa a) (arp_sha a) (ns_arp s)\<rparr> else s)"
  have "length (arp_sha a) = 6" using arp_parse_ok [OF Some] by (simp add: arp_ok_def)
  then have t: "stack_inv ok t" using assms by (simp add: t_def stack_inv_def arp_insert_inv)
  have "stack_inv ok (snd (send_arp N d q t))" for d q
    by (rule stack_inv_dev [OF t send_arp_sent send_arp_dev])
  moreover have "handle_arp N p s = (if arp_tpa a \<noteq> ns_ip s then s else if arp_op a = OP_REQUEST
      then snd (send_arp N (arp_sha a) \<lparr>arp_op = OP_REPLY, arp_sha = nic_mac N (ns_dev t),
        arp_spa = ns_ip t, arp_tha = arp_sha a, arp_tpa = arp_spa a\<rparr> t) else t)"
    unfolding handle_arp_def Let_def t_def using Some by simp
  ultimately show ?thesis using assms t by simp
qed (use assms in \<open>simp add: handle_arp_def\<close>)

lemma handle_frame_inv:
  assumes "stack_inv ok s"
  shows "stack_inv ok (handle_frame N f s)"
  using assms handle_arp_inv handle_qtls_inv ipv4_parse_src
  by (auto simp: handle_frame_def handle_ipv4_def split: option.splits prod.splits)

end

context net_device
begin

lemma poll_loop_inv:
  assumes "stack_inv ok s" and "poll_loop fuel N frame s = Some (n, s')"
  shows "stack_inv ok s'"
  using assms
proof (induction fuel arbitrary: frame s n)
  case (Suc fuel)
  obtain r f2 d where r: "nic_receive N frame (ns_dev s) = (r, f2, d)" by (metis prod.collapse)
  have "ok d" using receive_ok [OF _ r] Suc.prems(1) by (simp add: stack_inv_def)
  then have t: "stack_inv ok (s\<lparr>ns_dev := d\<rparr>)" using Suc.prems(1) by (simp add: stack_inv_def)
  show ?case
  proof (cases r)
    case None
    then show ?thesis using Suc.prems t by (simp add: r)
  next
    case (Some len)
    then obtain m where "poll_loop fuel N f2 (handle_frame N (take len f2) (s\<lparr>ns_dev := d\<rparr>)) = Some (m, s')"
      using Suc.prems(2) by (auto simp: r)
    then show ?thesis by (rule Suc.IH [OF handle_frame_inv [OF t]])
  qed
qed simp

end

end
