(* ===== verification/Stack_Frames.thy ===== *)
theory Stack_Frames
  imports Stack_Inv
begin

text \<open>
  The frames the stack sends, taken apart by its own parsers, and all that a received frame
  does: the record it carries, the session it moves (\<open>ses_step\<close>), the keys it consumes.
\<close>

unbundle bit_operations_syntax

section \<open>Frames\<close>

lemma ipv4_write_take:
  assumes "length src = 4" "length dst = 4" "20 \<le> k" "20 \<le> length out"
  shows "take k (ipv4_write src dst protocol ident n out) = ipv4_write src dst protocol ident n (take k out)"
proof -
  obtain j where k: "k = 20 + j" using assms(3) le_Suc_ex by blast
  have "20 \<le> length (take k out)" using assms(3,4) by simp
  then show ?thesis
    unfolding ipv4_write_eq [OF assms(1,2,4)] ipv4_write_eq [OF assms(1,2) \<open>20 \<le> length (take k out)\<close>]
    using assms(1,2) by (simp add: k drop_take)
qed

text \<open>The frame \<open>send_udp\<close> hands to the card, part by part.\<close>

definition udp_frame ::
  "mac_addr \<Rightarrow> mac_addr \<Rightarrow> ipv4_addr \<Rightarrow> ipv4_addr \<Rightarrow> u16 \<Rightarrow> u16 \<Rightarrow> u16 \<Rightarrow> bytes \<Rightarrow> bytes" where
  "udp_frame dst_mac src_mac src dst ident sport dport payload =
     dst_mac @ src_mac @ to_be 2 ETHERTYPE_IPV4 @
     ipv4_write src dst PROTO_UDP ident (8 + length payload) (replicate 20 0 @
       snd (udp_finish \<lparr>udp_src_port = sport, udp_dst_port = dport\<rparr> src dst (length payload)
              (replicate 8 0 @ payload)))"

lemma udp_finish_take:
  assumes "8 + n \<le> length out" "8 + n < 2 ^ 16"
  shows "take (8 + n) (snd (udp_finish h src dst n out)) = snd (udp_finish h src dst n (take (8 + n) out))"
proof -
  have l: "8 + n \<le> length (take (8 + n) out)" using assms by simp
  have "slice 8 (8 + n) (take (8 + n) out) = slice 8 (8 + n) out" by (simp only: slice_def drop_take) simp
  moreover have d: "take n (drop 8 out) = drop 8 (take (8 + n) out)" by (subst drop_take) simp
  ultimately show ?thesis
    unfolding udp_finish_eq [OF assms] udp_finish_eq [OF l assms(2)]
    by simp
qed

lemma L_values: "L3 = 14" "L4 = 34" "L7 = 42" "MAX_FRAME = 1514"
  by (simp_all add: L3_def L4_def L7_def ETH_HDR_LEN_def IPV4_HDR_LEN_def UDP_HDR_LEN_def MAX_FRAME_def
      ETH_MTU_def)

lemma send_udp_frame:
  assumes "length dst_mac = 6" "length (nic_mac N (ns_dev s)) = 6" "length (ns_ip s) = 4" "length dst = 4"
    and "42 + length payload \<le> 1514"
  shows "send_udp N dst_mac dst sport dport payload s =
    send_frame N (udp_frame dst_mac (nic_mac N (ns_dev s)) (ns_ip s) dst (ns_ip_id s) sport dport payload)
      (s\<lparr>ns_ip_id := ns_ip_id s + 1\<rparr>)"
proof -
  let ?n = "length payload" and ?src = "ns_ip s" and ?h = "\<lparr>udp_src_port = sport, udp_dst_port = dport\<rparr>"
  let ?e = "\<lparr>eth_dst = dst_mac, eth_src = nic_mac N (ns_dev s), eth_type = ETHERTYPE_IPV4\<rparr> :: eth_header"
  let ?mac = "dst_mac @ nic_mac N (ns_dev s) @ to_be 2 ETHERTYPE_IPV4"
  have e: "eth_write ?e (replicate 1514 0) = ?mac @ replicate 1500 0"
    using assms by (subst eth_write_eq) (simp_all add: eth_ok_def)
  have ml: "length ?mac = 14" using assms by simp
  define f1 where "f1 = blit 42 payload (?mac @ replicate 1500 0)"
  have f1: "f1 = ?mac @ replicate 28 0 @ payload @ replicate (1472 - ?n) 0"
    using ml assms(5) by (simp add: f1_def blit_def del: append_assoc length_append)
      (simp add: append_assoc)
  let ?u = "replicate 8 0 @ payload @ replicate (1472 - ?n) 0"
  have d4: "drop 34 f1 = ?u" "take 34 f1 = ?mac @ replicate 20 0"
    using ml by (simp_all add: f1 replicate_add [of 20 8, symmetric, simplified])
  have u: "8 + ?n \<le> length ?u" "8 + ?n < 2 ^ 16" using assms(5) by simp_all
  define seg where "seg = snd (udp_finish ?h ?src dst ?n ?u)"
  have fin: "udp_finish ?h ?src dst ?n ?u = (8 + ?n, seg)"
    unfolding seg_def by (simp add: udp_finish_eq [OF u])
  have seg: "take (8 + ?n) seg = snd (udp_finish ?h ?src dst ?n (replicate 8 0 @ payload))"
    unfolding seg_def udp_finish_take [OF u] by simp
  have seglen: "length seg = 1480"
    using assms(5) by (simp add: seg_def udp_finish_eq [OF u])
  define f2 where "f2 = take 34 f1 @ seg"
  have d3: "drop 14 f2 = replicate 20 0 @ seg" "take 14 f2 = ?mac"
    using ml by (simp_all add: f2_def d4)
  let ?w = "ipv4_write ?src dst PROTO_UDP (ns_ip_id s) (8 + ?n) (replicate 20 0 @ seg)"
  have "take (42 + ?n) (?mac @ ?w) = ?mac @ take (28 + ?n) ?w"
    using ml by simp
  also have "take (28 + ?n) ?w = ipv4_write ?src dst PROTO_UDP (ns_ip_id s) (8 + ?n)
      (take (28 + ?n) (replicate 20 0 @ seg))"
    using assms by (intro ipv4_write_take) simp_all
  also have "take (28 + ?n) (replicate 20 0 @ seg) = replicate 20 0 @ take (8 + ?n) seg" by simp
  finally have t: "take (42 + ?n) (?mac @ ?w) = udp_frame dst_mac (nic_mac N (ns_dev s)) ?src dst (ns_ip_id s)
      sport dport payload"
    unfolding seg by (simp add: udp_frame_def)
  have sel: "ns_ip (s\<lparr>ns_ip_id := i\<rparr>) = ns_ip s" for i by simp
  show ?thesis
    unfolding send_udp_def L_values Let_def e f1_def [symmetric] d4(1) fin prod.case f2_def [symmetric]
      d3 sel t
    using assms(5) by simp
qed

lemma udp_frame_parse:
  fixes ident sport dport :: u16
  assumes "length dst_mac = 6" "length src_mac = 6" "length src = 4" "length dst = 4"
    and "28 + length payload < 2 ^ 16"
  defines "f \<equiv> udp_frame dst_mac src_mac src dst ident sport dport payload"
  obtains ip seg where
    "eth_parse f = Some (\<lparr>eth_dst = dst_mac, eth_src = src_mac, eth_type = ETHERTYPE_IPV4\<rparr>, ip)"
    and "ipv4_parse ip = Some (\<lparr>ip_src = src, ip_dst = dst, ip_protocol = PROTO_UDP,
           ip_ttl = DEFAULT_TTL, ip_id = ident\<rparr>, seg)"
    and "udp_parse src dst seg = Some (\<lparr>udp_src_port = sport, udp_dst_port = dport\<rparr>, payload)"
proof -
  let ?n = "length payload" and ?h = "\<lparr>udp_src_port = sport, udp_dst_port = dport\<rparr>"
  let ?seg = "snd (udp_finish ?h src dst ?n (replicate 8 0 @ payload))"
  let ?ip = "ipv4_write src dst PROTO_UDP ident (8 + ?n) (replicate 20 0 @ ?seg)"
  have u: "8 + ?n \<le> length (replicate 8 (0::u8) @ payload)" "8 + ?n < 2 ^ 16" using assms(5) by simp_all
  have l: "length ?seg = 8 + ?n" by (simp add: udp_finish_eq [OF u])
  have "eth_parse f = Some (\<lparr>eth_dst = dst_mac, eth_src = src_mac, eth_type = ETHERTYPE_IPV4\<rparr>, ?ip)"
    using assms(1,2)
    by (simp add: f_def udp_frame_def eth_parse_def ETH_HDR_LEN_def slice_append_left slice_append_right
        nth_append to_be_2)
  moreover have "ipv4_parse ?ip = Some (\<lparr>ip_src = src, ip_dst = dst, ip_protocol = PROTO_UDP,
      ip_ttl = DEFAULT_TTL, ip_id = ident\<rparr>, slice 20 (20 + (8 + ?n)) (replicate 20 0 @ ?seg))"
    using assms l by (intro ipv4_parse_write) simp_all
  moreover have "slice 20 (20 + (8 + ?n)) (replicate 20 0 @ ?seg) = ?seg"
    using l by (simp add: slice_def)
  moreover have "udp_parse src dst (take (8 + ?n) ?seg) = Some (?h, slice 8 (8 + ?n) (replicate 8 0 @ payload))"
    by (rule udp_parse_finish [OF assms(3,4) u order_refl])
  moreover have "take (8 + ?n) ?seg = ?seg" using l by simp
  moreover have "slice 8 (8 + ?n) (replicate 8 (0::u8) @ payload) = payload" by (simp add: slice_def)
  ultimately show thesis using that by simp
qed

text \<open>The record a frame carries to this host, if it carries one.\<close>

definition frame_record :: "'d nic \<Rightarrow> 'd net_stack \<Rightarrow> bytes \<Rightarrow> (ipv4_addr \<times> u16 \<times> u16 \<times> bytes) option" where
  "frame_record N s f =
     (case eth_parse f of
        Some (e, p) \<Rightarrow>
          if (eth_dst e = nic_mac N (ns_dev s) \<or> eth_dst e = BROADCAST) \<and> eth_type e = ETHERTYPE_IPV4
          then (case ipv4_parse p of
                  Some (ip, seg) \<Rightarrow>
                    if ip_dst ip = ns_ip s \<and> ip_protocol ip = PROTO_UDP
                    then map_option (\<lambda>(u, rc). (ip_src ip, udp_src_port u, udp_dst_port u, rc))
                           (udp_parse (ip_src ip) (ip_dst ip) seg)
                    else None
                | None \<Rightarrow> None)
          else None
      | None \<Rightarrow> None)"

text \<open>A frame either carries a record, or is an ARP packet, or changes nothing.\<close>

lemma ethertypes_differ [simp]: "ETHERTYPE_ARP \<noteq> ETHERTYPE_IPV4" "ETHERTYPE_IPV4 \<noteq> ETHERTYPE_ARP"
  by (simp_all add: ETHERTYPE_ARP_def ETHERTYPE_IPV4_def)

lemma handle_frame_cases:
  obtains (rcd) src sp dp rc where "frame_record N s f = Some (src, sp, dp, rc)"
      and "length src = 4" and "handle_frame N f s = handle_qtls N src sp dp rc s"
  | (arp) p where "frame_record N s f = None" and "handle_frame N f s = handle_arp N p s"
  | (other) "frame_record N s f = None" and "handle_frame N f s = s"
proof (cases "eth_parse f")
  case None
  then show ?thesis using other by (simp add: frame_record_def handle_frame_def)
next
  case (Some ep)
  obtain e p where ep: "ep = (e, p)" by (cases ep)
  consider "\<not> (eth_dst e = nic_mac N (ns_dev s) \<or> eth_dst e = BROADCAST)"
    | "eth_dst e = nic_mac N (ns_dev s) \<or> eth_dst e = BROADCAST" "eth_type e = ETHERTYPE_ARP"
    | "eth_dst e = nic_mac N (ns_dev s) \<or> eth_dst e = BROADCAST" "eth_type e = ETHERTYPE_IPV4"
    | "eth_type e \<noteq> ETHERTYPE_ARP" "eth_type e \<noteq> ETHERTYPE_IPV4" by blast
  then show ?thesis
  proof cases
    case 1
    then show ?thesis using other Some ep by (simp add: frame_record_def handle_frame_def)
  next
    case 2
    then show ?thesis using arp [of p] Some ep by (auto simp: frame_record_def handle_frame_def)
  next
    case 3
    then have hf: "handle_frame N f s = handle_ipv4 N p s"
      using Some ep by (auto simp: handle_frame_def)
    show ?thesis
    proof (cases "ipv4_parse p")
      case None
      then show ?thesis using other Some ep hf by (simp add: frame_record_def handle_ipv4_def)
    next
      case (Some q)
      obtain ip seg where q: "q = (ip, seg)" by (cases q)
      have src: "length (ip_src ip) = 4" using Some q
        by (auto simp: ipv4_parse_def IPV4_HDR_LEN_def Let_def split: if_splits)
      have fr: "frame_record N s f = (if ip_dst ip = ns_ip s \<and> ip_protocol ip = PROTO_UDP
          then map_option (\<lambda>(u, rc). (ip_src ip, udp_src_port u, udp_dst_port u, rc))
            (udp_parse (ip_src ip) (ip_dst ip) seg) else None)"
        using \<open>eth_parse f = Some ep\<close> ep 3 Some q by (simp add: frame_record_def)
      have hi: "handle_frame N f s = (if \<not> (ip_dst ip = ns_ip s \<and> ip_protocol ip = PROTO_UDP) then s
          else case udp_parse (ip_src ip) (ip_dst ip) seg of None \<Rightarrow> s
            | Some (udp, rc) \<Rightarrow> handle_qtls N (ip_src ip) (udp_src_port udp) (udp_dst_port udp) rc s)"
        using hf Some q by (simp add: handle_ipv4_def)
      show ?thesis
      proof (cases "ip_dst ip = ns_ip s \<and> ip_protocol ip = PROTO_UDP")
        case True
        show ?thesis
        proof (cases "udp_parse (ip_src ip) (ip_dst ip) seg")
          case None
          then show ?thesis using other True fr hi by simp
        next
          case (Some ur)
          then show ?thesis using rcd [OF _ src] True fr hi by (cases ur) simp
        qed
      next
        case False
        have "frame_record N s f = None" unfolding fr by (simp only: False if_False)
        moreover have "handle_frame N f s = s" unfolding hi by (simp only: False not_False_eq_True if_True)
        ultimately show ?thesis by (rule other)
      qed
    qed
  next
    case 4
    then show ?thesis using other Some ep by (simp add: frame_record_def handle_frame_def)
  qed
qed

lemma handle_arp_effect:
  "ns_sessions (handle_arp N p s) = ns_sessions s \<and> ns_peers (handle_arp N p s) = ns_peers s
   \<and> ns_ip (handle_arp N p s) = ns_ip s \<and> ns_listen (handle_arp N p s) = ns_listen s"
proof (cases "arp_parse p")
  case (Some a)
  define t where "t = (if peer_index (arp_spa a) s \<noteq> None
      then s\<lparr>ns_arp := arp_insert (arp_spa a) (arp_sha a) (ns_arp s)\<rparr> else s)"
  have "handle_arp N p s = (if arp_tpa a \<noteq> ns_ip s then s else if arp_op a = OP_REQUEST
      then snd (send_arp N (arp_sha a) \<lparr>arp_op = OP_REPLY, arp_sha = nic_mac N (ns_dev t),
        arp_spa = ns_ip t, arp_tha = arp_sha a, arp_tpa = arp_spa a\<rparr> t) else t)"
    unfolding handle_arp_def Let_def t_def using Some by simp
  moreover have "ns_sessions t = ns_sessions s" "ns_peers t = ns_peers s" "ns_ip t = ns_ip s"
    "ns_listen t = ns_listen s" by (simp_all add: t_def)
  ultimately show ?thesis
    using send_arp_sent [of t N] by (simp add: sent_from_def)
qed (simp add: handle_arp_def)

section \<open>How a frame can move a session\<close>

inductive ses_step :: "session \<Rightarrow> session \<Rightarrow> bool" where
  Stay: "ses_step v v"
| Open: "ses_state v = Free \<Longrightarrow> ses_state v' = Established \<Longrightarrow> \<not> ses_accepted v' \<Longrightarrow>
     ses_rx v' = rxq_new \<Longrightarrow> ses_step v v'"
| Acked: "ses_state v = HelloSent \<Longrightarrow> ses_step v (v\<lparr>ses_state := Established\<rparr>)"
| Got: "ses_state v = Established \<Longrightarrow> ses_step v (v\<lparr>ses_rx := snd (rxq_push data (ses_rx v))\<rparr>)"
| Shut: "ses_state v \<noteq> Free \<Longrightarrow> ses_step v (v\<lparr>ses_state := Closed\<rparr>)"

inductive_simps ses_step_from_free: "ses_step v w"

lemma deliver_record_sessions:
  assumes "\<And>si. existing = Some si \<Longrightarrow> si < length (ns_sessions s) \<and> ses_state (ns_sessions s ! si) \<noteq> Free"
  shows "\<exists>si v. ns_sessions (deliver_record N pi existing src sp dp hdr pt s) = (ns_sessions s)[si := v]
    \<and> si < length (ns_sessions s) \<and> ses_step (ns_sessions s ! si) v
    \<or> ns_sessions (deliver_record N pi existing src sp dp hdr pt s) = ns_sessions s"
proof (cases existing)
  case None
  show ?thesis
  proof (cases "position (\<lambda>v. ses_state v = Free) (ns_sessions s)")
    case (Some si)
    let ?v = "\<lparr>ses_state = Established, ses_id = rh_session_id hdr, ses_peer_ip = src,
        ses_peer_port = sp, ses_local_port = dp, ses_accepted = False, ses_rx = rxq_new\<rparr>"
    have "ns_sessions (snd (send_record N pi si HelloAck [] (set_session si ?v s))) = (ns_sessions s)[si := ?v]"
      by (rule send_record_effect [where N = N and pi = pi and si = si and s = "set_session si ?v s"
            and c = HelloAck and data = "[]"]) (simp add: sent_from_def)
    moreover have "ses_step (ns_sessions s ! si) ?v" using position_SomeD(2) [OF Some] by (intro ses_step.Open) auto
    ultimately show ?thesis
      using None Some position_SomeD(1) [OF Some]
      by (cases "rh_ctype hdr") (auto simp: deliver_record_def)
  qed (use None in \<open>auto simp: deliver_record_def split: content_type.split\<close>)
next
  case (Some si)
  let ?v = "ns_sessions s ! si"
  have b: "si < length (ns_sessions s)" "ses_state ?v \<noteq> Free" using assms Some by auto
  have "rh_ctype hdr = HelloAck \<and> ses_state ?v = HelloSent \<or> rh_ctype hdr = Data \<and> ses_state ?v = Established
    \<or> rh_ctype hdr = Close \<or> deliver_record N pi existing src sp dp hdr pt s = s"
    using Some by (cases "rh_ctype hdr") (simp_all add: deliver_record_def)
  then consider "rh_ctype hdr = HelloAck" "ses_state ?v = HelloSent" | "rh_ctype hdr = Data" "ses_state ?v = Established"
    | "rh_ctype hdr = Close" | "deliver_record N pi existing src sp dp hdr pt s = s" by blast
  then show ?thesis
  proof cases
    case 1
    then show ?thesis using Some b ses_step.Acked [of ?v] by (auto simp: deliver_record_def)
  next
    case 2
    then show ?thesis using Some b ses_step.Got [of ?v pt] by (auto simp: deliver_record_def)
  next
    case 3
    then show ?thesis using Some b ses_step.Shut [of ?v] by (auto simp: deliver_record_def)
  qed auto
qed

lemma find_session_bound:
  "find_session src sp dp i s = Some si \<Longrightarrow> si < length (ns_sessions s) \<and> ses_state (ns_sessions s ! si) \<noteq> Free
    \<and> ses_peer_ip (ns_sessions s ! si) = src \<and> ses_id (ns_sessions s ! si) = i"
  unfolding find_session_def using position_SomeD by fastforce

text \<open>An accepted record: the registered peer it came from and what \<open>open\<close> returned for it.\<close>

definition authentic ::
  "'d nic \<Rightarrow> 'd net_stack \<Rightarrow> bytes \<Rightarrow> nat \<Rightarrow> record_header \<Rightarrow> bytes \<Rightarrow> bool" where
  "authentic N s f pi h data \<longleftrightarrow>
     (\<exists>src sp dp rc n rx pt. frame_record N s f = Some (src, sp, dp, rc) \<and> peer_index src s = Some pi \<and>
        open_record (peer_rx (keys_of s pi)) rc (replicate MAX_RECORD_PAYLOAD 0) = (Inr (h, n), rx, pt) \<and>
        data = take n pt)"

lemma handle_qtls_cases:
  obtains (ignored) "handle_qtls N src sp dp rc s = s"
  | (opened) pi ex h n rx pt where "peer_index src s = Some pi"
      and "open_record (peer_rx (keys_of s pi)) rc (replicate MAX_RECORD_PAYLOAD 0) = (Inr (h, n), rx, pt)"
      and "ex = find_session src sp dp (rh_session_id h) s"
      and "ex = None \<longrightarrow> rh_ctype h = Hello \<and> dp \<in> set (ns_listen s)"
      and "handle_qtls N src sp dp rc s = deliver_record N pi ex src sp dp h (take n pt)
             (set_keys pi (peer_set_rx rx (keys_of s pi)) s)"
proof (cases "peer_index src s")
  case None
  then show ?thesis using ignored by (simp add: handle_qtls_def)
next
  case (Some pi)
  show ?thesis
  proof (cases "header_parse rc")
    case (Inl e)
    then show ?thesis using ignored Some by (simp add: handle_qtls_def)
  next
    case (Inr hdr)
    let ?ex = "find_session src sp dp (rh_session_id hdr) s"
    obtain r rx pt where o: "open_record (peer_rx (keys_of s pi)) rc (replicate MAX_RECORD_PAYLOAD 0) = (r, rx, pt)"
      by (metis prod.collapse)
    show ?thesis
    proof (cases "?ex = None \<and> \<not> (rh_ctype hdr = Hello \<and> dp \<in> set (ns_listen s))")
      case True
      then show ?thesis using ignored Some Inr by (simp add: handle_qtls_def Let_def)
    next
      case False
      show ?thesis
      proof (cases r)
        case (Inl e)
        then have "rx = peer_rx (keys_of s pi)" using o open_error_unchanged by blast
        then show ?thesis
          using ignored Some \<open>header_parse rc = Inr hdr\<close> False o Inl
          by (auto simp: handle_qtls_def Let_def)
      next
        case (Inr hn)
        obtain h n where hn: "hn = (h, n)" by (cases hn)
        have "h = hdr" using open_record_length(4) o Inr hn \<open>header_parse rc = Inr hdr\<close> by fastforce
        have live: "\<not> (?ex = None \<and> \<not> (rh_ctype hdr = Hello \<and> ?ex = None \<and> dp \<in> set (ns_listen s)))"
          using False by blast
        have "handle_qtls N src sp dp rc s = deliver_record N pi ?ex src sp dp h (take n pt)
             (set_keys pi (peer_set_rx rx (keys_of s pi)) s)"
          unfolding handle_qtls_def Let_def Some option.case \<open>header_parse rc = Inr hdr\<close> sum.case
            if_not_P [OF live] o Inr hn prod.case ..
        then show ?thesis
          using opened [OF Some, of h n rx pt ?ex] False o Inr hn \<open>h = hdr\<close> by auto
      qed
    qed
  qed
qed

text \<open>All that a frame does to sessions and keys.\<close>

lemma handle_frame_sessions:
  "ns_sessions (handle_frame N f s) = ns_sessions s
   \<or> (\<exists>pi h data si v. authentic N s f pi h data \<and> si < length (ns_sessions s)
        \<and> ns_sessions (handle_frame N f s) = (ns_sessions s)[si := v] \<and> ses_step (ns_sessions s ! si) v)"
proof (cases rule: handle_frame_cases [where N = N and s = s and f = f])
  case (rcd src sp dp rc)
  show ?thesis
  proof (cases rule: handle_qtls_cases [where N = N and src = src and sp = sp and dp = dp and rc = rc and s = s])
    case ignored
    then show ?thesis using rcd by simp
  next
    case (opened pi ex h n rx pt)
    have a: "authentic N s f pi h (take n pt)" using rcd opened by (auto simp: authentic_def)
    let ?t = "set_keys pi (peer_set_rx rx (keys_of s pi)) s"
    have "\<exists>si v. ns_sessions (handle_frame N f s) = (ns_sessions ?t)[si := v]
        \<and> si < length (ns_sessions ?t) \<and> ses_step (ns_sessions ?t ! si) v
      \<or> ns_sessions (handle_frame N f s) = ns_sessions ?t"
      unfolding rcd(3) opened(5) by (rule deliver_record_sessions) (use opened(3) in \<open>auto dest!: find_session_bound\<close>)
    then show ?thesis using a by auto
  qed
next
  case (arp p)
  then show ?thesis using handle_arp_effect [of N p s] by simp
qed simp

lemma handle_frame_stranger:
  assumes "\<And>pi h data. \<not> authentic N s f pi h data"
  shows "ns_sessions (handle_frame N f s) = ns_sessions s \<and> ns_peers (handle_frame N f s) = ns_peers s"
proof (cases rule: handle_frame_cases [where N = N and s = s and f = f])
  case (rcd src sp dp rc)
  show ?thesis
  proof (cases rule: handle_qtls_cases [where N = N and src = src and sp = sp and dp = dp and rc = rc and s = s])
    case (opened pi ex h n rx pt)
    then have "authentic N s f pi h (take n pt)" using rcd by (auto simp: authentic_def)
    then show ?thesis using assms by blast
  qed (use rcd in simp)
next
  case (arp p)
  then show ?thesis using handle_arp_effect [of N p s] by simp
qed simp

section \<open>Delivery\<close>

text \<open>A record sent by \<open>send_record\<close> once the address of the peer is known.\<close>

lemma send_record_known:
  assumes "arp_lookup (ses_peer_ip v) (ns_arp s) = Some m" and "v = ns_sessions s ! si"
    and "seal (peer_tx (keys_of s pi)) c (ses_id v) data (replicate MAX_RECORD_LEN 0) = (Inr n, tx, rc)"
    and "length m = 6" "length (nic_mac N (ns_dev s)) = 6" "length (ns_ip s) = 4" "length (ses_peer_ip v) = 4"
    and "lane_ok (peer_tx (keys_of s pi))"
  shows "send_record N pi si c data s =
    send_frame N (udp_frame m (nic_mac N (ns_dev s)) (ns_ip s) (ses_peer_ip v) (ns_ip_id s)
        (ses_local_port v) (ses_peer_port v) (take n rc))
      (set_keys pi (peer_set_tx tx (keys_of s pi)) s\<lparr>ns_ip_id := ns_ip_id s + 1\<rparr>)"
proof -
  have r: "resolve N (ses_peer_ip v) s = (Inr m, s)" using assms(1) by (simp add: resolve_def)
  have n: "length (take n rc) \<le> 1430" by (rule seal_Inr [OF assms(3)]) (simp add: length_sealed)
  let ?t = "set_keys pi (peer_set_tx tx (keys_of s pi)) s"
  have "send_udp N m (ses_peer_ip v) (ses_local_port v) (ses_peer_port v) (take n rc) ?t
      = send_frame N (udp_frame m (nic_mac N (ns_dev ?t)) (ns_ip ?t) (ses_peer_ip v) (ns_ip_id ?t)
          (ses_local_port v) (ses_peer_port v) (take n rc)) (?t\<lparr>ns_ip_id := ns_ip_id ?t + 1\<rparr>)"
    using assms n by (intro send_udp_frame) simp_all
  moreover have "ns_ip_id ?t = ns_ip_id s" by (simp add: set_keys_def)
  ultimately show ?thesis using assms(2,3) r by (simp add: send_record_def Let_def)
qed

text \<open>What the receiver does with the frame of a record that opens.\<close>

lemma handle_frame_udp:
  assumes "length m = 6" "length src_mac = 6" "length src = 4" "ns_ip s = dst" "length dst = 4"
    and "nic_mac N (ns_dev s) = m" and "length rc \<le> 1430"
  shows "handle_frame N (udp_frame m src_mac src dst ident sp dp rc) s = handle_qtls N src sp dp rc s"
proof -
  obtain ip seg where
    "eth_parse (udp_frame m src_mac src dst ident sp dp rc)
       = Some (\<lparr>eth_dst = m, eth_src = src_mac, eth_type = ETHERTYPE_IPV4\<rparr>, ip)"
    and "ipv4_parse ip = Some (\<lparr>ip_src = src, ip_dst = dst, ip_protocol = PROTO_UDP,
           ip_ttl = DEFAULT_TTL, ip_id = ident\<rparr>, seg)"
    and "udp_parse src dst seg = Some (\<lparr>udp_src_port = sp, udp_dst_port = dp\<rparr>, rc)"
  proof (rule udp_frame_parse [OF assms(1,2,3,5), of rc ident sp dp])
    show "28 + length rc < 2 ^ 16" using assms(7) by simp
  qed blast
  then show ?thesis using assms by (simp add: handle_frame_def handle_ipv4_def)
qed

text \<open>The frame of an ARP packet.\<close>

definition arp_frame :: "mac_addr \<Rightarrow> mac_addr \<Rightarrow> arp_packet \<Rightarrow> bytes" where
  "arp_frame dst src pkt = dst @ src @ to_be 2 ETHERTYPE_ARP @ arp_write pkt (replicate 28 0)"

lemma send_arp_frame:
  assumes "length dst = 6" "length (nic_mac N (ns_dev s)) = 6"
  shows "send_arp N dst pkt s = send_frame N (arp_frame dst (nic_mac N (ns_dev s)) pkt) s"
  using assms
  by (simp add: send_arp_def arp_frame_def eth_write_eq eth_ok_def ETH_HDR_LEN_def ARP_LEN_def Let_def)

lemma handle_arp_frame:
  assumes "length dst = 6" "length src = 6" "arp_ok pkt"
    and "dst = nic_mac N (ns_dev s) \<or> dst = BROADCAST"
  shows "handle_frame N (arp_frame dst src pkt) s = handle_arp N (arp_write pkt (replicate 28 0)) s"
proof -
  have "eth_parse (arp_frame dst src pkt) = Some (\<lparr>eth_dst = dst, eth_src = src, eth_type = ETHERTYPE_ARP\<rparr>,
      arp_write pkt (replicate 28 0))"
    using assms(1,2)
    by (simp add: arp_frame_def eth_parse_def ETH_HDR_LEN_def slice_append_left slice_append_right nth_append to_be_2)
  then show ?thesis using assms(4) by (auto simp: handle_frame_def)
qed

end
