(* ===== verification/Stack_Props.thy ===== *)
theory Stack_Props
  imports Stack_Frames
begin

text \<open>
  The properties of the network stack: the invariant over all runs of calls, frames and polls,
  wiping, authentication of everything that touches a session, and delivery from host to host.
\<close>

unbundle bit_operations_syntax

section \<open>All calls\<close>

datatype stack_op =
    OpConfigure ipv4_addr | OpRegister ipv4_addr link_role | OpDeposit ipv4_addr u64 bytes | OpWipe
  | OpListen u16 | OpConnect ipv4_addr u16 | OpAccept u16 | OpSend nat bytes | OpRecv nat bytes
  | OpClose nat | OpFrame bytes | OpPoll nat

fun stack_exec :: "'d nic \<Rightarrow> stack_op \<Rightarrow> 'd net_stack \<Rightarrow> 'd net_stack" where
  "stack_exec N (OpConfigure ip) s = stack_configure ip s"
| "stack_exec N (OpRegister ip r) s = snd (register_peer ip r s)"
| "stack_exec N (OpDeposit ip n key) s = snd (deposit_key_block ip n key s)"
| "stack_exec N OpWipe s = wipe_keys s"
| "stack_exec N (OpListen port) s = snd (stack_listen port s)"
| "stack_exec N (OpConnect ip port) s = snd (connect N ip port s)"
| "stack_exec N (OpAccept port) s = snd (accept port s)"
| "stack_exec N (OpSend h data) s = snd (stack_send N h data s)"
| "stack_exec N (OpRecv h out) s = snd (snd (stack_recv h out s))"
| "stack_exec N (OpClose h) s = snd (stack_close N h s)"
| "stack_exec N (OpFrame f) s = handle_frame N f s"
| "stack_exec N (OpPoll fuel) s = (case poll fuel N s of None \<Rightarrow> s | Some (n, s') \<Rightarrow> s')"

text \<open>Addresses are four bytes: the Rust type of the arguments.\<close>

fun stack_op_typed :: "stack_op \<Rightarrow> bool" where
  "stack_op_typed (OpConfigure ip) = (length ip = 4)"
| "stack_op_typed (OpRegister ip r) = (length ip = 4)"
| "stack_op_typed _ = True"

lemma register_peer_inv:
  assumes "stack_inv ok s" and "length ip = 4"
  shows "stack_inv ok (snd (register_peer ip r s))"
proof (cases "peer_index ip s = None")
  case True
  show ?thesis
  proof (cases "position (\<lambda>p. peer_ip p = None) (ns_peers s)")
    case (Some i)
    let ?p = "ns_peers s ! i"
    let ?q = "?p\<lparr>peer_ip := Some ip, peer_keys := (peer_keys ?p)\<lparr>pk_role := r\<rparr>\<rparr>"
    have i: "i < length (ns_peers s)" by (rule position_SomeD [OF Some])
    have "peer_ok ?p" using assms(1) i by (simp add: stack_inv_def)
    then have "peer_ok ?q" using assms(2) by (simp add: peer_ok_def keys_ok_def)
    moreover have "peers_distinct ((ns_peers s)[i := ?q])"
      using assms(1) True i position_NoneD [of "\<lambda>p. peer_ip p = Some ip" "ns_peers s"]
      by (auto simp: stack_inv_def peers_distinct_def peer_index_def nth_list_update)
    ultimately show ?thesis
      using assms(1) True Some set_update_subset_insert [of "ns_peers s" i ?q]
      by (fastforce simp: register_peer_def stack_inv_def Let_def)
  qed (use assms True in \<open>simp add: register_peer_def\<close>)
qed (use assms in \<open>auto simp: register_peer_def\<close>)

lemma deposit_key_block_inv:
  assumes "stack_inv ok s"
  shows "stack_inv ok (snd (deposit_key_block ip n key s))"
proof (cases "peer_index ip s")
  case (Some i)
  have k: "keys_ok (keys_of s i)" by (rule stack_inv_keys_ok [OF assms peer_index_bound [OF Some assms]])
  show ?thesis
    using assms Some stack_inv_keys [OF assms keys_ok_deposit [OF k]]
    by (auto simp: deposit_key_block_def split: sum.split)
qed (use assms in \<open>simp add: deposit_key_block_def\<close>)

lemma wipe_keys_inv: "stack_inv ok s \<Longrightarrow> stack_inv ok (wipe_keys s)"
  by (auto simp: stack_inv_def wipe_keys_def peer_ok_def keys_ok_wipe session_ok_def peers_distinct_def)

lemma accept_inv:
  assumes "stack_inv ok s"
  shows "stack_inv ok (snd (accept port s))"
proof (cases "position (\<lambda>v. ses_state v = Established \<and> \<not> ses_accepted v \<and> ses_local_port v = port) (ns_sessions s)")
  case (Some si)
  have "session_ok (ns_sessions s ! si)"
    by (rule stack_inv_session_ok [OF assms session_bound [OF Some assms]])
  then have "session_ok ((ns_sessions s ! si)\<lparr>ses_accepted := True\<rparr>)" by (simp add: session_ok_def)
  then show ?thesis using assms Some by (simp add: accept_def stack_inv_session)
qed (use assms in \<open>simp add: accept_def\<close>)

lemma stack_exec_inv:
  assumes "net_device ok N" and "stack_inv ok s" and "stack_op_typed op"
  shows "stack_inv ok (stack_exec N op s)"
proof (cases op)
  case (OpListen port)
  then show ?thesis using assms(2)
    by (auto simp: stack_listen_def stack_inv_def split: option.split)
next
  case (OpPoll fuel)
  then show ?thesis
    using assms(2) net_device.poll_loop_inv [OF assms(1,2)]
    by (auto simp: poll_def split: option.split prod.split)
next
  case (OpConfigure ip)
  then show ?thesis using assms by (simp add: stack_configure_def stack_inv_def)
qed (use assms in \<open>simp_all add: register_peer_inv deposit_key_block_inv wipe_keys_inv accept_inv
    net_card.connect_inv [OF net_device.axioms(1)] net_card.stack_send_inv [OF net_device.axioms(1)]
    net_card.stack_recv_inv [OF net_device.axioms(1)] net_card.stack_close_inv [OF net_device.axioms(1)]
    net_card.handle_frame_inv [OF net_device.axioms(1)]\<close>)

text \<open>
  C8. Every call of the stack, every frame and every poll keep the invariant: fixed table sizes,
  well-formed receive queues, key lanes with zeroes outside their window, distinct peers, and
  an ARP cache without duplicate entries, for every card that keeps the laws of the trait.
\<close>

theorem stack_invariant:
  assumes "net_device ok N" and "ok d" and "\<forall>op \<in> set ops. stack_op_typed op"
  shows "stack_inv ok (fold (stack_exec N) ops (stack_new d))"
proof -
  have "stack_inv ok (fold (stack_exec N) ops s)" if "stack_inv ok s" for s
    using that assms(3)
  proof (induction ops arbitrary: s)
    case (Cons op ops)
    then show ?case using stack_exec_inv [OF assms(1), of s op] by simp
  qed simp
  then show ?thesis using stack_inv_new [of ok d, OF assms(2)] by blast
qed

section \<open>Properties\<close>

definition all_zero :: "bytes \<Rightarrow> bool" where
  "all_zero bs \<longleftrightarrow> (\<forall>b \<in> set bs. b = 0)"

text \<open>
  Wiping (the panic path \<open>emergency_zeroize\<close>) leaves no key byte and no received plaintext:
  every lane buffer and every queue slot is zero, no key is available and no message queued.
\<close>

theorem stack_wipe_zeroizes:
  "list_all (\<lambda>p. list_all (\<lambda>l. all_zero (lane_buf l) \<and> lane_available l = 0) (pk_lanes (peer_keys p)))
      (ns_peers (wipe_keys s))
   \<and> list_all (\<lambda>v. list_all all_zero (rxq_msgs (ses_rx v)) \<and> rxq_view (ses_rx v) = [])
      (ns_sessions (wipe_keys s))"
  by (auto simp: list_all_iff wipe_keys_def peer_wipe_def lane_wipe_def lane_available_def all_zero_def
      rxq_wipe_def rxq_view_def)

lemma seal_no_key:
  "lane_count tx = 0 \<Longrightarrow> \<exists>e. seal tx c sid p out = (Inl e, tx, out)"
  by (auto simp: seal_def Let_def lane_take_def qtls_lens)

lemma send_record_no_key:
  assumes "lane_count (peer_tx (keys_of s pi)) = 0"
  shows "\<exists>e. fst (send_record N pi si c data s) = Inl e"
proof -
  obtain r t where r: "resolve N (ses_peer_ip (ns_sessions s ! si)) s = (r, t)"
    by (cases "resolve N (ses_peer_ip (ns_sessions s ! si)) s")
  have "keys_of t pi = keys_of s pi"
    using resolve_sent [of s N "ses_peer_ip (ns_sessions s ! si)"] keys_of_sent by (metis r snd_conv)
  moreover obtain e where "seal (peer_tx (keys_of s pi)) c (ses_id (ns_sessions s ! si)) data
      (replicate MAX_RECORD_LEN 0) = (Inl e, peer_tx (keys_of s pi), replicate MAX_RECORD_LEN 0)"
    using seal_no_key [OF assms] by blast
  ultimately show ?thesis by (cases r) (simp_all add: send_record_def r Let_def)
qed

lemma wipe_keys_empty:
  assumes "stack_inv ok s" and "pi < MAX_PEERS"
  shows "lane_count (peer_tx (keys_of (wipe_keys s) pi)) = 0"
proof -
  have "keys_ok (keys_of s pi)" by (rule stack_inv_keys_ok [OF assms])
  then have "length (pk_lanes (keys_of s pi)) = 2" by (simp add: keys_ok_def)
  moreover have "keys_of (wipe_keys s) pi = peer_wipe (keys_of s pi)"
    using assms by (simp add: keys_of_def wipe_keys_def stack_inv_def)
  ultimately show ?thesis
    by (cases "pk_role (keys_of s pi)") (simp_all add: peer_tx_def peer_wipe_def lane_wipe_def)
qed

text \<open>
  After a wipe nothing can be sent: every \<open>send\<close> returns an error, whatever the session.
\<close>

theorem stack_wipe_stops_sending:
  assumes "stack_inv ok s"
  shows "\<exists>e. fst (stack_send N h data (wipe_keys s)) = Inl e"
proof (cases "peer_index (ses_peer_ip (ns_sessions (wipe_keys s) ! h)) (wipe_keys s)")
  case (Some pi)
  have "pi < MAX_PEERS" by (rule peer_index_bound [OF Some wipe_keys_inv [OF assms]])
  then have "lane_count (peer_tx (keys_of (wipe_keys s) pi)) = 0" by (rule wipe_keys_empty [OF assms])
  from send_record_no_key [OF this] Some show ?thesis
    by (auto simp: stack_send_def Let_def split: prod.splits sum.splits) (metis fst_conv sum.disc(2) sum.disc(1))
qed (auto simp: stack_send_def Let_def)


text \<open>
  A stranger cannot burn keys or touch sessions: a frame that carries no authentic record
  leaves every session, every peer and every key lane exactly as it was.
\<close>

theorem stack_ignores_strangers:
  assumes "\<forall>pi h data. \<not> authentic N s f pi h data"
  shows "ns_sessions (handle_frame N f s) = ns_sessions s \<and> ns_peers (handle_frame N f s) = ns_peers s"
  using assms by (intro handle_frame_stranger) blast

text \<open>Two hosts with one session between them, for the witnesses.\<close>

definition demo_session :: "ipv4_addr \<Rightarrow> u16 \<Rightarrow> u16 \<Rightarrow> session" where
  "demo_session ip rport lport =
     \<lparr>ses_state = Established, ses_id = 7, ses_peer_ip = ip, ses_peer_port = rport,
      ses_local_port = lport, ses_accepted = True, ses_rx = rxq_new\<rparr>"

definition demo_stack ::
  "mac_addr \<Rightarrow> ipv4_addr \<Rightarrow> mac_addr \<Rightarrow> ipv4_addr \<Rightarrow> link_role \<Rightarrow> u16 \<Rightarrow> u16 \<Rightarrow> loopback net_stack" where
  "demo_stack mac ip rmac rip role rport lport =
     (stack_new (loopback_new mac))\<lparr>ns_ip := ip,
        ns_arp := \<lparr>ac_entries = Some (rip, rmac) # replicate 7 None, ac_next = 1\<rparr>,
        ns_peers := [\<lparr>peer_ip = Some rip, peer_keys = \<lparr>pk_role = role, pk_lanes = [demo_lane, lane_new]\<rparr>\<rparr>,
                     \<lparr>peer_ip = None, peer_keys = peer_keys_new RoleA\<rparr>],
        ns_sessions := demo_session rip rport lport # replicate 3 session_empty\<rparr>"

definition demo_a :: "loopback net_stack" where
  "demo_a = demo_stack [2, 0, 0, 0, 0, 1] [10, 0, 0, 1] [2, 0, 0, 0, 0, 2] [10, 0, 0, 2] RoleA 4433 49159"

definition demo_b :: "loopback net_stack" where
  "demo_b = demo_stack [2, 0, 0, 0, 0, 2] [10, 0, 0, 2] [2, 0, 0, 0, 0, 1] [10, 0, 0, 1] RoleB 49159 4433"

lemma demo_stack_inv:
  assumes "length mac = 6" "length rmac = 6" "length ip = 4" "length rip = 4"
  shows "stack_inv loopback_inv (demo_stack mac ip rmac rip role rport lport)"
proof -
  have "arp_cache_inv \<lparr>ac_entries = Some (rip, rmac) # replicate 7 None, ac_next = 1\<rparr>"
    using assms by (auto simp: arp_cache_inv_def CACHE_SIZE_def nth_Cons split: nat.splits)
  moreover have "lane_inv demo_lane" using demo_lane_facts(1) by (simp add: lane_ok_def)
  moreover note keys_ok_new [of RoleA, unfolded keys_ok_def]
  ultimately show ?thesis
    using assms
    by (auto simp: stack_inv_def demo_stack_def loopback_inv_new stack_new_def MAX_PEERS_def MAX_SESSIONS_def
        peer_ok_def keys_ok_def lane_inv_new peers_distinct_def less_Suc_eq nth_Cons session_ok_def
        demo_session_def session_empty_def split: nat.splits)
qed

section \<open>End to end\<close>

text \<open>The receiving half: a data record for an open session is queued.\<close>

lemma handle_qtls_data:
  assumes "peer_index src s = Some pi"
    and "open_record (peer_rx (keys_of s pi)) rc (replicate MAX_RECORD_PAYLOAD 0) = (Inr (h, n), rx, pt)"
    and "rh_ctype h = Data" and "find_session src sp dp (rh_session_id h) s = Some si"
    and "ses_state (ns_sessions s ! si) = Established" and "rxq_inv (ses_rx (ns_sessions s ! si))"
    and "rxq_count (ses_rx (ns_sessions s ! si)) < RX_SLOTS" and "pi < length (ns_peers s)"
    and "length (pk_lanes (keys_of s pi)) = 2"
  shows "rxq_view (ses_rx (ns_sessions (handle_qtls N src sp dp rc s) ! si))
      = rxq_view (ses_rx (ns_sessions s ! si)) @ [take n pt]"
    and "peer_rx (keys_of (handle_qtls N src sp dp rc s) pi) = rx"
proof -
  let ?q = "ses_rx (ns_sessions s ! si)" and ?t = "set_keys pi (peer_set_rx rx (keys_of s pi)) s"
  obtain b q' where p: "rxq_push (take n pt) ?q = (b, q')" by (metis prod.collapse)
  have hp: "header_parse rc = Inr h" and "length pt = MAX_RECORD_PAYLOAD"
    using open_record_length(1,4) [OF assms(2)] by simp_all
  then have l: "length (take n pt) \<le> MAX_RECORD_PAYLOAD" by simp
  have eq: "handle_qtls N src sp dp rc s = set_session si ((ns_sessions s ! si)\<lparr>ses_rx := q'\<rparr>) ?t"
    using assms(1-5) hp p by (simp add: handle_qtls_def Let_def deliver_record_def)
  have si: "si < length (ns_sessions s)" using find_session_bound [OF assms(4)] by simp
  show "rxq_view (ses_rx (ns_sessions (handle_qtls N src sp dp rc s) ! si)) = rxq_view ?q @ [take n pt]"
    using si rxq_push_cases(2,3) [OF assms(6) l p] assms(7) by (simp add: eq)
  have "keys_of ?t pi = peer_set_rx rx (keys_of s pi)"
    using assms(8) by (simp add: keys_of_def set_keys_def)
  then show "peer_rx (keys_of (handle_qtls N src sp dp rc s) pi) = rx"
    using assms(9) by (cases "pk_role (keys_of s pi)") (simp_all add: eq peer_rx_def peer_set_rx_def rx_lane_def)
qed

text \<open>The sending half: \<open>send\<close> seals the data and hands one frame to the card.\<close>

lemma stack_send_frame:
  assumes "stack_inv ok s" "h < MAX_SESSIONS" "v = ns_sessions s ! h" "ses_state v = Established"
    and "length data \<le> MAX_RECORD_PAYLOAD" and "peer_index (ses_peer_ip v) s = Some pi"
    and "arp_lookup (ses_peer_ip v) (ns_arp s) = Some m" and "lane_ok (peer_tx (keys_of s pi))"
    and "length (nic_mac N (ns_dev s)) = 6"
    and "stack_send N h data s = (Inr n, s')"
  obtains tx rc k where "seal (peer_tx (keys_of s pi)) Data (ses_id v) data (replicate MAX_RECORD_LEN 0) = (Inr k, tx, rc)"
    and "n = length data" and "peer_tx (keys_of s' pi) = tx"
    and "nic_transmit N (udp_frame m (nic_mac N (ns_dev s)) (ns_ip s) (ses_peer_ip v) (ns_ip_id s)
           (ses_local_port v) (ses_peer_port v) (take k rc)) (ns_dev s) = (Inr (), ns_dev s')"
proof -
  let ?k = "keys_of s pi"
  have pi: "pi < MAX_PEERS" by (rule peer_index_bound [OF assms(6,1)])
  have m: "length m = 6"
    using assms(1,7) arp_lookup_Some by (fastforce simp: stack_inv_def arp_cache_inv_def)
  have ip: "length (ns_ip s) = 4" "length (ses_peer_ip v) = 4"
    using assms(1,3) stack_inv_session_ok [OF assms(1,2)] by (simp_all add: stack_inv_def session_ok_def)
  obtain r tx rc where sl: "seal (peer_tx ?k) Data (ses_id v) data (replicate MAX_RECORD_LEN 0) = (r, tx, rc)"
    by (metis prod.collapse)
  have ss: "stack_send N h data s = (case send_record N pi h Data data s of (Inl e, s) \<Rightarrow> (Inl e, s)
      | (Inr _, s) \<Rightarrow> (Inr (length data), s))"
    using assms(1-6) by (simp add: stack_send_def Let_def stack_inv_def)
  have rs: "resolve N (ses_peer_ip v) s = (Inr m, s)" using assms(7) by (simp add: resolve_def)
  obtain k where r: "r = Inr k"
  proof (cases r)
    case (Inl e)
    then have False using ss assms(3,10) rs sl by (simp add: send_record_def Let_def)
    then show ?thesis ..
  qed (rule that)
  let ?f = "udp_frame m (nic_mac N (ns_dev s)) (ns_ip s) (ses_peer_ip v) (ns_ip_id s)
           (ses_local_port v) (ses_peer_port v) (take k rc)"
  let ?t = "set_keys pi (peer_set_tx tx ?k) s\<lparr>ns_ip_id := ns_ip_id s + 1\<rparr>"
  have sr: "send_record N pi h Data data s = send_frame N ?f ?t"
    using assms(3,7-9) sl r m ip by (intro send_record_known) simp_all
  obtain q d where tr: "nic_transmit N ?f (ns_dev s) = (q, d)" by (cases "nic_transmit N ?f (ns_dev s)")
  have "ns_dev ?t = ns_dev s" by simp
  then have "send_frame N ?f ?t = (q, ?t\<lparr>ns_dev := d\<rparr>)" using tr by (simp add: send_frame_def)
  then have s': "q = Inr ()" "s' = ?t\<lparr>ns_dev := d\<rparr>" "n = length data"
    using ss sr assms(10) by (cases q; simp)+
  have "keys_of s' pi = peer_set_tx tx ?k"
    using pi assms(1) by (simp add: s' keys_of_def set_keys_def stack_inv_def)
  moreover have "length (pk_lanes ?k) = 2"
    using stack_inv_keys_ok [OF assms(1) pi] by (simp add: keys_ok_def)
  ultimately have "peer_tx (keys_of s' pi) = tx"
    by (cases "pk_role ?k") (simp_all add: peer_tx_def peer_set_tx_def)
  then show thesis using that [of k tx rc] sl r s' tr by simp
qed

text \<open>
  C5. End to end: when the two ends of a session hold agreeing key lanes and the sender knows the
  receiver's address, a successful \<open>send\<close> of any data that fits one record hands exactly one
  frame to the sender's card, and the receiver that gets that frame appends exactly the data to
  the session's queue; the receiving lane is then at the sender's offset.
\<close>

theorem stack_delivers:
  assumes "net_device okA NA" and "net_device okB NB" and "stack_inv okA A" and "stack_inv okB B"
    and "h < MAX_SESSIONS" and "v = ns_sessions A ! h" and "ses_state v = Established"
    and "length data \<le> MAX_RECORD_PAYLOAD" and "peer_index (ses_peer_ip v) A = Some pa"
    and "arp_lookup (ses_peer_ip v) (ns_arp A) = Some (nic_mac NB (ns_dev B))"
    and "ses_peer_ip v = ns_ip B" and "peer_index (ns_ip A) B = Some pb"
    and "find_session (ns_ip A) (ses_local_port v) (ses_peer_port v) (ses_id v) B = Some sb"
    and "ses_state (ns_sessions B ! sb) = Established" and "rxq_count (ses_rx (ns_sessions B ! sb)) < RX_SLOTS"
    and "lane_ok (peer_tx (keys_of A pa))" and "lane_ok (peer_rx (keys_of B pb))"
    and "win_agree (lane_window (peer_tx (keys_of A pa))) (lane_window (peer_rx (keys_of B pb)))"
    and "unat (lane_base (peer_rx (keys_of B pb))) \<le> unat (lane_base (peer_tx (keys_of A pa)))"
    and "unat (lane_base (peer_tx (keys_of A pa))) + key_cost (length data) \<le> lane_end (peer_rx (keys_of B pb))"
    and "stack_send NA h data A = (Inr n, A')"
  shows "\<exists>f. nic_transmit NA f (ns_dev A) = (Inr (), ns_dev A') \<and> n = length data
    \<and> rxq_view (ses_rx (ns_sessions (handle_frame NB f B) ! sb))
        = rxq_view (ses_rx (ns_sessions B ! sb)) @ [data]
    \<and> lane_base (peer_rx (keys_of (handle_frame NB f B) pb)) = lane_base (peer_tx (keys_of A' pa))"
proof -
  let ?buf = "replicate MAX_RECORD_PAYLOAD (0 :: u8)"
  have macs: "length (nic_mac NA (ns_dev A)) = 6" "length (nic_mac NB (ns_dev B)) = 6"
    using net_card.mac_length [OF net_device.axioms(1) [OF assms(1)]] net_card.mac_length [OF net_device.axioms(1) [OF assms(2)]] assms(3,4)
    by (simp_all add: stack_inv_def)
  obtain tx rc k where sl: "seal (peer_tx (keys_of A pa)) Data (ses_id v) data (replicate MAX_RECORD_LEN 0) = (Inr k, tx, rc)"
    and n: "n = length data" and tx: "peer_tx (keys_of A' pa) = tx"
    and tr: "nic_transmit NA (udp_frame (nic_mac NB (ns_dev B)) (nic_mac NA (ns_dev A)) (ns_ip A) (ses_peer_ip v)
           (ns_ip_id A) (ses_local_port v) (ses_peer_port v) (take k rc)) (ns_dev A) = (Inr (), ns_dev A')"
    by (rule stack_send_frame [OF assms(3,5-10,16) macs(1) assms(21)])
  let ?f = "udp_frame (nic_mac NB (ns_dev B)) (nic_mac NA (ns_dev A)) (ns_ip A) (ses_peer_ip v)
           (ns_ip_id A) (ses_local_port v) (ses_peer_port v) (take k rc)"
  obtain rx off where o: "open_record (peer_rx (keys_of B pb)) (take k rc) ?buf
      = (Inr (\<lparr>rh_ctype = Data, rh_session_id = ses_id v, rh_key_offset = off, rh_length = of_nat (length data)\<rparr>,
          length data), rx, blit 0 data ?buf)"
    and base: "lane_base rx = lane_base tx"
    using seal_open_agree [OF assms(16-20) sl, of ?buf] assms(8) by auto
  have len: "length (take k rc) \<le> 1430"
    by (rule seal_Inr [OF sl]) (simp add: length_sealed)
  have B: "length (ns_ip A) = 4" "length (ns_ip B) = 4" "length (ns_peers B) = MAX_PEERS"
    using assms(3,4) by (simp_all add: stack_inv_def)
  have pb: "pb < MAX_PEERS" by (rule peer_index_bound [OF assms(12,4)])
  have hf: "handle_frame NB ?f B = handle_qtls NB (ns_ip A) (ses_local_port v) (ses_peer_port v) (take k rc) B"
    using macs B assms(11) len by (intro handle_frame_udp) simp_all
  have sb: "sb < MAX_SESSIONS" using assms(4) find_session_bound [OF assms(13)] by (simp add: stack_inv_def)
  have rq: "rxq_inv (ses_rx (ns_sessions B ! sb))"
    using stack_inv_session_ok [OF assms(4) sb] by (simp add: session_ok_def)
  have two: "length (pk_lanes (keys_of B pb)) = 2"
    using stack_inv_keys_ok [OF assms(4) pb] by (simp add: keys_ok_def)
  have fs: "find_session (ns_ip A) (ses_local_port v) (ses_peer_port v) (rh_session_id
      \<lparr>rh_ctype = Data, rh_session_id = ses_id v, rh_key_offset = off, rh_length = of_nat (length data)\<rparr>) B = Some sb"
    using assms(13) by simp
  have lt: "pb < length (ns_peers B)" using pb B by simp
  note q = handle_qtls_data [OF assms(12) o _ fs assms(14) rq assms(15) lt two, of NB]
  have "take (length data) (blit 0 data ?buf) = data" by (simp add: blit_def)
  then show ?thesis using tr n q hf base tx by (intro exI [of _ ?f]) simp
qed

lemma demo_facts:
  "stack_inv loopback_inv demo_a" "stack_inv loopback_inv demo_b"
  "peer_index [10, 0, 0, 2] demo_a = Some 0" "peer_index [10, 0, 0, 1] demo_b = Some 0"
  "arp_lookup [10, 0, 0, 2] (ns_arp demo_a) = Some [2, 0, 0, 0, 0, 2]"
  "ns_ip demo_a = [10, 0, 0, 1]" "ns_ip demo_b = [10, 0, 0, 2]"
  "lb_mac (ns_dev demo_a) = [2, 0, 0, 0, 0, 1]" "lb_mac (ns_dev demo_b) = [2, 0, 0, 0, 0, 2]"
  "ns_sessions demo_a ! 0 = demo_session [10, 0, 0, 2] 4433 49159"
  "ns_sessions demo_b ! 0 = demo_session [10, 0, 0, 1] 49159 4433"
  "peer_tx (keys_of demo_a 0) = demo_lane" "peer_rx (keys_of demo_b 0) = demo_lane"
  "lb_count (ns_dev demo_a) = 0"
  by (simp_all add: demo_a_def demo_b_def demo_stack_inv)
    (simp_all add: demo_stack_def peer_index_def arp_lookup_def ac_match_def stack_new_def loopback_new_def
      keys_of_def peer_tx_def peer_rx_def rx_lane_def)

lemma demo_session_simps [simp]:
  "ses_state (demo_session ip r l) = Established" "ses_id (demo_session ip r l) = 7"
  "ses_peer_ip (demo_session ip r l) = ip" "ses_peer_port (demo_session ip r l) = r"
  "ses_local_port (demo_session ip r l) = l" "ses_rx (demo_session ip r l) = rxq_new"
  "rxq_count rxq_new = 0"
  by (simp_all add: demo_session_def rxq_new_def)

lemma demo_find: "find_session [10, 0, 0, 1] 49159 4433 7 demo_b = Some 0"
  by (simp add: find_session_def demo_b_def demo_stack_def)

lemma demo_send:
  obtains A' where "stack_send loopback_nic 0 [42] demo_a = (Inr 1, A')"
proof -
  let ?v = "demo_session [10, 0, 0, 2] 4433 49159"
  obtain tx rc where sl: "seal demo_lane Data 7 [42] (replicate MAX_RECORD_LEN 0) = (Inr 31, tx, rc)"
    by (rule seal_ok [OF demo_lane_facts(1), of "[42]" "replicate MAX_RECORD_LEN 0" Data 7])
      (simp_all add: qtls_lens demo_lane_facts)
  let ?f = "udp_frame [2, 0, 0, 0, 0, 2] [2, 0, 0, 0, 0, 1] [10, 0, 0, 1] [10, 0, 0, 2] (ns_ip_id demo_a)
        49159 4433 (take 31 rc)"
  have sr: "send_record loopback_nic 0 0 Data [42] demo_a = send_frame loopback_nic ?f
      (set_keys 0 (peer_set_tx tx (keys_of demo_a 0)) demo_a\<lparr>ns_ip_id := ns_ip_id demo_a + 1\<rparr>)"
  proof (subst send_record_known [of ?v demo_a "[2, 0, 0, 0, 0, 2]" 0 0 Data "[42]" 31 tx rc loopback_nic])
    show "seal (peer_tx (keys_of demo_a 0)) Data (ses_id ?v) [42] (replicate MAX_RECORD_LEN 0) = (Inr 31, tx, rc)"
      by (simp only: demo_facts demo_session_simps sl)
  qed (simp_all add: demo_facts demo_lane_facts)
  have inv: "loopback_inv (ns_dev demo_a)" using demo_facts(1) by (simp add: stack_inv_def)
  have "length (take 31 rc) = 31"
    by (rule seal_Inr [OF sl]) (simp add: length_sealed)
  then have "length ?f = 73"
    by (simp add: udp_frame_def ipv4_write_eq udp_finish_eq)
  then have "length ?f \<le> MAX_FRAME" by (simp add: L_values)
  moreover have "lb_count (ns_dev demo_a) < LOOPBACK_SLOTS" by (simp add: demo_facts)
  ultimately obtain d where "loopback_transmit ?f (ns_dev demo_a) = (Inr (), d)"
    by (rule loopback_transmit_room [OF inv])
  then have "send_record loopback_nic 0 0 Data [42] demo_a
      = (Inr (), set_keys 0 (peer_set_tx tx (keys_of demo_a 0)) demo_a\<lparr>ns_ip_id := ns_ip_id demo_a + 1, ns_dev := d\<rparr>)"
    unfolding sr by (simp add: send_frame_def)
  moreover have "length (ns_sessions demo_a) = 4" using demo_facts(1) by (simp add: stack_inv_def MAX_SESSIONS_def)
  ultimately have "stack_send loopback_nic 0 [42] demo_a
      = (Inr 1, set_keys 0 (peer_set_tx tx (keys_of demo_a 0)) demo_a\<lparr>ns_ip_id := ns_ip_id demo_a + 1, ns_dev := d\<rparr>)"
    by (simp add: stack_send_def demo_facts qtls_lens Let_def)
  then show thesis by (rule that)
qed

theorem stack_delivers_witness:
  "\<exists>f. rxq_view (ses_rx (ns_sessions (handle_frame loopback_nic f demo_b) ! 0)) = [[42]]"
proof -
  obtain A' where s: "stack_send loopback_nic 0 [42] demo_a = (Inr 1, A')" by (rule demo_send)
  have w: "win_agree (lane_window demo_lane) (lane_window demo_lane)" by (simp add: win_agree_def)
  have "\<exists>f. nic_transmit loopback_nic f (ns_dev demo_a) = (Inr (), ns_dev A') \<and> 1 = length [42 :: u8]
    \<and> rxq_view (ses_rx (ns_sessions (handle_frame loopback_nic f demo_b) ! 0))
        = rxq_view (ses_rx (ns_sessions demo_b ! 0)) @ [[42]]
    \<and> lane_base (peer_rx (keys_of (handle_frame loopback_nic f demo_b) 0)) = lane_base (peer_tx (keys_of A' 0))"
    by (rule stack_delivers [where v = "demo_session [10, 0, 0, 2] 4433 49159", OF lbn.net_device_axioms lbn.net_device_axioms demo_facts(1,2) _ _ _ _ _ _ _ _ _ _ _ _ _ _ _ _ s])
      (simp_all add: demo_facts demo_find demo_lane_facts w MAX_SESSIONS_def qtls_lens lane_end_def)
  then show ?thesis by (auto simp: demo_facts)
qed

theorem stack_invariant_witness:
  "stack_inv loopback_inv (fold (stack_exec loopback_nic)
     [OpConfigure [10, 0, 0, 1], OpListen 4433, OpFrame [1, 2, 3], OpPoll 1]
     (stack_new (loopback_new (replicate 6 7))))"
  by (rule stack_invariant [OF lbn.net_device_axioms]) (simp_all add: loopback_inv_new)

theorem stack_wipe_stops_sending_witness:
  "\<exists>e. fst (stack_send loopback_nic 0 [42] (wipe_keys demo_a)) = Inl e"
  by (rule stack_wipe_stops_sending [OF demo_facts(1)])

theorem stack_ignores_strangers_witness:
  "ns_sessions (handle_frame loopback_nic [1, 2, 3] demo_b) = ns_sessions demo_b
    \<and> ns_peers (handle_frame loopback_nic [1, 2, 3] demo_b) = ns_peers demo_b"
  by (rule stack_ignores_strangers)
    (simp add: authentic_def frame_record_def eth_parse_def ETH_HDR_LEN_def)



end
