(* ===== verification/Net_Props.thy ===== *)
theory Net_Props
  imports Stack_Props
begin

text \<open>
  What the frame formats promise: the checksum is the one's-complement sum of RFC 1071, a
  changed header word is noticed, what \<open>send_udp\<close> puts on the wire is what the receiver reads,
  the ARP cache is a bounded map, and a request/reply exchange resolves an address.
\<close>

unbundle bit_operations_syntax

section \<open>The checksum against its reference\<close>

text \<open>RFC 1071: add 16-bit words in one's complement, the carry comes back in at the bottom.\<close>

definition oc_add :: "nat \<Rightarrow> nat \<Rightarrow> nat" where
  "oc_add x y = (if x + y < 65536 then x + y else x + y - 65535)"

fun oc_sum :: "bytes \<Rightarrow> nat" where
  "oc_sum (a # b # rest) = oc_add (256 * unat a + unat b) (oc_sum rest)"
| "oc_sum [b] = 256 * unat b"
| "oc_sum [] = 0"

lemma mod_65535_step:
  assumes "w \<le> (65535 :: nat)"
  defines "r \<equiv> \<lambda>n :: nat. if n = 0 then 0 else if n mod 65535 = 0 then 65535 else n mod 65535"
  shows "oc_add w (r n) = r (w + n)"
proof -
  have le: "r n \<le> 65535" using less_imp_le [OF mod_less_divisor [of 65535 n]] by (simp add: r_def)
  have c: "r m = m" if "m \<le> 65535" for m using that by (cases "m = 65535") (simp_all add: r_def)
  have p: "r (m + 65535) = r m" if "0 < m" for m using that by (simp add: r_def)
  have z: "r n = 0 \<longleftrightarrow> n = 0" by (simp add: r_def)
  have m: "r n mod 65535 = n mod 65535" by (simp add: r_def)
  then have mm: "(w + r n) mod 65535 = (w + n) mod 65535" by (metis mod_add_right_eq)
  have cong: "r x = r y" if "x mod 65535 = y mod 65535" "x = 0 \<longleftrightarrow> y = 0" for x y
    unfolding r_def by (simp only: that)
  have eq: "r (w + r n) = r (w + n)" using mm z by (intro cong) simp_all
  show ?thesis
  proof (cases "w + r n < 65536")
    case True
    then have "r (w + r n) = w + r n" by (intro c) simp
    then show ?thesis using True eq by (simp add: oc_add_def)
  next
    case False
    then have "r (w + r n) = r (w + r n - 65535)" using p [of "w + r n - 65535"] by simp
    also have "\<dots> = w + r n - 65535" using assms(1) le by (intro c) simp
    finally show ?thesis using False eq by (simp add: oc_add_def)
  qed
qed

lemma oc_sum_val:
  "oc_sum bs = (if word_sum bs = 0 then 0 else if word_sum bs mod 65535 = 0 then 65535 else word_sum bs mod 65535)"
proof (induction bs rule: oc_sum.induct)
  case (1 a b rest)
  have "256 * unat a + unat b \<le> 65535" using unat_u8_less [of a] unat_u8_less [of b] by simp
  from mod_65535_step [OF this] show ?case by (simp only: oc_sum.simps 1 word_sum.simps)
next
  case (2 b)
  have "256 * unat b < 65535" using unat_u8_less [of b] by simp
  then show ?case by simp
qed simp

text \<open>
  The Internet checksum the code computes is the complement of the one's-complement sum of
  RFC 1071, for every byte string up to the size of an IP datagram, odd lengths included.
\<close>

theorem checksum_is_rfc1071:
  assumes "length bs \<le> 65535"
  shows "unat (checksum_finish (checksum_add 0 bs)) = 65535 - oc_sum bs"
proof -
  have "word_sum bs < 2 ^ 32" using assms by (intro word_sum_small) simp
  then have "unat (checksum_add 0 bs) = word_sum bs" using checksum_add_val [of 0 bs] by simp
  then show ?thesis by (simp add: checksum_finish_val oc_sum_val)
qed

theorem checksum_is_rfc1071_witness:
  "unat (checksum_finish (checksum_add 0 [0xFF, 0xFF, 0x12, 0x34, 0x56])) = 65535 - oc_sum [0xFF, 0xFF, 0x12, 0x34, 0x56]
    \<and> oc_sum [0xFF, 0xFF, 0x12, 0x34, 0x56] = 0x6834"
  by (intro conjI checksum_is_rfc1071) (simp_all add: oc_add_def)

text \<open>
  Error detection: when one 16-bit word of an accepted IPv4 header (after the version word)
  is replaced by one that differs modulo 65535, the parser refuses the packet.
\<close>

theorem ipv4_detects_corruption:
  assumes "ipv4_parse p = Some r" and "even i" "2 \<le> i" "i + 1 < unat (p ! 0 AND 0x0F) * 4"
    and "(256 * unat a + unat b) mod 65535 \<noteq> (256 * unat (p ! i) + unat (p ! (i + 1))) mod 65535"
  shows "ipv4_parse (p[i := a, i + 1 := b]) = None"
  by (rule ipv4_detects_word_change [OF assms])

definition demo_packet :: bytes where
  "demo_packet = ipv4_write [10, 0, 0, 1] [10, 0, 0, 2] PROTO_UDP 1 0 (replicate 20 0)"

theorem ipv4_detects_corruption_witness:
  "ipv4_parse (demo_packet[12 := 11, 13 := 0]) = None"
proof -
  have p: "ipv4_parse demo_packet = Some (\<lparr>ip_src = [10, 0, 0, 1], ip_dst = [10, 0, 0, 2],
      ip_protocol = PROTO_UDP, ip_ttl = DEFAULT_TTL, ip_id = 1\<rparr>, slice 20 (20 + 0) (replicate 20 0))"
    unfolding demo_packet_def by (rule ipv4_parse_write) simp_all
  have eq: "demo_packet = ipv4_front PROTO_UDP 1 0
      @ to_be 2 (ipv4_checksum [10, 0, 0, 1] [10, 0, 0, 2] PROTO_UDP 1 0) @ [10, 0, 0, 1] @ [10, 0, 0, 2]"
    unfolding demo_packet_def by (subst ipv4_write_eq) simp_all
  have "demo_packet ! 12 = 10" "demo_packet ! 13 = 0" "demo_packet ! 0 = 0x45"
    unfolding eq by (simp_all add: nth_append) (simp add: ipv4_front_def)
  then show ?thesis using ipv4_detects_corruption [OF p, of 12 11 0] by simp
qed

section \<open>Datagrams on the wire\<close>

text \<open>
  C14. What one host sends, the addressed host reads: for a payload that fits, \<open>send_udp\<close> hands
  the card one frame, and the host with that MAC and IP address takes exactly the sender's
  address, both ports and the payload out of it; a longer payload is refused with an error.
\<close>

theorem net_datagram_roundtrip:
  assumes "length dst_mac = 6" "length (nic_mac N (ns_dev s)) = 6" "length (ns_ip s) = 4" "length (ns_ip r) = 4"
    and "nic_mac R (ns_dev r) = dst_mac"
  shows "if length payload \<le> 1472
    then \<exists>f. send_udp N dst_mac (ns_ip r) sport dport payload s = send_frame N f (s\<lparr>ns_ip_id := ns_ip_id s + 1\<rparr>)
          \<and> frame_record R r f = Some (ns_ip s, sport, dport, payload)
    else send_udp N dst_mac (ns_ip r) sport dport payload s = (Inl PayloadTooLarge, s)"
proof (cases "length payload \<le> 1472")
  case True
  let ?f = "udp_frame dst_mac (nic_mac N (ns_dev s)) (ns_ip s) (ns_ip r) (ns_ip_id s) sport dport payload"
  have "28 + length payload < 2 ^ 16" using True by simp
  from udp_frame_parse [OF assms(1-4) this] obtain ip seg where
    "eth_parse ?f = Some (\<lparr>eth_dst = dst_mac, eth_src = nic_mac N (ns_dev s), eth_type = ETHERTYPE_IPV4\<rparr>, ip)"
    "ipv4_parse ip = Some (\<lparr>ip_src = ns_ip s, ip_dst = ns_ip r, ip_protocol = PROTO_UDP,
        ip_ttl = DEFAULT_TTL, ip_id = ns_ip_id s\<rparr>, seg)"
    "udp_parse (ns_ip s) (ns_ip r) seg = Some (\<lparr>udp_src_port = sport, udp_dst_port = dport\<rparr>, payload)" .
  then have "frame_record R r ?f = Some (ns_ip s, sport, dport, payload)"
    using assms(5) by (simp add: frame_record_def)
  moreover have "send_udp N dst_mac (ns_ip r) sport dport payload s = send_frame N ?f (s\<lparr>ns_ip_id := ns_ip_id s + 1\<rparr>)"
    using True assms by (intro send_udp_frame) simp_all
  ultimately show ?thesis using True by auto
qed (simp add: send_udp_def L_values)

theorem net_datagram_roundtrip_witness:
  "\<exists>f. send_udp loopback_nic [2, 0, 0, 0, 0, 2] [10, 0, 0, 2] 1 2 [42] demo_a
      = send_frame loopback_nic f (demo_a\<lparr>ns_ip_id := ns_ip_id demo_a + 1\<rparr>)
    \<and> frame_record loopback_nic demo_b f = Some ([10, 0, 0, 1], 1, 2, [42])"
  using net_datagram_roundtrip [of "[2, 0, 0, 0, 0, 2]" loopback_nic demo_a demo_b loopback_nic "[42]" 1 2]
  by (simp add: demo_facts)

section \<open>Address resolution\<close>

text \<open>
  The ARP cache is a bounded map: inserting a binding keeps the invariant and makes it the
  one found; another address either keeps its binding or is the one entry that was evicted,
  and nothing else appears.
\<close>

theorem arp_cache_is_map:
  assumes "arp_cache_inv c" and "length mac = 6"
  shows "arp_cache_inv (arp_insert ip mac c) \<and> arp_lookup ip (arp_insert ip mac c) = Some mac
    \<and> arp_lookup ip' (arp_insert ip mac c) \<in> {arp_lookup ip' c, None} \<union> (if ip' = ip then {Some mac} else {})
    \<and> (arp_lookup ip c \<noteq> None \<and> ip' \<noteq> ip \<longrightarrow> arp_lookup ip' (arp_insert ip mac c) = arp_lookup ip' c)"
proof -
  let ?c = "arp_insert ip mac c"
  note inv = arp_insert_inv [OF assms] and mine = arp_lookup_insert [OF assms]
  have len: "length (ac_entries c) = CACHE_SIZE" using assms(1) by (simp add: arp_cache_inv_def)
  have old: "arp_lookup ip' c = Some m" if l: "arp_lookup ip' ?c = Some m" and ne: "ip' \<noteq> ip" for m ip'
  proof -
    obtain i where i: "i < CACHE_SIZE" "ac_entries ?c ! i = Some (ip', m)"
      using l unfolding arp_lookup_Some [OF inv] by blast
    obtain k where k: "ac_entries ?c = (ac_entries c)[k := Some (ip, mac)]"
      by (cases "position (ac_match ip) (ac_entries c)") (auto simp: arp_insert_def)
    then have "ac_entries c ! i = Some (ip', m)"
      using i ne len unfolding k by (cases "i = k") simp_all
    then show ?thesis using i(1) arp_lookup_Some [OF assms(1)] by blast
  qed
  have keep: "arp_lookup ip' ?c = arp_lookup ip' c" if l: "arp_lookup ip c \<noteq> None" and ne: "ip' \<noteq> ip" for ip'
  proof -
    obtain k where k: "position (ac_match ip) (ac_entries c) = Some k"
      using l by (auto simp: arp_lookup_def split: option.splits)
    have "ac_entries c ! k \<noteq> Some (ip', m)" for m
      using position_SomeD(2) [OF k] ne by (auto simp: ac_match_iff)
    then have "arp_lookup ip' c = Some m \<Longrightarrow> arp_lookup ip' ?c = Some m" for m
      unfolding arp_lookup_Some [OF assms(1)] arp_lookup_Some [OF inv]
      using k by (auto simp: arp_insert_def) (metis nth_list_update_neq)
    then show ?thesis using old ne by (metis option.exhaust)
  qed
  have "arp_lookup ip' ?c \<in> {arp_lookup ip' c, None} \<union> (if ip' = ip then {Some mac} else {})"
    using mine old [of ip'] by (cases "arp_lookup ip' ?c") auto
  then show ?thesis using inv mine keep by blast
qed

theorem arp_cache_is_map_witness:
  "arp_lookup [10, 0, 0, 1] (arp_insert [10, 0, 0, 1] (replicate 6 7) arp_cache_new) = Some (replicate 6 7)"
  using arp_cache_is_map [OF arp_cache_inv_new, of "replicate 6 7" "[10, 0, 0, 1]"] by simp

text \<open>
  Address resolution works end to end: a host that does not know the peer's address
  broadcasts a request and reports \<open>ArpPending\<close>; the peer answers it with one frame; once that
  frame has arrived, the address resolves to the peer's MAC without any further frame.
\<close>

theorem net_arp_exchange:
  assumes "stack_inv ok a" "net_device ok A" "stack_inv ok' b" "net_device ok' B"
    and "arp_lookup (ns_ip b) (ns_arp a) = None" and "peer_index (ns_ip b) a \<noteq> None"
    and "length (ns_ip a) = 4" "length (ns_ip b) = 4"
  shows "\<exists>request reply b'. resolve A (ns_ip b) a =
        (case send_frame A request a of (Inl e, a') \<Rightarrow> (Inl e, a') | (Inr _, a') \<Rightarrow> (Inl ArpPending, a'))
      \<and> handle_frame B request b = snd (send_frame B reply b') \<and> ns_dev b' = ns_dev b
      \<and> resolve A (ns_ip b) (handle_frame A reply a)
          = (Inr (nic_mac B (ns_dev b)), handle_frame A reply a)"
proof -
  let ?ma = "nic_mac A (ns_dev a)" and ?mb = "nic_mac B (ns_dev b)"
  have m: "length ?ma = 6" "length ?mb = 6"
    using assms(1-4) by (auto simp: stack_inv_def intro: net_card.mac_length net_device.axioms(1))
  let ?req = "\<lparr>arp_op = OP_REQUEST, arp_sha = ?ma, arp_spa = ns_ip a, arp_tha = replicate 6 0, arp_tpa = ns_ip b\<rparr>"
  let ?rep = "\<lparr>arp_op = OP_REPLY, arp_sha = ?mb, arp_spa = ns_ip b, arp_tha = ?ma, arp_tpa = ns_ip a\<rparr>"
  let ?fq = "arp_frame BROADCAST ?ma ?req" and ?fr = "arp_frame ?ma ?mb ?rep"
  define b' where "b' = (if peer_index (ns_ip a) b \<noteq> None
      then b\<lparr>ns_arp := arp_insert (ns_ip a) ?ma (ns_arp b)\<rparr> else b)"
  have b': "ns_dev b' = ns_dev b" "ns_ip b' = ns_ip b" by (simp_all add: b'_def)
  have ok: "arp_ok ?req" "arp_ok ?rep" using m assms(7,8) by (simp_all add: arp_ok_def)
  have bc: "length BROADCAST = 6" by (simp add: BROADCAST_def)
  have q: "resolve A (ns_ip b) a =
      (case send_frame A ?fq a of (Inl e, a') \<Rightarrow> (Inl e, a') | (Inr _, a') \<Rightarrow> (Inl ArpPending, a'))"
    using assms(5) send_arp_frame [OF bc m(1)] by (simp add: resolve_def Let_def)
  have "handle_frame B ?fq b = handle_arp B (arp_write ?req (replicate 28 0)) b"
    using bc m ok by (intro handle_arp_frame) simp_all
  also have "\<dots> = snd (send_arp B ?ma \<lparr>arp_op = OP_REPLY, arp_sha = nic_mac B (ns_dev b'),
      arp_spa = ns_ip b', arp_tha = ?ma, arp_tpa = ns_ip a\<rparr> b')"
    using ok by (simp add: handle_arp_def arp_parse_write b'_def Let_def)
  also have "\<dots> = snd (send_frame B ?fr b')"
    using send_arp_frame [of ?ma B b'] m b' by simp
  finally have r: "handle_frame B ?fq b = snd (send_frame B ?fr b')" .
  have "handle_frame A ?fr a = handle_arp A (arp_write ?rep (replicate 28 0)) a"
    using m ok by (intro handle_arp_frame) simp_all
  also have "\<dots> = a\<lparr>ns_arp := arp_insert (ns_ip b) ?mb (ns_arp a)\<rparr>"
    using ok assms(6) by (simp add: handle_arp_def arp_parse_write OP_REPLY_def OP_REQUEST_def Let_def)
  finally have h: "handle_frame A ?fr a = a\<lparr>ns_arp := arp_insert (ns_ip b) ?mb (ns_arp a)\<rparr>" .
  have "arp_lookup (ns_ip b) (arp_insert (ns_ip b) ?mb (ns_arp a)) = Some ?mb"
    using assms(1) m(2) by (intro arp_lookup_insert) (simp_all add: stack_inv_def)
  then have "resolve A (ns_ip b) (handle_frame A ?fr a) = (Inr ?mb, handle_frame A ?fr a)"
    unfolding h by (simp add: resolve_def)
  then show ?thesis using q r b'(1) by blast
qed

theorem net_arp_exchange_witness:
  "\<exists>reply. resolve loopback_nic [10, 0, 0, 2] (handle_frame loopback_nic reply (demo_a\<lparr>ns_arp := arp_cache_new\<rparr>))
      = (Inr [2, 0, 0, 0, 0, 2], handle_frame loopback_nic reply (demo_a\<lparr>ns_arp := arp_cache_new\<rparr>))"
proof -
  let ?a = "demo_a\<lparr>ns_arp := arp_cache_new\<rparr>"
  have "stack_inv loopback_inv ?a" using demo_facts(1) arp_cache_inv_new by (simp add: stack_inv_def)
  moreover have "arp_lookup (ns_ip demo_b) (ns_arp ?a) = None"
    by (simp add: arp_cache_new_def arp_lookup_def CACHE_SIZE_def ac_match_def eval_nat_numeral)
  moreover have "peer_index (ns_ip demo_b) ?a \<noteq> None"
    by (simp add: demo_facts peer_index_def) (simp add: demo_a_def demo_stack_def)
  ultimately show ?thesis
    using net_arp_exchange [of loopback_inv ?a loopback_nic loopback_inv demo_b loopback_nic]
      demo_facts lbn.net_device_axioms by auto
qed

end
