(* ===== verification/Memory.thy ===== *)
theory Memory
  imports Prelude
begin

text \<open>
  Kernel memory (\<open>kernel/memory/src/lib.rs\<close>): regions, the lock-free bump allocator and the
  bitmap frame allocator.  Addresses are 64-bit words with the wrap-around of a release build,
  bitmap and frame indices natural numbers.  The bump allocator is shared by \<open>&self\<close>: its
  compare-exchange loop is a step relation over threads; the frame allocator is used through
  \<open>&mut self\<close>, and an index outside the bitmap is the panic \<open>None\<close>.
\<close>

unbundle bit_operations_syntax

definition PAGE_SIZE :: nat where "PAGE_SIZE = 4096"
definition MAX_FRAMES :: nat where "MAX_FRAMES = 1024 * 256"
definition BITMAP_WORDS :: nat where "BITMAP_WORDS = MAX_FRAMES div 64"

datatype alloc_error = OutOfMemory | ZeroSize | BadAlignment | Overflow | InvalidAddress | DoubleFree

section \<open>Regions\<close>

datatype region_kind = KernelCode | KernelData | UserCode | UserData | MmioDevice | Reserved

record vm_region =
  vr_base :: u64
  vr_length :: u64
  vr_kind :: region_kind

definition region_contains :: "u64 \<Rightarrow> vm_region \<Rightarrow> bool" where
  "region_contains addr r \<longleftrightarrow> vr_base r \<le> addr \<and> addr < vr_base r + vr_length r"

definition region_is_user :: "vm_region \<Rightarrow> bool" where
  "region_is_user r \<longleftrightarrow> vr_kind r = UserCode \<or> vr_kind r = UserData"

section \<open>The bump allocator\<close>

definition is_power_of_two :: "u64 \<Rightarrow> bool" where
  "is_power_of_two w \<longleftrightarrow> list_ex (\<lambda>k. w = 2 ^ k) [0..<64]"

text \<open>One turn of the loop of \<open>alloc\<close>, up to the exchange: the block and the new \<open>next\<close>.\<close>

definition bump_plan :: "u64 \<Rightarrow> u64 \<Rightarrow> u64 \<Rightarrow> u64 \<Rightarrow> alloc_error + u64 \<times> u64" where
  "bump_plan heap_end sz al current =
     (case checked_add current (al - 1) of
        None \<Rightarrow> Inl Overflow
      | Some x \<Rightarrow>
          let aligned = x AND NOT (al - 1)
          in case checked_add aligned sz of
               None \<Rightarrow> Inl Overflow
             | Some next \<Rightarrow> if heap_end < next then Inl OutOfMemory else Inr (aligned, next))"

datatype bump_pc = BIdle | BCall u64 u64 | BLoad u64 u64 | BTry u64 u64 u64 | BOk u64 u64 u64 | BErr alloc_error

fun bump_atomic :: "bool \<Rightarrow> u64 \<Rightarrow> bump_pc \<Rightarrow> u64 \<Rightarrow> bump_pc \<times> u64" where
  "bump_atomic spurious heap_end (BCall sz al) next =
     (if sz = 0 then (BErr ZeroSize, next)
      else if \<not> is_power_of_two al then (BErr BadAlignment, next)
      else (BLoad sz al, next))"
| "bump_atomic spurious heap_end (BLoad sz al) next = (BTry sz al next, next)"
| "bump_atomic spurious heap_end (BTry sz al current) next =
     (case bump_plan heap_end sz al current of
        Inl e \<Rightarrow> (BErr e, next)
      | Inr (aligned, next') \<Rightarrow>
          if next = current \<and> \<not> spurious then (BOk aligned sz al, next') else (BTry sz al next, next))"
| "bump_atomic spurious heap_end pc next = (pc, next)"

record bump_sys =
  bs_start :: u64
  bs_end :: u64
  bs_next :: u64
  bs_pcs :: "nat \<Rightarrow> bump_pc"
  bs_blocks :: "(u64 \<times> u64 \<times> u64) list"

definition bump_new :: "u64 \<Rightarrow> u64 \<Rightarrow> bump_sys" where
  "bump_new heap_start heap_end =
     \<lparr>bs_start = heap_start, bs_end = heap_end, bs_next = heap_start, bs_pcs = (\<lambda>_. BIdle), bs_blocks = []\<rparr>"

definition bump_used_bytes :: "bump_sys \<Rightarrow> u64" where
  "bump_used_bytes s = bs_next s - bs_start s"

definition bump_free_bytes :: "bump_sys \<Rightarrow> u64" where
  "bump_free_bytes s = saturating_sub (bs_end s) (bs_next s)"

fun bump_done :: "bump_pc \<Rightarrow> bool" where
  "bump_done BIdle = True"
| "bump_done (BOk a sz al) = True"
| "bump_done (BErr e) = True"
| "bump_done pc = False"

fun bump_block :: "bump_pc \<Rightarrow> (u64 \<times> u64 \<times> u64) list" where
  "bump_block (BOk a sz al) = [(a, sz, al)]"
| "bump_block pc = []"

inductive bump_step :: "bump_sys \<Rightarrow> bump_sys \<Rightarrow> bool" where
  BumpCall: "bump_done (bs_pcs s t) \<Longrightarrow> bump_step s (s\<lparr>bs_pcs := (bs_pcs s)(t := BCall sz al)\<rparr>)"
| BumpAtomic: "\<not> bump_done (bs_pcs s t) \<Longrightarrow> bump_atomic spurious (bs_end s) (bs_pcs s t) (bs_next s) = (pc, n) \<Longrightarrow>
     bump_step s (s\<lparr>bs_next := n, bs_pcs := (bs_pcs s)(t := pc), bs_blocks := bs_blocks s @ bump_block pc\<rparr>)"

inductive bump_reach :: "bump_sys \<Rightarrow> bump_sys \<Rightarrow> bool" for s0 where
  BumpStart: "bump_reach s0 s0"
| BumpStep: "bump_reach s0 s \<Longrightarrow> bump_step s s' \<Longrightarrow> bump_reach s0 s'"

lemma is_power_of_twoD:
  assumes "is_power_of_two w"
  obtains k where "k < 64" and "w = 2 ^ k"
  using assms by (auto simp: is_power_of_two_def list_ex_iff)

lemma and_not_mask: "x AND NOT (mask k) = push_bit k (drop_bit k x)" for x :: "'a::len word"
  by (rule bit_eqI) (auto simp: bit_simps)

lemma unat_and_not_mask: "unat (x AND NOT (mask k) :: u64) = unat x div 2 ^ k * 2 ^ k"
proof -
  have le: "unat x div 2 ^ k * 2 ^ k \<le> unat x" by (simp add: minus_mod_eq_div_mult [symmetric])
  have "unat x < 2 ^ 64" using unsigned_less [of x] by simp
  with le have "unat x div 2 ^ k * 2 ^ k < 2 ^ 64" by (rule le_less_trans)
  moreover have "unat (push_bit k (drop_bit k x)) = take_bit 64 (push_bit k (unat (drop_bit k x)))"
    by (simp add: unsigned_push_bit_eq)
  ultimately show ?thesis
    unfolding and_not_mask by (simp add: push_bit_eq_mult unat_shr take_bit_nat_eq_self)
qed

lemma bump_plan_Inr:
  assumes "bump_plan heap_end sz al c = Inr (a, n)" and "is_power_of_two al"
  shows "unat c \<le> unat a" and "unat al dvd unat a" and "unat n = unat a + unat sz" and "unat n \<le> unat heap_end"
proof -
  obtain k where k: "k < 64" "al = 2 ^ k" by (rule is_power_of_twoD [OF assms(2)])
  have m: "al - 1 = mask k" by (simp add: k mask_eq_exp_minus_1)
  have "(2 :: nat) ^ k < 2 ^ 64" using k(1) by (rule power_strict_increasing) simp
  then have "unat (of_nat (2 ^ k) :: u64) = 2 ^ k" by (intro unat_of_nat_fits) simp
  then have um: "unat al = 2 ^ k" by (simp add: k(2))
  have "1 \<le> al" by (simp add: word_le_nat_alt um)
  then have "unat (al - 1) = 2 ^ k - 1" by (simp add: unat_sub_le um)
  then have um: "unat (mask k :: u64) = 2 ^ k - 1" "unat al = 2 ^ k" by (simp_all add: m um)
  obtain x where x: "checked_add c (al - 1) = Some x" and a: "a = x AND NOT (mask k)"
    and n: "checked_add a sz = Some n" "n \<le> heap_end"
    using assms(1) by (auto simp: bump_plan_def m Let_def split: option.splits if_splits)
  have ux: "unat x = unat c + (2 ^ k - 1)" using x by (auto simp: checked_add_Some m um)
  have ua: "unat a = unat x div 2 ^ k * 2 ^ k" unfolding a by (rule unat_and_not_mask)
  then show "unat al dvd unat a" by (simp add: um)
  have "unat x mod 2 ^ k < 2 ^ k" by simp
  moreover have "unat a = unat x - unat x mod 2 ^ k" by (simp add: ua minus_mod_eq_div_mult)
  ultimately show "unat c \<le> unat a" using ux by linarith
  show "unat n = unat a + unat sz" using n(1) by (auto simp: checked_add_Some)
  show "unat n \<le> unat heap_end" using n(2) by (simp add: word_le_nat_alt)
qed

text \<open>Blocks handed out: aligned, not empty, inside the heap, and one after the other.\<close>

definition block_ok :: "bump_sys \<Rightarrow> u64 \<times> u64 \<times> u64 \<Rightarrow> bool" where
  "block_ok s b = (case b of (a, sz, al) \<Rightarrow>
     unat (bs_start s) \<le> unat a \<and> unat a + unat sz \<le> unat (bs_next s) \<and> 0 < unat sz \<and> unat al dvd unat a)"

definition bump_inv :: "bump_sys \<Rightarrow> bool" where
  "bump_inv s \<longleftrightarrow> unat (bs_start s) \<le> unat (bs_next s) \<and> unat (bs_next s) \<le> unat (bs_end s)
     \<and> (\<forall>b \<in> set (bs_blocks s). block_ok s b)
     \<and> sorted_wrt (\<lambda>b c. unat (fst b) + unat (fst (snd b)) \<le> unat (fst c)) (bs_blocks s)
     \<and> (\<forall>t sz al. (bs_pcs s t = BLoad sz al \<or> (\<exists>c. bs_pcs s t = BTry sz al c)) \<longrightarrow>
          sz \<noteq> 0 \<and> is_power_of_two al)"

text \<open>What one atomic access of a thread can do.\<close>

lemma bump_atomic_cases:
  assumes "bump_atomic spurious heap_end p next = (pc, n)"
  shows "(\<exists>a sz al. p = BTry sz al next \<and> bump_plan heap_end sz al next = Inr (a, n) \<and> pc = BOk a sz al)
    \<or> n = next \<and> (bump_block pc = [] \<or> pc = p) \<and>
       (\<forall>sz al. pc = BLoad sz al \<or> (\<exists>c. pc = BTry sz al c) \<longrightarrow>
          (p = BCall sz al \<and> sz \<noteq> 0 \<and> is_power_of_two al) \<or> p = BLoad sz al \<or> (\<exists>c. p = BTry sz al c))"
proof (cases p)
  case (BTry sz al c)
  show ?thesis
  proof (cases "bump_plan heap_end sz al c")
    case (Inr r)
    then show ?thesis using assms BTry by (cases r) (auto split: if_split_asm)
  qed (use assms BTry in auto)
qed (use assms in \<open>auto split: if_split_asm\<close>)

lemma bump_step_inv:
  assumes "bump_step s s'" and "bump_inv s"
  shows "bump_inv s' \<and> bs_start s' = bs_start s \<and> bs_end s' = bs_end s"
  using assms(1)
proof cases
  case (BumpCall t sz al)
  then show ?thesis using assms(2) by (simp add: bump_inv_def block_ok_def)
next
  case (BumpAtomic t spurious pc n)
  note cs = bump_atomic_cases [OF BumpAtomic(3)]
  consider (got) a sz al where "bs_pcs s t = BTry sz al (bs_next s)" "bump_plan (bs_end s) sz al (bs_next s) = Inr (a, n)"
      "pc = BOk a sz al"
    | (other) "n = bs_next s" "bump_block pc = []"
      "\<And>sz al. pc = BLoad sz al \<or> (\<exists>c. pc = BTry sz al c) \<Longrightarrow> sz \<noteq> 0 \<and> is_power_of_two al"
  proof -
    have blk: "bump_block pc = []" if "pc = bs_pcs s t" using BumpAtomic(2) unfolding that by (cases "bs_pcs s t") simp_all
    have "sz \<noteq> 0 \<and> is_power_of_two al" if "bs_pcs s t = BLoad sz al \<or> (\<exists>c. bs_pcs s t = BTry sz al c)" for sz al
      using assms(2) that unfolding bump_inv_def by blast
    then show ?thesis using cs blk got other by blast
  qed
  then show ?thesis
  proof cases
    case got
    have p: "is_power_of_two al" "sz \<noteq> 0" using assms(2) got(1) unfolding bump_inv_def by blast+
    note pl = bump_plan_Inr [OF got(2) p(1)]
    have "0 < unat sz" using p(2) by (simp add: unat_gt_0)
    then show ?thesis using assms(2) pl got(3)
      by (fastforce simp: BumpAtomic(1) bump_inv_def block_ok_def sorted_wrt_append)
  next
    case other
    have "block_ok s' b" if "block_ok s b" for b using that other(1) by (simp add: BumpAtomic(1) block_ok_def split: prod.splits)
    then show ?thesis using assms(2) other
      unfolding bump_inv_def BumpAtomic(1) by (auto split: if_splits)
  qed
qed

text \<open>
  C18. The bump allocator never hands out overlapping memory: under any interleaving of calls of
  \<open>alloc\<close> from any number of threads, with any spurious failures of the exchange, all blocks are
  aligned as asked, lie inside the heap and are pairwise disjoint.
\<close>

theorem bump_blocks_disjoint:
  assumes "bump_reach (bump_new lo hi) s" and "lo \<le> hi"
    and "i < j" "j < length (bs_blocks s)" "bs_blocks s ! i = (a, m, al)" "bs_blocks s ! j = (b, n, bl)"
  shows "unat a + unat m \<le> unat b \<and> unat lo \<le> unat a \<and> unat b + unat n \<le> unat hi
    \<and> 0 < unat m \<and> unat al dvd unat a \<and> unat bl dvd unat b"
proof -
  have inv: "bump_inv s \<and> bs_start s = lo \<and> bs_end s = hi"
    using assms(1)
  proof induction
    case BumpStart
    then show ?case using assms(2) by (simp add: bump_inv_def bump_new_def word_le_nat_alt)
  next
    case (BumpStep s s')
    then show ?case using bump_step_inv by metis
  qed
  have "block_ok s (a, m, al)" "block_ok s (b, n, bl)"
    using inv nth_mem [OF order_less_trans [OF assms(3,4)]] nth_mem [OF assms(4)]
    by (simp_all add: bump_inv_def assms(5,6))
  moreover have "unat a + unat m \<le> unat b"
  proof -
    have "sorted_wrt (\<lambda>b c. unat (fst b) + unat (fst (snd b)) \<le> unat (fst c)) (bs_blocks s)"
      using inv by (simp add: bump_inv_def)
    from sorted_wrt_nth_less [OF this assms(3,4)] show ?thesis by (simp add: assms(5,6))
  qed
  ultimately show ?thesis using inv by (auto simp: block_ok_def bump_inv_def)
qed

text \<open>An undisturbed call of \<open>alloc\<close> that fits returns its block.\<close>

lemma bump_alloc_undisturbed:
  assumes "bump_reach s0 s" and "bump_done (bs_pcs s t)" and "is_power_of_two al" and "sz \<noteq> 0"
    and "bump_plan (bs_end s) sz al (bs_next s) = Inr (a, n)"
  shows "\<exists>s'. bump_reach s0 s' \<and> bs_end s' = bs_end s \<and> bs_next s' = n
    \<and> bs_blocks s' = bs_blocks s @ [(a, sz, al)] \<and> bump_done (bs_pcs s' t)"
proof -
  define s1 where "s1 = s\<lparr>bs_pcs := (bs_pcs s)(t := BCall sz al)\<rparr>"
  have 1: "bump_step s s1" unfolding s1_def using assms(2) by (rule BumpCall)
  define s2 where "s2 = s1\<lparr>bs_next := bs_next s, bs_pcs := (bs_pcs s1)(t := BLoad sz al),
    bs_blocks := bs_blocks s1 @ bump_block (BLoad sz al)\<rparr>"
  have 2: "bump_step s1 s2" unfolding s2_def by (rule BumpAtomic) (simp_all add: s1_def assms(3,4))
  define s3 where "s3 = s2\<lparr>bs_next := bs_next s, bs_pcs := (bs_pcs s2)(t := BTry sz al (bs_next s)),
    bs_blocks := bs_blocks s2 @ bump_block (BTry sz al (bs_next s))\<rparr>"
  have 3: "bump_step s2 s3" unfolding s3_def by (rule BumpAtomic) (simp_all add: s2_def s1_def)
  define s4 where "s4 = s3\<lparr>bs_next := n, bs_pcs := (bs_pcs s3)(t := BOk a sz al),
    bs_blocks := bs_blocks s3 @ bump_block (BOk a sz al)\<rparr>"
  have 4: "bump_step s3 s4" unfolding s4_def
    by (rule BumpAtomic [where spurious = False]) (simp_all add: s3_def s2_def s1_def assms(5))
  have "bump_reach s0 s4" using assms(1) 1 2 3 4 by (blast intro: BumpStep)
  then show ?thesis by (intro exI [of _ s4]) (simp add: s4_def s3_def s2_def s1_def)
qed

theorem bump_blocks_disjoint_witness:
  "\<exists>s. bump_reach (bump_new 4096 8192) s \<and> bs_blocks s = [(4096, 100, 8), (4224, 16, 64)]
     \<and> unat (4096 :: u64) + unat (100 :: u64) \<le> unat (4224 :: u64)"
proof -
  have pw: "is_power_of_two 8" "is_power_of_two 64"
    using bexI [of "\<lambda>k. 8 = (2 :: u64) ^ k" 3 "{0..<64}"] bexI [of "\<lambda>k. 64 = (2 :: u64) ^ k" 6 "{0..<64}"]
    by (simp_all add: is_power_of_two_def list_ex_iff)
  have pl: "bump_plan 8192 100 8 4096 = Inr (4096, 4196)" "bump_plan 8192 16 64 4196 = Inr (4224, 4240)"
    by (simp_all add: bump_plan_def checked_add_def)
  have n: "bs_next (bump_new 4096 8192) = 4096" "bs_end (bump_new 4096 8192) = 8192"
    "bs_blocks (bump_new 4096 8192) = []" "bump_done (bs_pcs (bump_new 4096 8192) 0)"
    by (simp_all add: bump_new_def)
  obtain s where s: "bump_reach (bump_new 4096 8192) s" "bs_end s = 8192" "bs_next s = 4196"
    "bs_blocks s = [(4096, 100, 8)]" "bump_done (bs_pcs s 0)"
    using bump_alloc_undisturbed [OF BumpStart n(4), of 8 100 4096 4196] pw(1) pl(1) n by auto
  obtain s' where s': "bump_reach (bump_new 4096 8192) s'" "bs_blocks s' = [(4096, 100, 8), (4224, 16, 64)]"
    using bump_alloc_undisturbed [OF s(1,5), of 64 16 4224 4240] pw(2) pl(2) s by auto
  from bump_blocks_disjoint [OF s'(1), of 0 1 4096 100 8 4224 16 64] s' show ?thesis by auto
qed

end
