(* ===== verification/Frames.thy ===== *)
theory Frames
  imports Memory
begin

text \<open>
  The physical frame allocator of \<open>kernel/memory/src/lib.rs\<close>: a bitmap of 64-bit words, bit
  \<open>i mod 64\<close> of word \<open>i div 64\<close> standing for frame \<open>i\<close>.  Its abstract specification is a finite set
  of frames in use; allocation, release and reservation refine insertion of the smallest free
  frame, removal, and union with a range.  Physical memory is a map from addresses to bytes,
  since releasing a frame zeroes it.
\<close>

unbundle bit_operations_syntax

record frame_alloc =
  fa_bitmap :: "u64 list"
  fa_total :: nat
  fa_free_count :: nat
  fa_phys_base :: u64

definition frames_new :: "u64 \<Rightarrow> nat \<Rightarrow> frame_alloc" where
  "frames_new phys_base total_frames =
     \<lparr>fa_bitmap = replicate BITMAP_WORDS 0, fa_total = total_frames, fa_free_count = total_frames,
      fa_phys_base = phys_base\<rparr>"

definition trailing_ones :: "u64 \<Rightarrow> nat" where
  "trailing_ones w = length (takeWhile (bit w) [0..<64])"

text \<open>The scan of \<open>alloc_frame\<close>: the first word with a free bit decides.\<close>

fun scan_bitmap :: "nat \<Rightarrow> nat \<Rightarrow> u64 list \<Rightarrow> nat option" where
  "scan_bitmap tot word_idx [] = None"
| "scan_bitmap tot word_idx (w # ws) =
     (if w = - 1 then scan_bitmap tot (Suc word_idx) ws
      else
        let frame_idx = word_idx * 64 + trailing_ones w
        in if tot \<le> frame_idx then None else Some frame_idx)"

definition frame_addr :: "nat \<Rightarrow> frame_alloc \<Rightarrow> u64" where
  "frame_addr frame_idx fa = fa_phys_base fa + of_nat frame_idx * of_nat PAGE_SIZE"

definition set_frame :: "nat \<Rightarrow> frame_alloc \<Rightarrow> frame_alloc" where
  "set_frame i fa =
     fa\<lparr>fa_bitmap := (fa_bitmap fa)[i div 64 := fa_bitmap fa ! (i div 64) OR push_bit (i mod 64) 1]\<rparr>"

definition alloc_frame :: "frame_alloc \<Rightarrow> (alloc_error + u64) \<times> frame_alloc" where
  "alloc_frame fa =
     (if fa_free_count fa = 0 then (Inl OutOfMemory, fa)
      else case scan_bitmap (fa_total fa) 0 (fa_bitmap fa) of
             None \<Rightarrow> (Inl OutOfMemory, fa)
           | Some frame_idx \<Rightarrow>
               (Inr (frame_addr frame_idx fa),
                (set_frame frame_idx fa)\<lparr>fa_free_count := fa_free_count fa - 1\<rparr>))"

type_synonym phys_mem = "u64 \<Rightarrow> u8"

definition zero_page :: "u64 \<Rightarrow> phys_mem \<Rightarrow> phys_mem" where
  "zero_page p m = (\<lambda>a. if a - p < of_nat PAGE_SIZE then 0 else m a)"

definition free_frame ::
  "u64 \<Rightarrow> phys_mem \<Rightarrow> frame_alloc \<Rightarrow> ((alloc_error + unit) \<times> phys_mem \<times> frame_alloc) option" where
  "free_frame phys_addr m fa =
     (if phys_addr < fa_phys_base fa then Some (Inl InvalidAddress, m, fa)
      else
        let frame_idx = unat (phys_addr - fa_phys_base fa) div PAGE_SIZE
        in if fa_total fa \<le> frame_idx then Some (Inl InvalidAddress, m, fa)
           else
             let word_idx = frame_idx div 64; b = frame_idx mod 64
             in if length (fa_bitmap fa) \<le> word_idx then None
                else if fa_bitmap fa ! word_idx AND push_bit b 1 = 0 then Some (Inl DoubleFree, m, fa)
                else Some (Inr (), zero_page phys_addr m,
                  fa\<lparr>fa_bitmap := (fa_bitmap fa)[word_idx := fa_bitmap fa ! word_idx AND NOT (push_bit b 1)],
                     fa_free_count := fa_free_count fa + 1\<rparr>))"

text \<open>The body of the loop of \<open>reserve_range\<close>, over the frame indices in order.\<close>

fun reserve_frames :: "nat list \<Rightarrow> frame_alloc \<Rightarrow> frame_alloc option" where
  "reserve_frames [] fa = Some fa"
| "reserve_frames (i # is) fa =
     (if length (fa_bitmap fa) \<le> i div 64 then None
      else if fa_bitmap fa ! (i div 64) AND push_bit (i mod 64) 1 = 0
      then reserve_frames is ((set_frame i fa)\<lparr>fa_free_count := fa_free_count fa - 1\<rparr>)
      else reserve_frames is fa)"

definition reserve_range :: "u64 \<Rightarrow> u64 \<Rightarrow> frame_alloc \<Rightarrow> frame_alloc option" where
  "reserve_range phys_start phys_end fa =
     (let start_frame = unat (saturating_sub phys_start (fa_phys_base fa)) div PAGE_SIZE;
          end_frame = unat (saturating_sub phys_end (fa_phys_base fa) + of_nat PAGE_SIZE - 1) div PAGE_SIZE
      in reserve_frames [start_frame..<min end_frame (fa_total fa)] fa)"

definition free_frames :: "frame_alloc \<Rightarrow> nat" where "free_frames fa = fa_free_count fa"
definition total_frames :: "frame_alloc \<Rightarrow> nat" where "total_frames fa = fa_total fa"

section \<open>The abstract specification\<close>

text \<open>Bit \<open>i\<close> of the bitmap, and the set of frames in use.\<close>

definition frame_bit :: "u64 list \<Rightarrow> nat \<Rightarrow> bool" where
  "frame_bit bm i \<longleftrightarrow> bit (bm ! (i div 64)) (i mod 64)"

definition used_frames :: "frame_alloc \<Rightarrow> nat set" where
  "used_frames fa = {i. i < fa_total fa \<and> frame_bit (fa_bitmap fa) i}"

definition frames_inv :: "frame_alloc \<Rightarrow> bool" where
  "frames_inv fa \<longleftrightarrow> length (fa_bitmap fa) = BITMAP_WORDS \<and> fa_total fa \<le> MAX_FRAMES
     \<and> fa_free_count fa + card (used_frames fa) = fa_total fa
     \<and> (\<forall>i. fa_total fa \<le> i \<longrightarrow> i < MAX_FRAMES \<longrightarrow> \<not> frame_bit (fa_bitmap fa) i)
     \<and> unat (fa_phys_base fa) + fa_total fa * PAGE_SIZE < 2 ^ 64"

lemma frame_consts: "MAX_FRAMES = 262144" "BITMAP_WORDS = 4096" "PAGE_SIZE = 4096"
  by (simp_all add: MAX_FRAMES_def BITMAP_WORDS_def PAGE_SIZE_def)

lemma finite_used [simp]: "finite (used_frames fa)"
  by (simp add: used_frames_def)

lemma used_below: "used_frames fa \<subseteq> {..<fa_total fa}"
  by (auto simp: used_frames_def)

lemma frames_new_inv:
  "tot \<le> MAX_FRAMES \<Longrightarrow> unat base + tot * PAGE_SIZE < 2 ^ 64 \<Longrightarrow>
   frames_inv (frames_new base tot) \<and> used_frames (frames_new base tot) = {}"
  by (auto simp: frames_inv_def frames_new_def used_frames_def frame_bit_def frame_consts less_mult_imp_div_less)

lemma bit_and_one: "(w AND push_bit n 1 = 0) \<longleftrightarrow> \<not> bit w n" if "n < 64" for w :: u64
proof -
  have b: "bit (w AND push_bit n 1) m \<longleftrightarrow> bit w n \<and> m = n" for m
    using that by (auto simp: bit_simps)
  show ?thesis
  proof (cases "bit w n")
    case True
    then have "bit (w AND push_bit n 1) n" using b by blast
    then have "w AND push_bit n 1 \<noteq> 0" using bit_0_eq by (metis bot_apply bot_bool_def)
    then show ?thesis using True by simp
  next
    case False
    then have "w AND push_bit n 1 = 0" using b by (intro bit_eqI) auto
    then show ?thesis using False by simp
  qed
qed

lemma frame_bit_update:
  assumes "i div 64 < length bm" and "j div 64 < length bm"
  shows "frame_bit (bm[i div 64 := bm ! (i div 64) OR push_bit (i mod 64) 1]) j \<longleftrightarrow> j = i \<or> frame_bit bm j"
    and "frame_bit (bm[i div 64 := bm ! (i div 64) AND NOT (push_bit (i mod 64) 1)]) j \<longleftrightarrow> j \<noteq> i \<and> frame_bit bm j"
proof -
  have eq: "j = i \<longleftrightarrow> j div 64 = i div 64 \<and> j mod 64 = i mod 64" by (metis div_mult_mod_eq)
  have "i mod 64 < 64" "j mod 64 < 64" by simp_all
  then have "bit (push_bit (i mod 64) (1 :: u64)) (j mod 64) \<longleftrightarrow> j mod 64 = i mod 64"
    by (auto simp: bit_simps)
  then show "frame_bit (bm[i div 64 := bm ! (i div 64) OR push_bit (i mod 64) 1]) j \<longleftrightarrow> j = i \<or> frame_bit bm j"
    and "frame_bit (bm[i div 64 := bm ! (i div 64) AND NOT (push_bit (i mod 64) 1)]) j \<longleftrightarrow> j \<noteq> i \<and> frame_bit bm j"
    using assms by (auto simp: frame_bit_def nth_list_update eq bit_or_iff bit_and_iff bit_not_iff)
qed

lemma trailing_ones_props:
  assumes "w \<noteq> - 1"
  shows "trailing_ones w < 64" and "\<not> bit w (trailing_ones w)" and "\<And>i. i < trailing_ones w \<Longrightarrow> bit w i"
proof -
  have "\<not> (\<forall>i < 64. bit w i)"
  proof
    assume "\<forall>i < 64. bit w i"
    then have "w = - 1" by (intro bit_word_eqI) (simp add: bit_minus_1_iff)
    with assms show False by simp
  qed
  then have "\<exists>x \<in> set [0..<64]. \<not> bit w x" by auto
  then have l: "length (takeWhile (bit w) [0..<64]) < length [0..<64]"
    by (metis set_takeWhileD takeWhile_eq_all_conv length_takeWhile_le le_neq_implies_less takeWhile_eq_take take_all order_refl)
  then show "trailing_ones w < 64" by (simp add: trailing_ones_def)
  show "\<not> bit w (trailing_ones w)"
    using nth_length_takeWhile [OF l] l by (simp add: trailing_ones_def)
  show "bit w i" if "i < trailing_ones w" for i
  proof -
    have "takeWhile (bit w) [0..<64] ! i = [0..<64] ! i" using that by (intro takeWhile_nth) (simp add: trailing_ones_def)
    moreover have "bit w (takeWhile (bit w) [0..<64] ! i)"
      using that nth_mem set_takeWhileD unfolding trailing_ones_def by metis
    ultimately show ?thesis using that l by (simp add: trailing_ones_def)
  qed
qed

lemma scan_bitmap_Some:
  "length pre = wi \<Longrightarrow> scan_bitmap tot wi ws = Some i \<Longrightarrow>
   i < tot \<and> i div 64 < length (pre @ ws) \<and> \<not> frame_bit (pre @ ws) i
   \<and> (\<forall>j < i. wi * 64 \<le> j \<longrightarrow> frame_bit (pre @ ws) j)"
proof (induction ws arbitrary: pre wi)
  case (Cons w ws)
  have first: "frame_bit (pre @ w # ws) (wi * 64 + k) \<longleftrightarrow> bit w k" if "k < 64" for k
    using Cons.prems(1) that by (simp add: frame_bit_def nth_append)
  show ?case
  proof (cases "w = - 1")
    case True
    then have "scan_bitmap tot (Suc wi) ws = Some i" using Cons.prems(2) by simp
    from Cons.IH [of "pre @ [w]", OF _ this] Cons.prems(1)
    have ih: "i < tot" "i div 64 < length (pre @ w # ws)" "\<not> frame_bit (pre @ w # ws) i"
      "\<And>j. j < i \<Longrightarrow> Suc wi * 64 \<le> j \<Longrightarrow> frame_bit (pre @ w # ws) j" by simp_all
    have "frame_bit (pre @ w # ws) j" if "j < i" "wi * 64 \<le> j" for j
    proof (cases "Suc wi * 64 \<le> j")
      case False
      then have "j - wi * 64 < 64" "j = wi * 64 + (j - wi * 64)" using that by simp_all
      then show ?thesis using first [of "j - wi * 64"] True by (simp add: bit_minus_1_iff)
    qed (use ih(4) that in simp)
    then show ?thesis using ih by blast
  next
    case False
    note t = trailing_ones_props [OF False]
    have i: "i = wi * 64 + trailing_ones w" "i < tot"
      using Cons.prems(2) False by (auto simp: Let_def split: if_splits)
    have "frame_bit (pre @ w # ws) j" if "j < i" "wi * 64 \<le> j" for j
    proof -
      have "j - wi * 64 < trailing_ones w" "j = wi * 64 + (j - wi * 64)" using that i(1) by simp_all
      then show ?thesis using first [of "j - wi * 64"] t(1) t(3) [of "j - wi * 64"] by simp
    qed
    moreover have "i div 64 < length (pre @ w # ws)" using i(1) t(1) Cons.prems(1) by simp
    ultimately show ?thesis using i first [OF t(1)] t(2) by simp
  qed
qed simp

lemma scan_bitmap_None:
  "length pre = wi \<Longrightarrow> scan_bitmap tot wi ws = None \<Longrightarrow> wi * 64 \<le> j \<Longrightarrow> j < tot \<Longrightarrow>
   j < (wi + length ws) * 64 \<Longrightarrow>
   frame_bit (pre @ ws) j"
proof (induction ws arbitrary: pre wi)
  case (Cons w ws)
  have first: "frame_bit (pre @ w # ws) (wi * 64 + k) \<longleftrightarrow> bit w k" if "k < 64" for k
    using Cons.prems(1) that by (simp add: frame_bit_def nth_append)
  have here: "frame_bit (pre @ w # ws) j \<longleftrightarrow> bit w (j - wi * 64)" if "j < Suc wi * 64"
    using first [of "j - wi * 64"] that Cons.prems(3) by simp
  show ?case
  proof (cases "w = - 1")
    case True
    show ?thesis
    proof (cases "Suc wi * 64 \<le> j")
      case True
      then show ?thesis
        using Cons.IH [of "pre @ [w]" "Suc wi"] Cons.prems \<open>w = - 1\<close> by simp
    next
      case False
      then have "j - wi * 64 < 64" "j < Suc wi * 64" using Cons.prems(3) by simp_all
      then have "bit w (j - wi * 64)" using True by (simp add: bit_minus_1_iff)
      then show ?thesis using here \<open>j < Suc wi * 64\<close> by blast
    qed
  next
    case False
    note t = trailing_ones_props [OF False]
    have le: "tot \<le> wi * 64 + trailing_ones w" using Cons.prems(2) False by (auto simp: Let_def split: if_splits)
    then have "j - wi * 64 < trailing_ones w" "j < Suc wi * 64" using Cons.prems(3,4) t(1) by simp_all
    then show ?thesis using here t(3) by simp
  qed
qed simp

lemma set_frame_used:
  assumes "frames_inv fa" and "i < fa_total fa" and "i \<notin> used_frames fa"
  defines "fa' \<equiv> (set_frame i fa)\<lparr>fa_free_count := fa_free_count fa - 1\<rparr>"
  shows "frames_inv fa'" and "used_frames fa' = insert i (used_frames fa)"
    and "fa_total fa' = fa_total fa" and "fa_phys_base fa' = fa_phys_base fa"
    and "fa_free_count fa' + 1 = fa_free_count fa"
proof -
  have len: "length (fa_bitmap fa) = 4096" "fa_total fa \<le> 262144"
    using assms(1) by (simp_all add: frames_inv_def frame_consts)
  have idx: "j div 64 < length (fa_bitmap fa)" if "j < 262144" for j
    using that len by (simp add: less_mult_imp_div_less)
  have i: "i < 262144" using assms(2) len by simp
  have bits: "frame_bit (fa_bitmap fa') j \<longleftrightarrow> j = i \<or> frame_bit (fa_bitmap fa) j" if "j < 262144" for j
    using frame_bit_update(1) [OF idx [OF i] idx [OF that]] by (simp add: fa'_def set_frame_def)
  show tot: "fa_total fa' = fa_total fa" and base: "fa_phys_base fa' = fa_phys_base fa"
    by (simp_all add: fa'_def set_frame_def)
  show used: "used_frames fa' = insert i (used_frames fa)"
    unfolding used_frames_def tot using bits assms(2) len(2) by auto
  have "card (used_frames fa) < card {..<fa_total fa}"
    using used_below [of fa] assms(2,3) by (intro psubset_card_mono) auto
  then have pos: "0 < fa_free_count fa" using assms(1) by (simp add: frames_inv_def)
  then show "fa_free_count fa' + 1 = fa_free_count fa" by (simp add: fa'_def)
  moreover have "card (used_frames fa') = Suc (card (used_frames fa))" using used assms(3) by simp
  moreover have "\<not> frame_bit (fa_bitmap fa') j" if "fa_total fa \<le> j" "j < 262144" for j
    using bits [OF that(2)] that assms(1,2) by (simp add: frames_inv_def frame_consts)
  ultimately show "frames_inv fa'"
    using assms(1) len tot base by (simp add: frames_inv_def frame_consts) (simp add: fa'_def set_frame_def)
qed

lemma frame_addr_val:
  assumes "frames_inv fa" and "i < fa_total fa"
  shows "unat (frame_addr i fa) = unat (fa_phys_base fa) + i * PAGE_SIZE"
proof -
  have l: "unat (fa_phys_base fa) + fa_total fa * 4096 < 2 ^ 64" using assms(1) by (simp add: frames_inv_def frame_consts)
  have "i * 4096 \<le> fa_total fa * 4096" using assms(2) by simp
  then have s: "unat (fa_phys_base fa) + i * 4096 < 2 ^ 64" using l by linarith
  have "unat (of_nat (i * 4096) :: u64) = i * 4096" using s by (intro unat_of_nat_fits) simp
  then show ?thesis using s by (simp add: frame_addr_def frame_consts)
qed

lemma alloc_frame_cases:
  assumes "frames_inv fa"
  obtains (full) "used_frames fa = {..<fa_total fa}" and "alloc_frame fa = (Inl OutOfMemory, fa)"
  | (got) i fa' where "alloc_frame fa = (Inr (frame_addr i fa), fa')" and "i < fa_total fa" and "i \<notin> used_frames fa"
      and "\<And>j. j < i \<Longrightarrow> j \<in> used_frames fa" and "fa' = (set_frame i fa)\<lparr>fa_free_count := fa_free_count fa - 1\<rparr>"
proof -
  have tot: "fa_total fa \<le> 262144" "length (fa_bitmap fa) = 4096"
    using assms by (simp_all add: frames_inv_def frame_consts)
  have card: "fa_free_count fa + card (used_frames fa) = fa_total fa" using assms by (simp add: frames_inv_def)
  show thesis
  proof (cases "fa_free_count fa = 0")
    case True
    then have "used_frames fa = {..<fa_total fa}"
      using card used_below [of fa] by (intro card_subset_eq) simp_all
    then show thesis using True full by (simp add: alloc_frame_def)
  next
    case False
    show thesis
    proof (cases "scan_bitmap (fa_total fa) 0 (fa_bitmap fa)")
      case None
      have "j \<in> used_frames fa" if "j < fa_total fa" for j
        using scan_bitmap_None [of "[]" 0, OF _ None] that tot by (simp add: used_frames_def)
      then have "used_frames fa = {..<fa_total fa}" using used_below [of fa] by auto
      then show thesis using None full by (simp add: alloc_frame_def)
    next
      case (Some i)
      from scan_bitmap_Some [of "[]" 0, OF _ Some]
      have i: "i < fa_total fa" "i \<notin> used_frames fa" "\<And>j. j < i \<Longrightarrow> j \<in> used_frames fa"
        by (auto simp: used_frames_def)
      then show thesis using False Some by (intro got [OF _ i refl]) (simp_all add: alloc_frame_def)
    qed
  qed
qed

text \<open>Releasing a frame that is in use.\<close>

lemma free_frame_used:
  assumes "frames_inv fa" and "i \<in> used_frames fa"
  obtains fa' where "free_frame (frame_addr i fa) m fa = Some (Inr (), zero_page (frame_addr i fa) m, fa')"
    and "frames_inv fa'" and "used_frames fa' = used_frames fa - {i}" and "fa_total fa' = fa_total fa"
    and "fa_phys_base fa' = fa_phys_base fa"
proof -
  have i: "i < fa_total fa" "frame_bit (fa_bitmap fa) i" using assms(2) by (simp_all add: used_frames_def)
  have len: "length (fa_bitmap fa) = 4096" "fa_total fa \<le> 262144"
    using assms(1) by (simp_all add: frames_inv_def frame_consts)
  have idx: "j div 64 < length (fa_bitmap fa)" if "j < 262144" for j
    using that len by (simp add: less_mult_imp_div_less)
  note a = frame_addr_val [OF assms(1) i(1)]
  then have le: "fa_phys_base fa \<le> frame_addr i fa" by (simp add: word_le_nat_alt)
  then have d: "unat (frame_addr i fa - fa_phys_base fa) div PAGE_SIZE = i"
    by (simp add: unat_sub_le a frame_consts)
  define fa' where "fa' = fa\<lparr>fa_bitmap := (fa_bitmap fa)[i div 64 := fa_bitmap fa ! (i div 64) AND NOT (push_bit (i mod 64) 1)],
    fa_free_count := fa_free_count fa + 1\<rparr>"
  have "\<not> (fa_bitmap fa ! (i div 64) AND push_bit (i mod 64) 1 = 0)"
    using i(2) bit_and_one [of "i mod 64" "fa_bitmap fa ! (i div 64)"] by (simp add: frame_bit_def)
  then have f: "free_frame (frame_addr i fa) m fa = Some (Inr (), zero_page (frame_addr i fa) m, fa')"
    using le i(1) idx [of i] len(2) by (simp add: free_frame_def d Let_def fa'_def)
  have bits: "frame_bit (fa_bitmap fa') j \<longleftrightarrow> j \<noteq> i \<and> frame_bit (fa_bitmap fa) j" if "j < 262144" for j
    using frame_bit_update(2) [of i "fa_bitmap fa" j] idx [of i] idx [OF that] i(1) len(2) by (simp add: fa'_def)
  have used: "used_frames fa' = used_frames fa - {i}"
    unfolding used_frames_def using bits len(2) by (auto simp: fa'_def)
  have c: "card (used_frames fa) = Suc (card (used_frames fa'))"
    using assms(2) unfolding used by (subst card.remove [where x = i]) simp_all
  have "\<not> frame_bit (fa_bitmap fa') j" if "fa_total fa \<le> j" "j < 262144" for j
    using bits [OF that(2)] that assms(1) by (simp add: frames_inv_def frame_consts)
  then have "frames_inv fa'"
    using assms(1) c by (simp add: frames_inv_def frame_consts) (simp add: fa'_def)
  then show thesis using that [OF f _ used] by (simp add: fa'_def)
qed

lemma free_frame_unused:
  assumes "frames_inv fa" and "i < fa_total fa" and "i \<notin> used_frames fa"
  shows "free_frame (frame_addr i fa) m fa = Some (Inl DoubleFree, m, fa)"
proof -
  have len: "length (fa_bitmap fa) = 4096" "fa_total fa \<le> 262144"
    using assms(1) by (simp_all add: frames_inv_def frame_consts)
  have idx: "i div 64 < 4096" using assms(2) len by (simp add: less_mult_imp_div_less)
  note a = frame_addr_val [OF assms(1,2)]
  then have le: "fa_phys_base fa \<le> frame_addr i fa" by (simp add: word_le_nat_alt)
  then have d: "unat (frame_addr i fa - fa_phys_base fa) div PAGE_SIZE = i"
    by (simp add: unat_sub_le a frame_consts)
  have "fa_bitmap fa ! (i div 64) AND push_bit (i mod 64) 1 = 0"
    using assms(2,3) bit_and_one [of "i mod 64" "fa_bitmap fa ! (i div 64)"]
    by (simp add: used_frames_def frame_bit_def)
  then show ?thesis using le assms(2) idx len by (simp add: free_frame_def d Let_def)
qed

lemma reserve_frames_used:
  "frames_inv fa \<Longrightarrow> set is \<subseteq> {..<fa_total fa} \<Longrightarrow>
   \<exists>fa'. reserve_frames is fa = Some fa' \<and> frames_inv fa' \<and> used_frames fa' = used_frames fa \<union> set is
     \<and> fa_total fa' = fa_total fa \<and> fa_phys_base fa' = fa_phys_base fa"
proof (induction "is" arbitrary: fa)
  case (Cons i js)
  have len: "length (fa_bitmap fa) = 4096" "fa_total fa \<le> 262144"
    using Cons.prems(1) by (simp_all add: frames_inv_def frame_consts)
  have i: "i < fa_total fa" "\<not> length (fa_bitmap fa) \<le> i div 64"
    using Cons.prems(2) len by (auto simp: less_mult_imp_div_less not_le)
  have free: "fa_bitmap fa ! (i div 64) AND push_bit (i mod 64) 1 = 0 \<longleftrightarrow> i \<notin> used_frames fa"
    using i(1) bit_and_one [of "i mod 64" "fa_bitmap fa ! (i div 64)"] by (simp add: used_frames_def frame_bit_def)
  show ?case
  proof (cases "i \<in> used_frames fa")
    case True
    then show ?thesis using Cons i free by (simp add: insert_absorb)
  next
    case False
    note s = set_frame_used [OF Cons.prems(1) i(1) False]
    show ?thesis
      using Cons.IH [OF s(1)] Cons.prems(2) i(2) free False s by (simp add: insert_commute Un_insert_right)
  qed
qed simp

text \<open>
  C19. The bitmap allocator refines a finite set of frames: allocation fails exactly when every
  frame is in use and otherwise returns the smallest unused one; releasing a used frame takes
  it out of the set and zeroes its page and nothing else in memory; a frame that is not in use
  is refused as a double free; and every operation keeps the counter equal to the number of
  unused frames.
\<close>

theorem frames_refine_set:
  assumes "frames_inv fa" and "i < fa_total fa"
  shows "(case alloc_frame fa of
      (Inl e, fa') \<Rightarrow> e = OutOfMemory \<and> fa' = fa \<and> used_frames fa = {..<fa_total fa}
    | (Inr p, fa') \<Rightarrow> frames_inv fa' \<and> (\<exists>k. k \<notin> used_frames fa \<and> k < fa_total fa \<and> {..<k} \<subseteq> used_frames fa
        \<and> unat p = unat (fa_phys_base fa) + k * PAGE_SIZE \<and> used_frames fa' = insert k (used_frames fa)))
    \<and> (case free_frame (frame_addr i fa) m fa of
      Some (Inr _, m', fa') \<Rightarrow> i \<in> used_frames fa \<and> frames_inv fa' \<and> used_frames fa' = used_frames fa - {i}
        \<and> m' = zero_page (frame_addr i fa) m \<and> free_frames fa' + card (used_frames fa') = total_frames fa'
    | Some (Inl e, m', fa') \<Rightarrow> i \<notin> used_frames fa \<and> e = DoubleFree \<and> m' = m \<and> fa' = fa
    | None \<Rightarrow> False)"
proof (intro conjI)
  show "case alloc_frame fa of
      (Inl e, fa') \<Rightarrow> e = OutOfMemory \<and> fa' = fa \<and> used_frames fa = {..<fa_total fa}
    | (Inr p, fa') \<Rightarrow> frames_inv fa' \<and> (\<exists>k. k \<notin> used_frames fa \<and> k < fa_total fa \<and> {..<k} \<subseteq> used_frames fa
        \<and> unat p = unat (fa_phys_base fa) + k * PAGE_SIZE \<and> used_frames fa' = insert k (used_frames fa))"
  proof (rule alloc_frame_cases [OF assms(1)], goal_cases)
    case 1
    then show ?case by simp
  next
    case (2 k fa')
    then show ?case
      using set_frame_used(1,2) [OF assms(1) 2(2,3)] frame_addr_val [OF assms(1) 2(2)] by auto
  qed
next
  show "case free_frame (frame_addr i fa) m fa of
      Some (Inr _, m', fa') \<Rightarrow> i \<in> used_frames fa \<and> frames_inv fa' \<and> used_frames fa' = used_frames fa - {i}
        \<and> m' = zero_page (frame_addr i fa) m \<and> free_frames fa' + card (used_frames fa') = total_frames fa'
    | Some (Inl e, m', fa') \<Rightarrow> i \<notin> used_frames fa \<and> e = DoubleFree \<and> m' = m \<and> fa' = fa
    | None \<Rightarrow> False"
  proof (cases "i \<in> used_frames fa")
    case True
    obtain fa' where f: "free_frame (frame_addr i fa) m fa = Some (Inr (), zero_page (frame_addr i fa) m, fa')"
      "frames_inv fa'" "used_frames fa' = used_frames fa - {i}"
      by (rule free_frame_used [OF assms(1) True])
    have "free_frames fa' + card (used_frames fa') = total_frames fa'"
      using f(2) by (simp add: frames_inv_def free_frames_def total_frames_def)
    then show ?thesis using f True by simp
  qed (simp add: free_frame_unused [OF assms])
qed

theorem frames_refine_set_witness:
  "\<exists>fa p. alloc_frame (frames_new 0x100000 8) = (Inr p, fa) \<and> frames_inv fa \<and> used_frames fa = {0} \<and> unat p = 0x100000"
proof -
  have n: "frames_inv (frames_new 0x100000 8)" "used_frames (frames_new 0x100000 8) = {}"
    using frames_new_inv [of 8 "0x100000"] by (simp_all add: frame_consts)
  have t: "fa_total (frames_new 0x100000 8) = 8" "unat (fa_phys_base (frames_new 0x100000 8)) = 0x100000"
    by (simp_all add: frames_new_def)
  have "{..<8 :: nat} \<noteq> {}" by (simp add: lessThan_def) presburger
  then show ?thesis
    using conjunct1 [OF frames_refine_set [OF n(1), of 0 "\<lambda>_. 0"]] t n(2)
    by (auto split: prod.splits sum.splits)
qed

text \<open>
  Reservation takes exactly the frames the byte range touches out of circulation: afterwards
  the frames in use are the old ones and those from the first to the last page of the range
  (cut at the end of memory), and the counter is still right.
\<close>

theorem reserve_range_refines:
  assumes "frames_inv fa" and "unat hi + PAGE_SIZE \<le> 2 ^ 64"
  shows "\<exists>fa'. reserve_range lo hi fa = Some fa' \<and> frames_inv fa'
    \<and> used_frames fa' = used_frames fa \<union>
        {i. i < fa_total fa \<and> unat lo < unat (fa_phys_base fa) + (i + 1) * PAGE_SIZE
             \<and> unat (fa_phys_base fa) + i * PAGE_SIZE < unat hi}"
proof -
  let ?b = "unat (fa_phys_base fa)"
  define x where "x = saturating_sub hi (fa_phys_base fa)"
  have s: "unat (saturating_sub lo (fa_phys_base fa)) = unat lo - ?b" and x: "unat x = unat hi - ?b"
    by (simp_all add: x_def unat_saturating_sub)
  have "unat x + 4095 < 2 ^ 64" using assms(2) unfolding x frame_consts by linarith
  moreover have "unat (4095 :: u64) = 4095" by simp
  ultimately have "unat (x + 4095) = unat x + 4095" by (subst unat_add_fits) simp_all
  moreover have "x + of_nat PAGE_SIZE - 1 = x + 4095" by (simp add: frame_consts)
  ultimately have e: "unat (x + of_nat PAGE_SIZE - 1) = unat hi - ?b + 4095" by (simp only: x)
  let ?is = "[(unat lo - ?b) div PAGE_SIZE..<min ((unat hi - ?b + 4095) div PAGE_SIZE) (fa_total fa)]"
  have r: "reserve_range lo hi fa = reserve_frames ?is fa"
    by (simp only: reserve_range_def Let_def s x_def [symmetric] e)
  have "(unat lo - ?b) div 4096 \<le> i \<longleftrightarrow> unat lo < ?b + (i + 1) * 4096" for i by auto
  moreover have "i < (unat hi - ?b + 4095) div 4096 \<longleftrightarrow> ?b + i * 4096 < unat hi" for i by auto
  ultimately have set: "set ?is = {i. i < fa_total fa \<and> unat lo < ?b + (i + 1) * PAGE_SIZE \<and> ?b + i * PAGE_SIZE < unat hi}"
    unfolding frame_consts by auto
  have "set ?is \<subseteq> {..<fa_total fa}" by auto
  from reserve_frames_used [OF assms(1) this] show ?thesis unfolding r set by blast
qed

theorem reserve_range_refines_witness:
  "\<exists>fa. reserve_range 0x100800 0x102001 (frames_new 0x100000 8) = Some fa \<and> frames_inv fa \<and> used_frames fa = {0, 1, 2}"
proof -
  have n: "frames_inv (frames_new 0x100000 8)" "used_frames (frames_new 0x100000 8) = {}"
    using frames_new_inv [of 8 "0x100000"] by (simp_all add: frame_consts)
  have "{i. i < fa_total (frames_new 0x100000 8) \<and> unat (0x100800 :: u64) < unat (fa_phys_base (frames_new 0x100000 8)) + (i + 1) * PAGE_SIZE
      \<and> unat (fa_phys_base (frames_new 0x100000 8)) + i * PAGE_SIZE < unat (0x102001 :: u64)} = {0, 1, 2}"
    by (auto simp: frames_new_def frame_consts)
  then show ?thesis using reserve_range_refines [OF n(1), of "0x102001" "0x100800"] n(2) by (simp add: frame_consts)
qed

end
