(* ===== verification/Scheduler.thy ===== *)
theory Scheduler
  imports Prelude
begin

text \<open>
  The scheduler (\<open>kernel/scheduler/src/lib.rs\<close>): 64 task control blocks, the index of the current
  one, the next task id, and of the processor the callee-saved registers and the interrupt flag,
  which \<open>context_switch\<close> and \<open>critical_section\<close> change.  Everything runs with interrupts off, so
  the operations are functions of this state.
\<close>

definition MAX_TASKS :: nat where "MAX_TASKS = 64"
definition DEFAULT_TIMESLICE :: u32 where "DEFAULT_TIMESLICE = 10"

datatype task_state = Empty | Ready | Running | Blocked | Zombie

datatype spawn_error = NoSlot | NotFound

record cpu_context =
  ctx_rsp :: u64
  ctx_r15 :: u64
  ctx_r14 :: u64
  ctx_r13 :: u64
  ctx_r12 :: u64
  ctx_rbp :: u64
  ctx_rbx :: u64

definition context_zero :: cpu_context where
  "context_zero = \<lparr>ctx_rsp = 0, ctx_r15 = 0, ctx_r14 = 0, ctx_r13 = 0, ctx_r12 = 0, ctx_rbp = 0, ctx_rbx = 0\<rparr>"

record tcb =
  t_tid :: u32
  t_state :: task_state
  t_context :: cpu_context
  t_stack_top :: u64
  t_stack_size :: u64
  t_timeslice :: u32
  t_priority :: u8
  t_entry :: "u64 option"

definition tcb_empty :: tcb where
  "tcb_empty = \<lparr>t_tid = 0, t_state = Empty, t_context = context_zero, t_stack_top = 0, t_stack_size = 0,
     t_timeslice = DEFAULT_TIMESLICE, t_priority = 128, t_entry = None\<rparr>"

definition zeroize_and_release :: "tcb \<Rightarrow> tcb" where
  "zeroize_and_release t =
     t\<lparr>t_context := context_zero, t_stack_top := 0, t_stack_size := 0, t_entry := None, t_state := Empty\<rparr>"

record sched =
  sc_table :: "tcb list"
  sc_next_tid :: u32
  sc_current :: nat
  sc_cpu :: cpu_context
  sc_irq :: bool

text \<open>The statics of the module at boot; \<open>cpu\<close> is what the registers hold then.\<close>

definition sched_boot :: "cpu_context \<Rightarrow> sched" where
  "sched_boot cpu = \<lparr>sc_table = replicate MAX_TASKS tcb_empty, sc_next_tid = 1, sc_current = 0,
     sc_cpu = cpu, sc_irq = True\<rparr>"

definition critical_section :: "(sched \<Rightarrow> 'r \<times> sched) \<Rightarrow> sched \<Rightarrow> 'r \<times> sched" where
  "critical_section f s = (let (r, s) = f (s\<lparr>sc_irq := False\<rparr>) in (r, s\<lparr>sc_irq := True\<rparr>))"

definition set_task :: "nat \<Rightarrow> tcb \<Rightarrow> sched \<Rightarrow> sched" where
  "set_task i t s = s\<lparr>sc_table := (sc_table s)[i := t]\<rparr>"

definition spawn :: "u64 \<Rightarrow> u64 \<Rightarrow> u64 \<Rightarrow> u8 \<Rightarrow> sched \<Rightarrow> (spawn_error + u32) \<times> sched" where
  "spawn entry stack_top stack_size priority =
     critical_section (\<lambda>s.
       case position (\<lambda>t. t_state t = Empty) (sc_table s) of
         None \<Rightarrow> (Inl NoSlot, s)
       | Some i \<Rightarrow>
           let tid = sc_next_tid s; slot = sc_table s ! i
           in (Inr tid, set_task i (slot\<lparr>t_tid := tid, t_state := Ready, t_stack_top := stack_top,
                 t_stack_size := stack_size, t_timeslice := DEFAULT_TIMESLICE, t_priority := priority,
                 t_entry := Some entry,
                 t_context := (t_context slot)\<lparr>ctx_rsp := stack_top + stack_size - 8\<rparr>\<rparr>)
               (s\<lparr>sc_next_tid := tid + 1\<rparr>)))"

text \<open>
  Registers are saved into the old block before the new one is loaded.  This is the effect of the
  switch on the table and the processor; the instructions after it are executed on the stack of the
  other task, which is not modelled.
\<close>

definition context_switch :: "nat \<Rightarrow> nat \<Rightarrow> sched \<Rightarrow> sched" where
  "context_switch prev nxt s =
     (let s = set_task prev ((sc_table s ! prev)\<lparr>t_context := sc_cpu s\<rparr>) s
      in s\<lparr>sc_cpu := t_context (sc_table s ! nxt)\<rparr>)"

definition schedule :: "sched \<Rightarrow> sched" where
  "schedule s =
     (let cur = sc_current s; start = (cur + 1) mod MAX_TASKS
      in case find (\<lambda>i. t_state (sc_table s ! i) = Ready) ([start..<MAX_TASKS] @ [0..<start]) of
           None \<Rightarrow> s
         | Some nxt \<Rightarrow>
             let s = set_task nxt ((sc_table s ! nxt)\<lparr>t_state := Running\<rparr>) s; s = s\<lparr>sc_current := nxt\<rparr>
             in context_switch cur nxt s)"

definition tick :: "sched \<Rightarrow> sched" where
  "tick s =
     (let cur = sc_current s
      in if cur < MAX_TASKS \<and> t_state (sc_table s ! cur) = Running then
           let ts = t_timeslice (sc_table s ! cur);
               ts = (if 0 < ts then ts - 1 else ts);
               s = set_task cur ((sc_table s ! cur)\<lparr>t_timeslice := ts\<rparr>) s
           in if ts = 0
              then schedule (set_task cur ((sc_table s ! cur)\<lparr>t_state := Ready, t_timeslice := DEFAULT_TIMESLICE\<rparr>) s)
              else s
         else s)"

definition block_current :: "sched \<Rightarrow> unit \<times> sched" where
  "block_current =
     critical_section (\<lambda>s.
       let cur = sc_current s;
           s = (if cur < MAX_TASKS then set_task cur ((sc_table s ! cur)\<lparr>t_state := Blocked\<rparr>) s else s)
       in ((), schedule s))"

definition unblock :: "u32 \<Rightarrow> sched \<Rightarrow> (spawn_error + unit) \<times> sched" where
  "unblock tid =
     critical_section (\<lambda>s.
       case position (\<lambda>t. t_tid t = tid \<and> t_state t = Blocked) (sc_table s) of
         None \<Rightarrow> (Inl NotFound, s)
       | Some i \<Rightarrow> (Inr (), set_task i ((sc_table s ! i)\<lparr>t_state := Ready\<rparr>) s))"

section \<open>The invariant\<close>

text \<open>What can happen: the calls, the timer, and (\<open>OpCpu\<close>) the current task using its registers.\<close>

datatype sched_op = OpSpawn u64 u64 u64 u8 | OpTick | OpBlock | OpUnblock u32 | OpCpu cpu_context

fun sched_exec :: "sched_op \<Rightarrow> sched \<Rightarrow> sched" where
  "sched_exec (OpSpawn entry tp sz prio) s = snd (spawn entry tp sz prio s)"
| "sched_exec OpTick s = tick s"
| "sched_exec OpBlock s = snd (block_current s)"
| "sched_exec (OpUnblock tid) s = snd (unblock tid s)"
| "sched_exec (OpCpu c) s = s\<lparr>sc_cpu := c\<rparr>"

definition task :: "sched \<Rightarrow> nat \<Rightarrow> tcb" where
  "task s i = sc_table s ! i"

definition sched_inv :: "sched \<Rightarrow> bool" where
  "sched_inv s \<longleftrightarrow> length (sc_table s) = MAX_TASKS \<and> sc_current s < MAX_TASKS
     \<and> (\<forall>i < MAX_TASKS. t_state (task s i) = Running \<longrightarrow> i = sc_current s)
     \<and> (\<forall>i < MAX_TASKS. t_timeslice (task s i) \<le> DEFAULT_TIMESLICE)"

lemma MAX_TASKS_pos [simp]: "0 < MAX_TASKS"
  by (simp add: MAX_TASKS_def)

lemma set_task_simps [simp]:
  "sc_current (set_task i t s) = sc_current s" "sc_cpu (set_task i t s) = sc_cpu s"
  "sc_irq (set_task i t s) = sc_irq s" "sc_next_tid (set_task i t s) = sc_next_tid s"
  "length (sc_table (set_task i t s)) = length (sc_table s)"
  by (simp_all add: set_task_def)

lemma task_set_task:
  "i < length (sc_table s) \<Longrightarrow> task (set_task i t s) j = (if j = i then t else task s j)"
  by (simp add: task_def set_task_def)

lemma task_update [simp]:
  "task (s\<lparr>sc_irq := b\<rparr>) i = task s i" "task (s\<lparr>sc_next_tid := n\<rparr>) i = task s i"
  "task (s\<lparr>sc_current := c\<rparr>) i = task s i" "task (s\<lparr>sc_cpu := r\<rparr>) i = task s i"
  by (simp_all add: task_def)

lemma sched_inv_update [simp]:
  "sched_inv (s\<lparr>sc_irq := b\<rparr>) = sched_inv s" "sched_inv (s\<lparr>sc_next_tid := n\<rparr>) = sched_inv s"
  "sched_inv (s\<lparr>sc_cpu := c\<rparr>) = sched_inv s"
  by (simp_all add: sched_inv_def)

lemma sched_boot_inv: "sched_inv (sched_boot cpu)"
  by (simp add: sched_inv_def sched_boot_def task_def tcb_empty_def)

text \<open>The search order of \<open>schedule\<close> is the cyclic order after the current task.\<close>

definition cyc_dist :: "nat \<Rightarrow> nat \<Rightarrow> nat" where
  "cyc_dist cur j = (j + MAX_TASKS - cur - 1) mod MAX_TASKS"

lemma find_SomeD: "find P xs = Some x \<Longrightarrow> x \<in> set xs \<and> P x"
  by (induction xs) (auto split: if_splits)

lemma find_rotate:
  assumes "cur < MAX_TASKS" and "j < MAX_TASKS" and "P j"
  defines "start \<equiv> (cur + 1) mod MAX_TASKS"
  shows "\<exists>k. find P ([start..<MAX_TASKS] @ [0..<start]) = Some k \<and> k < MAX_TASKS \<and> P k \<and> cyc_dist cur k \<le> cyc_dist cur j"
proof -
  let ?xs = "[start..<MAX_TASKS] @ [0..<start]"
  have st: "start < MAX_TASKS" by (simp add: start_def)
  have len: "length ?xs = MAX_TASKS" using st by simp
  have nth: "?xs ! d = (cur + 1 + d) mod MAX_TASKS" if "d < MAX_TASKS" for d
  proof (cases "cur + 1 = MAX_TASKS")
    case True
    then show ?thesis using that by (simp add: start_def)
  next
    case False
    then have s: "start = cur + 1" using assms(1) by (simp add: start_def)
    show ?thesis
    proof (cases "d < MAX_TASKS - start")
      case True
      then show ?thesis using s by (simp add: nth_append)
    next
      case F: False
      then have "cur + 1 + d = MAX_TASKS + (d - (MAX_TASKS - start))" using s st by simp
      moreover have "d - (MAX_TASKS - start) < MAX_TASKS" using that by simp
      ultimately have "(cur + 1 + d) mod MAX_TASKS = d - (MAX_TASKS - start)" by simp
      then show ?thesis using F that st by (simp add: nth_append)
    qed
  qed
  have dist: "cyc_dist cur ((cur + 1 + d) mod MAX_TASKS) = d" if "d < MAX_TASKS" for d
  proof (cases "cur + 1 + d < MAX_TASKS")
    case True
    then have "cyc_dist cur ((cur + 1 + d) mod MAX_TASKS) = (d + MAX_TASKS) mod MAX_TASKS"
      by (simp add: cyc_dist_def add.commute)
    then show ?thesis using that by simp
  next
    case False
    then have "(cur + 1 + d) mod MAX_TASKS = cur + 1 + d - MAX_TASKS"
      using that assms(1) by (simp add: mod_if)
    then have "cyc_dist cur ((cur + 1 + d) mod MAX_TASKS) = d mod MAX_TASKS"
      using False by (simp add: cyc_dist_def)
    then show ?thesis using that by simp
  qed
  obtain d where d: "d < MAX_TASKS" "j = (cur + 1 + d) mod MAX_TASKS"
  proof (cases "cur < j")
    case True
    then show ?thesis using that [of "j - cur - 1"] assms(2) by simp
  next
    case False
    have "cur + 1 + (j + MAX_TASKS - cur - 1) = j + MAX_TASKS" using assms(1) by simp
    then show ?thesis using that [of "j + MAX_TASKS - cur - 1"] False assms(2) by simp
  qed
  have "find P ?xs \<noteq> None"
    using d nth [OF d(1)] len assms(3) by (metis find_None_iff nth_mem)
  then obtain k where k: "find P ?xs = Some k" by blast
  then obtain i where i: "i < length ?xs" "P (?xs ! i)" "k = ?xs ! i" "\<forall>l < i. \<not> P (?xs ! l)"
    unfolding find_Some_iff by blast
  have il: "i < MAX_TASKS" using i(1) len by simp
  have "i \<le> d" using i(4) nth [OF d(1)] d(2) assms(3) by (metis linorder_not_less)
  moreover have "cyc_dist cur k = i" using dist [OF il] nth [OF il] i(3) by simp
  moreover have "cyc_dist cur j = d" using dist [OF d(1)] d(2) by simp
  moreover have "k < MAX_TASKS" using i(3) nth [OF il] by simp
  moreover have "P k" using i(2,3) by simp
  ultimately show ?thesis using k by (intro exI [of _ k]) simp
qed

lemma schedule_none:
  assumes "sc_current s < MAX_TASKS" and "\<forall>i < MAX_TASKS. t_state (task s i) \<noteq> Ready"
  shows "schedule s = s"
proof -
  let ?st = "(sc_current s + 1) mod MAX_TASKS"
  have "find (\<lambda>i. t_state (sc_table s ! i) = Ready) ([?st..<MAX_TASKS] @ [0..<?st]) = None"
  proof -
    have st: "?st < MAX_TASKS" by simp
    have "t_state (sc_table s ! i) \<noteq> Ready" if i: "i \<in> set ([?st..<MAX_TASKS] @ [0..<?st])" for i
    proof -
      have "i < MAX_TASKS" using i order_less_trans [OF _ st, of i] by auto
      then show ?thesis using assms(2) by (simp add: task_def)
    qed
    then show ?thesis unfolding find_None_iff by blast
  qed
  then show ?thesis by (simp only: schedule_def Let_def option.case)
qed

lemma schedule_some:
  assumes "sc_current s < MAX_TASKS" and "length (sc_table s) = MAX_TASKS" and "j < MAX_TASKS"
    and "t_state (task s j) = Ready"
  obtains k where "k < MAX_TASKS" and "t_state (task s k) = Ready" and "cyc_dist (sc_current s) k \<le> cyc_dist (sc_current s) j"
    and "sc_current (schedule s) = k" and "length (sc_table (schedule s)) = MAX_TASKS"
    and "\<And>i. i < MAX_TASKS \<Longrightarrow> t_state (task (schedule s) i) = (if i = k then Running else t_state (task s i))"
    and "\<And>i. i < MAX_TASKS \<Longrightarrow> t_timeslice (task (schedule s) i) = t_timeslice (task s i)"
    and "\<And>i. i < MAX_TASKS \<Longrightarrow> t_context (task (schedule s) i) = (if i = sc_current s then sc_cpu s else t_context (task s i))"
    and "sc_cpu (schedule s) = (if k = sc_current s then sc_cpu s else t_context (task s k))"
proof -
  let ?cur = "sc_current s"
  obtain k where f: "find (\<lambda>i. t_state (sc_table s ! i) = Ready)
      ([(?cur + 1) mod MAX_TASKS..<MAX_TASKS] @ [0..<(?cur + 1) mod MAX_TASKS]) = Some k"
    and k: "k < MAX_TASKS" "t_state (sc_table s ! k) = Ready" "cyc_dist ?cur k \<le> cyc_dist ?cur j"
    using find_rotate [OF assms(1,3), of "\<lambda>i. t_state (sc_table s ! i) = Ready"] assms(4) by (auto simp: task_def)
  let ?s1 = "(set_task k ((sc_table s ! k)\<lparr>t_state := Running\<rparr>) s)\<lparr>sc_current := k\<rparr>"
  have sc: "schedule s = context_switch ?cur k ?s1" by (simp only: schedule_def Let_def f option.case)
  have t1: "task ?s1 i = (if i = k then (task s k)\<lparr>t_state := Running\<rparr> else task s i)" for i
    using k(1) assms(2) by (simp add: task_set_task) (simp add: task_def)
  have l1: "length (sc_table ?s1) = MAX_TASKS" using assms(2) by simp
  have cs: "context_switch ?cur k ?s1 = (let s2 = set_task ?cur ((task ?s1 ?cur)\<lparr>t_context := sc_cpu s\<rparr>) ?s1
      in s2\<lparr>sc_cpu := t_context (task s2 k)\<rparr>)" by (simp add: context_switch_def task_def)
  have t2: "task (schedule s) i = (if i = ?cur then (task ?s1 ?cur)\<lparr>t_context := sc_cpu s\<rparr> else task ?s1 i)" for i
    unfolding sc cs Let_def task_update using task_set_task [of ?cur ?s1] l1 assms(1) by simp
  show thesis
  proof (rule that [OF k(1) _ k(3)])
    show "t_state (task s k) = Ready" using k(2) by (simp add: task_def)
    show "sc_current (schedule s) = k" "length (sc_table (schedule s)) = MAX_TASKS"
      unfolding sc cs Let_def using assms(2) by simp_all
    show "t_state (task (schedule s) i) = (if i = k then Running else t_state (task s i))" for i
      unfolding t2 t1 by simp
    show "t_timeslice (task (schedule s) i) = t_timeslice (task s i)" for i unfolding t2 t1 by simp
    show "t_context (task (schedule s) i) = (if i = ?cur then sc_cpu s else t_context (task s i))" for i
      unfolding t2 t1 by simp
    show "sc_cpu (schedule s) = (if k = ?cur then sc_cpu s else t_context (task s k))"
      unfolding sc cs Let_def using task_set_task [of ?cur ?s1] t1 l1 assms(1) by simp
  qed
qed

lemma schedule_inv:
  assumes "length (sc_table s) = MAX_TASKS" and "sc_current s < MAX_TASKS"
    and "\<forall>i < MAX_TASKS. t_state (task s i) \<noteq> Running" and "\<forall>i < MAX_TASKS. t_timeslice (task s i) \<le> DEFAULT_TIMESLICE"
  shows "sched_inv (schedule s)"
proof (cases "\<exists>j < MAX_TASKS. t_state (task s j) = Ready")
  case True
  then obtain j where j: "j < MAX_TASKS" "t_state (task s j) = Ready" by blast
  show ?thesis
    by (rule schedule_some [OF assms(2,1) j]) (use assms in \<open>auto simp: sched_inv_def split: if_splits\<close>)
next
  case False
  then show ?thesis using schedule_none [OF assms(2)] assms by (auto simp: sched_inv_def)
qed

text \<open>The four operations, the table seen task by task.\<close>

lemma spawn_effect:
  assumes "length (sc_table s) = MAX_TASKS"
  shows "snd (spawn entry tp sz prio s) = s\<lparr>sc_irq := True\<rparr>
    \<or> (\<exists>i t n. i < MAX_TASKS \<and> t_state (task s i) = Empty \<and> t_state t = Ready \<and> t_timeslice t = DEFAULT_TIMESLICE
         \<and> snd (spawn entry tp sz prio s) = (set_task i t s)\<lparr>sc_irq := True, sc_next_tid := n\<rparr>)"
proof (cases "position (\<lambda>t. t_state t = Empty) (sc_table s)")
  case None
  then show ?thesis by (simp add: spawn_def critical_section_def)
next
  case (Some i)
  from position_SomeD [OF Some] have "i < MAX_TASKS" "t_state (task s i) = Empty"
    using assms by (simp_all add: task_def)
  let ?t = "(task s i)\<lparr>t_tid := sc_next_tid s, t_state := Ready, t_stack_top := tp, t_stack_size := sz,
      t_timeslice := DEFAULT_TIMESLICE, t_priority := prio, t_entry := Some entry,
      t_context := (t_context (task s i))\<lparr>ctx_rsp := tp + sz - 8\<rparr>\<rparr>"
  have "snd (spawn entry tp sz prio s) = (set_task i ?t s)\<lparr>sc_irq := True, sc_next_tid := sc_next_tid s + 1\<rparr>"
    by (rule sched.equality) (simp_all add: spawn_def critical_section_def Some set_task_def task_def Let_def)
  moreover have "t_state ?t = Ready" "t_timeslice ?t = DEFAULT_TIMESLICE" by simp_all
  ultimately show ?thesis using \<open>i < MAX_TASKS\<close> \<open>t_state (task s i) = Empty\<close> by blast
qed

lemma unblock_effect:
  assumes "length (sc_table s) = MAX_TASKS"
  shows "snd (unblock tid s) = s\<lparr>sc_irq := True\<rparr>
    \<or> (\<exists>i. i < MAX_TASKS \<and> t_state (task s i) = Blocked
         \<and> snd (unblock tid s) = (set_task i ((task s i)\<lparr>t_state := Ready\<rparr>) s)\<lparr>sc_irq := True\<rparr>)"
proof (cases "position (\<lambda>t. t_tid t = tid \<and> t_state t = Blocked) (sc_table s)")
  case None
  then show ?thesis by (simp add: unblock_def critical_section_def)
next
  case (Some i)
  from position_SomeD [OF Some] have "i < MAX_TASKS" "t_state (task s i) = Blocked"
    using assms by (simp_all add: task_def)
  then show ?thesis
    by (intro disjI2) (auto simp: unblock_def critical_section_def Some set_task_def task_def Let_def intro!: exI [of _ i])
qed

definition expired :: "sched \<Rightarrow> sched" where
  "expired s = set_task (sc_current s)
     ((task s (sc_current s))\<lparr>t_state := Ready, t_timeslice := DEFAULT_TIMESLICE\<rparr>) s"

lemma tick_effect:
  assumes "length (sc_table s) = MAX_TASKS" and "sc_current s < MAX_TASKS"
  defines "c \<equiv> task s (sc_current s)"
  shows "tick s = (if t_state c \<noteq> Running then s
    else if t_timeslice c \<le> 1 then schedule (expired s)
    else set_task (sc_current s) (c\<lparr>t_timeslice := t_timeslice c - 1\<rparr>) s)"
proof -
  have z: "(if 0 < w then w - 1 else w) = 0 \<longleftrightarrow> w \<le> 1" for w :: u32
  proof -
    have "unat w = 1 \<longleftrightarrow> w = 1" by (simp add: word_unat_eq_iff)
    then have "w \<le> 1 \<longleftrightarrow> w = 0 \<or> w = 1" by (auto simp: word_le_nat_alt le_Suc_eq unsigned_eq_0_iff)
    then show ?thesis by (auto simp: word_gt_0)
  qed
  let ?cur = "sc_current s" and ?ts = "if 0 < t_timeslice c then t_timeslice c - 1 else t_timeslice c"
  let ?s = "set_task ?cur (c\<lparr>t_timeslice := ?ts\<rparr>) s"
  have tk: "tick s = (if t_state c = Running then
      if ?ts = 0 then schedule (set_task ?cur ((task ?s ?cur)\<lparr>t_state := Ready, t_timeslice := DEFAULT_TIMESLICE\<rparr>) ?s)
      else ?s else s)"
    unfolding tick_def Let_def c_def task_def by (simp only: assms(2) simp_thms)
  have "task ?s ?cur = c\<lparr>t_timeslice := ?ts\<rparr>" using assms(1,2) by (simp add: task_set_task)
  then have ex: "set_task ?cur ((task ?s ?cur)\<lparr>t_state := Ready, t_timeslice := DEFAULT_TIMESLICE\<rparr>) ?s = expired s"
    by (simp add: set_task_def expired_def c_def)
  show ?thesis
  proof (cases "t_timeslice c \<le> 1")
    case True
    then have "?ts = 0" using z by blast
    then show ?thesis unfolding tk ex using True by simp
  next
    case False
    then have "?ts \<noteq> 0" "?ts = t_timeslice c - 1" using z [of "t_timeslice c"] by (auto simp: word_gt_0 split: if_splits)
    then show ?thesis unfolding tk ex using False by simp
  qed
qed

lemma expired_facts:
  assumes "sched_inv s"
  shows "length (sc_table (expired s)) = MAX_TASKS" and "sc_current (expired s) = sc_current s"
    and "\<And>i. i < MAX_TASKS \<Longrightarrow> t_state (task (expired s) i) = (if i = sc_current s then Ready else t_state (task s i))"
    and "\<And>i. i < MAX_TASKS \<Longrightarrow> t_timeslice (task (expired s) i)
          = (if i = sc_current s then DEFAULT_TIMESLICE else t_timeslice (task s i))"
    and "\<And>i. t_context (task (expired s) i) = t_context (task s i)" and "sc_cpu (expired s) = sc_cpu s"
  using assms by (simp_all add: expired_def task_set_task sched_inv_def)

lemma expired_no_running:
  assumes "sched_inv s"
  shows "\<forall>i < MAX_TASKS. t_state (task (expired s) i) \<noteq> Running"
    and "\<forall>i < MAX_TASKS. t_timeslice (task (expired s) i) \<le> DEFAULT_TIMESLICE"
  using assms expired_facts [OF assms] by (auto simp: sched_inv_def)

lemma blocked_facts:
  assumes "sched_inv s"
  defines "b \<equiv> set_task (sc_current s) ((task s (sc_current s))\<lparr>t_state := Blocked\<rparr>) (s\<lparr>sc_irq := False\<rparr>)"
  shows "snd (block_current s) = (schedule b)\<lparr>sc_irq := True\<rparr>" and "length (sc_table b) = MAX_TASKS"
    and "sc_current b = sc_current s" "sc_cpu b = sc_cpu s" "\<And>i. t_context (task b i) = t_context (task s i)"
    and "\<And>i. i < MAX_TASKS \<Longrightarrow> t_state (task b i) = (if i = sc_current s then Blocked else t_state (task s i))"
    and "\<And>i. i < MAX_TASKS \<Longrightarrow> t_timeslice (task b i) = t_timeslice (task s i)"
  using assms
  by (simp_all add: block_current_def critical_section_def sched_inv_def task_set_task)
    (simp_all add: task_def Let_def)

lemma sched_exec_inv:
  assumes "sched_inv s"
  shows "sched_inv (sched_exec op s)"
proof -
  have len: "length (sc_table s) = MAX_TASKS" and cur: "sc_current s < MAX_TASKS"
    and run: "\<And>i. i < MAX_TASKS \<Longrightarrow> t_state (task s i) = Running \<Longrightarrow> i = sc_current s"
    and ts: "\<And>i. i < MAX_TASKS \<Longrightarrow> t_timeslice (task s i) \<le> DEFAULT_TIMESLICE"
    using assms by (simp_all add: sched_inv_def)
  have upd: "sched_inv (set_task i t s)"
    if "i < MAX_TASKS" "t_state t = Running \<longrightarrow> t_state (task s i) = Running" "t_timeslice t \<le> DEFAULT_TIMESLICE" for i t
    using that assms by (auto simp: sched_inv_def task_set_task)
  show ?thesis
  proof (cases op)
    case (OpSpawn e tp sz pr)
    show ?thesis using spawn_effect [OF len, of e tp sz pr] assms upd by (auto simp: OpSpawn)
  next
    case OpTick
    show ?thesis
    proof (cases "t_state (task s (sc_current s)) = Running \<and> t_timeslice (task s (sc_current s)) \<le> 1")
      case True
      have "sched_inv (schedule (expired s))"
        using expired_facts(1,2) [OF assms] expired_no_running [OF assms] cur by (intro schedule_inv) simp_all
      then show ?thesis using True tick_effect [OF len cur] by (simp add: OpTick)
    next
      case False
      let ?c = "task s (sc_current s)"
      have "t_timeslice ?c - 1 \<le> DEFAULT_TIMESLICE" if "\<not> t_timeslice ?c \<le> 1"
        using that ts [OF cur] by (simp add: word_le_nat_alt unat_sub_le)
      then have "sched_inv (set_task (sc_current s) (?c\<lparr>t_timeslice := t_timeslice ?c - 1\<rparr>) s)"
        if "\<not> t_timeslice ?c \<le> 1" using that cur by (intro upd) simp_all
      then show ?thesis using False tick_effect [OF len cur] assms by (simp add: OpTick)
    qed
  next
    case OpBlock
    note b = blocked_facts [OF assms]
    have "t_state (task s i) = Running \<Longrightarrow> i < MAX_TASKS \<Longrightarrow> i = sc_current s" for i by (rule run)
    then show ?thesis unfolding OpBlock sched_exec.simps b(1) sched_inv_update
      by (intro schedule_inv allI impI) (use cur ts b(2-7) in \<open>auto split: if_splits\<close>)
  next
    case (OpUnblock tid)
    show ?thesis using unblock_effect [OF len, of tid] assms upd ts by (auto simp: OpUnblock)
  next
    case (OpCpu c)
    then show ?thesis using assms by simp
  qed
qed

lemma sched_run_inv: "sched_inv s \<Longrightarrow> sched_inv (fold sched_exec ops s)"
  by (induction ops arbitrary: s) (simp_all add: sched_exec_inv)

section \<open>Properties\<close>

text \<open>
  C20. At most one task runs: after any sequence of spawns, timer ticks, blocks and unblocks from
  boot the table has its 64 entries, the current index is inside it, and the only task that can
  be \<open>Running\<close> is the current one.
\<close>

theorem sched_single_running:
  assumes "i < MAX_TASKS" and "t_state (task (fold sched_exec ops (sched_boot cpu)) i) = Running"
  shows "i = sc_current (fold sched_exec ops (sched_boot cpu))
    \<and> length (sc_table (fold sched_exec ops (sched_boot cpu))) = MAX_TASKS"
  using sched_run_inv [OF sched_boot_inv] assms unfolding sched_inv_def by blast

text \<open>
  Nothing ever starts from the timer: as long as no task blocks itself, whatever is spawned
  or unblocked and however often the timer ticks, no task becomes \<open>Running\<close>; \<open>tick\<close> only looks
  for a successor when the current entry is \<open>Running\<close>, and at boot none is.
\<close>

theorem sched_timer_never_starts:
  assumes "OpBlock \<notin> set ops" and "i < MAX_TASKS"
  shows "t_state (task (fold sched_exec ops (sched_boot cpu)) i) \<noteq> Running"
proof -
  have "\<forall>i < MAX_TASKS. t_state (task (fold sched_exec ops s) i) \<noteq> Running"
    if "sched_inv s" "\<forall>i < MAX_TASKS. t_state (task s i) \<noteq> Running" for s
    using that assms(1)
  proof (induction ops arbitrary: s)
    case (Cons op ops)
    have l: "length (sc_table s) = MAX_TASKS" "sc_current s < MAX_TASKS" using Cons.prems(1) by (simp_all add: sched_inv_def)
    have "\<forall>i < MAX_TASKS. t_state (task (sched_exec op s) i) \<noteq> Running"
    proof (cases op)
      case (OpSpawn e tp sz pr)
      show ?thesis using spawn_effect [OF l(1), of e tp sz pr] Cons.prems(2) l(1)
        by (auto simp: OpSpawn task_set_task split: if_splits)
    next
      case OpTick
      have "tick s = s" using tick_effect [OF l] Cons.prems(2) l(2) by simp
      then show ?thesis using Cons.prems(2) by (simp add: OpTick)
    next
      case (OpUnblock tid)
      show ?thesis using unblock_effect [OF l(1), of tid] Cons.prems(2) l(1)
        by (auto simp: OpUnblock task_set_task split: if_splits)
    qed (use Cons.prems in simp_all)
    then show ?case using Cons.IH [OF sched_exec_inv [OF Cons.prems(1)]] Cons.prems(3) by simp
  qed simp
  from this [OF sched_boot_inv] show ?thesis using assms(2)
    by (simp add: sched_boot_def task_def tcb_empty_def)
qed

lemma cyc_dist_step:
  assumes "cur < MAX_TASKS" "k < MAX_TASKS" "j < MAX_TASKS" "cyc_dist cur k \<le> cyc_dist cur j" "k \<noteq> j"
  shows "cyc_dist k j < cyc_dist cur j"
proof -
  have d: "cyc_dist a b = (if a < b then b - a - 1 else b + MAX_TASKS - a - 1)" if "a < MAX_TASKS" "b < MAX_TASKS" for a b
    using that by (cases "a < b") (simp_all add: cyc_dist_def le_mod_geq)
  show ?thesis using assms unfolding d [OF assms(1,2)] d [OF assms(1,3)] d [OF assms(2,3)]
    by (cases "cur < k"; cases "cur < j"; cases "k < j"; simp only: if_True if_False; linarith)
qed

text \<open>From a running task with \<open>m\<close> ticks left: within \<open>m\<close> ticks (one at least) it is preempted.\<close>

lemma tick_until_expired:
  assumes "sched_inv s" and "t_state (task s (sc_current s)) = Running"
    and "unat (t_timeslice (task s (sc_current s))) = m"
  shows "\<exists>n \<le> m. \<exists>s1. (tick ^^ Suc n) s = schedule (expired s1) \<and> sched_inv s1 \<and> Suc n \<le> max 1 m
    \<and> sc_current s1 = sc_current s \<and> (\<forall>i < MAX_TASKS. t_state (task s1 i) = t_state (task s i))"
  using assms
proof (induction m arbitrary: s rule: less_induct)
  case (less m)
  let ?c = "task s (sc_current s)"
  have l: "length (sc_table s) = MAX_TASKS" "sc_current s < MAX_TASKS" using less.prems(1) by (simp_all add: sched_inv_def)
  show ?case
  proof (cases "t_timeslice ?c \<le> 1")
    case True
    then have "tick s = schedule (expired s)" using tick_effect [OF l] less.prems(2) by simp
    then show ?thesis using less.prems(1) by (intro exI [of _ 0] conjI exI [of _ s]) simp_all
  next
    case False
    let ?s' = "set_task (sc_current s) (?c\<lparr>t_timeslice := t_timeslice ?c - 1\<rparr>) s"
    have t: "tick s = ?s'" using tick_effect [OF l] less.prems(2) False by simp
    have i': "sched_inv ?s'" using sched_exec_inv [OF less.prems(1), of OpTick] t by simp
    have m: "unat (t_timeslice ?c - 1) = m - 1" "1 < m"
      using False less.prems(3) by (simp_all add: unat_sub_le word_le_nat_alt not_le)
    have st: "t_state (task ?s' i) = t_state (task s i)" for i using l by (simp add: task_set_task)
    have "unat (t_timeslice (task ?s' (sc_current ?s'))) = m - 1" using l m by (simp add: task_set_task)
    from less.IH [OF _ i' _ this] m(2) less.prems(2) st obtain n s1 where
      n: "n \<le> m - 1" "(tick ^^ Suc n) ?s' = schedule (expired s1)" "sched_inv s1" "Suc n \<le> max 1 (m - 1)"
        "sc_current s1 = sc_current s" "\<forall>i < MAX_TASKS. t_state (task s1 i) = t_state (task ?s' i)"
      by (auto simp del: funpow.simps)
    have "(tick ^^ Suc (Suc n)) s = schedule (expired s1)" using n(2) t by (simp add: funpow_swap1)
    then show ?thesis using n m st by (intro exI [of _ "Suc n"] conjI exI [of _ s1]) simp_all
  qed
qed

text \<open>
  C21. No starvation: while the timer ticks and the running task does not block, every \<open>Ready\<close>
  task is running after at most 640 ticks (64 tasks of 10 ticks), whatever the other tasks are.
\<close>

theorem sched_no_starvation:
  assumes "sched_inv s" and "t_state (task s (sc_current s)) = Running"
    and "j < MAX_TASKS" and "t_state (task s j) = Ready"
  shows "\<exists>n \<le> 640. sc_current ((tick ^^ n) s) = j \<and> t_state (task ((tick ^^ n) s) j) = Running"
proof -
  have "\<exists>n \<le> 10 * (cyc_dist (sc_current s) j + 1). sc_current ((tick ^^ n) s) = j \<and> t_state (task ((tick ^^ n) s) j) = Running"
    using assms
  proof (induction "cyc_dist (sc_current s) j" arbitrary: s rule: less_induct)
    case less
    let ?cur = "sc_current s"
    have cur: "?cur < MAX_TASKS" using less.prems(1) by (simp add: sched_inv_def)
    obtain n s1 where n: "(tick ^^ Suc n) s = schedule (expired s1)" "sched_inv s1"
        "Suc n \<le> max 1 (unat (t_timeslice (task s ?cur)))" "sc_current s1 = ?cur"
        "\<forall>i < MAX_TASKS. t_state (task s1 i) = t_state (task s i)"
      using tick_until_expired [OF less.prems(1,2) refl] by blast
    have "unat (t_timeslice (task s ?cur)) \<le> 10"
      using less.prems(1) cur by (simp add: sched_inv_def DEFAULT_TIMESLICE_def word_le_nat_alt)
    then have n10: "Suc n \<le> 10" using n(3) by simp
    note e = expired_facts [OF n(2)]
    have jne: "j \<noteq> ?cur" using less.prems(2,4) by auto
    have ce: "sc_current (expired s1) < MAX_TASKS" "t_state (task (expired s1) j) = Ready"
      using e(2,3) n(4,5) cur less.prems(3,4) by simp_all
    show ?case
    proof (rule schedule_some [OF ce(1) e(1) less.prems(3) ce(2)])
      fix k
      assume k: "k < MAX_TASKS" "cyc_dist (sc_current (expired s1)) k \<le> cyc_dist (sc_current (expired s1)) j"
        "sc_current (schedule (expired s1)) = k"
        and st: "\<And>i. i < MAX_TASKS \<Longrightarrow> t_state (task (schedule (expired s1)) i) = (if i = k then Running else t_state (task (expired s1) i))"
      let ?s2 = "schedule (expired s1)"
      show ?thesis
      proof (cases "k = j")
        case True
        then show ?thesis using n(1) k(3) st [of j] less.prems(3) n10 by (intro exI [of _ "Suc n"]) simp
      next
        case False
        have d: "cyc_dist k j < cyc_dist ?cur j"
          using cyc_dist_step [OF cur k(1) less.prems(3)] k(2) False e(2) n(4) by simp
        have i2: "sched_inv ?s2"
          using e(1) ce(1) expired_no_running [OF n(2)] by (intro schedule_inv) simp_all
        have "\<exists>m \<le> 10 * (cyc_dist (sc_current ?s2) j + 1). sc_current ((tick ^^ m) ?s2) = j \<and> t_state (task ((tick ^^ m) ?s2) j) = Running"
          using d k(1,3) st [of k] st [of j] False ce(2) less.prems(3) i2 by (intro less.hyps) simp_all
        then obtain m where m: "m \<le> 10 * (cyc_dist k j + 1)" "sc_current ((tick ^^ m) ?s2) = j"
          "t_state (task ((tick ^^ m) ?s2) j) = Running" unfolding k(3) by blast
        have "(tick ^^ (m + Suc n)) s = (tick ^^ m) ?s2" unfolding funpow_add comp_def n(1) ..
        then show ?thesis using m d n10 by (intro exI [of _ "m + Suc n"]) simp
      qed
    qed
  qed
  then obtain n where n: "n \<le> 10 * (cyc_dist (sc_current s) j + 1)" "sc_current ((tick ^^ n) s) = j"
    "t_state (task ((tick ^^ n) s) j) = Running" by blast
  have "cyc_dist (sc_current s) j < 64" by (simp add: cyc_dist_def MAX_TASKS_def)
  then have "10 * (cyc_dist (sc_current s) j + 1) \<le> 640" by simp
  then have "n \<le> 640" using n(1) by (rule le_trans [rotated])
  then show ?thesis using n(2,3) by blast
qed

text \<open>Three tasks, the first of which has blocked.\<close>

definition demo_ops :: "sched_op list" where
  "demo_ops = [OpSpawn 1 4096 512 5, OpSpawn 2 8192 512 5, OpSpawn 3 12288 512 5, OpBlock]"

lemma demo_sched:
  "let s = fold sched_exec demo_ops (sched_boot context_zero)
   in sc_current s = 1 \<and> t_state (task s 0) = Blocked \<and> t_state (task s 1) = Running \<and> t_state (task s 2) = Ready"
  by code_simp

theorem sched_single_running_witness:
  "1 = sc_current (fold sched_exec demo_ops (sched_boot context_zero))
    \<and> length (sc_table (fold sched_exec demo_ops (sched_boot context_zero))) = MAX_TASKS"
  using sched_single_running [of 1 demo_ops context_zero] demo_sched by (simp add: Let_def MAX_TASKS_def)

theorem sched_timer_never_starts_witness:
  "t_state (task (fold sched_exec [OpSpawn 1 4096 512 5, OpTick, OpUnblock 1, OpTick] (sched_boot context_zero)) 0) \<noteq> Running"
  by (rule sched_timer_never_starts) (simp_all add: MAX_TASKS_def)

theorem sched_no_starvation_witness:
  "\<exists>n \<le> 640. sc_current ((tick ^^ n) (fold sched_exec demo_ops (sched_boot context_zero))) = 2"
  using sched_no_starvation [OF sched_run_inv [OF sched_boot_inv], of demo_ops context_zero 2] demo_sched
  by (auto simp: Let_def MAX_TASKS_def)

end
