(* ===== verification/Stack_Weight.thy ===== *)
theory Stack_Weight
  imports Stack_Frames
begin

text \<open>
  What a frame can still cause.  A \<open>Hello\<close> record may cause an ARP request or a \<open>HelloAck\<close>, an
  ARP request causes a reply, and nothing else is answered: every frame the stack sends while it
  handles a frame weighs less than that frame.  This holds for every card whose \<open>transmit\<close> appends
  to a queue of frames (the locale \<open>frame_queue\<close>), and is what makes polling end.
\<close>

unbundle bit_operations_syntax

section \<open>Weights\<close>

definition frame_weight :: "bytes \<Rightarrow> nat" where
  "frame_weight f =
     (let etype = of_be [f ! 12, f ! 13] :: u16;
          start = ETH_HDR_LEN + unat (f ! 14 AND 0x0F) * 4 + UDP_HDR_LEN
      in if length f < ETH_HDR_LEN + IPV4_HDR_LEN then 1
         else if etype = ETHERTYPE_ARP then (if of_be [f ! 20, f ! 21] = OP_REQUEST then 2 else 1)
         else if etype = ETHERTYPE_IPV4 \<and> ETH_HDR_LEN + IPV4_HDR_LEN + UDP_HDR_LEN \<le> start
              \<and> start + RECORD_HDR_LEN + TAG_LEN \<le> length f \<and> f ! start = ctype_byte Hello then 3
         else 1)"

text \<open>A frame that fits the card and is a readable packet if it claims to be ARP.\<close>

definition frame_fit :: "bytes \<Rightarrow> bool" where
  "frame_fit f \<longleftrightarrow> length f \<le> MAX_FRAME
     \<and> (\<forall>e p. eth_parse f = Some (e, p) \<longrightarrow> eth_type e = ETHERTYPE_ARP \<longrightarrow> arp_parse p \<noteq> None)"

lemma frame_weight_bounds: "1 \<le> frame_weight f" "frame_weight f \<le> 3"
  by (simp_all add: frame_weight_def Let_def)

lemma header_lens: "ETH_HDR_LEN = 14" "IPV4_HDR_LEN = 20" "UDP_HDR_LEN = 8" "ARP_LEN = 28"
  by (simp_all add: ETH_HDR_LEN_def IPV4_HDR_LEN_def UDP_HDR_LEN_def ARP_LEN_def)

lemma eth_parse_Some:
  "eth_parse f = Some (e, p) \<longleftrightarrow> 14 \<le> length f \<and> p = drop 14 f
     \<and> e = \<lparr>eth_dst = slice 0 6 f, eth_src = slice 6 12 f, eth_type = of_be [f ! 12, f ! 13]\<rparr>"
  by (auto simp: eth_parse_def header_lens)

lemma arp_request_weight:
  assumes "eth_parse f = Some (e, p)" and "eth_type e = ETHERTYPE_ARP"
    and "arp_parse p = Some a" and "arp_op a = OP_REQUEST"
  shows "frame_weight f = 2"
proof -
  have f: "14 \<le> length f" "p = drop 14 f" "of_be [f ! 12, f ! 13] = ETHERTYPE_ARP"
    using assms(1,2) by (auto simp: eth_parse_Some)
  have "28 \<le> length p" "of_be [p ! 6, p ! 7] = OP_REQUEST"
    using assms(3,4) by (auto simp: arp_parse_def header_lens split: if_splits)
  then show ?thesis using f by (simp add: frame_weight_def header_lens Let_def)
qed

lemma hello_weight:
  assumes "eth_parse f = Some (e, p)" and "eth_type e = ETHERTYPE_IPV4"
    and "ipv4_parse p = Some (ip, seg)" and "udp_parse src dst seg = Some (u, rc)"
    and "header_parse rc = Inr h" and "rh_ctype h = Hello"
  shows "frame_weight f = 3"
proof -
  define ihl where "ihl = unat (p ! 0 AND 0x0F) * 4"
  define total where "total = unat (of_be [p ! 2, p ! 3] :: u16)"
  define len where "len = unat (of_be [seg ! 4, seg ! 5] :: u16)"
  have f: "14 \<le> length f" "p = drop 14 f" "of_be [f ! 12, f ! 13] = ETHERTYPE_IPV4"
    using assms(1,2) by (auto simp: eth_parse_Some)
  have p: "20 \<le> ihl" "ihl \<le> total" "total \<le> length p" and seg: "seg = slice ihl total p"
    using assms(3) by (auto simp: ipv4_parse_def header_lens ihl_def total_def Let_def split: if_splits)
  have s: "8 \<le> len" "len \<le> length seg" and rc: "rc = drop 8 (take len seg)"
    using assms(4) by (auto simp: udp_parse_def header_lens len_def Let_def split: if_splits)
  have r: "30 \<le> length rc" and c: "ctype_from_u8 (rc ! 0) = Some Hello"
    using header_parse_Inr(1) [OF assms(5)] assms(5,6)
    by (auto simp: header_parse_def Let_def split: if_splits option.splits)
  have c: "rc ! 0 = 1" using c by (simp add: ctype_from_u8_def split: if_splits)
  have "length rc \<le> length seg - 8" by (simp add: rc)
  moreover have "length seg = total - ihl" using p(3) by (simp add: seg)
  ultimately have "38 + ihl \<le> length p" using r p by linarith
  then have l: "14 + ihl + 8 + 30 \<le> length f" using f by simp
  have "rc ! 0 = seg ! 8" using r s by (simp add: rc)
  also have "\<dots> = p ! (ihl + 8)" using p r by (simp add: seg slice_nth rc)
  also have "\<dots> = f ! (14 + ihl + 8)" using l unfolding f(2) by (simp add: add.assoc)
  finally have "f ! (14 + ihl + 8) = 1" using c by simp
  moreover have "p ! 0 = f ! 14" using l unfolding f(2) by simp
  then have "ihl = unat (f ! 14 AND 0x0F) * 4" by (simp only: ihl_def)
  ultimately show ?thesis
    using f(3) l p(1) unfolding frame_weight_def Let_def by (simp add: header_lens qtls_lens)
qed

text \<open>The frames the stack builds.\<close>

lemma arp_frame_weight:
  assumes "length dst = 6" "length src = 6" "arp_ok a"
  shows "frame_weight (arp_frame dst src a) = (if arp_op a = OP_REQUEST then 2 else 1)"
    and "frame_fit (arp_frame dst src a)"
proof -
  let ?f = "arp_frame dst src a"
  have f: "?f = dst @ src @ to_be 2 ETHERTYPE_ARP @ ARP_FIXED @ to_be 2 (arp_op a) @ arp_sha a @ arp_spa a
      @ arp_tha a @ arp_tpa a"
    using arp_write_eq [OF assms(3), of "replicate 28 0"] by (simp add: arp_frame_def)
  have l: "length ?f = 42" using assms by (simp add: f arp_ok_def ARP_FIXED_def)
  have n: "of_be [?f ! 12, ?f ! 13] = ETHERTYPE_ARP" "of_be [?f ! 20, ?f ! 21] = arp_op a"
    using assms(1,2) by (simp_all add: f nth_append to_be_2 ARP_FIXED_def)
  show "frame_weight ?f = (if arp_op a = OP_REQUEST then 2 else 1)"
    unfolding frame_weight_def Let_def n l by (simp add: header_lens)
  have "drop 14 ?f = arp_write a (replicate 28 0)" using assms(1,2) by (simp add: arp_frame_def)
  then have "arp_parse (drop 14 ?f) = Some a" using arp_parse_write [OF assms(3), of "replicate 28 0"] by simp
  then show "frame_fit ?f"
    by (auto simp: frame_fit_def eth_parse_Some l L_values)
qed

lemma udp_frame_weight:
  assumes "length m = 6" "length sm = 6" "length src = 4" "length dst = 4" and "length rc \<le> 1430"
  shows "frame_weight (udp_frame m sm src dst ident sp dp rc)
      = (if 30 \<le> length rc \<and> rc ! 0 = ctype_byte Hello then 3 else 1)"
    and "frame_fit (udp_frame m sm src dst ident sp dp rc)"
    and "length (udp_frame m sm src dst ident sp dp rc) = 42 + length rc"
proof -
  let ?f = "udp_frame m sm src dst ident sp dp rc"
  let ?h = "\<lparr>udp_src_port = sp, udp_dst_port = dp\<rparr> :: udp_header"
  have n: "8 + length rc < 2 ^ 16" using assms(5) by simp
  define u where "u = udp_front ?h (length rc) @ to_be 2 (udp_checksum ?h src dst
    (slice 8 (8 + length rc) (replicate 8 0 @ rc)))"
  have u: "length u = 8" by (simp add: u_def)
  have fin: "snd (udp_finish ?h src dst (length rc) (replicate 8 0 @ rc)) = u @ rc"
    using udp_finish_eq [of "length rc" "replicate 8 0 @ rc" ?h src dst] n by (simp add: u_def)
  define i where "i = tl (ipv4_front PROTO_UDP ident (8 + length rc))
      @ to_be 2 (ipv4_checksum src dst PROTO_UDP ident (8 + length rc)) @ src @ dst"
  have i: "length i = 19" using assms by (simp add: i_def)
  have w: "ipv4_write src dst PROTO_UDP ident (8 + length rc) (replicate 20 0 @ u @ rc) = 0x45 # i @ u @ rc"
    using ipv4_write_eq [OF assms(3,4), of "replicate 20 0 @ u @ rc" PROTO_UDP ident "8 + length rc"]
    by (simp add: i_def ipv4_front_def)
  have f: "?f = m @ sm @ to_be 2 ETHERTYPE_IPV4 @ (0x45 # i @ u @ rc)"
    unfolding udp_frame_def fin w ..
  show l: "length ?f = 42 + length rc" using assms u i by (simp add: f)
  have e: "of_be [?f ! 12, ?f ! 13] = ETHERTYPE_IPV4" "?f ! 14 = 0x45"
    using assms(1,2) by (simp_all add: f nth_append to_be_2)
  have r: "?f ! 42 = rc ! 0" using assms(1,2) u i by (simp add: f nth_append)
  have "(0x45 AND 0x0F :: u8) = 5" by simp
  then show "frame_weight ?f = (if 30 \<le> length rc \<and> rc ! 0 = ctype_byte Hello then 3 else 1)"
    using r unfolding frame_weight_def Let_def e l by (simp add: header_lens qtls_lens)
  show "frame_fit ?f" using assms(5) by (simp add: frame_fit_def l L_values eth_parse_Some e)
qed

section \<open>Cards that queue what they send\<close>

text \<open>
  What a call leaves in a queue \<open>q\<close> of the card: the frames before, or one more that fits the card
  and weighs less than \<open>w\<close>.
\<close>

definition adds_light :: "('d \<Rightarrow> bytes list) \<Rightarrow> nat \<Rightarrow> 'd net_stack \<Rightarrow> 'd net_stack \<Rightarrow> bool" where
  "adds_light q w s s' \<longleftrightarrow>
     q (ns_dev s') = q (ns_dev s)
     \<or> (\<exists>g. frame_weight g < w \<and> frame_fit g \<and> q (ns_dev s') = q (ns_dev s) @ [g])"

lemma adds_light_same: "q (ns_dev s') = q (ns_dev s) \<Longrightarrow> adds_light q w s s'"
  by (simp add: adds_light_def)

lemma adds_light_refl [simp]: "adds_light q w s s"
  by (simp add: adds_light_def)

lemma adds_light_mono: "adds_light q w s s' \<Longrightarrow> w \<le> w' \<Longrightarrow> adds_light q w' s s'"
  by (auto simp: adds_light_def intro: less_le_trans)

lemma adds_light_dev: "ns_dev t = ns_dev s \<Longrightarrow> adds_light q w t s' \<Longrightarrow> adds_light q w s s'"
  by (simp add: adds_light_def)

locale frame_queue = net_card ok N for ok :: "'d \<Rightarrow> bool" and N :: "'d nic" +
  fixes q :: "'d \<Rightarrow> bytes list"
  assumes transmit_queues: "ok d \<Longrightarrow> nic_transmit N f d = (r, d') \<Longrightarrow> q d' = q d \<or> q d' = q d @ [f]"
begin

lemma send_frame_adds:
  assumes "ok (ns_dev s)" and "frame_weight g < w" and "frame_fit g"
  shows "adds_light q w s (snd (send_frame N g s))"
  using assms transmit_queues [OF assms(1)]
  by (cases "nic_transmit N g (ns_dev s)") (auto simp: send_frame_def adds_light_def)

lemma send_arp_adds:
  assumes "ok (ns_dev s)" and "length dst = 6" and "arp_ok a"
    and "(if arp_op a = OP_REQUEST then 2 else 1) < w"
  shows "adds_light q w s (snd (send_arp N dst a s))"
proof -
  note m = mac_length [OF assms(1)]
  show ?thesis
    unfolding send_arp_frame [OF assms(2) m]
    using arp_frame_weight [OF assms(2) m assms(3)] assms(4) by (intro send_frame_adds [OF assms(1)]) simp_all
qed

lemma resolve_adds:
  assumes "ok (ns_dev s)" and "length ip = 4" and "length (ns_ip s) = 4"
  shows "adds_light q 3 s (snd (resolve N ip s))"
    and "fst (resolve N ip s) = Inr m \<Longrightarrow> snd (resolve N ip s) = s \<and> arp_lookup ip (ns_arp s) = Some m"
proof -
  let ?req = "\<lparr>arp_op = OP_REQUEST, arp_sha = nic_mac N (ns_dev s), arp_spa = ns_ip s,
                     arp_tha = replicate 6 0, arp_tpa = ip\<rparr>"
  have "arp_ok ?req" using assms mac_length by (simp add: arp_ok_def)
  then have a: "adds_light q 3 s (snd (send_arp N BROADCAST ?req s))"
    by (intro send_arp_adds [OF assms(1)]) (simp_all add: BROADCAST_def)
  obtain r t where rt: "send_arp N BROADCAST ?req s = (r, t)" by (cases "send_arp N BROADCAST ?req s")
  show "adds_light q 3 s (snd (resolve N ip s))"
    using a rt by (cases "arp_lookup ip (ns_arp s)"; cases r) (simp_all add: resolve_def Let_def)
  show "fst (resolve N ip s) = Inr m \<Longrightarrow> snd (resolve N ip s) = s \<and> arp_lookup ip (ns_arp s) = Some m"
    using rt by (cases "arp_lookup ip (ns_arp s)"; cases r) (simp_all add: resolve_def Let_def)
qed

lemma send_record_adds:
  assumes "stack_inv ok s" and "si < MAX_SESSIONS"
  shows "adds_light q (if c = Hello then 4 else 3) s (snd (send_record N pi si c data s))"
proof -
  let ?v = "ns_sessions s ! si" and ?k = "keys_of s pi" and ?w = "if c = Hello then 4 else 3 :: nat"
  have d: "ok (ns_dev s)" and ip: "length (ns_ip s) = 4" "length (ses_peer_ip ?v) = 4"
    using assms(1) stack_inv_session_ok [OF assms] by (simp_all add: stack_inv_def session_ok_def)
  note r = resolve_adds [OF d ip(2,1)]
  obtain p t where rt: "resolve N (ses_peer_ip ?v) s = (p, t)" by (cases "resolve N (ses_peer_ip ?v) s")
  show ?thesis
  proof (cases p)
    case (Inl e)
    then show ?thesis using r(1) rt by (auto simp: send_record_def intro: adds_light_mono)
  next
    case (Inr m)
    then have t: "t = s" and "arp_lookup (ses_peer_ip ?v) (ns_arp s) = Some m" using r(2) rt by simp_all
    then have m: "length m = 6"
      using assms(1) arp_lookup_Some by (fastforce simp: stack_inv_def arp_cache_inv_def)
    obtain sr tx rc where sl: "seal (peer_tx ?k) c (ses_id ?v) data (replicate MAX_RECORD_LEN 0) = (sr, tx, rc)"
      by (metis prod.collapse)
    let ?s1 = "set_keys pi (peer_set_tx tx ?k) s"
    show ?thesis
    proof (cases sr)
      case (Inl e)
      then show ?thesis using rt \<open>p = Inr m\<close> sl t by (simp add: send_record_def Let_def adds_light_same)
    next
      case (Inr k)
      obtain off ks where ks: "length ks = 32 + length data" and l: "length data \<le> 1400"
        and rc: "take k rc = sealed \<lparr>rh_ctype = c, rh_session_id = ses_id ?v,
          rh_key_offset = off, rh_length = of_nat (length data)\<rparr> ks data"
        using sl Inr by (auto elim: seal_Inr)
      have len: "length (take k rc) = 30 + length data" unfolding rc using length_sealed [OF ks] by simp
      have first: "take k rc ! 0 = ctype_byte c" unfolding rc by (simp add: sealed_def header_bytes_def Let_def)
      note mac = mac_length [OF d]
      let ?f = "udp_frame m (nic_mac N (ns_dev s)) (ns_ip s) (ses_peer_ip ?v) (ns_ip_id s)
          (ses_local_port ?v) (ses_peer_port ?v) (take k rc)"
      have len': "length (take k rc) \<le> 1430" using len l by simp
      note fw = udp_frame_weight [OF m mac ip len', where ident = "ns_ip_id s" and sp = "ses_local_port ?v"
          and dp = "ses_peer_port ?v"]
      have fwt: "frame_weight ?f < ?w" unfolding fw(1) first by (cases c) simp_all
      have "send_record N pi si c data s
          = send_udp N m (ses_peer_ip ?v) (ses_local_port ?v) (ses_peer_port ?v) (take k rc) ?s1"
        using rt \<open>p = Inr m\<close> sl t Inr by (simp add: send_record_def Let_def)
      also have "\<dots> = send_frame N ?f (?s1\<lparr>ns_ip_id := ns_ip_id s + 1\<rparr>)"
        using m mac ip len' by (subst send_udp_frame) (simp_all add: set_keys_def)
      finally have eq: "send_record N pi si c data s = send_frame N ?f (?s1\<lparr>ns_ip_id := ns_ip_id s + 1\<rparr>)" .
      have "adds_light q ?w (?s1\<lparr>ns_ip_id := ns_ip_id s + 1\<rparr>) (snd (send_record N pi si c data s))"
        unfolding eq using d fwt fw(2) by (intro send_frame_adds) simp_all
      then show ?thesis by (rule adds_light_dev [rotated]) simp
    qed
  qed
qed

text \<open>The calls of an application send at most one frame.\<close>

lemma connect_adds:
  assumes "stack_inv ok s"
  shows "adds_light q 4 s (snd (connect N ip port s))"
proof (cases "peer_index ip s")
  case (Some pi)
  have ip: "length ip = 4"
    using Some assms position_SomeD [of _ "ns_peers s" pi]
    by (fastforce simp: peer_index_def stack_inv_def peer_ok_def in_set_conv_nth)
  have d: "ok (ns_dev s)" "length (ns_ip s) = 4" using assms by (simp_all add: stack_inv_def)
  note r = resolve_adds [OF d(1) ip d(2)]
  obtain p s1 where rs: "resolve N ip s = (p, s1)" by (cases "resolve N ip s")
  show ?thesis
  proof (cases p)
    case (Inl e)
    then show ?thesis using r(1) rs Some by (auto simp: connect_def intro: adds_light_mono)
  next
    case (Inr m)
    then have s1: "s1 = s" using r(2) rs by simp
    show ?thesis
    proof (cases "position (\<lambda>v. ses_state v = Free) (ns_sessions s)")
      case None
      then show ?thesis using rs Inr s1 Some by (simp add: connect_def)
    next
      case si: (Some si)
      let ?s2 = "s\<lparr>ns_next_session := max (ns_next_session s + 1) 1\<rparr>"
      let ?v = "\<lparr>ses_state = HelloSent, ses_id = ns_next_session s, ses_peer_ip = ip, ses_peer_port = port,
        ses_local_port = EPHEMERAL_BASE + ns_next_session s mod 16384, ses_accepted = True, ses_rx = rxq_new\<rparr>"
      have "stack_inv ok ?s2" using assms by (simp add: stack_inv_def)
      then have s3: "stack_inv ok (set_session si ?v ?s2)"
        using ip by (intro stack_inv_session) (simp_all add: session_ok_def)
      have "si < MAX_SESSIONS" by (rule session_bound [OF si assms])
      from send_record_adds [OF s3 this, of Hello pi "[]"]
      have "adds_light q 4 s (snd (send_record N pi si Hello [] (set_session si ?v ?s2)))"
        by (auto intro: adds_light_dev [rotated])
      then show ?thesis
        using rs Inr s1 Some si
        by (cases "send_record N pi si Hello [] (set_session si ?v ?s2)"; cases "fst (send_record N pi si Hello [] (set_session si ?v ?s2))")
          (simp_all add: connect_def Let_def adds_light_def)
    qed
  qed
qed (simp add: connect_def)

lemma stack_send_adds:
  assumes "stack_inv ok s"
  shows "adds_light q 4 s (snd (stack_send N h data s))"
proof -
  have "adds_light q 3 s (snd (send_record N pi h Data dt s))" if "h < length (ns_sessions s)" for pi dt
    using send_record_adds [OF assms, of h Data pi dt] that assms by (simp add: stack_inv_def)
  from adds_light_mono [OF this]
  have "adds_light q 4 s (snd (send_record N pi h Data dt s))" if "h < length (ns_sessions s)" for pi dt
    using that by simp
  then show ?thesis
    by (auto simp: stack_send_def Let_def not_le split: option.split prod.splits sum.splits) (metis snd_conv)+
qed

lemma stack_close_adds:
  assumes "stack_inv ok s"
  shows "adds_light q 4 s (snd (stack_close N h s))"
proof -
  have "adds_light q 3 s (snd (send_record N pi h Close dt s))" if "h < length (ns_sessions s)" for pi dt
    using send_record_adds [OF assms, of h Close pi dt] that assms by (simp add: stack_inv_def)
  from adds_light_mono [OF this]
  have "adds_light q 4 s (snd (send_record N pi h Close dt s))" if "h < length (ns_sessions s)" for pi dt
    using that by simp
  then show ?thesis
    by (auto simp: stack_close_def Let_def not_le adds_light_def split: option.split)
qed

section \<open>Handling a frame sends only lighter ones\<close>

lemma handle_qtls_adds:
  assumes "stack_inv ok s" and "length src = 4"
    and w: "\<And>h. header_parse rc = Inr h \<Longrightarrow> rh_ctype h = Hello \<Longrightarrow> w = 3"
  shows "adds_light q w s (handle_qtls N src sp dp rc s)"
proof (cases rule: handle_qtls_cases [where N = N and src = src and sp = sp and dp = dp and rc = rc and s = s])
  case (opened pi ex h n rx pt)
  have pi: "pi < MAX_PEERS" by (rule peer_index_bound [OF opened(1) assms(1)])
  have k: "keys_ok (keys_of s pi)" by (rule stack_inv_keys_ok [OF assms(1) pi])
  have "lane_inv rx" by (rule open_lane_inv [OF keys_ok_lanes(2) [OF k] opened(2)])
  then have t: "stack_inv ok (set_keys pi (peer_set_rx rx (keys_of s pi)) s)"
    using assms(1) keys_ok_set(2) [OF k] by (intro stack_inv_keys)
  let ?t = "set_keys pi (peer_set_rx rx (keys_of s pi)) s"
  have "adds_light q w ?t (deliver_record N pi ex src sp dp h (take n pt) ?t)"
  proof (cases "rh_ctype h = Hello \<and> ex = None")
    case True
    have w: "w = 3" by (rule w [OF open_record_length(4) [OF opened(2)]]) (use True in simp)
    show ?thesis
    proof (cases "position (\<lambda>v. ses_state v = Free) (ns_sessions ?t)")
      case None
      then show ?thesis using True by (simp add: deliver_record_def)
    next
      case (Some si)
      let ?v = "\<lparr>ses_state = Established, ses_id = rh_session_id h, ses_peer_ip = src,
                    ses_peer_port = sp, ses_local_port = dp, ses_accepted = False, ses_rx = rxq_new\<rparr>"
      have u: "stack_inv ok (set_session si ?v ?t)"
        using assms(2) by (intro stack_inv_session [OF t]) (simp add: session_ok_def)
      have "adds_light q 3 (set_session si ?v ?t) (snd (send_record N pi si HelloAck [] (set_session si ?v ?t)))"
        using send_record_adds [OF u session_bound [OF Some t], of HelloAck pi "[]"] by simp
      then have "adds_light q 3 ?t (snd (send_record N pi si HelloAck [] (set_session si ?v ?t)))"
        by (rule adds_light_dev [rotated]) simp
      then show ?thesis using True Some w by (simp add: deliver_record_def)
    qed
  next
    case False
    then have "ns_dev (deliver_record N pi ex src sp dp h (take n pt) ?t) = ns_dev ?t"
      by (auto simp: deliver_record_def split: content_type.split option.split)
    then show ?thesis by (simp add: adds_light_def)
  qed
  then show ?thesis unfolding opened(5) by (rule adds_light_dev [rotated]) simp
qed simp

lemma handle_arp_adds:
  assumes "stack_inv ok s" and "\<And>a. arp_parse p = Some a \<Longrightarrow> arp_op a = OP_REQUEST \<Longrightarrow> w = 2"
  shows "adds_light q w s (handle_arp N p s)"
proof (cases "arp_parse p")
  case (Some a)
  define t where "t = (if peer_index (arp_spa a) s \<noteq> None
      then s\<lparr>ns_arp := arp_insert (arp_spa a) (arp_sha a) (ns_arp s)\<rparr> else s)"
  let ?r = "\<lparr>arp_op = OP_REPLY, arp_sha = nic_mac N (ns_dev t),
    arp_spa = ns_ip t, arp_tha = arp_sha a, arp_tpa = arp_spa a\<rparr>"
  have eq: "handle_arp N p s = (if arp_tpa a \<noteq> ns_ip s then s else if arp_op a = OP_REQUEST
      then snd (send_arp N (arp_sha a) ?r t) else t)"
    unfolding handle_arp_def Let_def t_def using Some by simp
  have dev: "ns_dev t = ns_dev s" "ns_ip t = ns_ip s" by (simp_all add: t_def)
  have d: "ok (ns_dev s)" "length (ns_ip s) = 4" using assms(1) by (simp_all add: stack_inv_def)
  have a: "arp_ok a" by (rule arp_parse_ok [OF Some])
  then have "arp_ok ?r" using d dev mac_length by (simp add: arp_ok_def)
  then have "adds_light q 2 t (snd (send_arp N (arp_sha a) ?r t))"
    using d dev a by (intro send_arp_adds) (simp_all add: arp_ok_def OP_REPLY_def OP_REQUEST_def)
  then have "adds_light q 2 s (snd (send_arp N (arp_sha a) ?r t))"
    by (rule adds_light_dev [rotated]) (simp add: dev)
  moreover have "adds_light q w s t" by (simp add: adds_light_def dev)
  ultimately show ?thesis using assms(2) [OF Some] unfolding eq by auto
qed (simp add: handle_arp_def)

lemma handle_frame_adds:
  assumes "stack_inv ok s"
  shows "adds_light q (frame_weight f) s (handle_frame N f s)"
proof (cases "eth_parse f")
  case None
  then show ?thesis by (simp add: handle_frame_def)
next
  case (Some ep)
  then obtain e p where ep: "eth_parse f = Some (e, p)" by (cases ep) simp
  have arp: "adds_light q (frame_weight f) s (handle_arp N p s)" if "eth_type e = ETHERTYPE_ARP"
    using that arp_request_weight [OF ep] by (intro handle_arp_adds [OF assms]) simp_all
  have ip4: "adds_light q (frame_weight f) s (handle_ipv4 N p s)" if t: "eth_type e = ETHERTYPE_IPV4"
  proof (cases "ipv4_parse p")
    case (Some r)
    then obtain ip seg where ip: "ipv4_parse p = Some (ip, seg)" by (cases r) simp
    have "adds_light q (frame_weight f) s (handle_qtls N (ip_src ip) (udp_src_port u) (udp_dst_port u) rc s)"
      if "udp_parse (ip_src ip) (ip_dst ip) seg = Some (u, rc)" for u rc
      using ipv4_parse_src [OF ip] hello_weight [OF ep t ip that]
      by (intro handle_qtls_adds [OF assms]) simp_all
    then show ?thesis using ip by (auto simp: handle_ipv4_def split: option.split)
  qed (simp add: handle_ipv4_def)
  show ?thesis using ep arp ip4 by (auto simp: handle_frame_def)
qed

end

end
