(* ===== verification/Stack_Poll.thy ===== *)
theory Stack_Poll
  imports Stack_Props Stack_Weight
begin

text \<open>
  The receive loop on the loopback card: the stack's own answers come back to it, and still the
  loop ends, because every answer weighs less than the frame that caused it.
\<close>

unbundle bit_operations_syntax

section \<open>Polling the loopback card ends\<close>

interpretation lbs: frame_queue loopback_inv loopback_nic loopback_frames
proof unfold_locales
  fix d d' :: loopback and f r
  assume i: "loopback_inv d" and t: "nic_transmit loopback_nic f d = (r, d')"
  show "loopback_frames d' = loopback_frames d \<or> loopback_frames d' = loopback_frames d @ [f]"
  proof (cases "length f \<le> MAX_FRAME \<and> lb_count d < LOOPBACK_SLOTS")
    case True
    then obtain d2 where "loopback_transmit f d = (Inr (), d2)" "loopback_frames d2 = loopback_frames d @ [f]"
      using loopback_transmit_room [OF i, of f] by metis
    then show ?thesis using t by simp
  next
    case False
    then have "d' = d"
      using i t by (auto simp: loopback_transmit_def loopback_inv_def Let_def split: if_splits)
    then show ?thesis by simp
  qed
qed

definition pending_weight :: "loopback net_stack \<Rightarrow> nat" where
  "pending_weight s = (\<Sum>f \<leftarrow> loopback_frames (ns_dev s). frame_weight f)"

lemma poll_loop_ends:
  assumes "stack_inv loopback_inv s" and "pending_weight s < fuel" and "length frame = MAX_FRAME"
  shows "\<exists>n s'. poll_loop fuel loopback_nic frame s = Some (n, s') \<and> loopback_frames (ns_dev s') = []"
  using assms
proof (induction fuel arbitrary: s frame)
  case (Suc fuel)
  have d: "loopback_inv (ns_dev s)" using Suc.prems(1) by (simp add: stack_inv_def)
  show ?case
  proof (cases "lb_count (ns_dev s) = 0")
    case True
    then show ?thesis by (simp add: loopback_receive_empty loopback_frames_def)
  next
    case False
    obtain f d' where r: "loopback_receive frame (ns_dev s) = (Some (length f), blit 0 f frame, d')"
      and d': "loopback_inv d'" and fr: "loopback_frames (ns_dev s) = f # loopback_frames d'"
      and lf: "length f \<le> MAX_FRAME"
      by (rule loopback_receive_front [OF d False, of frame]) (use Suc.prems(3) in simp)
    let ?t = "s\<lparr>ns_dev := d'\<rparr>" and ?b = "blit 0 f frame"
    have t: "stack_inv loopback_inv ?t" using Suc.prems(1) d' by (simp add: stack_inv_def)
    have tb: "take (length f) ?b = f" by (simp add: blit_def)
    let ?u = "handle_frame loopback_nic f ?t"
    have u: "stack_inv loopback_inv ?u" by (rule lbn.handle_frame_inv [OF t])
    have "pending_weight ?u < pending_weight s"
      using lbs.handle_frame_adds [OF t, of f] frame_weight_bounds(1) [of f]
      by (auto simp: adds_light_def pending_weight_def fr)
    then have "pending_weight ?u < fuel" using Suc.prems(2) by simp
    moreover have "length ?b = MAX_FRAME" using Suc.prems(3) lf by simp
    ultimately obtain n s' where "poll_loop fuel loopback_nic ?b ?u = Some (n, s')"
      and "loopback_frames (ns_dev s') = []"
      using Suc.IH [OF u] by blast
    then show ?thesis using r tb by simp
  qed
qed simp

lemma poll_ends:
  assumes "stack_inv loopback_inv s" and "13 \<le> fuel"
  shows "\<exists>n s'. poll fuel loopback_nic s = Some (n, s') \<and> loopback_frames (ns_dev s') = []"
proof -
  have "(\<Sum>f \<leftarrow> fs. frame_weight f) \<le> 3 * length fs" for fs
  proof (induction fs)
    case (Cons f fs)
    then show ?case using frame_weight_bounds(2) [of f] by simp
  qed simp
  then have "pending_weight s \<le> 3 * length (loopback_frames (ns_dev s))" unfolding pending_weight_def .
  also have "\<dots> \<le> 3 * LOOPBACK_SLOTS"
    using assms(1) by (simp add: stack_inv_def loopback_inv_def)
  finally have "pending_weight s < fuel" using assms(2) by (simp add: LOOPBACK_SLOTS_def)
  then show ?thesis unfolding poll_def by (intro poll_loop_ends [OF assms(1)]) simp_all
qed

text \<open>
  \<open>poll\<close> on the kernel's loopback card ends, whatever frames wait and whatever keys and
  sessions there are, although the stack's own answers come back to it: 13 rounds are enough
  (a \<open>Hello\<close> can be worth three frames, an ARP request two, and at most four frames wait).
  Afterwards the card is empty.
\<close>

theorem stack_poll_loopback_ends:
  assumes "stack_inv loopback_inv s" and "13 \<le> fuel"
  shows "\<exists>n s'. poll fuel loopback_nic s = Some (n, s') \<and> loopback_frames (ns_dev s') = []"
  by (rule poll_ends [OF assms])

theorem stack_poll_loopback_ends_witness:
  "\<exists>n s'. poll 13 loopback_nic demo_a = Some (n, s') \<and> loopback_frames (ns_dev s') = []"
  by (rule stack_poll_loopback_ends [OF demo_facts(1)]) simp

end
