(* ===== verification/Ipc.thy ===== *)
theory Ipc
  imports Ring
begin

text \<open>
  Kernel IPC (\<open>kernel/ipc/src/lib.rs\<close>): messages and the message queue of 32 slots, the byte
  pipe, and the counting semaphore.  Queue and pipe are used through \<open>&mut self\<close> and are state
  functions; the queue satisfies the bounded-queue contract of theory \<open>Ring\<close>.  The semaphore is
  shared by \<open>&self\<close>: its operations are loops around a weak compare-exchange, so every atomic
  access is a step of a thread and any interleaving, with any spurious failure, is allowed.
\<close>

definition MQ_CAPACITY :: nat where "MQ_CAPACITY = 32"
definition MAX_MSG_PAYLOAD :: nat where "MAX_MSG_PAYLOAD = 256"
definition PIPE_BUF_SIZE :: nat where "PIPE_BUF_SIZE = 4096"

datatype ipc_error = QueueFull | QueueEmpty | WouldBlock | PayloadTooLarge | SemaphoreOverflow

section \<open>Messages\<close>

record message =
  msg_sender :: u32
  msg_type :: u32
  msg_len :: nat
  msg_payload :: bytes

definition message_empty :: message where
  "message_empty = \<lparr>msg_sender = 0, msg_type = 0, msg_len = 0, msg_payload = replicate MAX_MSG_PAYLOAD 0\<rparr>"

definition message_zeroize :: "message \<Rightarrow> message" where
  "message_zeroize m = \<lparr>msg_sender = 0, msg_type = 0, msg_len = 0, msg_payload = map (\<lambda>_. 0) (msg_payload m)\<rparr>"

definition set_payload :: "bytes \<Rightarrow> message \<Rightarrow> (ipc_error + unit) \<times> message" where
  "set_payload data m =
     (if MAX_MSG_PAYLOAD < length data then (Inl PayloadTooLarge, m)
      else (Inr (), m\<lparr>msg_len := length data, msg_payload := blit 0 data (msg_payload m)\<rparr>))"

definition payload_bytes :: "message \<Rightarrow> bytes" where
  "payload_bytes m = take (msg_len m) (msg_payload m)"

definition message_ok :: "message \<Rightarrow> bool" where
  "message_ok m \<longleftrightarrow> length (msg_payload m) = MAX_MSG_PAYLOAD \<and> msg_len m \<le> MAX_MSG_PAYLOAD"

lemma message_empty_ok [simp]: "message_ok message_empty"
  by (simp add: message_ok_def message_empty_def)

lemma message_zeroize_empty: "message_ok m \<Longrightarrow> message_zeroize m = message_empty"
  by (simp add: message_ok_def message_zeroize_def message_empty_def map_replicate_const)

lemma set_payload_bytes:
  assumes "message_ok m" and "length data \<le> MAX_MSG_PAYLOAD"
  shows "fst (set_payload data m) = Inr ()" and "message_ok (snd (set_payload data m))"
    and "payload_bytes (snd (set_payload data m)) = data"
  using assms by (simp_all add: set_payload_def message_ok_def payload_bytes_def blit_def)

section \<open>The message queue\<close>

record msg_queue =
  mq_buf :: "message list"
  mq_head :: nat
  mq_tail :: nat
  mq_count :: nat

definition mq_new :: msg_queue where
  "mq_new = \<lparr>mq_buf = replicate MQ_CAPACITY message_empty, mq_head = 0, mq_tail = 0, mq_count = 0\<rparr>"

definition mq_send :: "message \<Rightarrow> msg_queue \<Rightarrow> (ipc_error + unit) \<times> msg_queue" where
  "mq_send msg q =
     (if MQ_CAPACITY \<le> mq_count q then (Inl QueueFull, q)
      else
        let tail = mq_tail q
        in (Inr (), q\<lparr>mq_buf := (mq_buf q)[tail := msg], mq_tail := (tail + 1) mod MQ_CAPACITY,
                     mq_count := mq_count q + 1\<rparr>))"

definition mq_recv :: "msg_queue \<Rightarrow> (ipc_error + message) \<times> msg_queue" where
  "mq_recv q =
     (if mq_count q = 0 then (Inl QueueEmpty, q)
      else
        let head = mq_head q;
            msg = mq_buf q ! head;
            buf = (mq_buf q)[head := message_empty];
            buf = buf[head := message_zeroize (buf ! head)]
        in (Inr msg, q\<lparr>mq_buf := buf, mq_head := (head + 1) mod MQ_CAPACITY,
                      mq_count := mq_count q - 1\<rparr>))"

definition mq_len :: "msg_queue \<Rightarrow> nat" where "mq_len q = mq_count q"
definition mq_is_empty :: "msg_queue \<Rightarrow> bool" where "mq_is_empty q \<longleftrightarrow> mq_len q = 0"
definition mq_is_full :: "msg_queue \<Rightarrow> bool" where "mq_is_full q \<longleftrightarrow> MQ_CAPACITY \<le> mq_len q"

text \<open>Invariant: the tail follows head and count, and vacant slots hold no old message.\<close>

definition mq_inv :: "msg_queue \<Rightarrow> bool" where
  "mq_inv q \<longleftrightarrow> length (mq_buf q) = MQ_CAPACITY \<and> mq_head q < MQ_CAPACITY \<and> mq_count q \<le> MQ_CAPACITY
     \<and> mq_tail q = (mq_head q + mq_count q) mod MQ_CAPACITY
     \<and> (\<forall>i. mq_count q \<le> i \<longrightarrow> i < MQ_CAPACITY \<longrightarrow>
          mq_buf q ! ((mq_head q + i) mod MQ_CAPACITY) = message_empty)"

definition mq_view :: "msg_queue \<Rightarrow> message list" where
  "mq_view q = ring_view (mq_buf q) (mq_head q) (mq_count q)"

lemma MQ_CAPACITY_pos [simp]: "0 < MQ_CAPACITY"
  by (simp add: MQ_CAPACITY_def)

lemma length_mq_view [simp]: "length (mq_view q) = mq_count q"
  by (simp add: mq_view_def)

lemma mq_new_inv [simp]: "mq_inv mq_new" "mq_view mq_new = []"
  by (simp_all add: mq_inv_def mq_new_def mq_view_def)

lemma mq_send_room:
  assumes "mq_inv q" and "mq_count q < MQ_CAPACITY" and "mq_send m q = (r, q')"
  shows "r = Inr ()" and "mq_inv q'" and "mq_view q' = mq_view q @ [m]"
proof -
  let ?t = "(mq_head q + mq_count q) mod MQ_CAPACITY"
  have t: "mq_tail q = ?t" and l: "length (mq_buf q) = MQ_CAPACITY" and h: "mq_head q < MQ_CAPACITY"
    using assms(1) by (simp_all add: mq_inv_def)
  have q': "r = Inr ()" "q' = q\<lparr>mq_buf := (mq_buf q)[?t := m], mq_tail := (?t + 1) mod MQ_CAPACITY,
      mq_count := mq_count q + 1\<rparr>"
    using assms(2,3) by (simp_all add: mq_send_def Let_def t)
  show "r = Inr ()" by (rule q'(1))
  show "mq_view q' = mq_view q @ [m]"
    using ring_view_push [of "mq_count q" "mq_buf q" "mq_head q" m] assms(2) l by (simp add: mq_view_def q')
  have "(mq_buf q)[?t := m] ! ((mq_head q + i) mod MQ_CAPACITY) = message_empty"
    if "mq_count q < i" "i < MQ_CAPACITY" for i
  proof -
    have "?t \<noteq> (mq_head q + i) mod MQ_CAPACITY"
      using ring_slots_inj [of "mq_count q" MQ_CAPACITY i "mq_head q"] that assms(2) by auto
    then show ?thesis using assms(1) that by (simp add: mq_inv_def)
  qed
  then show "mq_inv q'"
    using assms(1,2) l h by (simp add: mq_inv_def q' mod_simps)
qed

lemma mq_recv_front:
  assumes "mq_inv q" and "0 < mq_count q" and "mq_recv q = (r, q')"
  shows "r = Inr (hd (mq_view q))" and "mq_inv q'" and "mq_view q = hd (mq_view q) # mq_view q'"
proof -
  let ?h = "mq_head q"
  obtain k where k: "mq_count q = Suc k" using assms(2) by (cases "mq_count q") auto
  have l: "length (mq_buf q) = MQ_CAPACITY" and h: "?h < MQ_CAPACITY" and kc: "k < MQ_CAPACITY"
    using assms(1) k by (simp_all add: mq_inv_def)
  have z: "message_zeroize message_empty = message_empty" by (rule message_zeroize_empty) simp
  have q': "r = Inr (mq_buf q ! ?h)" "q' = q\<lparr>mq_buf := (mq_buf q)[?h := message_empty],
      mq_head := (?h + 1) mod MQ_CAPACITY, mq_count := k\<rparr>"
    using assms(3) l h by (simp_all add: mq_recv_def k Let_def z)
  have v: "mq_view q = mq_buf q ! ?h # ring_view (mq_buf q) ((?h + 1) mod MQ_CAPACITY) k"
    using ring_view_Suc_left [of ?h "mq_buf q" k] l h by (simp add: mq_view_def k)
  have v': "mq_view q' = ring_view (mq_buf q) ((?h + 1) mod MQ_CAPACITY) k"
    using ring_view_next_update [of ?h "mq_buf q" k message_empty] l h kc by (simp add: mq_view_def q')
  show "r = Inr (hd (mq_view q))" and "mq_view q = hd (mq_view q) # mq_view q'"
    by (simp_all only: v v' q'(1) list.sel)
  have "(mq_buf q)[?h := message_empty] ! (((?h + 1) mod MQ_CAPACITY + i) mod MQ_CAPACITY) = message_empty"
    if "k \<le> i" "i < MQ_CAPACITY" for i
  proof (cases "i = MQ_CAPACITY - 1")
    case True
    have "((?h + 1) mod MQ_CAPACITY + i) mod MQ_CAPACITY = (?h + 1 + i) mod MQ_CAPACITY" by (rule mod_add_left_eq)
    also have "?h + 1 + i = ?h + MQ_CAPACITY" using True MQ_CAPACITY_pos by linarith
    also have "\<dots> mod MQ_CAPACITY = ?h" using h by simp
    finally have "((?h + 1) mod MQ_CAPACITY + i) mod MQ_CAPACITY = ?h" .
    then show ?thesis using l h by simp
  next
    case False
    then have i: "Suc i < MQ_CAPACITY" using that by simp
    have "((?h + 1) mod MQ_CAPACITY + i) mod MQ_CAPACITY = (?h + Suc i) mod MQ_CAPACITY" by (simp add: mod_simps)
    moreover have "mq_buf q ! ((?h + Suc i) mod MQ_CAPACITY) = message_empty"
      using assms(1) i that(1) unfolding mq_inv_def k by (metis Suc_le_mono)
    ultimately show ?thesis using l h
      by (cases "(?h + Suc i) mod MQ_CAPACITY = ?h") simp_all
  qed
  moreover have "((?h + 1) mod MQ_CAPACITY + k) mod MQ_CAPACITY = mq_tail q"
    using assms(1) by (simp add: mq_inv_def k mod_simps)
  ultimately show "mq_inv q'" using l kc by (simp add: mq_inv_def q')
qed

definition mq_push_opt :: "message \<Rightarrow> msg_queue \<Rightarrow> msg_queue option" where
  "mq_push_opt m q = (case mq_send m q of (Inl _, _) \<Rightarrow> None | (Inr _, q') \<Rightarrow> Some q')"

definition mq_pop_opt :: "msg_queue \<Rightarrow> (message \<times> msg_queue) option" where
  "mq_pop_opt q = (case mq_recv q of (Inl _, _) \<Rightarrow> None | (Inr m, q') \<Rightarrow> Some (m, q'))"

interpretation mqf: bounded_fifo mq_inv mq_view MQ_CAPACITY "\<lambda>_. True" mq_push_opt mq_pop_opt
proof unfold_locales
  fix q q' :: msg_queue and x :: message
  assume i: "mq_inv q"
  have c: "mq_count q \<le> MQ_CAPACITY" using i by (simp add: mq_inv_def)
  show "length (mq_view q) \<le> MQ_CAPACITY" using c by simp
  show "mq_push_opt x q = None \<longleftrightarrow> length (mq_view q) = MQ_CAPACITY"
    using c by (auto simp: mq_push_opt_def mq_send_def Let_def)
  show "mq_inv q' \<and> mq_view q' = mq_view q @ [x]" if "mq_push_opt x q = Some q'"
  proof -
    have "mq_count q < MQ_CAPACITY" "snd (mq_send x q) = q'"
      using that c by (auto simp: mq_push_opt_def mq_send_def Let_def split: if_splits)
    then show ?thesis using mq_send_room [OF i, of x "fst (mq_send x q)" q'] by (metis prod.collapse)
  qed
  show "mq_pop_opt q = None \<longleftrightarrow> mq_view q = []"
    by (auto simp: mq_pop_opt_def mq_recv_def Let_def simp flip: length_0_conv)
  show "mq_inv q' \<and> mq_view q = x # mq_view q'" if "mq_pop_opt q = Some (x, q')"
  proof -
    have p: "0 < mq_count q" "mq_recv q = (Inr x, q')"
      using that by (auto simp: mq_pop_opt_def mq_recv_def Let_def split: if_splits)
    note f = mq_recv_front [OF i p]
    then have "hd (mq_view q) = x" by simp
    then show ?thesis using f by metis
  qed
qed

text \<open>
  C15. The message queue is first-in first-out and bounded: in any sequence of \<open>send\<close> and \<open>recv\<close>
  from an empty queue, what was received followed by what still waits is what was accepted, in
  order; at most 32 messages wait, and vacant slots hold no trace of a message.
\<close>

theorem mq_fifo:
  assumes "fifo_run mq_push_opt mq_pop_opt ops mq_new = (sent, received, q)"
  shows "sent = received @ mq_view q \<and> mq_len q \<le> MQ_CAPACITY
    \<and> (\<forall>i. mq_len q \<le> i \<and> i < MQ_CAPACITY \<longrightarrow> mq_buf q ! ((mq_head q + i) mod MQ_CAPACITY) = message_empty)"
  using mqf.run_fifo [OF mq_new_inv(1) ops_ok_True assms] by (auto simp: mq_inv_def mq_len_def)

theorem mq_fifo_witness:
  "\<exists>q. fifo_run mq_push_opt mq_pop_opt [Push (message_empty\<lparr>msg_type := 7\<rparr>), Pop, Pop] mq_new
      = ([message_empty\<lparr>msg_type := 7\<rparr>], [message_empty\<lparr>msg_type := 7\<rparr>], q) \<and> mq_len q \<le> MQ_CAPACITY"
proof -
  let ?m = "message_empty\<lparr>msg_type := 7\<rparr>"
  obtain q where q: "fifo_run mq_push_opt mq_pop_opt [Push ?m, Pop, Pop] mq_new = ([?m], [?m], q)"
    by (simp add: mq_push_opt_def mq_pop_opt_def mq_send_def mq_recv_def mq_new_def Let_def MQ_CAPACITY_def)
  from mq_fifo [OF this] q show ?thesis by blast
qed

section \<open>The pipe\<close>

record pipe =
  pp_buf :: bytes
  pp_head :: nat
  pp_tail :: nat
  pp_count :: nat

definition pipe_new :: pipe where
  "pipe_new = \<lparr>pp_buf = replicate PIPE_BUF_SIZE 0, pp_head = 0, pp_tail = 0, pp_count = 0\<rparr>"

definition pipe_write :: "bytes \<Rightarrow> pipe \<Rightarrow> nat \<times> pipe" where
  "pipe_write data p =
     (let to_write = min (length data) (PIPE_BUF_SIZE - pp_count p)
      in (to_write, p\<lparr>pp_buf := ring_put (pp_buf p) (pp_tail p) (take to_write data),
                      pp_tail := (pp_tail p + to_write) mod PIPE_BUF_SIZE,
                      pp_count := pp_count p + to_write\<rparr>))"

text \<open>The loop of \<open>read\<close>: copy a byte out, zero its cell, advance the head.\<close>

fun pipe_read_loop :: "nat \<Rightarrow> nat \<Rightarrow> bytes \<Rightarrow> bytes \<Rightarrow> nat \<Rightarrow> bytes \<times> bytes \<times> nat" where
  "pipe_read_loop i 0 dst buf head = (dst, buf, head)"
| "pipe_read_loop i (Suc n) dst buf head =
     pipe_read_loop (Suc i) n (dst[i := buf ! head]) (buf[head := 0]) ((head + 1) mod PIPE_BUF_SIZE)"

definition pipe_read :: "bytes \<Rightarrow> pipe \<Rightarrow> nat \<times> bytes \<times> pipe" where
  "pipe_read dst p =
     (let to_read = min (length dst) (pp_count p);
          (dst, buf, head) = pipe_read_loop 0 to_read dst (pp_buf p) (pp_head p)
      in (to_read, dst, p\<lparr>pp_buf := buf, pp_head := head, pp_count := pp_count p - to_read\<rparr>))"

definition pipe_readable :: "pipe \<Rightarrow> nat" where "pipe_readable p = pp_count p"
definition pipe_is_empty :: "pipe \<Rightarrow> bool" where "pipe_is_empty p \<longleftrightarrow> pp_count p = 0"

definition pipe_inv :: "pipe \<Rightarrow> bool" where
  "pipe_inv p \<longleftrightarrow> length (pp_buf p) = PIPE_BUF_SIZE \<and> pp_head p < PIPE_BUF_SIZE \<and> pp_count p \<le> PIPE_BUF_SIZE
     \<and> pp_tail p = (pp_head p + pp_count p) mod PIPE_BUF_SIZE"

definition pipe_view :: "pipe \<Rightarrow> bytes" where
  "pipe_view p = ring_view (pp_buf p) (pp_head p) (pp_count p)"

lemma PIPE_BUF_SIZE_pos [simp]: "0 < PIPE_BUF_SIZE"
  by (simp add: PIPE_BUF_SIZE_def)

lemma pipe_new_inv [simp]: "pipe_inv pipe_new" "pipe_view pipe_new = []"
  by (simp_all add: pipe_inv_def pipe_new_def pipe_view_def)

lemma pipe_write_correct:
  assumes "pipe_inv p" and "pipe_write data p = (n, p')"
  shows "n = min (length data) (PIPE_BUF_SIZE - length (pipe_view p))" and "pipe_inv p'"
    and "pipe_view p' = pipe_view p @ take n data"
proof -
  have l: "length (pp_buf p) = PIPE_BUF_SIZE" "pp_count p \<le> PIPE_BUF_SIZE"
    "pp_tail p = (pp_head p + pp_count p) mod PIPE_BUF_SIZE" "pp_head p < PIPE_BUF_SIZE"
    using assms(1) by (simp_all add: pipe_inv_def)
  have n: "n = min (length data) (PIPE_BUF_SIZE - pp_count p)"
    and p': "p' = p\<lparr>pp_buf := ring_put (pp_buf p) (pp_tail p) (take n data),
      pp_tail := (pp_tail p + n) mod PIPE_BUF_SIZE, pp_count := pp_count p + n\<rparr>"
    using assms(2) by (auto simp: pipe_write_def Let_def)
  show "n = min (length data) (PIPE_BUF_SIZE - length (pipe_view p))" by (simp add: n pipe_view_def)
  have len: "length (take n data) = n" and room: "pp_count p + n \<le> PIPE_BUF_SIZE" using n l(2) by auto
  show "pipe_inv p'" using l room by (simp add: pipe_inv_def p' mod_simps add.assoc)
  show "pipe_view p' = pipe_view p @ take n data"
    using ring_view_put [of "pp_count p" "take n data" "pp_buf p" "pp_head p"] l room
    unfolding len by (simp add: pipe_view_def p')
qed

lemma pipe_read_loop_clear:
  assumes "length buf = PIPE_BUF_SIZE" and "head < PIPE_BUF_SIZE" and "n \<le> PIPE_BUF_SIZE" and "i + n \<le> length dst"
  shows "pipe_read_loop i n dst buf head
    = (blit i (ring_view buf head n) dst, fst (ring_clear 0 buf head n), (head + n) mod PIPE_BUF_SIZE)"
  using assms
proof (induction n arbitrary: i dst buf head)
  case 0
  then show ?case by (simp add: blit_def)
next
  case (Suc n)
  let ?h = "Suc head mod PIPE_BUF_SIZE"
  have b: "ring_view buf head (Suc n) = buf ! head # ring_view buf ?h n"
    using ring_view_Suc_left [of head buf n] Suc.prems by simp
  have v: "ring_view (buf[head := 0]) ?h n = ring_view buf ?h n"
    using ring_view_next_update [of head buf n 0] Suc.prems by simp
  have "pipe_read_loop (Suc i) n (dst[i := buf ! head]) (buf[head := 0]) ?h
      = (blit (Suc i) (ring_view (buf[head := 0]) ?h n) (dst[i := buf ! head]),
         fst (ring_clear 0 (buf[head := 0]) ?h n), (?h + n) mod PIPE_BUF_SIZE)"
    using Suc.prems by (intro Suc.IH) simp_all
  moreover have "blit (Suc i) xs (dst[i := x]) = blit i (x # xs) dst" if "Suc i + length xs \<le> length dst" for x xs
    using that by (simp add: blit_def take_Suc_conv_app_nth drop_update_cancel)
  ultimately show ?case using Suc.prems by (simp add: b v mod_simps)
qed

lemma pipe_read_correct:
  assumes "pipe_inv p" and "pipe_read dst p = (n, dst', p')"
  shows "n = min (length dst) (length (pipe_view p))" and "pipe_inv p'"
    and "dst' = blit 0 (take n (pipe_view p)) dst" and "pipe_view p' = drop n (pipe_view p)"
proof -
  have l: "length (pp_buf p) = PIPE_BUF_SIZE" "pp_count p \<le> PIPE_BUF_SIZE"
    "pp_tail p = (pp_head p + pp_count p) mod PIPE_BUF_SIZE" "pp_head p < PIPE_BUF_SIZE"
    using assms(1) by (simp_all add: pipe_inv_def)
  let ?n = "min (length dst) (pp_count p)"
  have lp: "pipe_read_loop 0 ?n dst (pp_buf p) (pp_head p)
    = (blit 0 (ring_view (pp_buf p) (pp_head p) ?n) dst, fst (ring_clear 0 (pp_buf p) (pp_head p) ?n),
       (pp_head p + ?n) mod PIPE_BUF_SIZE)"
    using l by (intro pipe_read_loop_clear) auto
  then have r: "n = ?n" "dst' = blit 0 (ring_view (pp_buf p) (pp_head p) ?n) dst"
    "p' = p\<lparr>pp_buf := fst (ring_clear 0 (pp_buf p) (pp_head p) ?n),
      pp_head := (pp_head p + ?n) mod PIPE_BUF_SIZE, pp_count := pp_count p - ?n\<rparr>"
    using assms(2) unfolding pipe_read_def Let_def lp prod.case by auto
  show "n = min (length dst) (length (pipe_view p))" by (simp add: r pipe_view_def)
  show "dst' = blit 0 (take n (pipe_view p)) dst" by (simp add: r pipe_view_def ring_view_take)
  have "((pp_head p + ?n) mod PIPE_BUF_SIZE + (pp_count p - ?n)) mod PIPE_BUF_SIZE
      = (pp_head p + ?n + (pp_count p - ?n)) mod PIPE_BUF_SIZE" by (rule mod_add_left_eq)
  then show "pipe_inv p'" using l by (simp add: pipe_inv_def r)
  show "pipe_view p' = drop n (pipe_view p)"
    using ring_view_clear [of "pp_head p" "pp_buf p" ?n "pp_count p" 0] l
    by (simp add: pipe_view_def r)
qed

text \<open>Runs of a pipe: the bytes accepted and the bytes that came out.\<close>

datatype pipe_op = PWrite bytes | PRead nat

fun pipe_run :: "pipe_op list \<Rightarrow> pipe \<Rightarrow> bytes \<times> bytes \<times> pipe" where
  "pipe_run [] p = ([], [], p)"
| "pipe_run (PWrite d # ops) p =
     (let (n, p) = pipe_write d p; (ins, outs, r) = pipe_run ops p in (take n d @ ins, outs, r))"
| "pipe_run (PRead k # ops) p =
     (let (n, d, p) = pipe_read (replicate k 0) p; (ins, outs, r) = pipe_run ops p in (ins, take n d @ outs, r))"

lemma pipe_run_view:
  "pipe_inv p \<Longrightarrow> pipe_run ops p = (ins, outs, r) \<Longrightarrow> pipe_inv r \<and> pipe_view p @ ins = outs @ pipe_view r"
proof (induction ops arbitrary: p ins outs r)
  case (Cons a ops)
  show ?case
  proof (cases a)
    case (PWrite d)
    obtain n q where w: "pipe_write d p = (n, q)" by (cases "pipe_write d p")
    obtain i o' r' where u: "pipe_run ops q = (i, o', r')" by (cases "pipe_run ops q")
    note c = pipe_write_correct [OF Cons.prems(1) w]
    show ?thesis using Cons.IH [OF c(2) u] Cons.prems(2) c(3) by (simp add: PWrite w u)
  next
    case (PRead k)
    obtain n d q where w: "pipe_read (replicate k 0) p = (n, d, q)" by (cases "pipe_read (replicate k 0) p")
    obtain i o' r' where u: "pipe_run ops q = (i, o', r')" by (cases "pipe_run ops q")
    note c = pipe_read_correct [OF Cons.prems(1) w]
    have "take n d = take n (pipe_view p)" using c(1,3) by (simp add: blit_def)
    then have "pipe_view p = take n d @ pipe_view q" using c(4) by simp
    then show ?thesis using Cons.IH [OF c(2) u] Cons.prems(2) by (auto simp: PRead w u)
  qed
qed simp

text \<open>
  The pipe is a byte stream: in any sequence of writes and reads from an empty pipe, the
  bytes read followed by the bytes still buffered are exactly the bytes accepted, in order,
  whatever the sizes of the calls; it never holds more than its 4096 bytes.
\<close>

theorem pipe_stream:
  assumes "pipe_run ops pipe_new = (accepted, read_out, p)"
  shows "accepted = read_out @ pipe_view p \<and> pipe_readable p \<le> PIPE_BUF_SIZE"
  using pipe_run_view [OF pipe_new_inv(1) assms] by (auto simp: pipe_inv_def pipe_readable_def)

theorem pipe_stream_witness:
  "\<exists>read_out p. pipe_run [PWrite [1, 2, 3], PRead 2] pipe_new = ([1, 2, 3], read_out, p)
    \<and> [1, 2, 3] = read_out @ pipe_view p"
proof -
  obtain n p1 where w: "pipe_write [1, 2, 3] pipe_new = (n, p1)" by (cases "pipe_write [1, 2, 3] pipe_new")
  have n: "n = 3" using pipe_write_correct(1) [OF pipe_new_inv(1) w] by (simp add: PIPE_BUF_SIZE_def)
  obtain k d p2 where r: "pipe_read (replicate 2 0) p1 = (k, d, p2)" by (cases "pipe_read (replicate 2 0) p1")
  have run: "pipe_run [PWrite [1, 2, 3], PRead 2] pipe_new = ([1, 2, 3], take k d, p2)" by (simp add: w r n)
  from pipe_stream [OF this] run show ?thesis by blast
qed

end
