(* ===== verification/Sync.thy ===== *)
theory Sync
  imports Ipc
begin

text \<open>
  The primitives that are shared between threads: the counting semaphore of \<open>kernel/ipc\<close> and the
  spin lock of \<open>kernel/ksync/src/lib.rs\<close>.  Their code is loops around atomic accesses, so the
  model is a program counter per thread, one function that performs the next atomic access of
  a thread (a weak compare-exchange may fail for no reason: the argument \<open>spurious\<close>), and a step
  relation that lets any thread move.  Memory is sequentially consistent: every location has
  one total order of accesses, which the orderings in the code guarantee for one atomic.
\<close>

unbundle bit_operations_syntax

section \<open>The semaphore\<close>

type_synonym i32 = "32 word"

text \<open>\<open>WTry c\<close>: inside \<open>try_wait\<close> with \<open>c\<close> the value seen last; \<open>GTry c\<close>: inside \<open>signal\<close>.\<close>

datatype sem_pc = SIdle | WLoad | WTry i32 | WOk | WErr ipc_error | GLoad | GTry i32 | GOk | GErr ipc_error

fun sem_atomic :: "bool \<Rightarrow> i32 \<Rightarrow> sem_pc \<Rightarrow> i32 \<Rightarrow> sem_pc \<times> i32" where
  "sem_atomic spurious m WLoad n = (WTry n, n)"
| "sem_atomic spurious m (WTry c) n =
     (if sint c \<le> 0 then (WErr WouldBlock, n)
      else if n = c \<and> \<not> spurious then (WOk, c - 1) else (WTry n, n))"
| "sem_atomic spurious m GLoad n = (GTry n, n)"
| "sem_atomic spurious m (GTry c) n =
     (if sint c < sint m then (if n = c \<and> \<not> spurious then (GOk, c + 1) else (GTry n, n))
      else (GErr SemaphoreOverflow, n))"
| "sem_atomic spurious m pc n = (pc, n)"

fun sem_running :: "sem_pc \<Rightarrow> bool" where
  "sem_running WLoad = True"
| "sem_running (WTry c) = True"
| "sem_running GLoad = True"
| "sem_running (GTry c) = True"
| "sem_running pc = False"

text \<open>The shared word, the threads, and two ghosts: how often each call has succeeded.\<close>

record sem_sys =
  ss_count :: i32
  ss_max :: i32
  ss_pcs :: "nat \<Rightarrow> sem_pc"
  ss_taken :: nat
  ss_given :: nat

definition sem_new :: "i32 \<Rightarrow> i32 \<Rightarrow> sem_sys" where
  "sem_new initial m = \<lparr>ss_count = initial, ss_max = m, ss_pcs = (\<lambda>_. SIdle), ss_taken = 0, ss_given = 0\<rparr>"

inductive sem_step :: "sem_sys \<Rightarrow> sem_sys \<Rightarrow> bool" where
  CallWait: "\<not> sem_running (ss_pcs s t) \<Longrightarrow> sem_step s (s\<lparr>ss_pcs := (ss_pcs s)(t := WLoad)\<rparr>)"
| CallSignal: "\<not> sem_running (ss_pcs s t) \<Longrightarrow> sem_step s (s\<lparr>ss_pcs := (ss_pcs s)(t := GLoad)\<rparr>)"
| Atomic: "sem_running (ss_pcs s t) \<Longrightarrow> sem_atomic spurious (ss_max s) (ss_pcs s t) (ss_count s) = (pc, n) \<Longrightarrow>
     sem_step s (s\<lparr>ss_count := n, ss_pcs := (ss_pcs s)(t := pc),
       ss_taken := ss_taken s + (if pc = WOk then 1 else 0), ss_given := ss_given s + (if pc = GOk then 1 else 0)\<rparr>)"

inductive_cases sem_stepE: "sem_step s s'"

inductive sem_reach :: "sem_sys \<Rightarrow> sem_sys \<Rightarrow> bool" for s0 where
  Start: "sem_reach s0 s0"
| Step: "sem_reach s0 s \<Longrightarrow> sem_step s s' \<Longrightarrow> sem_reach s0 s'"

definition sem_inv :: "int \<Rightarrow> sem_sys \<Rightarrow> bool" where
  "sem_inv initial s \<longleftrightarrow> 0 \<le> sint (ss_count s) \<and> sint (ss_count s) \<le> sint (ss_max s)
     \<and> sint (ss_count s) + int (ss_taken s) = initial + int (ss_given s)"

lemma sint_i32_range: "- (2 ^ 31) \<le> sint (w :: i32)" "sint (w :: i32) < 2 ^ 31"
  using sint_ge [of w] sint_lt [of w] by simp_all

lemma sint_pred: "0 < sint (c :: i32) \<Longrightarrow> sint (c - 1) = sint c - 1"
  using sint_i32_range [of c] by (simp add: sint_word_ariths signed_take_bit_int_eq_self)

lemma sint_succ: "sint (c :: i32) < sint (m :: i32) \<Longrightarrow> sint (c + 1) = sint c + 1"
  using sint_i32_range [of c] sint_i32_range [of m] by (simp add: sint_word_ariths signed_take_bit_int_eq_self)

lemma sem_step_inv:
  assumes "sem_step s s'" and "sem_inv initial s"
  shows "sem_inv initial s' \<and> ss_max s' = ss_max s"
  using assms(1)
proof cases
  case (Atomic t spurious pc n)
  then show ?thesis
    using assms(2) by (cases "ss_pcs s t") (auto simp: sem_inv_def sint_pred sint_succ split: if_splits)
qed (use assms(2) in \<open>simp_all add: sem_inv_def\<close>)

text \<open>
  C16. The semaphore counts right under every interleaving and every spurious failure: the count
  stays between zero and the maximum, never wraps, and the successful waits never exceed the
  initial permits plus the successful signals (the count is exactly the difference).
\<close>

theorem semaphore_conserves_permits:
  assumes "sem_reach (sem_new initial m) s" and "0 \<le> sint initial" and "sint initial \<le> sint m"
  shows "0 \<le> sint (ss_count s) \<and> sint (ss_count s) \<le> sint m
    \<and> sint (ss_count s) + int (ss_taken s) = sint initial + int (ss_given s)"
proof -
  have "sem_inv (sint initial) s \<and> ss_max s = m"
    using assms(1)
  proof induction
    case Start
    then show ?case using assms(2,3) by (simp add: sem_inv_def sem_new_def)
  next
    case (Step s s')
    then show ?case using sem_step_inv by metis
  qed
  then show ?thesis by (auto simp: sem_inv_def)
qed

lemma sem_demo_run:
  "\<exists>s. sem_reach (sem_new 1 1) s \<and> ss_count s = 0 \<and> ss_pcs s 0 = WOk \<and> ss_pcs s 1 = WTry 1 \<and> ss_taken s = 1"
proof -
  let ?s0 = "sem_new 1 1"
  let ?s1 = "?s0\<lparr>ss_pcs := (ss_pcs ?s0)(0 := WLoad)\<rparr>"
  let ?s2 = "?s1\<lparr>ss_pcs := (ss_pcs ?s1)(1 := WLoad)\<rparr>"
  let ?s3 = "?s2\<lparr>ss_pcs := (ss_pcs ?s2)(0 := WTry 1)\<rparr>"
  let ?s4 = "?s3\<lparr>ss_pcs := (ss_pcs ?s3)(1 := WTry 1)\<rparr>"
  let ?s5 = "?s4\<lparr>ss_count := 0, ss_pcs := (ss_pcs ?s4)(0 := WOk), ss_taken := 1\<rparr>"
  have 1: "sem_step ?s0 ?s1" by (rule CallWait) (simp add: sem_new_def)
  have 2: "sem_step ?s1 ?s2" by (rule CallWait) (simp add: sem_new_def)
  have 3: "sem_step ?s2 ?s3"
    using sem_step.Atomic [of ?s2 0 False "WTry 1" 1] by (simp add: sem_new_def)
  have 4: "sem_step ?s3 ?s4"
    using sem_step.Atomic [of ?s3 1 False "WTry 1" 1] by (simp add: sem_new_def fun_upd_twist)
  have 5: "sem_step ?s4 ?s5"
    using sem_step.Atomic [of ?s4 0 False WOk 0] by (simp add: sem_new_def fun_upd_twist)
  have "sem_reach ?s0 ?s5" by (intro sem_reach.Step [OF _ 5] sem_reach.Step [OF _ 4] sem_reach.Step [OF _ 3]
      sem_reach.Step [OF _ 2] sem_reach.Step [OF _ 1] sem_reach.Start)
  then show ?thesis by (intro exI [of _ ?s5]) (simp add: sem_new_def)
qed

theorem semaphore_conserves_permits_witness:
  "\<exists>s. sem_reach (sem_new 1 1) s \<and> ss_pcs s 0 = WOk
     \<and> sint (ss_count s) + int (ss_taken s) = 1 + int (ss_given s) \<and> sint (ss_count s) \<le> 1"
proof -
  obtain s where s: "sem_reach (sem_new 1 1) s" "ss_pcs s 0 = WOk" using sem_demo_run by blast
  then show ?thesis using semaphore_conserves_permits [OF s(1)] by auto
qed

text \<open>One thread on its own, with a list that says which of its exchanges fail spuriously.\<close>

fun sem_alone :: "i32 \<Rightarrow> bool list \<Rightarrow> sem_pc \<times> i32 \<Rightarrow> sem_pc \<times> i32" where
  "sem_alone m [] (pc, n) = (pc, n)"
| "sem_alone m (b # bs) (pc, n) = sem_alone m bs (sem_atomic b m pc n)"

lemma sem_alone_done: "\<not> sem_running pc \<Longrightarrow> sem_alone m bs (pc, n) = (pc, n)"
proof (induction bs)
  case (Cons b bs)
  then show ?case by (cases pc) simp_all
qed simp

lemma sem_alone_wait:
  "False \<in> set bs \<Longrightarrow>
   sem_alone m bs (WTry n, n) = (if 0 < sint n then (WOk, n - 1) else (WErr WouldBlock, n))"
  by (induction bs) (auto simp: sem_alone_done)

lemma sem_alone_signal:
  "False \<in> set bs \<Longrightarrow>
   sem_alone m bs (GTry n, n) = (if sint n < sint m then (GOk, n + 1) else (GErr SemaphoreOverflow, n))"
  by (induction bs) (auto simp: sem_alone_done)

text \<open>
  The compare-exchange loops return, and do what the sequential operation says: a thread
  that runs undisturbed finishes as soon as one exchange does not fail spuriously, \<open>try_wait\<close>
  with one permit less or \<open>WouldBlock\<close> at zero, \<open>signal\<close> with one more or an overflow error.
\<close>

theorem semaphore_calls_return:
  assumes "False \<in> set bs"
  shows "sem_alone m (b # bs) (WLoad, n) = (if 0 < sint n then (WOk, n - 1) else (WErr WouldBlock, n))
    \<and> sem_alone m (b # bs) (GLoad, n) = (if sint n < sint m then (GOk, n + 1) else (GErr SemaphoreOverflow, n))"
  using sem_alone_wait [OF assms] sem_alone_signal [OF assms] by simp

theorem semaphore_calls_return_witness:
  "sem_alone 3 [False, True, False] (WLoad, 2) = (WOk, 1) \<and> sem_alone 3 [True, False] (GLoad, 3) = (GErr SemaphoreOverflow, 3)"
  using semaphore_calls_return [of "[True, False]" 3 False 2] semaphore_calls_return [of "[False]" 3 True 3] by simp

section \<open>The spin lock\<close>

record 'a spin_lock =
  sl_locked :: bool
  sl_data :: 'a

definition spin_new :: "'a \<Rightarrow> 'a spin_lock" where
  "spin_new v = \<lparr>sl_locked = False, sl_data = v\<rparr>"

text \<open>
  Where a thread is: outside, at the exchange of \<open>lock\<close>, in its inner waiting loop, at the
  exchange of \<open>try_lock\<close>, refused by it, holding a guard, or holding it with a value read
  through it and not yet written back (\<open>*g = f(*g)\<close> is a read and a write).
\<close>

datatype 'a spin_pc = LIdle | LCas | LSpin | LTry | LNone | LHeld | LRead 'a

fun spin_atomic :: "bool \<Rightarrow> 'a spin_pc \<Rightarrow> 'a spin_lock \<Rightarrow> 'a spin_pc \<times> 'a spin_lock" where
  "spin_atomic spurious LCas l =
     (if \<not> sl_locked l \<and> \<not> spurious then (LHeld, l\<lparr>sl_locked := True\<rparr>) else (LSpin, l))"
| "spin_atomic spurious LSpin l = (if sl_locked l then (LSpin, l) else (LCas, l))"
| "spin_atomic spurious LTry l = (if \<not> sl_locked l then (LHeld, l\<lparr>sl_locked := True\<rparr>) else (LNone, l))"
| "spin_atomic spurious pc l = (pc, l)"

definition guard_read :: "'a spin_lock \<Rightarrow> 'a" where
  "guard_read l = sl_data l"

definition guard_write :: "'a \<Rightarrow> 'a spin_lock \<Rightarrow> 'a spin_lock" where
  "guard_write v l = l\<lparr>sl_data := v\<rparr>"

definition guard_drop :: "'a spin_lock \<Rightarrow> 'a spin_lock" where
  "guard_drop l = l\<lparr>sl_locked := False\<rparr>"

definition force_get_mut :: "('a \<Rightarrow> 'a) \<Rightarrow> 'a spin_lock \<Rightarrow> 'a spin_lock" where
  "force_get_mut f l = l\<lparr>sl_data := f (sl_data l)\<rparr>"

text \<open>\<open>if let Some(g) = l.try_lock() { body(&mut *g) }\<close>: \<open>None\<close> when the lock is taken.\<close>

definition with_try_lock :: "('a \<Rightarrow> 'a) \<Rightarrow> 'a spin_lock \<Rightarrow> 'a spin_lock option" where
  "with_try_lock body l =
     (case spin_atomic False LTry l of
        (LHeld, l) \<Rightarrow> Some (guard_drop (guard_write (body (guard_read l)) l))
      | _ \<Rightarrow> None)"

record 'a spin_sys =
  sp_lock :: "'a spin_lock"
  sp_pcs :: "nat \<Rightarrow> 'a spin_pc"
  sp_log :: "('a \<Rightarrow> 'a) list"

definition spin_init :: "'a \<Rightarrow> 'a spin_sys" where
  "spin_init v = \<lparr>sp_lock = spin_new v, sp_pcs = (\<lambda>_. LIdle), sp_log = []\<rparr>"

inductive spin_step :: "'a spin_sys \<Rightarrow> 'a spin_sys \<Rightarrow> bool" where
  CallLock: "sp_pcs s t \<in> {LIdle, LNone} \<Longrightarrow> spin_step s (s\<lparr>sp_pcs := (sp_pcs s)(t := LCas)\<rparr>)"
| CallTry: "sp_pcs s t \<in> {LIdle, LNone} \<Longrightarrow> spin_step s (s\<lparr>sp_pcs := (sp_pcs s)(t := LTry)\<rparr>)"
| Exchange: "spin_atomic spurious (sp_pcs s t) (sp_lock s) = (pc, l) \<Longrightarrow>
     spin_step s (s\<lparr>sp_lock := l, sp_pcs := (sp_pcs s)(t := pc)\<rparr>)"
| Deref: "sp_pcs s t = LHeld \<Longrightarrow>
     spin_step s (s\<lparr>sp_pcs := (sp_pcs s)(t := LRead (guard_read (sp_lock s)))\<rparr>)"
| DerefMut: "sp_pcs s t = LRead v \<Longrightarrow>
     spin_step s (s\<lparr>sp_lock := guard_write (f v) (sp_lock s), sp_pcs := (sp_pcs s)(t := LHeld),
       sp_log := sp_log s @ [f]\<rparr>)"
| Drop: "sp_pcs s t = LHeld \<Longrightarrow>
     spin_step s (s\<lparr>sp_lock := guard_drop (sp_lock s), sp_pcs := (sp_pcs s)(t := LIdle)\<rparr>)"

inductive spin_reach :: "'a spin_sys \<Rightarrow> 'a spin_sys \<Rightarrow> bool" for s0 where
  SStart: "spin_reach s0 s0"
| SStep: "spin_reach s0 s \<Longrightarrow> spin_step s s' \<Longrightarrow> spin_reach s0 s'"

fun holds :: "'a spin_pc \<Rightarrow> bool" where
  "holds LHeld = True"
| "holds (LRead v) = True"
| "holds pc = False"

text \<open>Nobody is inside, or one thread is, with the flag set and no stale value in hand.\<close>

definition alone_inside :: "nat \<Rightarrow> 'a spin_sys \<Rightarrow> bool" where
  "alone_inside t s \<longleftrightarrow> sl_locked (sp_lock s)
     \<and> (sp_pcs s t = LHeld \<or> sp_pcs s t = LRead (sl_data (sp_lock s)))
     \<and> (\<forall>u. u \<noteq> t \<longrightarrow> \<not> holds (sp_pcs s u))"

definition spin_inv :: "'a \<Rightarrow> 'a spin_sys \<Rightarrow> bool" where
  "spin_inv v s \<longleftrightarrow> sl_data (sp_lock s) = fold (\<lambda>f. f) (sp_log s) v
     \<and> ((\<forall>t. \<not> holds (sp_pcs s t)) \<or> (\<exists>t. alone_inside t s))"

lemma holds_alone:
  assumes "spin_inv v s" and "holds (sp_pcs s t)"
  shows "alone_inside t s"
  using assms unfolding spin_inv_def alone_inside_def by metis

lemma alone_inside_other: "alone_inside t s \<Longrightarrow> \<not> holds pc \<Longrightarrow> u \<noteq> t \<Longrightarrow>
    alone_inside t (s\<lparr>sp_pcs := (sp_pcs s)(u := pc)\<rparr>)"
  by (simp add: alone_inside_def)

text \<open>A thread that is outside and stays outside.\<close>

lemma spin_inv_outside:
  assumes "spin_inv v s" and "\<not> holds pc" and "\<not> holds (sp_pcs s t)"
  shows "spin_inv v (s\<lparr>sp_pcs := (sp_pcs s)(t := pc)\<rparr>)"
proof (cases "\<exists>u. alone_inside u s")
  case True
  then obtain u where u: "alone_inside u s" by blast
  then have "u \<noteq> t" using assms(3) by (auto simp: alone_inside_def)
  then have "alone_inside u (s\<lparr>sp_pcs := (sp_pcs s)(t := pc)\<rparr>)"
    using alone_inside_other [OF u assms(2), of t] by simp
  then show ?thesis using assms(1) by (auto simp: spin_inv_def)
next
  case False
  then show ?thesis using assms by (simp add: spin_inv_def)
qed

lemma spin_atomic_cases:
  assumes "spin_atomic spurious p k = (pc, l)"
  shows "(pc = LHeld \<and> \<not> sl_locked k \<and> l = k\<lparr>sl_locked := True\<rparr>)
    \<or> (\<not> holds pc \<and> \<not> holds p \<and> l = k) \<or> (pc = p \<and> l = k)"
  using assms by (cases p) (simp_all split: if_split_asm)

lemma spin_step_inv:
  assumes "spin_step s s'" and "spin_inv v s"
  shows "spin_inv v s'"
  using assms(1)
proof cases
  case (CallLock t)
  then have "\<not> holds (sp_pcs s t)" by auto
  then show ?thesis using spin_inv_outside [OF assms(2), of LCas t] CallLock(1) by simp
next
  case (CallTry t)
  then have "\<not> holds (sp_pcs s t)" by auto
  then show ?thesis using spin_inv_outside [OF assms(2), of LTry t] CallTry(1) by simp
next
  case (Exchange spurious t pc l)
  consider "pc = LHeld" "\<not> sl_locked (sp_lock s)" "l = (sp_lock s)\<lparr>sl_locked := True\<rparr>"
    | "\<not> holds pc" "\<not> holds (sp_pcs s t)" "l = sp_lock s" | "pc = sp_pcs s t" "l = sp_lock s"
    using spin_atomic_cases [OF Exchange(2)] by blast
  then show ?thesis
  proof cases
    case 1
    then have "\<not> holds (sp_pcs s u)" for u
      using holds_alone [OF assms(2), of u] by (auto simp: alone_inside_def)
    then have "alone_inside t s'" by (simp add: alone_inside_def Exchange(1) 1)
    moreover have "sl_data (sp_lock s') = fold (\<lambda>f. f) (sp_log s') v"
      using assms(2) by (simp add: spin_inv_def Exchange(1) 1)
    ultimately show ?thesis unfolding spin_inv_def by blast
  next
    case 2
    then show ?thesis using spin_inv_outside [OF assms(2), of pc t] by (simp add: Exchange(1))
  next
    case 3
    then show ?thesis using assms(2) Exchange(1) by (simp add: fun_upd_idem)
  qed
next
  case (Deref t)
  have "alone_inside t s" using Deref(2) holds_alone [OF assms(2), of t] by simp
  then have "alone_inside t s'" by (simp add: alone_inside_def Deref(1) guard_read_def)
  then show ?thesis using assms(2) unfolding spin_inv_def Deref(1) by auto
next
  case (DerefMut t w f)
  have a: "alone_inside t s" using DerefMut(2) holds_alone [OF assms(2), of t] by simp
  then have w: "w = sl_data (sp_lock s)" using DerefMut(2) by (simp add: alone_inside_def)
  from a have "alone_inside t s'" by (simp add: alone_inside_def DerefMut(1) guard_write_def)
  then show ?thesis using assms(2) w unfolding spin_inv_def DerefMut(1) by (auto simp: guard_write_def)
next
  case (Drop t)
  have a: "alone_inside t s" using Drop(2) holds_alone [OF assms(2), of t] by simp
  then have "\<not> holds (sp_pcs s' u)" for u by (simp add: alone_inside_def Drop(1))
  then show ?thesis using assms(2) unfolding spin_inv_def Drop(1) by (simp add: guard_drop_def)
qed

lemma spin_reach_inv: "spin_reach (spin_init v) s \<Longrightarrow> spin_inv v s"
proof (induction rule: spin_reach.induct)
  case SStart
  then show ?case by (simp add: spin_inv_def spin_init_def spin_new_def)
qed (rule spin_step_inv)

text \<open>
  C17. Mutual exclusion without lost updates: in every reachable state of any number of threads
  using \<open>lock\<close>, \<open>try_lock\<close> and guards, at most one thread holds the lock, the flag is set while
  it does, and the protected value is what the updates give one after the other, although each
  is a separate read and write.
\<close>

theorem spinlock_excludes:
  assumes "spin_reach (spin_init v) s" and "holds (sp_pcs s t)"
  shows "sl_locked (sp_lock s) \<and> (\<forall>u. holds (sp_pcs s u) \<longleftrightarrow> u = t)
    \<and> sl_data (sp_lock s) = fold (\<lambda>f. f) (sp_log s) v"
  using holds_alone [OF spin_reach_inv [OF assms(1)] assms(2)] spin_reach_inv [OF assms(1)] assms(2)
  by (auto simp: spin_inv_def alone_inside_def)

theorem spinlock_excludes_witness:
  "\<exists>s. spin_reach (spin_init (1 :: nat)) s \<and> holds (sp_pcs s 0) \<and> \<not> holds (sp_pcs s 1) \<and> sl_data (sp_lock s) = 2"
proof -
  let ?s0 = "spin_init (1 :: nat)"
  let ?s1 = "?s0\<lparr>sp_pcs := (sp_pcs ?s0)(0 := LCas)\<rparr>"
  let ?s2 = "?s1\<lparr>sp_lock := (sp_lock ?s1)\<lparr>sl_locked := True\<rparr>, sp_pcs := (sp_pcs ?s1)(0 := LHeld)\<rparr>"
  let ?s3 = "?s2\<lparr>sp_pcs := (sp_pcs ?s2)(0 := LRead (guard_read (sp_lock ?s2)))\<rparr>"
  let ?s4 = "?s3\<lparr>sp_lock := guard_write (Suc 1) (sp_lock ?s3), sp_pcs := (sp_pcs ?s3)(0 := LHeld),
       sp_log := sp_log ?s3 @ [Suc]\<rparr>"
  have 1: "spin_step ?s0 ?s1" by (rule CallLock) (simp add: spin_init_def)
  have 2: "spin_step ?s1 ?s2" by (rule Exchange [where spurious = False]) (simp add: spin_init_def spin_new_def)
  have 3: "spin_step ?s2 ?s3" by (rule Deref) simp
  have 4: "spin_step ?s3 ?s4" by (rule DerefMut) (simp add: spin_init_def spin_new_def guard_read_def)
  have r: "spin_reach ?s0 ?s4"
    by (intro SStep [OF _ 4] SStep [OF _ 3] SStep [OF _ 2] SStep [OF _ 1] SStart)
  have "holds (sp_pcs ?s4 0)" by simp
  from spinlock_excludes [OF r this] r this show ?thesis by (intro exI [of _ ?s4]) (simp add: spin_init_def)
qed

end
