(* ===== verification/Syscall.thy ===== *)
theory Syscall
  imports Stack_Poll Sync
begin

text \<open>
  The system-call layer (\<open>kernel/syscall/src/lib.rs\<close>): the check of user pointers, the numbers
  and error numbers, the dispatcher and every handler.  A system call is a function from the
  kernel's state (the lock around the network stack, the registered image range, the flat
  memory that user and kernel share) to an outcome: it returns a 64-bit value and the new
  state, halts the processor (\<open>sys_exit\<close>), or never returns (the lock is taken and its holder
  cannot run on this one core, or \<open>poll\<close> does not end within the fuel).
\<close>

unbundle bit_operations_syntax

type_synonym i64 = "64 word"
type_synonym user_mem = "u64 \<Rightarrow> u8"

section \<open>Numbers\<close>

definition SYS_READ :: u64 where "SYS_READ = 0"
definition SYS_WRITE :: u64 where "SYS_WRITE = 1"
definition SYS_OPEN :: u64 where "SYS_OPEN = 2"
definition SYS_CLOSE :: u64 where "SYS_CLOSE = 3"
definition SYS_EXIT :: u64 where "SYS_EXIT = 4"
definition SYS_GETPID :: u64 where "SYS_GETPID = 5"
definition SYS_SLEEP :: u64 where "SYS_SLEEP = 6"
definition SYS_YIELD :: u64 where "SYS_YIELD = 7"
definition SYS_IPC_SEND :: u64 where "SYS_IPC_SEND = 8"
definition SYS_IPC_RECV :: u64 where "SYS_IPC_RECV = 9"
definition SYS_MEM_ALLOC :: u64 where "SYS_MEM_ALLOC = 10"
definition SYS_MEM_FREE :: u64 where "SYS_MEM_FREE = 11"
definition SYS_QTLS_LISTEN :: u64 where "SYS_QTLS_LISTEN = 12"
definition SYS_QTLS_CONNECT :: u64 where "SYS_QTLS_CONNECT = 13"
definition SYS_QTLS_ACCEPT :: u64 where "SYS_QTLS_ACCEPT = 14"
definition SYS_QTLS_SEND :: u64 where "SYS_QTLS_SEND = 15"
definition SYS_QTLS_RECV :: u64 where "SYS_QTLS_RECV = 16"
definition SYS_QTLS_CLOSE :: u64 where "SYS_QTLS_CLOSE = 17"
definition SYS_QKEY_AVAIL :: u64 where "SYS_QKEY_AVAIL = 18"
definition MAX_SYSCALL :: u64 where "MAX_SYSCALL = 18"

lemmas nr_defs = SYS_READ_def SYS_WRITE_def SYS_OPEN_def SYS_CLOSE_def SYS_EXIT_def SYS_GETPID_def
  SYS_SLEEP_def SYS_YIELD_def SYS_IPC_SEND_def SYS_IPC_RECV_def SYS_MEM_ALLOC_def SYS_MEM_FREE_def
  SYS_QTLS_LISTEN_def SYS_QTLS_CONNECT_def SYS_QTLS_ACCEPT_def SYS_QTLS_SEND_def SYS_QTLS_RECV_def
  SYS_QTLS_CLOSE_def SYS_QKEY_AVAIL_def MAX_SYSCALL_def

definition EPERM :: i64 where "EPERM = - 1"
definition ENOENT :: i64 where "ENOENT = - 2"
definition EINVAL :: i64 where "EINVAL = - 22"
definition EFAULT :: i64 where "EFAULT = - 14"
definition ENOMEM :: i64 where "ENOMEM = - 12"
definition EBADF :: i64 where "EBADF = - 9"
definition ENOSYS :: i64 where "ENOSYS = - 38"
definition EAGAIN :: i64 where "EAGAIN = - 11"
definition EBADMSG :: i64 where "EBADMSG = - 74"
definition ENOTCONN :: i64 where "ENOTCONN = - 107"
definition EHOSTUNREACH :: i64 where "EHOSTUNREACH = - 113"
definition ENOKEY :: i64 where "ENOKEY = - 126"

lemmas errno_defs = EPERM_def ENOENT_def EINVAL_def EFAULT_def ENOMEM_def EBADF_def ENOSYS_def
  EAGAIN_def EBADMSG_def ENOTCONN_def EHOSTUNREACH_def ENOKEY_def

section \<open>The state of the kernel and user pointers\<close>

definition USER_VIRT_MAX :: u64 where "USER_VIRT_MAX = 0x00007FFFFFFFF000"

record kernel =
  k_net :: "loopback net_stack spin_lock"
  k_lo :: u64
  k_hi :: u64
  k_mem :: user_mem

definition set_kernel_image :: "u64 \<Rightarrow> u64 \<Rightarrow> kernel \<Rightarrow> kernel" where
  "set_kernel_image lo hi k = k\<lparr>k_lo := lo, k_hi := hi\<rparr>"

definition validate_user_ptr :: "u64 \<Rightarrow> u64 \<Rightarrow> kernel \<Rightarrow> i64 + unit" where
  "validate_user_ptr ptr n k =
     (if ptr = 0 \<or> n = 0 then Inl EFAULT
      else case checked_add ptr n of
        None \<Rightarrow> Inl EFAULT
      | Some stop \<Rightarrow>
          if USER_VIRT_MAX < stop then Inl EFAULT
          else
            let klo = k_lo k; khi = k_hi k
            in if klo < khi \<and> ptr < khi \<and> klo < stop then Inl EFAULT else Inr ())"

text \<open>\<open>from_raw_parts\<close>: the bytes of a user buffer; a mutable slice is written back as a whole.\<close>

definition read_mem :: "u64 \<Rightarrow> nat \<Rightarrow> user_mem \<Rightarrow> bytes" where
  "read_mem p n m = map (\<lambda>i. m (p + of_nat i)) [0..<n]"

definition write_mem :: "u64 \<Rightarrow> bytes \<Rightarrow> user_mem \<Rightarrow> user_mem" where
  "write_mem p bs m = (\<lambda>a. if unat (a - p) < length bs then bs ! unat (a - p) else m a)"

datatype outcome = Returned i64 kernel | Halted | Stuck

text \<open>\<open>KERNEL_NET.lock()\<close>, the body on the guard, the drop of the guard.\<close>

definition with_kernel_net ::
  "(loopback net_stack \<Rightarrow> user_mem \<Rightarrow> (i64 \<times> loopback net_stack \<times> user_mem) option) \<Rightarrow> kernel \<Rightarrow> outcome" where
  "with_kernel_net body k =
     (case spin_atomic False LCas (k_net k) of
        (LHeld, l) \<Rightarrow>
          (case body (guard_read l) (k_mem k) of
             None \<Rightarrow> Stuck
           | Some (r, s, m) \<Rightarrow> Returned r (k\<lparr>k_net := guard_drop (guard_write s l), k_mem := m\<rparr>))
      | _ \<Rightarrow> Stuck)"

section \<open>The handlers\<close>

definition sys_read :: "i32 \<Rightarrow> u64 \<Rightarrow> u64 \<Rightarrow> kernel \<Rightarrow> outcome" where
  "sys_read fd buf_ptr n k =
     (if n = 0 then Returned 0 k
      else case validate_user_ptr buf_ptr n k of
        Inl e \<Rightarrow> Returned e k
      | Inr _ \<Rightarrow> if sint fd < 0 then Returned EBADF k else Returned 0 k)"

definition sys_write :: "i32 \<Rightarrow> u64 \<Rightarrow> u64 \<Rightarrow> kernel \<Rightarrow> outcome" where
  "sys_write fd buf_ptr n k =
     (if n = 0 then Returned 0 k
      else case validate_user_ptr buf_ptr n k of
        Inl e \<Rightarrow> Returned e k
      | Inr _ \<Rightarrow>
          if 0x7FFFFFFFFFFFFFFF < n then Returned EINVAL k
          else if fd = 1 \<or> fd = 2 then Returned n k
          else Returned EBADF k)"

definition sys_open :: "u64 \<Rightarrow> u32 \<Rightarrow> kernel \<Rightarrow> outcome" where
  "sys_open path_ptr flags k =
     (case validate_user_ptr path_ptr 1 k of Inl e \<Rightarrow> Returned e k | Inr _ \<Rightarrow> Returned ENOENT k)"

definition sys_close :: "i32 \<Rightarrow> kernel \<Rightarrow> outcome" where
  "sys_close fd k = (if sint fd < 0 then Returned EBADF k else Returned 0 k)"

definition sys_exit :: "i32 \<Rightarrow> kernel \<Rightarrow> outcome" where
  "sys_exit code k = Halted"

definition sys_getpid :: "kernel \<Rightarrow> outcome" where "sys_getpid k = Returned 1 k"
definition sys_sleep :: "u64 \<Rightarrow> kernel \<Rightarrow> outcome" where "sys_sleep ms k = Returned 0 k"
definition sys_yield :: "kernel \<Rightarrow> outcome" where "sys_yield k = Returned 0 k"

definition MSG_SIZE :: u64 where "MSG_SIZE = 264"

definition sys_ipc_send :: "u32 \<Rightarrow> u64 \<Rightarrow> kernel \<Rightarrow> outcome" where
  "sys_ipc_send queue_id msg_ptr k =
     (case validate_user_ptr msg_ptr MSG_SIZE k of Inl e \<Rightarrow> Returned e k | Inr _ \<Rightarrow> Returned 0 k)"

definition sys_ipc_recv :: "u32 \<Rightarrow> u64 \<Rightarrow> kernel \<Rightarrow> outcome" where
  "sys_ipc_recv queue_id buf_ptr k =
     (case validate_user_ptr buf_ptr MSG_SIZE k of Inl e \<Rightarrow> Returned e k | Inr _ \<Rightarrow> Returned EAGAIN k)"

definition sys_mem_alloc :: "u64 \<Rightarrow> kernel \<Rightarrow> outcome" where
  "sys_mem_alloc n k = (if n = 0 \<or> 128 * 1024 * 1024 < n then Returned EINVAL k else Returned 0 k)"

definition sys_mem_free :: "u64 \<Rightarrow> kernel \<Rightarrow> outcome" where
  "sys_mem_free addr k = (if addr = 0 then Returned EINVAL k else Returned 0 k)"

fun net_errno :: "net_error \<Rightarrow> i64" where
  "net_errno ArpPending = EAGAIN"
| "net_errno net_error.WouldBlock = EAGAIN"
| "net_errno NoPeer = EHOSTUNREACH"
| "net_errno NoSession = EBADF"
| "net_errno NotEstablished = ENOTCONN"
| "net_errno AuthFailed = EBADMSG"
| "net_errno (Key e) = ENOKEY"
| "net_errno TableFull = ENOMEM"
| "net_errno DeviceFull = ENOMEM"
| "net_errno Malformed = EINVAL"
| "net_errno net_error.PayloadTooLarge = EINVAL"

definition net_result :: "('a \<Rightarrow> i64) \<Rightarrow> net_error + 'a \<Rightarrow> i64" where
  "net_result f r = case_sum net_errno f r"

definition port_arg :: "u64 \<Rightarrow> i64 + u16" where
  "port_arg p = (if p = 0 \<or> 0xFFFF < p then Inl EINVAL else Inr (ucast p))"

definition sys_qtls_listen :: "u64 \<Rightarrow> kernel \<Rightarrow> outcome" where
  "sys_qtls_listen port k =
     (case port_arg port of
        Inl e \<Rightarrow> Returned e k
      | Inr port \<Rightarrow>
          with_kernel_net (\<lambda>s m. let (r, s) = stack_listen port s in Some (net_result (\<lambda>_. 0) r, s, m)) k)"

definition sys_qtls_connect :: "nat \<Rightarrow> u32 \<Rightarrow> u64 \<Rightarrow> kernel \<Rightarrow> outcome" where
  "sys_qtls_connect fuel ip port k =
     (case port_arg port of
        Inl e \<Rightarrow> Returned e k
      | Inr port \<Rightarrow>
          with_kernel_net (\<lambda>s m.
            case poll fuel loopback_nic s of
              None \<Rightarrow> None
            | Some (_, s) \<Rightarrow>
                let (r, s) = connect loopback_nic (to_be 4 ip) port s in Some (net_result of_nat r, s, m)) k)"

definition sys_qtls_accept :: "nat \<Rightarrow> u64 \<Rightarrow> kernel \<Rightarrow> outcome" where
  "sys_qtls_accept fuel port k =
     (case port_arg port of
        Inl e \<Rightarrow> Returned e k
      | Inr port \<Rightarrow>
          with_kernel_net (\<lambda>s m.
            case poll fuel loopback_nic s of
              None \<Rightarrow> None
            | Some (_, s) \<Rightarrow>
                let (r, s) = accept port s in Some (case r of None \<Rightarrow> EAGAIN | Some h \<Rightarrow> of_nat h, s, m)) k)"

definition sys_qtls_send :: "u64 \<Rightarrow> u64 \<Rightarrow> u64 \<Rightarrow> kernel \<Rightarrow> outcome" where
  "sys_qtls_send h buf_ptr n k =
     (if n = 0 then Returned 0 k
      else case validate_user_ptr buf_ptr n k of
        Inl e \<Rightarrow> Returned e k
      | Inr _ \<Rightarrow>
          with_kernel_net (\<lambda>s m.
            let (r, s) = stack_send loopback_nic (unat h) (read_mem buf_ptr (unat n) m) s
            in Some (net_result of_nat r, s, m)) k)"

definition sys_qtls_recv :: "nat \<Rightarrow> u64 \<Rightarrow> u64 \<Rightarrow> u64 \<Rightarrow> kernel \<Rightarrow> outcome" where
  "sys_qtls_recv fuel h buf_ptr n k =
     (if n = 0 then Returned 0 k
      else case validate_user_ptr buf_ptr n k of
        Inl e \<Rightarrow> Returned e k
      | Inr _ \<Rightarrow>
          with_kernel_net (\<lambda>s m.
            case poll fuel loopback_nic s of
              None \<Rightarrow> None
            | Some (_, s) \<Rightarrow>
                let (r, out, s) = stack_recv (unat h) (read_mem buf_ptr (unat n) m) s
                in Some (net_result of_nat r, s, write_mem buf_ptr out m)) k)"

definition sys_qtls_close :: "u64 \<Rightarrow> kernel \<Rightarrow> outcome" where
  "sys_qtls_close h k =
     with_kernel_net (\<lambda>s m. let (r, s) = stack_close loopback_nic (unat h) s
                            in Some (net_result (\<lambda>_. 0) r, s, m)) k"

definition sys_qkey_avail :: "u32 \<Rightarrow> kernel \<Rightarrow> outcome" where
  "sys_qkey_avail ip k =
     with_kernel_net (\<lambda>s m. Some (case key_available (to_be 4 ip) s of
         None \<Rightarrow> EHOSTUNREACH | Some (tx, _) \<Rightarrow> of_nat tx, s, m)) k"

definition syscall_dispatch :: "nat \<Rightarrow> u64 \<Rightarrow> u64 \<Rightarrow> u64 \<Rightarrow> u64 \<Rightarrow> kernel \<Rightarrow> outcome" where
  "syscall_dispatch fuel nr a0 a1 a2 k =
     (if MAX_SYSCALL < nr then Returned ENOSYS k
      else if nr = SYS_READ then sys_read (ucast a0) a1 a2 k
      else if nr = SYS_WRITE then sys_write (ucast a0) a1 a2 k
      else if nr = SYS_OPEN then sys_open a0 (ucast a1) k
      else if nr = SYS_CLOSE then sys_close (ucast a0) k
      else if nr = SYS_EXIT then sys_exit (ucast a0) k
      else if nr = SYS_GETPID then sys_getpid k
      else if nr = SYS_SLEEP then sys_sleep a0 k
      else if nr = SYS_YIELD then sys_yield k
      else if nr = SYS_IPC_SEND then sys_ipc_send (ucast a0) a1 k
      else if nr = SYS_IPC_RECV then sys_ipc_recv (ucast a0) a1 k
      else if nr = SYS_MEM_ALLOC then sys_mem_alloc a0 k
      else if nr = SYS_MEM_FREE then sys_mem_free a0 k
      else if nr = SYS_QTLS_LISTEN then sys_qtls_listen a0 k
      else if nr = SYS_QTLS_CONNECT then sys_qtls_connect fuel (ucast a0) a1 k
      else if nr = SYS_QTLS_ACCEPT then sys_qtls_accept fuel a0 k
      else if nr = SYS_QTLS_SEND then sys_qtls_send a0 a1 a2 k
      else if nr = SYS_QTLS_RECV then sys_qtls_recv fuel a0 a1 a2 k
      else if nr = SYS_QTLS_CLOSE then sys_qtls_close a0 k
      else if nr = SYS_QKEY_AVAIL then sys_qkey_avail (ucast a0) k
      else Returned ENOSYS k)"


section \<open>What the handlers keep\<close>

definition errnos :: "i64 set" where
  "errnos = {EPERM, ENOENT, EINVAL, EFAULT, ENOMEM, EBADF, ENOSYS, EAGAIN, EBADMSG, ENOTCONN,
             EHOSTUNREACH, ENOKEY}"

definition kernel_inv :: "kernel \<Rightarrow> bool" where
  "kernel_inv k \<longleftrightarrow> stack_inv loopback_inv (sl_data (k_net k)) \<and> \<not> sl_locked (k_net k)"

definition call_returns :: "kernel \<Rightarrow> outcome \<Rightarrow> bool" where
  "call_returns k res \<longleftrightarrow> (case res of
     Returned r k' \<Rightarrow> kernel_inv k' \<and> k_lo k' = k_lo k \<and> k_hi k' = k_hi k \<and> (r \<in> errnos \<or> 0 \<le> sint r)
   | _ \<Rightarrow> False)"

lemma errnos_simps [simp]:
  "EPERM \<in> errnos" "ENOENT \<in> errnos" "EINVAL \<in> errnos" "EFAULT \<in> errnos" "ENOMEM \<in> errnos"
  "EBADF \<in> errnos" "ENOSYS \<in> errnos" "EAGAIN \<in> errnos" "EBADMSG \<in> errnos" "ENOTCONN \<in> errnos"
  "EHOSTUNREACH \<in> errnos" "ENOKEY \<in> errnos"
  by (simp_all add: errnos_def)

lemma net_errno_errnos [simp]: "net_errno e \<in> errnos"
  by (cases e) simp_all

lemma sint_small: "unat (w :: i64) < 2 ^ 63 \<Longrightarrow> 0 \<le> sint w"
proof -
  assume "unat w < 2 ^ 63"
  then have "int (unat w) < int (2 ^ 63)" by (simp only: of_nat_less_iff)
  then have "uint w < 2 ^ 63" by simp
  then have "signed_take_bit 63 (uint w) = uint w" by (intro signed_take_bit_int_eq_self order_trans [OF _ uint_ge_0 [of w]]) simp_all
  then show ?thesis by (simp add: sint_uint)
qed

lemma sint_of_nat_small: "n < 2 ^ 63 \<Longrightarrow> 0 \<le> sint (of_nat n :: i64)"
  by (rule sint_small) simp

lemma net_result_ok:
  "(\<And>v. r = Inr v \<Longrightarrow> f v < 2 ^ 63) \<Longrightarrow>
   net_result (\<lambda>v. of_nat (f v)) r \<in> errnos \<or> 0 \<le> sint (net_result (\<lambda>v. of_nat (f v)) r)"
  by (cases r) (simp_all add: net_result_def sint_of_nat_small)

lemma call_returns_same [simp]:
  "call_returns k (Returned r k) \<longleftrightarrow> kernel_inv k \<and> (r \<in> errnos \<or> 0 \<le> sint r)"
  by (simp add: call_returns_def)

lemma with_kernel_net_Some:
  assumes "\<not> sl_locked (k_net k)" and "body (sl_data (k_net k)) (k_mem k) = Some (r, s, m)"
  shows "with_kernel_net body k = Returned r (k\<lparr>k_net := (k_net k)\<lparr>sl_locked := False, sl_data := s\<rparr>, k_mem := m\<rparr>)"
  using assms by (simp add: with_kernel_net_def guard_read_def guard_write_def guard_drop_def)

lemma with_kernel_net_Returned:
  assumes "with_kernel_net body k = Returned r k'"
  obtains s m where "body (sl_data (k_net k)) (k_mem k) = Some (r, s, m)" and "\<not> sl_locked (k_net k)"
    and "k' = k\<lparr>k_net := (k_net k)\<lparr>sl_locked := False, sl_data := s\<rparr>, k_mem := m\<rparr>"
  using assms
  by (auto simp: with_kernel_net_def guard_read_def guard_write_def guard_drop_def split: if_splits option.splits)

lemma with_kernel_net_returns:
  assumes "kernel_inv k" and "body (sl_data (k_net k)) (k_mem k) = Some (r, s, m)"
    and "stack_inv loopback_inv s" and "r \<in> errnos \<or> 0 \<le> sint r"
  shows "call_returns k (with_kernel_net body k)"
  using assms with_kernel_net_Some [of k body r s m] by (simp add: kernel_inv_def call_returns_def)

lemma with_kernel_net_returns':
  assumes "kernel_inv k"
    and "case body (sl_data (k_net k)) (k_mem k) of None \<Rightarrow> False
      | Some (r, s, m) \<Rightarrow> stack_inv loopback_inv s \<and> (r \<in> errnos \<or> 0 \<le> sint r)"
  shows "call_returns k (with_kernel_net body k)"
  using assms by (auto split: option.splits intro: with_kernel_net_returns)

text \<open>The polling calls: enough fuel, and the stack they go on with is well formed.\<close>

lemma poll_returns:
  assumes "stack_inv loopback_inv s" and "13 \<le> fuel"
  obtains n s' where "poll fuel loopback_nic s = Some (n, s')" and "stack_inv loopback_inv s'"
proof -
  obtain n s' where p: "poll fuel loopback_nic s = Some (n, s')"
    using poll_ends [OF assms] by blast
  then have "stack_inv loopback_inv s'"
    using lbn.poll_loop_inv [OF assms(1)] by (simp add: poll_def)
  with p show ?thesis by (rule that)
qed

lemma validate_cases:
  "validate_user_ptr p n k = Inl EFAULT \<or> validate_user_ptr p n k = Inr ()"
  by (simp add: validate_user_ptr_def Let_def split: option.split)

lemma validate_errno: "validate_user_ptr p n k = Inl e \<Longrightarrow> e = EFAULT"
  using validate_cases [of p n k] by auto

lemma validate_Inr:
  assumes "validate_user_ptr p n k = Inr u"
  shows "p \<noteq> 0" and "n \<noteq> 0" and "unat p + unat n \<le> unat USER_VIRT_MAX"
    and "k_lo k < k_hi k \<Longrightarrow> unat (k_hi k) \<le> unat p \<or> unat p + unat n \<le> unat (k_lo k)"
  using assms
  by (auto simp: validate_user_ptr_def Let_def checked_add_def word_less_nat_alt word_le_nat_alt not_less
      split: if_splits option.splits)

lemma validate_small:
  assumes "validate_user_ptr p n k = Inr u" shows "unat n < 2 ^ 63"
  using validate_Inr(3) [OF assms] by (simp add: USER_VIRT_MAX_def)

lemma stack_listen_inv: "stack_inv ok s \<Longrightarrow> stack_inv ok (snd (stack_listen port s))"
  by (auto simp: stack_listen_def stack_inv_def split: option.split)

lemma connect_handle:
  assumes "stack_inv ok s" and "connect N ip port s = (Inr h, s')" and "net_device ok N"
  shows "h < MAX_SESSIONS"
proof -
  obtain pi where pi: "peer_index ip s = Some pi" using assms(2) by (cases "peer_index ip s") (simp_all add: connect_def)
  obtain r s1 where r: "resolve N ip s = (r, s1)" by (cases "resolve N ip s")
  have s1: "stack_inv ok s1" using net_card.resolve_inv [OF net_device.axioms(1) [OF assms(3)] assms(1), of ip] by (simp add: r)
  show ?thesis
    using assms(2) session_bound [OF _ s1]
    by (auto simp: connect_def pi r Let_def split: sum.splits option.splits prod.splits)
qed

lemma stack_send_count:
  "stack_send N h data s = (Inr n, s') \<Longrightarrow> n \<le> MAX_RECORD_PAYLOAD"
  by (auto simp: stack_send_def Let_def split: if_splits option.splits prod.splits sum.splits)

lemma accept_handle: "stack_inv ok s \<Longrightarrow> accept port s = (Some h, s') \<Longrightarrow> h < MAX_SESSIONS"
  using session_bound by (fastforce simp: accept_def split: option.splits)

lemma stack_recv_out:
  "stack_recv h out s = (r, out', s') \<Longrightarrow> length out' = length out \<and> (\<forall>n. r = Inr n \<longrightarrow> n \<le> length out)"
  by (auto simp: stack_recv_def rxq_pop_def Let_def
      split: if_splits option.splits prod.splits session_state.splits)

lemma key_available_bound:
  assumes "stack_inv ok s" and "key_available ip s = Some (tx, rx)"
  shows "tx \<le> LANE_CAPACITY"
proof -
  obtain i where i: "peer_index ip s = Some i" and tx: "tx = lane_available (peer_tx (keys_of s i))"
    using assms(2) by (auto simp: key_available_def split: option.splits)
  have "keys_ok (keys_of s i)" by (rule stack_inv_keys_ok [OF assms(1) peer_index_bound [OF i assms(1)]])
  then have "lane_inv (peer_tx (keys_of s i))" by (rule keys_ok_lanes)
  then show ?thesis by (simp add: tx lane_available_def lane_inv_def)
qed

section \<open>Every call returns\<close>

lemma kernel_invD: "kernel_inv k \<Longrightarrow> stack_inv loopback_inv (sl_data (k_net k))"
  by (simp add: kernel_inv_def)

lemma plain_calls_return:
  assumes "kernel_inv k"
  shows "call_returns k (sys_read fd p n k)" and "call_returns k (sys_write fd p n k)"
    and "call_returns k (sys_open p fl k)" and "call_returns k (sys_close fd k)"
    and "call_returns k (sys_getpid k)" and "call_returns k (sys_sleep ms k)"
    and "call_returns k (sys_yield k)" and "call_returns k (sys_ipc_send q p k)"
    and "call_returns k (sys_ipc_recv q p k)" and "call_returns k (sys_mem_alloc n k)"
    and "call_returns k (sys_mem_free n k)"
  using assms
  by (auto simp: sys_read_def sys_write_def sys_open_def sys_close_def sys_getpid_def sys_sleep_def
      sys_yield_def sys_ipc_send_def sys_ipc_recv_def sys_mem_alloc_def sys_mem_free_def
      split: sum.splits dest!: validate_errno validate_small intro: sint_small)

lemma sys_qtls_listen_returns:
  assumes "kernel_inv k"
  shows "call_returns k (sys_qtls_listen p k)"
proof (cases "port_arg p")
  case (Inr port)
  have "stack_inv loopback_inv (snd (stack_listen port (sl_data (k_net k))))"
    by (rule stack_listen_inv [OF kernel_invD [OF assms]])
  then show ?thesis
    unfolding sys_qtls_listen_def Inr sum.case
    by (intro with_kernel_net_returns' assms) (auto simp: net_result_def split: prod.splits sum.split)
qed (use assms in \<open>auto simp: sys_qtls_listen_def port_arg_def split: if_splits\<close>)

lemma sys_qtls_close_returns:
  assumes "kernel_inv k"
  shows "call_returns k (sys_qtls_close h k)"
proof -
  have "stack_inv loopback_inv (snd (stack_close loopback_nic (unat h) (sl_data (k_net k))))"
    by (rule lbn.stack_close_inv [OF kernel_invD [OF assms]])
  then show ?thesis
    unfolding sys_qtls_close_def
    by (intro with_kernel_net_returns' assms) (auto simp: net_result_def split: prod.splits sum.split)
qed

lemma sys_qkey_avail_returns:
  assumes "kernel_inv k"
  shows "call_returns k (sys_qkey_avail ip k)"
proof -
  have "0 \<le> sint (of_nat tx :: i64)" if "key_available (to_be 4 ip) (sl_data (k_net k)) = Some (tx, rx)" for tx rx
    using key_available_bound [OF kernel_invD [OF assms] that]
    by (intro sint_of_nat_small) (simp add: LANE_CAPACITY_def)
  then show ?thesis
    unfolding sys_qkey_avail_def
    by (intro with_kernel_net_returns' assms) (auto simp: kernel_invD [OF assms] split: option.splits)
qed

lemma sys_qtls_send_returns:
  assumes "kernel_inv k"
  shows "call_returns k (sys_qtls_send h p n k)"
proof -
  let ?s = "sl_data (k_net k)"
  obtain r s where r: "stack_send loopback_nic (unat h) (read_mem p (unat n) (k_mem k)) ?s = (r, s)"
    by (cases "stack_send loopback_nic (unat h) (read_mem p (unat n) (k_mem k)) ?s")
  have "stack_inv loopback_inv s"
    using lbn.stack_send_inv [OF kernel_invD [OF assms], of "unat h" "read_mem p (unat n) (k_mem k)"] r by simp
  moreover have "net_result of_nat r \<in> errnos \<or> 0 \<le> sint (net_result of_nat r)"
    using r stack_send_count by (intro net_result_ok [of r "\<lambda>v. v", simplified]) (fastforce simp: MAX_RECORD_PAYLOAD_def)
  ultimately show ?thesis
    using assms
    by (auto simp: sys_qtls_send_def r split: sum.split dest: validate_errno intro!: with_kernel_net_returns)
qed

lemma sys_qtls_connect_returns:
  assumes "kernel_inv k" and "13 \<le> fuel"
  shows "call_returns k (sys_qtls_connect fuel ip port k)"
proof (cases "port_arg port")
  case (Inr p)
  obtain c s where s: "poll fuel loopback_nic (sl_data (k_net k)) = Some (c, s)" "stack_inv loopback_inv s"
    by (rule poll_returns [OF kernel_invD [OF assms(1)] assms(2)])
  obtain r s' where r: "connect loopback_nic (to_be 4 ip) p s = (r, s')"
    by (cases "connect loopback_nic (to_be 4 ip) p s")
  have "stack_inv loopback_inv s'" using lbn.connect_inv [OF s(2), of "to_be 4 ip" p] r by simp
  moreover have "net_result of_nat r \<in> errnos \<or> 0 \<le> sint (net_result of_nat r)"
    using connect_handle [OF s(2) _ lbn.net_device_axioms] r
    by (intro net_result_ok [of r "\<lambda>v. v", simplified]) (fastforce simp: MAX_SESSIONS_def)
  ultimately show ?thesis
    using assms s by (auto simp: sys_qtls_connect_def Inr r intro!: with_kernel_net_returns)
qed (use assms in \<open>auto simp: sys_qtls_connect_def port_arg_def split: if_splits\<close>)

lemma sys_qtls_accept_returns:
  assumes "kernel_inv k" and "13 \<le> fuel"
  shows "call_returns k (sys_qtls_accept fuel port k)"
proof (cases "port_arg port")
  case (Inr p)
  obtain c s where s: "poll fuel loopback_nic (sl_data (k_net k)) = Some (c, s)" "stack_inv loopback_inv s"
    by (rule poll_returns [OF kernel_invD [OF assms(1)] assms(2)])
  obtain r s' where r: "accept p s = (r, s')" by (cases "accept p s")
  have "stack_inv loopback_inv s'" using accept_inv [OF s(2), of p] r by simp
  moreover have "0 \<le> sint (of_nat h :: i64)" if "r = Some h" for h
    using accept_handle [OF s(2)] r that by (intro sint_of_nat_small) (fastforce simp: MAX_SESSIONS_def)
  ultimately show ?thesis
    using assms s
    by (auto simp: sys_qtls_accept_def Inr r split: option.split intro!: with_kernel_net_returns)
qed (use assms in \<open>auto simp: sys_qtls_accept_def port_arg_def split: if_splits\<close>)

lemma sys_qtls_recv_returns:
  assumes "kernel_inv k" and "13 \<le> fuel"
  shows "call_returns k (sys_qtls_recv fuel h p n k)"
proof (cases "n = 0")
  case False
  show ?thesis
  proof (cases "validate_user_ptr p n k")
    case (Inr u)
    obtain c s where s: "poll fuel loopback_nic (sl_data (k_net k)) = Some (c, s)" "stack_inv loopback_inv s"
      by (rule poll_returns [OF kernel_invD [OF assms(1)] assms(2)])
    let ?out = "read_mem p (unat n) (k_mem k)"
    obtain r out s' where r: "stack_recv (unat h) ?out s = (r, out, s')" by (metis prod.collapse)
    have "stack_inv loopback_inv s'" using lbn.stack_recv_inv [OF s(2), of "unat h" ?out] r by simp
    moreover have "net_result of_nat r \<in> errnos \<or> 0 \<le> sint (net_result of_nat r)"
      using stack_recv_out [OF r] validate_small [OF Inr]
      by (intro net_result_ok [of r "\<lambda>v. v", simplified]) (fastforce simp: read_mem_def)
    ultimately show ?thesis
      using assms s False by (auto simp: sys_qtls_recv_def Inr r intro!: with_kernel_net_returns)
  qed (use assms False in \<open>auto simp: sys_qtls_recv_def dest: validate_errno\<close>)
qed (use assms in \<open>simp add: sys_qtls_recv_def\<close>)

lemmas calls_return = plain_calls_return sys_qtls_listen_returns sys_qtls_close_returns
  sys_qkey_avail_returns sys_qtls_send_returns sys_qtls_connect_returns sys_qtls_accept_returns
  sys_qtls_recv_returns

section \<open>Properties\<close>

lemma intervals_apart:
  "b \<noteq> 0 \<Longrightarrow> {a..<a + b} \<inter> {c..<d} = {} \<longleftrightarrow> d \<le> c \<or> d \<le> a \<or> a + b \<le> (c :: nat)"
proof
  assume "b \<noteq> 0" and e: "{a..<a + b} \<inter> {c..<d} = {}"
  have "max a c \<notin> {a..<a + b} \<inter> {c..<d}" unfolding e by simp
  then show "d \<le> c \<or> d \<le> a \<or> a + b \<le> c" using \<open>b \<noteq> 0\<close> by (auto simp: max_def split: if_splits)
qed auto

text \<open>
  C22. The check of user pointers is exact: a buffer is accepted when and only when it is not at
  address zero, not empty, ends (without wrapping) at or below the top of user space and shares
  no byte with the registered kernel image; every other buffer gives \<open>EFAULT\<close>.
\<close>

theorem validate_user_ptr_exact:
  "validate_user_ptr p n k =
     (if p \<noteq> 0 \<and> n \<noteq> 0 \<and> unat p + unat n \<le> unat USER_VIRT_MAX
         \<and> {unat p..<unat p + unat n} \<inter> {unat (k_lo k)..<unat (k_hi k)} = {}
      then Inr () else Inl EFAULT)"
proof (cases "p = 0 \<or> n = 0")
  case False
  then have n: "unat n \<noteq> 0" by (simp add: unsigned_eq_0_iff)
  have max: "unat USER_VIRT_MAX < 2 ^ 64" by (simp add: USER_VIRT_MAX_def)
  show ?thesis
  proof (cases "unat p + unat n < 2 ^ 64")
    case True
    then have "unat (p + n) = unat p + unat n" by simp
    then show ?thesis
      using False True unfolding intervals_apart [OF n]
      by (auto simp: validate_user_ptr_def Let_def checked_add_def word_less_nat_alt)
  next
    case f: False
    then show ?thesis using False max by (simp add: validate_user_ptr_def checked_add_def)
  qed
qed (auto simp: validate_user_ptr_def)

lemma dispatch_returns:
  assumes "kernel_inv k" and "13 \<le> fuel" and "nr \<noteq> SYS_EXIT"
  shows "call_returns k (syscall_dispatch fuel nr a0 a1 a2 k)"
  unfolding syscall_dispatch_def using assms by (simp add: calls_return)

text \<open>
  C23. Every system call but \<open>SYS_EXIT\<close> returns, for every number and all arguments: with the lock
  free and the stack well formed, thirteen rounds of polling are enough; it leaves the lock free,
  the stack well formed and the image range as it was, and its value is either not negative or
  one of the twelve error numbers.
\<close>

theorem syscall_returns:
  assumes "kernel_inv k" and "13 \<le> fuel" and "nr \<noteq> SYS_EXIT"
  shows "\<exists>r k'. syscall_dispatch fuel nr a0 a1 a2 k = Returned r k' \<and> kernel_inv k'
    \<and> k_lo k' = k_lo k \<and> k_hi k' = k_hi k \<and> (r \<in> errnos \<or> 0 \<le> sint r)"
proof -
  have "call_returns k (syscall_dispatch fuel nr a0 a1 a2 k)" by (rule dispatch_returns [OF assms])
  then show ?thesis by (auto simp: call_returns_def split: outcome.splits)
qed

text \<open>What the calls on the network stack do to the memory: only \<open>recv\<close> writes.\<close>

lemma with_kernel_net_mem:
  assumes "with_kernel_net body k = Returned r k'"
    and "\<And>s m v s' m'. body s m = Some (v, s', m') \<Longrightarrow> m' a = m a"
  shows "k_mem k' a = k_mem k a"
  using assms by (auto elim!: with_kernel_net_Returned)

lemmas plain_mem = sys_read_def sys_write_def sys_open_def sys_close_def sys_exit_def sys_getpid_def
  sys_sleep_def sys_yield_def sys_ipc_send_def sys_ipc_recv_def sys_mem_alloc_def sys_mem_free_def

lemma net_calls_mem:
  shows "sys_qtls_listen p k = Returned r k' \<Longrightarrow> k_mem k' a = k_mem k a"
    and "sys_qtls_connect fuel ip p k = Returned r k' \<Longrightarrow> k_mem k' a = k_mem k a"
    and "sys_qtls_accept fuel p k = Returned r k' \<Longrightarrow> k_mem k' a = k_mem k a"
    and "sys_qtls_send h b n k = Returned r k' \<Longrightarrow> k_mem k' a = k_mem k a"
    and "sys_qtls_close h k = Returned r k' \<Longrightarrow> k_mem k' a = k_mem k a"
    and "sys_qkey_avail ip k = Returned r k' \<Longrightarrow> k_mem k' a = k_mem k a"
  by (auto simp: sys_qtls_listen_def sys_qtls_connect_def sys_qtls_accept_def sys_qtls_send_def
      sys_qtls_close_def sys_qkey_avail_def split: sum.splits if_splits
      elim!: with_kernel_net_mem split: option.splits prod.splits)

lemma write_mem_outside: "length bs \<le> unat (a - p) \<Longrightarrow> write_mem p bs m a = m a"
  by (simp add: write_mem_def)

lemma recv_mem:
  assumes "sys_qtls_recv fuel h p n k = Returned r k'" and "k_mem k' a \<noteq> k_mem k a"
  obtains u where "validate_user_ptr p n k = Inr u" and "unat (a - p) < unat n"
proof -
  have n: "n \<noteq> 0" using assms by (auto simp: sys_qtls_recv_def)
  obtain u where u: "validate_user_ptr p n k = Inr u"
    using assms n by (cases "validate_user_ptr p n k") (auto simp: sys_qtls_recv_def)
  have "unat (a - p) < unat n"
  proof (rule ccontr)
    assume "\<not> unat (a - p) < unat n"
    then have "unat n \<le> unat (a - p)" by simp
    then have "k_mem k' a = k_mem k a"
      using assms(1) n u
      by (auto simp: sys_qtls_recv_def elim!: with_kernel_net_mem
          split: option.splits prod.splits dest!: stack_recv_out intro!: write_mem_outside simp: read_mem_def)
    with assms(2) show False ..
  qed
  with u show ?thesis by (rule that)
qed

text \<open>
  C24. No system call writes kernel memory: whatever the arguments, a byte of memory that a call
  changes lies in the receive buffer of a \<open>SYS_QTLS_RECV\<close>, below the top of user space and
  outside the registered kernel image.
\<close>

theorem syscall_writes_only_receive_buffer:
  assumes "syscall_dispatch fuel nr a0 a1 a2 k = Returned r k'" and "k_mem k' a \<noteq> k_mem k a"
  shows "nr = SYS_QTLS_RECV \<and> unat a \<in> {unat a1..<unat a1 + unat a2} \<and> unat a < unat USER_VIRT_MAX
    \<and> unat a \<notin> {unat (k_lo k)..<unat (k_hi k)}"
proof -
  have nr: "nr = SYS_QTLS_RECV"
  proof (rule ccontr)
    assume "nr \<noteq> SYS_QTLS_RECV"
    then have "k_mem k' a = k_mem k a"
      using assms(1) unfolding syscall_dispatch_def
      by (auto split: if_split_asm sum.splits simp: plain_mem dest: net_calls_mem)
    with assms(2) show False ..
  qed
  then have "sys_qtls_recv fuel a0 a1 a2 k = Returned r k'"
    using assms(1) by (simp add: syscall_dispatch_def nr_defs)
  then obtain u where u: "validate_user_ptr a1 a2 k = Inr u" and d: "unat (a - a1) < unat a2"
    using recv_mem assms(2) by blast
  note v = validate_Inr [OF u]
  have "unat USER_VIRT_MAX < 2 ^ 64" by (simp add: USER_VIRT_MAX_def)
  then have "unat a1 + unat (a - a1) < 2 ^ 64" using v(3) d by linarith
  then have "unat (a1 + (a - a1)) = unat a1 + unat (a - a1)" by (intro unat_add_fits) simp
  then have "unat a = unat a1 + unat (a - a1)" by simp
  then show ?thesis using nr d v(3,4) by (auto simp: word_less_nat_alt)
qed

text \<open>A kernel at work: one message waits in session 0, the kernel image fills \<open>[0x100000, 0x200000)\<close>.\<close>

definition demo_net :: "loopback net_stack" where
  "demo_net = set_session 0 ((demo_session [10, 0, 0, 2] 4433 49159)\<lparr>ses_rx := snd (rxq_push [42] rxq_new)\<rparr>) demo_a"

definition demo_kernel :: kernel where
  "demo_kernel = set_kernel_image 0x100000 0x200000
     \<lparr>k_net = spin_new demo_net, k_lo = 0, k_hi = 0, k_mem = (\<lambda>_. 0)\<rparr>"

lemma demo_push: "rxq_push [42] rxq_new = (True, snd (rxq_push [42] rxq_new))"
  by (simp add: rxq_push_def rxq_new_def RX_SLOTS_def Let_def)

lemma demo_kernel_inv: "kernel_inv demo_kernel"
proof -
  have "rxq_inv (snd (rxq_push [42] rxq_new))"
    by (rule rxq_push_cases(1) [OF _ _ demo_push]) (simp_all add: MAX_RECORD_PAYLOAD_def)
  then have "session_ok ((demo_session [10, 0, 0, 2] 4433 49159)\<lparr>ses_rx := snd (rxq_push [42] rxq_new)\<rparr>)"
    by (simp add: session_ok_def demo_session_def)
  then show ?thesis
    by (simp add: kernel_inv_def demo_kernel_def set_kernel_image_def spin_new_def demo_net_def
        stack_inv_session demo_facts(1))
qed

lemma poll_idle: "0 < fuel \<Longrightarrow> lb_count (ns_dev s) = 0 \<Longrightarrow> poll fuel loopback_nic s = Some (0, s)"
  by (cases fuel) (simp_all add: poll_def loopback_receive_empty)

lemma demo_pop: "\<exists>q. rxq_pop [x] (snd (rxq_push [42] rxq_new)) = (Some 1, [42], q)"
  by (simp add: rxq_pop_def rxq_push_def rxq_new_def RX_SLOTS_def Let_def blit_def)

lemma demo_stack_recv: "\<exists>s. stack_recv 0 [x] demo_net = (Inr 1, [42], s)"
proof -
  have l: "length (ns_sessions demo_a) = 4" using demo_facts(1) by (simp add: stack_inv_def MAX_SESSIONS_def)
  then have "ses_rx (ns_sessions demo_net ! 0) = snd (rxq_push [42] rxq_new)"
    by (simp add: demo_net_def set_session_def)
  moreover have "length (ns_sessions demo_net) = 4" using l by (simp add: demo_net_def set_session_def)
  ultimately show ?thesis using demo_pop [of x] by (auto simp: stack_recv_def Let_def)
qed

lemma demo_recv:
  "\<exists>k'. syscall_dispatch 13 SYS_QTLS_RECV 0 0x1000 1 demo_kernel = Returned 1 k' \<and> k_mem k' 0x1000 = 42"
proof -
  have "lb_count (ns_dev demo_net) = 0" by (simp add: demo_net_def set_session_def demo_facts)
  then have p: "poll 13 loopback_nic demo_net = Some (0, demo_net)" by (simp add: poll_idle)
  have v: "validate_user_ptr 0x1000 1 demo_kernel = Inr ()"
    by (simp add: validate_user_ptr_def checked_add_def demo_kernel_def set_kernel_image_def USER_VIRT_MAX_def)
  have m: "read_mem 0x1000 (Suc 0) (k_mem demo_kernel) = [0]"
    by (simp add: read_mem_def demo_kernel_def set_kernel_image_def)
  obtain s where s: "stack_recv 0 [0] demo_net = (Inr 1, [42], s)" using demo_stack_recv by blast
  have k: "\<not> sl_locked (k_net demo_kernel)" "sl_data (k_net demo_kernel) = demo_net"
    by (simp_all add: demo_kernel_def set_kernel_image_def spin_new_def)
  have "syscall_dispatch 13 SYS_QTLS_RECV 0 0x1000 1 demo_kernel = sys_qtls_recv 13 0 0x1000 1 demo_kernel"
    by (simp add: syscall_dispatch_def nr_defs)
  then show ?thesis
    by (simp add: sys_qtls_recv_def v with_kernel_net_def k guard_read_def guard_write_def p m s
        net_result_def write_mem_def)
qed

theorem syscall_returns_witness:
  "\<exists>r k'. syscall_dispatch 13 SYS_QTLS_RECV 0 0x1000 1 demo_kernel = Returned r k' \<and> kernel_inv k'
    \<and> k_lo k' = k_lo demo_kernel \<and> k_hi k' = k_hi demo_kernel \<and> (r \<in> errnos \<or> 0 \<le> sint r)"
  by (rule syscall_returns [OF demo_kernel_inv]) (simp_all add: nr_defs)

theorem syscall_writes_only_receive_buffer_witness:
  "\<exists>k'. syscall_dispatch 13 SYS_QTLS_RECV 0 0x1000 1 demo_kernel = Returned 1 k' \<and> k_mem k' 0x1000 = 42
    \<and> unat (0x1000 :: u64) \<in> {unat (0x1000 :: u64)..<unat (0x1000 :: u64) + unat (1 :: u64)}
    \<and> unat (0x1000 :: u64) \<notin> {unat (k_lo demo_kernel)..<unat (k_hi demo_kernel)}"
proof -
  obtain k' where d: "syscall_dispatch 13 SYS_QTLS_RECV 0 0x1000 1 demo_kernel = Returned 1 k'"
    and m: "k_mem k' 0x1000 = 42"
    using demo_recv by blast
  have "k_mem k' 0x1000 \<noteq> k_mem demo_kernel 0x1000"
    by (simp add: m) (simp add: demo_kernel_def set_kernel_image_def)
  with d m show ?thesis using syscall_writes_only_receive_buffer [OF d] by blast
qed

end
