(* ===== verification/Quantum.thy ===== *)
theory Quantum
  imports Complex_Main Prelude
begin

text \<open>
  The quantum link as the simulator models it (\<open>kernel/qphy/src/lib.rs\<close>, first half): the random
  sources, the state vector of four qubits with its gates and measurement, the channel with
  noise and an intercept-resend eavesdropper, and one round of each of the three key modes
  (entanglement, superdense coding, teleportation).  A random source is a function
  \<open>next_u64\<close> from its state to a word and the next state; the trait's provided methods are
  functions of it.  Amplitudes and probabilities are exact reals where the code has \<open>f64\<close>:
  the rounding of floating point is not modelled (\<open>unit_f64\<close> is exact in both).  On the ideal
  channel every round whose bases agree gives both ends the same bits, whatever the source
  returns.
\<close>

unbundle bit_operations_syntax

section \<open>Random sources\<close>

type_synonym 'g entropy = "'g \<Rightarrow> u64 \<times> 'g"

definition rng_bit :: "'g entropy \<Rightarrow> 'g \<Rightarrow> bool \<times> 'g" where
  "rng_bit next g = (let (w, g) = next g in (w AND 1 = 1, g))"

definition unit_f64 :: "'g entropy \<Rightarrow> 'g \<Rightarrow> real \<times> 'g" where
  "unit_f64 next g = (let (w, g) = next g in (real (unat (drop_bit 11 w)) * (1 / 2 ^ 53), g))"

definition chance_ppm :: "'g entropy \<Rightarrow> u32 \<Rightarrow> 'g \<Rightarrow> bool \<times> 'g" where
  "chance_ppm next ppm g = (let (w, g) = next g in (w mod 1000000 < ucast ppm, g))"

definition xorshift_new :: "u64 \<Rightarrow> u64" where
  "xorshift_new seed = (if seed = 0 then 0x9E3779B97F4A7C15 else seed)"

definition xorshift_next :: "u64 entropy" where
  "xorshift_next x =
     (let x = x XOR push_bit 13 x; x = x XOR drop_bit 7 x; x = x XOR push_bit 17 x in (x, x))"

text \<open>
  \<open>RdRand\<close>: at most 32 attempts at the instruction, whose results (value and carry flag) are an
  argument; \<open>None\<close> is the panic after the last one.
\<close>

fun rdrand_attempts :: "nat \<Rightarrow> ('h \<Rightarrow> (u64 \<times> u8) \<times> 'h) \<Rightarrow> 'h \<Rightarrow> (u64 \<times> 'h) option" where
  "rdrand_attempts 0 rdrand h = None"
| "rdrand_attempts (Suc n) rdrand h =
     (let ((v, ok), h) = rdrand h in if ok = 1 then Some (v, h) else rdrand_attempts n rdrand h)"

definition rdrand_next :: "('h \<Rightarrow> (u64 \<times> u8) \<times> 'h) \<Rightarrow> 'h \<Rightarrow> (u64 \<times> 'h) option" where
  "rdrand_next rdrand h = rdrand_attempts 32 rdrand h"

section \<open>The state vector\<close>

definition SIM_QUBITS :: nat where "SIM_QUBITS = 4"
definition DIM :: nat where "DIM = 2 ^ SIM_QUBITS"
definition FRAC_1_SQRT_2 :: real where "FRAC_1_SQRT_2 = 1 / sqrt 2"

record state_vec =
  amp :: "real list"

definition sv_zero :: state_vec where
  "sv_zero = \<lparr>amp = (replicate DIM 0)[0 := 1]\<rparr>"

definition swap_at :: "nat \<Rightarrow> nat \<Rightarrow> 'a list \<Rightarrow> 'a list" where
  "swap_at i j a = a[i := a ! j, j := a ! i]"

definition gate_x :: "nat \<Rightarrow> state_vec \<Rightarrow> state_vec" where
  "gate_x q s = (let m = 2 ^ q in
     s\<lparr>amp := fold (\<lambda>i a. if i AND m = 0 then swap_at i (i OR m) a else a) [0..<DIM] (amp s)\<rparr>)"

definition gate_z :: "nat \<Rightarrow> state_vec \<Rightarrow> state_vec" where
  "gate_z q s = (let m = 2 ^ q in
     s\<lparr>amp := fold (\<lambda>i a. if i AND m \<noteq> 0 then a[i := - (a ! i)] else a) [0..<DIM] (amp s)\<rparr>)"

definition gate_h :: "nat \<Rightarrow> state_vec \<Rightarrow> state_vec" where
  "gate_h q s = (let m = 2 ^ q in
     s\<lparr>amp := fold (\<lambda>i am.
         if i AND m = 0 then
           let (a, b) = (am ! i, am ! (i OR m))
           in am[i := (a + b) * FRAC_1_SQRT_2, i OR m := (a - b) * FRAC_1_SQRT_2]
         else am) [0..<DIM] (amp s)\<rparr>)"

definition cnot :: "nat \<Rightarrow> nat \<Rightarrow> state_vec \<Rightarrow> state_vec" where
  "cnot control target s = (let c = 2 ^ control; t = 2 ^ target in
     s\<lparr>amp := fold (\<lambda>i a. if i AND c \<noteq> 0 \<and> i AND t = 0 then swap_at i (i OR t) a else a)
                 [0..<DIM] (amp s)\<rparr>)"

definition prob_one :: "nat \<Rightarrow> state_vec \<Rightarrow> real" where
  "prob_one q s = (let m = 2 ^ q;
       (p1, tot) = fold (\<lambda>i (p1, tot). let p = amp s ! i * amp s ! i
                          in (if i AND m \<noteq> 0 then p1 + p else p1, tot + p)) [0..<DIM] (0, 0)
     in p1 / tot)"

definition measure_qubit :: "'g entropy \<Rightarrow> nat \<Rightarrow> state_vec \<Rightarrow> 'g \<Rightarrow> bool \<times> state_vec \<times> 'g" where
  "measure_qubit next q s g =
     (let (u, g) = unit_f64 next g; one = (u < prob_one q s); m = 2 ^ q
      in (one, s\<lparr>amp := fold (\<lambda>i a. if (i AND m \<noteq> 0) \<noteq> one then a[i := 0] else a) [0..<DIM] (amp s)\<rparr>, g))"

definition measure_in ::
  "'g entropy \<Rightarrow> nat \<Rightarrow> bool \<Rightarrow> state_vec \<Rightarrow> 'g \<Rightarrow> bool \<times> state_vec \<times> 'g" where
  "measure_in next q basis_x s g =
     (let s = (if basis_x then gate_h q s else s);
          (r, s, g) = measure_qubit next q s g;
          s = (if basis_x then gate_h q s else s)
      in (r, s, g))"

definition bell_pair :: "nat \<Rightarrow> nat \<Rightarrow> state_vec \<Rightarrow> state_vec" where
  "bell_pair a b s = cnot a b (gate_h a s)"

section \<open>The channel and one round of each mode\<close>

record channel_model =
  depolarize_ppm :: u32
  eavesdropper :: bool

definition IDEAL :: channel_model where
  "IDEAL = \<lparr>depolarize_ppm = 0, eavesdropper = False\<rparr>"

definition transmit ::
  "channel_model \<Rightarrow> 'g entropy \<Rightarrow> nat \<Rightarrow> state_vec \<Rightarrow> 'g \<Rightarrow> state_vec \<times> 'g" where
  "transmit m next q s g =
     (let (s, g) =
            (if eavesdropper m then
               let (basis, g) = rng_bit next g; (_, s, g) = measure_in next q basis s g in (s, g)
             else (s, g))
      in if depolarize_ppm m = 0 then (s, g)
         else
           let (hit, g) = chance_ppm next (depolarize_ppm m) g
           in if \<not> hit then (s, g)
              else
                let (w, g) = next g; k = w mod 3
                in (if k = 0 then gate_x q s else if k = 1 then gate_z q s else gate_z q (gate_x q s), g))"

datatype key_mode = Entanglement | SuperdenseCoding | Teleportation

record qround =
  rd_a :: u8
  rd_b :: u8
  rd_nbits :: u8
  rd_sifted :: bool

definition byte_of_bool :: "bool \<Rightarrow> u8" where
  "byte_of_bool b = (if b then 1 else 0)"

definition round_entanglement :: "channel_model \<Rightarrow> 'g entropy \<Rightarrow> 'g \<Rightarrow> qround \<times> 'g" where
  "round_entanglement m next g =
     (let s = bell_pair 0 1 sv_zero;
          (s, g) = transmit m next 1 s g;
          (ba, g) = rng_bit next g; (bb, g) = rng_bit next g;
          (a, s, g) = measure_in next 0 ba s g;
          (b, s, g) = measure_in next 1 bb s g
      in (\<lparr>rd_a = byte_of_bool a, rd_b = byte_of_bool b, rd_nbits = 1, rd_sifted = (ba = bb)\<rparr>, g))"

definition round_superdense :: "channel_model \<Rightarrow> 'g entropy \<Rightarrow> 'g \<Rightarrow> qround \<times> 'g" where
  "round_superdense m next g =
     (let s = bell_pair 0 1 sv_zero;
          (w, g) = next g; msg = ucast (w AND 3) :: u8;
          s = (if msg AND 1 \<noteq> 0 then gate_x 0 s else s);
          s = (if msg AND 2 \<noteq> 0 then gate_z 0 s else s);
          (s, g) = transmit m next 0 s g;
          s = cnot 0 1 s; s = gate_h 0 s;
          (hi, s, g) = measure_qubit next 0 s g;
          (lo, s, g) = measure_qubit next 1 s g
      in (\<lparr>rd_a = msg, rd_b = push_bit 1 (byte_of_bool hi) OR byte_of_bool lo, rd_nbits = 2,
           rd_sifted = True\<rparr>, g))"

definition round_teleport :: "channel_model \<Rightarrow> 'g entropy \<Rightarrow> 'g \<Rightarrow> qround \<times> 'g" where
  "round_teleport m next g =
     (let s = sv_zero;
          (b0, g) = rng_bit next g; (basis_a, g) = rng_bit next g;
          s = (if b0 then gate_x 0 s else s);
          s = (if basis_a then gate_h 0 s else s);
          s = bell_pair 1 2 s;
          (s, g) = transmit m next 2 s g;
          s = cnot 0 1 s; s = gate_h 0 s;
          (m0, s, g) = measure_qubit next 0 s g;
          (m1, s, g) = measure_qubit next 1 s g;
          s = (if m1 then gate_x 2 s else s);
          s = (if m0 then gate_z 2 s else s);
          (basis_b, g) = rng_bit next g;
          (b, s, g) = measure_in next 2 basis_b s g
      in (\<lparr>rd_a = byte_of_bool b0, rd_b = byte_of_bool b, rd_nbits = 1, rd_sifted = (basis_a = basis_b)\<rparr>, g))"

section \<open>The gates on a vector written out\<close>

lemma range16: "[0..<DIM] = [0, 1, 2, 3, 4, 5, 6, 7, 8, 9, 10, 11, 12, 13, 14, 15]"
  by (simp add: DIM_def SIM_QUBITS_def upt_rec)

abbreviation frac :: real where "frac \<equiv> FRAC_1_SQRT_2"

lemma frac_simps [simp]: "frac * frac = 1 / 2" "frac * (frac * x) = x / 2" "frac \<noteq> 0"
proof -
  show f: "frac * frac = 1 / 2" by (simp add: FRAC_1_SQRT_2_def)
  show "frac * (frac * x) = x / 2" unfolding mult.assoc [symmetric] f by simp
  show "frac \<noteq> 0" by (simp add: FRAC_1_SQRT_2_def)
qed

text \<open>Each gate the protocols use, as a rule on sixteen amplitudes.\<close>

lemma bit_masks: "(2 :: nat) ^ 0 = Suc 0" "(2 :: nat) ^ Suc 0 = 2" "(2 :: nat) ^ 2 = 4"
  by simp_all

lemmas gate_eval = range16 swap_at_def Let_def

lemma pair_fold_0:
  "fold (\<lambda>i am. if i AND Suc 0 = 0 then am[i := f (am ! i) (am ! (i OR Suc 0)), i OR Suc 0
     := g (am ! i) (am ! (i OR Suc 0))] else am) [0..<DIM] [a0, a1, a2, a3, a4, a5, a6, a7, a8, a9,
     a10, a11, a12, a13, a14, a15] = [f a0 a1, g a0 a1, f a2 a3, g a2 a3, f a4 a5, g a4 a5, f a6 a7,
     g a6 a7, f a8 a9, g a8 a9, f a10 a11, g a10 a11, f a12 a13, g a12 a13, f a14 a15, g a14 a15]"
  by (simp add: range16)

lemma gate_h_0:
  "gate_h 0 \<lparr>amp = [a0, a1, a2, a3, a4, a5, a6, a7, a8, a9, a10, a11, a12, a13, a14,
     a15]\<rparr> = \<lparr>amp = [(a0 + a1) * frac, (a0 - a1) * frac, (a2 + a3) * frac, (a2 - a3) *
     frac, (a4 + a5) * frac, (a4 - a5) * frac, (a6 + a7) * frac, (a6 - a7) * frac, (a8 + a9) * frac,
     (a8 - a9) * frac, (a10 + a11) * frac, (a10 - a11) * frac, (a12 + a13) * frac, (a12 - a13) *
     frac, (a14 + a15) * frac, (a14 - a15) * frac]\<rparr>"
  unfolding gate_h_def Let_def prod.case bit_masks using pair_fold_0 [of "\<lambda>a b. (a + b) * frac" "\<lambda>a b. (a - b) * frac"] by simp

lemma pair_fold_1:
  "fold (\<lambda>i am. if i AND 2 = 0 then am[i := f (am ! i) (am ! (i OR 2)), i OR 2 := g (am !
     i) (am ! (i OR 2))] else am) [0..<DIM] [a0, a1, a2, a3, a4, a5, a6, a7, a8, a9, a10, a11, a12,
     a13, a14, a15] = [f a0 a2, f a1 a3, g a0 a2, g a1 a3, f a4 a6, f a5 a7, g a4 a6, g a5 a7, f a8
     a10, f a9 a11, g a8 a10, g a9 a11, f a12 a14, f a13 a15, g a12 a14, g a13 a15]"
  by (simp add: range16)

lemma gate_h_1:
  "gate_h (Suc 0) \<lparr>amp = [a0, a1, a2, a3, a4, a5, a6, a7, a8, a9, a10, a11, a12, a13, a14,
     a15]\<rparr> = \<lparr>amp = [(a0 + a2) * frac, (a1 + a3) * frac, (a0 - a2) * frac, (a1 - a3) *
     frac, (a4 + a6) * frac, (a5 + a7) * frac, (a4 - a6) * frac, (a5 - a7) * frac, (a8 + a10) * frac,
     (a9 + a11) * frac, (a8 - a10) * frac, (a9 - a11) * frac, (a12 + a14) * frac, (a13 + a15) * frac,
     (a12 - a14) * frac, (a13 - a15) * frac]\<rparr>"
  unfolding gate_h_def Let_def prod.case bit_masks using pair_fold_1 [of "\<lambda>a b. (a + b) * frac" "\<lambda>a b. (a - b) * frac"] by simp

lemma pair_fold_2:
  "fold (\<lambda>i am. if i AND 4 = 0 then am[i := f (am ! i) (am ! (i OR 4)), i OR 4 := g (am !
     i) (am ! (i OR 4))] else am) [0..<DIM] [a0, a1, a2, a3, a4, a5, a6, a7, a8, a9, a10, a11, a12,
     a13, a14, a15] = [f a0 a4, f a1 a5, f a2 a6, f a3 a7, g a0 a4, g a1 a5, g a2 a6, g a3 a7, f a8
     a12, f a9 a13, f a10 a14, f a11 a15, g a8 a12, g a9 a13, g a10 a14, g a11 a15]"
  by (simp add: range16)

lemma gate_h_2:
  "gate_h 2 \<lparr>amp = [a0, a1, a2, a3, a4, a5, a6, a7, a8, a9, a10, a11, a12, a13, a14,
     a15]\<rparr> = \<lparr>amp = [(a0 + a4) * frac, (a1 + a5) * frac, (a2 + a6) * frac, (a3 + a7) *
     frac, (a0 - a4) * frac, (a1 - a5) * frac, (a2 - a6) * frac, (a3 - a7) * frac, (a8 + a12) * frac,
     (a9 + a13) * frac, (a10 + a14) * frac, (a11 + a15) * frac, (a8 - a12) * frac, (a9 - a13) * frac,
     (a10 - a14) * frac, (a11 - a15) * frac]\<rparr>"
  unfolding gate_h_def Let_def prod.case bit_masks using pair_fold_2 [of "\<lambda>a b. (a + b) * frac" "\<lambda>a b. (a - b) * frac"] by simp

lemma gate_x_0:
  "gate_x 0 \<lparr>amp = [a0, a1, a2, a3, a4, a5, a6, a7, a8, a9, a10, a11, a12, a13, a14,
     a15]\<rparr> = \<lparr>amp = [a1, a0, a3, a2, a5, a4, a7, a6, a9, a8, a11, a10, a13, a12, a15,
     a14]\<rparr>"
  by (simp add: gate_x_def gate_eval)

lemma sign_fold_0:
  "fold (\<lambda>i a. if i AND Suc 0 \<noteq> 0 then a[i := f (a ! i)] else a) [0..<DIM] [a0, a1,
     a2, a3, a4, a5, a6, a7, a8, a9, a10, a11, a12, a13, a14, a15] = [a0, f a1, a2, f a3, a4, f a5,
     a6, f a7, a8, f a9, a10, f a11, a12, f a13, a14, f a15]"
  by (simp add: range16)

lemma gate_z_0:
  "gate_z 0 \<lparr>amp = [a0, a1, a2, a3, a4, a5, a6, a7, a8, a9, a10, a11, a12, a13, a14,
     a15]\<rparr> = \<lparr>amp = [a0, - a1, a2, - a3, a4, - a5, a6, - a7, a8, - a9, a10, - a11, a12,
     - a13, a14, - a15]\<rparr>"
  using sign_fold_0 [of uminus] by (simp add: gate_z_def Let_def)

lemma gate_x_2:
  "gate_x 2 \<lparr>amp = [a0, a1, a2, a3, a4, a5, a6, a7, a8, a9, a10, a11, a12, a13, a14,
     a15]\<rparr> = \<lparr>amp = [a4, a5, a6, a7, a0, a1, a2, a3, a12, a13, a14, a15, a8, a9, a10,
     a11]\<rparr>"
  by (simp add: gate_x_def gate_eval)

lemma sign_fold_2:
  "fold (\<lambda>i a. if i AND 4 \<noteq> 0 then a[i := f (a ! i)] else a) [0..<DIM] [a0, a1, a2,
     a3, a4, a5, a6, a7, a8, a9, a10, a11, a12, a13, a14, a15] = [a0, a1, a2, a3, f a4, f a5, f a6, f
     a7, a8, a9, a10, a11, f a12, f a13, f a14, f a15]"
  by (simp add: range16)

lemma gate_z_2:
  "gate_z 2 \<lparr>amp = [a0, a1, a2, a3, a4, a5, a6, a7, a8, a9, a10, a11, a12, a13, a14,
     a15]\<rparr> = \<lparr>amp = [a0, a1, a2, a3, - a4, - a5, - a6, - a7, a8, a9, a10, a11, - a12, -
     a13, - a14, - a15]\<rparr>"
  using sign_fold_2 [of uminus] by (simp add: gate_z_def Let_def)

lemma cnot_0_1:
  "cnot 0 (Suc 0) \<lparr>amp = [a0, a1, a2, a3, a4, a5, a6, a7, a8, a9, a10, a11, a12, a13, a14,
     a15]\<rparr> = \<lparr>amp = [a0, a3, a2, a1, a4, a7, a6, a5, a8, a11, a10, a9, a12, a15, a14,
     a13]\<rparr>"
  by (simp add: cnot_def gate_eval)

lemma cnot_1_2:
  "cnot (Suc 0) 2 \<lparr>amp = [a0, a1, a2, a3, a4, a5, a6, a7, a8, a9, a10, a11, a12, a13, a14,
     a15]\<rparr> = \<lparr>amp = [a0, a1, a6, a7, a4, a5, a2, a3, a8, a9, a14, a15, a12, a13, a10,
     a11]\<rparr>"
  by (simp add: cnot_def gate_eval)

lemma keep_one_0:
  "fold (\<lambda>i a. if (i AND Suc 0 \<noteq> 0) \<noteq> True then a[i := z] else a) [0..<DIM]
     [a0, a1, a2, a3, a4, a5, a6, a7, a8, a9, a10, a11, a12, a13, a14, a15] = [z, a1, z, a3, z, a5,
     z, a7, z, a9, z, a11, z, a13, z, a15]"
  by (simp add: range16)

lemma keep_zero_0:
  "fold (\<lambda>i a. if (i AND Suc 0 \<noteq> 0) \<noteq> False then a[i := z] else a) [0..<DIM]
     [a0, a1, a2, a3, a4, a5, a6, a7, a8, a9, a10, a11, a12, a13, a14, a15] = [a0, z, a2, z, a4, z,
     a6, z, a8, z, a10, z, a12, z, a14, z]"
  by (simp add: range16)

lemma prob_one_0:
  "prob_one 0 \<lparr>amp = [a0, a1, a2, a3, a4, a5, a6, a7, a8, a9, a10, a11, a12, a13, a14,
     a15]\<rparr> = (a1 * a1 + a3 * a3 + a5 * a5 + a7 * a7 + a9 * a9 + a11 * a11 + a13 * a13 + a15 *
     a15) / (a0 * a0 + a1 * a1 + a2 * a2 + a3 * a3 + a4 * a4 + a5 * a5 + a6 * a6 + a7 * a7 + a8 * a8
     + a9 * a9 + a10 * a10 + a11 * a11 + a12 * a12 + a13 * a13 + a14 * a14 + a15 * a15)"
  by (simp add: prob_one_def gate_eval)

lemma keep_one_1:
  "fold (\<lambda>i a. if (i AND 2 \<noteq> 0) \<noteq> True then a[i := z] else a) [0..<DIM] [a0,
     a1, a2, a3, a4, a5, a6, a7, a8, a9, a10, a11, a12, a13, a14, a15] = [z, z, a2, a3, z, z, a6, a7,
     z, z, a10, a11, z, z, a14, a15]"
  by (simp add: range16)

lemma keep_zero_1:
  "fold (\<lambda>i a. if (i AND 2 \<noteq> 0) \<noteq> False then a[i := z] else a) [0..<DIM]
     [a0, a1, a2, a3, a4, a5, a6, a7, a8, a9, a10, a11, a12, a13, a14, a15] = [a0, a1, z, z, a4, a5,
     z, z, a8, a9, z, z, a12, a13, z, z]"
  by (simp add: range16)

lemma prob_one_1:
  "prob_one (Suc 0) \<lparr>amp = [a0, a1, a2, a3, a4, a5, a6, a7, a8, a9, a10, a11, a12, a13,
     a14, a15]\<rparr> = (a2 * a2 + a3 * a3 + a6 * a6 + a7 * a7 + a10 * a10 + a11 * a11 + a14 * a14 +
     a15 * a15) / (a0 * a0 + a1 * a1 + a2 * a2 + a3 * a3 + a4 * a4 + a5 * a5 + a6 * a6 + a7 * a7 + a8
     * a8 + a9 * a9 + a10 * a10 + a11 * a11 + a12 * a12 + a13 * a13 + a14 * a14 + a15 * a15)"
  by (simp add: prob_one_def gate_eval)

lemma keep_one_2:
  "fold (\<lambda>i a. if (i AND 4 \<noteq> 0) \<noteq> True then a[i := z] else a) [0..<DIM] [a0,
     a1, a2, a3, a4, a5, a6, a7, a8, a9, a10, a11, a12, a13, a14, a15] = [z, z, z, z, a4, a5, a6, a7,
     z, z, z, z, a12, a13, a14, a15]"
  by (simp add: range16)

lemma keep_zero_2:
  "fold (\<lambda>i a. if (i AND 4 \<noteq> 0) \<noteq> False then a[i := z] else a) [0..<DIM]
     [a0, a1, a2, a3, a4, a5, a6, a7, a8, a9, a10, a11, a12, a13, a14, a15] = [a0, a1, a2, a3, z, z,
     z, z, a8, a9, a10, a11, z, z, z, z]"
  by (simp add: range16)

lemma prob_one_2:
  "prob_one 2 \<lparr>amp = [a0, a1, a2, a3, a4, a5, a6, a7, a8, a9, a10, a11, a12, a13, a14,
     a15]\<rparr> = (a4 * a4 + a5 * a5 + a6 * a6 + a7 * a7 + a12 * a12 + a13 * a13 + a14 * a14 + a15
     * a15) / (a0 * a0 + a1 * a1 + a2 * a2 + a3 * a3 + a4 * a4 + a5 * a5 + a6 * a6 + a7 * a7 + a8 *
     a8 + a9 * a9 + a10 * a10 + a11 * a11 + a12 * a12 + a13 * a13 + a14 * a14 + a15 * a15)"
  by (simp add: prob_one_def gate_eval)

lemma measure_0:
  "measure_qubit next 0 \<lparr>amp = [a0, a1, a2, a3, a4, a5, a6, a7, a8, a9, a10, a11, a12, a13,
     a14, a15]\<rparr> g = (let (u, g) = unit_f64 next g in if u < (a1 * a1 + a3 * a3 + a5 * a5 + a7
     * a7 + a9 * a9 + a11 * a11 + a13 * a13 + a15 * a15) / (a0 * a0 + a1 * a1 + a2 * a2 + a3 * a3 +
     a4 * a4 + a5 * a5 + a6 * a6 + a7 * a7 + a8 * a8 + a9 * a9 + a10 * a10 + a11 * a11 + a12 * a12 +
     a13 * a13 + a14 * a14 + a15 * a15) then (True, \<lparr>amp = [0, a1, 0, a3, 0, a5, 0, a7, 0, a9,
     0, a11, 0, a13, 0, a15]\<rparr>, g) else (False, \<lparr>amp = [a0, 0, a2, 0, a4, 0, a6, 0, a8,
     0, a10, 0, a12, 0, a14, 0]\<rparr>, g))"
proof (cases "fst (unit_f64 next g) < prob_one 0 \<lparr>amp = [a0, a1, a2, a3, a4, a5, a6, a7, a8, a9, a10, a11, a12, a13, a14, a15]\<rparr>")
  case True
  then show ?thesis
    using keep_one_0 [of "0 :: real"] by (simp add: measure_qubit_def Let_def case_prod_beta flip: prob_one_0)
next
  case False
  then show ?thesis
    using keep_zero_0 [of "0 :: real"] by (simp add: measure_qubit_def Let_def case_prod_beta flip: prob_one_0)
qed

lemma measure_1:
  "measure_qubit next (Suc 0) \<lparr>amp = [a0, a1, a2, a3, a4, a5, a6, a7, a8, a9, a10, a11,
     a12, a13, a14, a15]\<rparr> g = (let (u, g) = unit_f64 next g in if u < (a2 * a2 + a3 * a3 + a6
     * a6 + a7 * a7 + a10 * a10 + a11 * a11 + a14 * a14 + a15 * a15) / (a0 * a0 + a1 * a1 + a2 * a2 +
     a3 * a3 + a4 * a4 + a5 * a5 + a6 * a6 + a7 * a7 + a8 * a8 + a9 * a9 + a10 * a10 + a11 * a11 +
     a12 * a12 + a13 * a13 + a14 * a14 + a15 * a15) then (True, \<lparr>amp = [0, 0, a2, a3, 0, 0,
     a6, a7, 0, 0, a10, a11, 0, 0, a14, a15]\<rparr>, g) else (False, \<lparr>amp = [a0, a1, 0, 0,
     a4, a5, 0, 0, a8, a9, 0, 0, a12, a13, 0, 0]\<rparr>, g))"
proof (cases "fst (unit_f64 next g) < prob_one (Suc 0) \<lparr>amp = [a0, a1, a2, a3, a4, a5, a6, a7, a8, a9, a10, a11, a12, a13, a14, a15]\<rparr>")
  case True
  then show ?thesis
    using keep_one_1 [of "0 :: real"] by (simp add: measure_qubit_def Let_def case_prod_beta flip: prob_one_1)
next
  case False
  then show ?thesis
    using keep_zero_1 [of "0 :: real"] by (simp add: measure_qubit_def Let_def case_prod_beta flip: prob_one_1)
qed

lemma measure_2:
  "measure_qubit next 2 \<lparr>amp = [a0, a1, a2, a3, a4, a5, a6, a7, a8, a9, a10, a11, a12, a13,
     a14, a15]\<rparr> g = (let (u, g) = unit_f64 next g in if u < (a4 * a4 + a5 * a5 + a6 * a6 + a7
     * a7 + a12 * a12 + a13 * a13 + a14 * a14 + a15 * a15) / (a0 * a0 + a1 * a1 + a2 * a2 + a3 * a3 +
     a4 * a4 + a5 * a5 + a6 * a6 + a7 * a7 + a8 * a8 + a9 * a9 + a10 * a10 + a11 * a11 + a12 * a12 +
     a13 * a13 + a14 * a14 + a15 * a15) then (True, \<lparr>amp = [0, 0, 0, 0, a4, a5, a6, a7, 0, 0,
     0, 0, a12, a13, a14, a15]\<rparr>, g) else (False, \<lparr>amp = [a0, a1, a2, a3, 0, 0, 0, 0,
     a8, a9, a10, a11, 0, 0, 0, 0]\<rparr>, g))"
proof (cases "fst (unit_f64 next g) < prob_one 2 \<lparr>amp = [a0, a1, a2, a3, a4, a5, a6, a7, a8, a9, a10, a11, a12, a13, a14, a15]\<rparr>")
  case True
  then show ?thesis
    using keep_one_2 [of "0 :: real"] by (simp add: measure_qubit_def Let_def case_prod_beta flip: prob_one_2)
next
  case False
  then show ?thesis
    using keep_zero_2 [of "0 :: real"] by (simp add: measure_qubit_def Let_def case_prod_beta flip: prob_one_2)
qed

lemmas sim_eval = gate_h_0 gate_h_1 gate_h_2 gate_x_0 gate_x_2 gate_z_0 gate_z_2 cnot_0_1 cnot_1_2
  measure_0 measure_1 measure_2

section \<open>The ideal channel\<close>

lemma unit_f64_bounds:
  assumes "unit_f64 next g = (u, g')"
  shows "0 \<le> u" and "u < 1"
proof -
  obtain w g1 where w: "next g = (w, g1)" by (cases "next g")
  have u: "u = real (unat (drop_bit 11 w :: u64)) * (1 / 2 ^ 53)"
    using assms by (simp add: unit_f64_def w)
  have "unat w < 2 ^ 64" using unsigned_less [of w] by simp
  then have "unat (drop_bit 11 w) < 2 ^ 53" unfolding unat_shr by (intro less_mult_imp_div_less) simp
  moreover have "0 \<le> real n * (1 / 2 ^ 53) \<and> real n * (1 / 2 ^ 53) < 1" if "n < 2 ^ 53" for n
  proof -
    have "real n < real (2 ^ 53)" using that by (simp only: of_nat_less_iff)
    then show ?thesis by simp
  qed
  ultimately show "0 \<le> u" and "u < 1" unfolding u by blast+
qed

lemma transmit_ideal [simp]: "transmit IDEAL next q s g = (s, g)"
  by (simp add: transmit_def IDEAL_def)

lemma measure_rng [simp]: "snd (snd (measure_qubit next q s g)) = snd (unit_f64 next g)"
  by (simp add: measure_qubit_def Let_def case_prod_beta)

lemma measure_in_rng [simp]: "snd (snd (measure_in next q b s g)) = snd (unit_f64 next g)"
  by (simp add: measure_in_def Let_def case_prod_beta)

lemma sv_zero_eq: "sv_zero = \<lparr>amp = [1, 0, 0, 0, 0, 0, 0, 0, 0, 0, 0, 0, 0, 0, 0, 0]\<rparr>"
  by (simp add: sv_zero_def DIM_def SIM_QUBITS_def numeral_eq_Suc)

lemma two_bits:
  fixes w :: u64
  defines "v \<equiv> ucast (w AND 3) :: u8"
  shows "v = 0 \<or> v = 1 \<or> v = 2 \<or> v = 3"
proof -
  have "w AND 3 = w AND mask 2" by (simp add: mask_eq_exp_minus_1)
  then have "w AND 3 = take_bit 2 w" by (simp add: take_bit_eq_mask)
  then have "unat (w AND 3) = unat w mod 4" by (simp only: unsigned_take_bit_eq) (simp add: take_bit_eq_mod)
  then have u: "unat (w AND 3) < 4" by simp
  then have "unat v < 4" by (simp add: v_def unat_ucast_fits)
  then have "unat v = 0 \<or> unat v = 1 \<or> unat v = 2 \<or> unat v = 3" by linarith
  then show ?thesis by (simp add: word_unat_eq_iff)
qed

lemma ideal_superdense:
  "rd_a (fst (round_superdense IDEAL next g)) = rd_b (fst (round_superdense IDEAL next g))"
proof -
  obtain w g1 where w: "next g = (w, g1)" by (cases "next g")
  obtain u1 g2 where u1: "unit_f64 next g1 = (u1, g2)" by (cases "unit_f64 next g1")
  obtain u2 g3 where u2: "unit_f64 next g2 = (u2, g3)" by (cases "unit_f64 next g2")
  note b = unit_f64_bounds [OF u1] unit_f64_bounds [OF u2]
  define msg :: u8 where "msg = ucast (w AND 3)"
  have "msg = 0 \<or> msg = 1 \<or> msg = 2 \<or> msg = 3" unfolding msg_def by (rule two_bits)
  then show ?thesis
    using b unfolding round_superdense_def w prod.case Let_def msg_def [symmetric]
    by (elim disjE) (simp_all add: bell_pair_def sv_zero_eq sim_eval u1 u2 byte_of_bool_def)
qed

lemma ideal_entanglement:
  assumes "rd_sifted (fst (round_entanglement IDEAL next g))"
  shows "rd_a (fst (round_entanglement IDEAL next g)) = rd_b (fst (round_entanglement IDEAL next g))"
proof -
  obtain ba g1 where ba: "rng_bit next g = (ba, g1)" by (cases "rng_bit next g")
  obtain bb g2 where bb: "rng_bit next g1 = (bb, g2)" by (cases "rng_bit next g1")
  obtain u1 g3 where u1: "unit_f64 next g2 = (u1, g3)" by (cases "unit_f64 next g2")
  obtain u2 g4 where u2: "unit_f64 next g3 = (u2, g4)" by (cases "unit_f64 next g3")
  note b = unit_f64_bounds [OF u1] unit_f64_bounds [OF u2]
  have sift: "ba = bb" using assms
    by (simp add: round_entanglement_def Let_def case_prod_beta ba bb u1 u2)
  show ?thesis
    using b unfolding sift
    by (cases bb)
      (simp_all add: round_entanglement_def bell_pair_def sv_zero_eq sim_eval ba [unfolded sift] bb u1 u2 byte_of_bool_def
        measure_in_def)
qed

lemma ideal_teleport:
  assumes "rd_sifted (fst (round_teleport IDEAL next g))"
  shows "rd_a (fst (round_teleport IDEAL next g)) = rd_b (fst (round_teleport IDEAL next g))"
proof -
  obtain b0 g1 where b0: "rng_bit next g = (b0, g1)" by (cases "rng_bit next g")
  obtain ba g2 where ba: "rng_bit next g1 = (ba, g2)" by (cases "rng_bit next g1")
  obtain u1 g3 where u1: "unit_f64 next g2 = (u1, g3)" by (cases "unit_f64 next g2")
  obtain u2 g4 where u2: "unit_f64 next g3 = (u2, g4)" by (cases "unit_f64 next g3")
  obtain bb g5 where bb: "rng_bit next g4 = (bb, g5)" by (cases "rng_bit next g4")
  obtain u3 g6 where u3: "unit_f64 next g5 = (u3, g6)" by (cases "unit_f64 next g5")
  note b = unit_f64_bounds [OF u1] unit_f64_bounds [OF u2] unit_f64_bounds [OF u3]
  have sift: "ba = bb" using assms
    by (simp add: round_teleport_def Let_def case_prod_beta ba bb u1 u2 b0)
  show ?thesis
    using b unfolding sift
    by (cases b0; cases bb)
      (simp_all add: round_teleport_def bell_pair_def sv_zero_eq sim_eval b0 ba [unfolded sift] bb u1 u2 u3 byte_of_bool_def
        measure_in_def)
qed

section \<open>The random sources\<close>

lemma push_bit_fixed:
  fixes x :: "'a::len word"
  assumes "push_bit n x = x" and "0 < n"
  shows "x = 0"
proof (rule bit_word_eqI)
  fix i
  have "\<not> bit x i"
  proof (induction i rule: less_induct)
    case (less i)
    have "bit x i \<longleftrightarrow> bit (push_bit n x) i" by (simp add: assms(1))
    then show ?case using less assms(2) by (auto simp: bit_push_bit_iff)
  qed
  then show "bit x i \<longleftrightarrow> bit 0 i" by simp
qed

lemma drop_bit_fixed:
  fixes x :: "'a::len word"
  assumes "drop_bit n x = x" and "0 < n"
  shows "x = 0"
proof (rule bit_word_eqI)
  fix i
  have "\<not> bit x (LENGTH('a) - k)" for k
  proof (induction k rule: less_induct)
    case (less k)
    show ?case
    proof (cases "n \<le> k")
      case True
      have "bit x (LENGTH('a) - k) \<longleftrightarrow> bit (drop_bit n x) (LENGTH('a) - k)" by (simp add: assms(1))
      also have "\<dots> \<longleftrightarrow> bit x (n + (LENGTH('a) - k))" by (simp add: bit_drop_bit_eq)
      also have "\<not> bit x (n + (LENGTH('a) - k))"
      proof (cases "k \<le> LENGTH('a)")
        case k: True
        then have "n + (LENGTH('a) - k) = LENGTH('a) - (k - n)" using True by simp
        then show ?thesis using less [of "k - n"] True assms(2) by simp
      next
        case False
        have "bit x n \<longleftrightarrow> bit (drop_bit n x) 0" by (simp add: bit_drop_bit_eq)
        then show ?thesis
          using less [of "LENGTH('a)"] less [of "LENGTH('a) - n"] False assms
          by (cases "n \<le> LENGTH('a)") (auto dest: bit_imp_le_length)
      qed
      finally show ?thesis .
    next
      case False
      have "bit x (LENGTH('a) - k) \<longleftrightarrow> bit (drop_bit n x) (LENGTH('a) - k)" by (simp add: assms(1))
      then show ?thesis using False by (auto simp: bit_drop_bit_eq dest: bit_imp_le_length)
    qed
  qed
  from this [of "LENGTH('a) - i"] show "bit x i \<longleftrightarrow> bit 0 i"
    by (cases "i < LENGTH('a)") (auto dest: bit_imp_le_length)
qed

lemma xor_shift_nonzero:
  fixes x :: "'a::len word"
  assumes "x \<noteq> 0" and "0 < n"
  shows "x XOR push_bit n x \<noteq> 0" and "x XOR drop_bit n x \<noteq> 0"
  using assms push_bit_fixed [of n x] drop_bit_fixed [of n x] by (metis xor.right_neutral xor_self_eq xor.assoc)+

lemma xorshift_next_nonzero: "x \<noteq> 0 \<Longrightarrow> fst (xorshift_next x) \<noteq> 0 \<and> snd (xorshift_next x) \<noteq> 0"
  unfolding xorshift_next_def Let_def fst_conv snd_conv
  by (simp only: xor_shift_nonzero zero_less_numeral conj_absorb not_False_eq_True)

text \<open>
  The simulator's generator never gets stuck at zero: for every seed, zero included, every
  word of its stream and every state it passes through is different from zero.
\<close>

theorem xorshift_never_zero:
  "((\<lambda>x. snd (xorshift_next x)) ^^ n) (xorshift_new seed) \<noteq> 0
   \<and> fst (xorshift_next (((\<lambda>x. snd (xorshift_next x)) ^^ n) (xorshift_new seed))) \<noteq> 0"
proof -
  have "((\<lambda>x. snd (xorshift_next x)) ^^ n) (xorshift_new seed) \<noteq> 0"
    by (induction n) (simp_all add: xorshift_next_nonzero, simp add: xorshift_new_def)
  then show ?thesis by (simp add: xorshift_next_nonzero)
qed

end
