(* ===== verification/Distill.thy ===== *)
theory Distill
  imports Quantum
begin

text \<open>
  Key distillation of the quantum link (\<open>kernel/qphy/src/lib.rs\<close>, second half): one block of key
  is gathered round by round (\<open>harvest\<close>), the error rate is estimated on the check rounds, the
  two raw keys are reconciled by the interactive parity search (\<open>reconcile\<close>), the secrecy that is
  left is accounted for (\<open>binary_entropy\<close>), and both ends compress their raw key with the same
  Toeplitz matrix.  Counters that the code keeps in \<open>u32\<close> and \<open>usize\<close> are natural numbers: the
  theorems bound them (at most 262144 rounds, at most 34752 parities).  The loops over rounds,
  passes and chunks are bounded in the code and recursions over their ranges here; the halving
  search terminates by the length of its interval.
\<close>

unbundle bit_operations_syntax

section \<open>Constants, errors, blocks\<close>

definition KEY_BLOCK_BYTES :: nat where "KEY_BLOCK_BYTES = 256"
definition KEY_BLOCK_BITS :: nat where "KEY_BLOCK_BITS = KEY_BLOCK_BYTES * 8"
definition RAW_BYTES :: nat where "RAW_BYTES = KEY_BLOCK_BYTES * 2"
definition RAW_BITS :: nat where "RAW_BITS = RAW_BYTES * 8"
definition QBER_ABORT_PPM :: nat where "QBER_ABORT_PPM = 110000"
definition CHECK_PPM :: u32 where "CHECK_PPM = 250000"
definition MIN_CHECKS :: nat where "MIN_CHECKS = 256"
definition MAX_ROUNDS :: nat where "MAX_ROUNDS = RAW_BITS * 64"
definition EC_PASSES :: nat where "EC_PASSES = 5"
definition PA_SAFETY_BITS :: nat where "PA_SAFETY_BITS = 64"
definition PA_SEED :: u64 where "PA_SEED = 0x51444E5F50413031"
definition EC_MAX_ROUNDS :: nat where "EC_MAX_ROUNDS = 12"

lemmas qphy_consts = KEY_BLOCK_BITS_def RAW_BITS_def RAW_BYTES_def KEY_BLOCK_BYTES_def MAX_ROUNDS_def

datatype phy_error =
    NoDevice | QberExceeded nat | InsufficientSamples | ReconciliationFailed | InsufficientSecrecy nat

record key_block_pair =
  kb_seq :: u64
  kb_a :: bytes
  kb_b :: bytes
  kb_qber_ppm :: nat
  kb_leaked_bits :: nat
  kb_secure_bits :: nat

definition get_bit :: "bytes \<Rightarrow> nat \<Rightarrow> u8" where
  "get_bit buf i = drop_bit (i mod 8) (buf ! (i div 8)) AND 1"

definition flip_bit :: "nat \<Rightarrow> bytes \<Rightarrow> bytes" where
  "flip_bit i buf = buf[i div 8 := buf ! (i div 8) XOR push_bit (i mod 8) 1]"

definition binary_entropy :: "nat \<Rightarrow> real" where
  "binary_entropy qber_ppm =
     (let H = [0, 808 / 10000, 1414 / 10000, 1944 / 10000, 2423 / 10000, 2864 / 10000,
               3274 / 10000, 3659 / 10000, 4022 / 10000, 4365 / 10000, 4690 / 10000, 4999 / 10000];
          p = min (real qber_ppm / 1000000) (11 / 100);
          x = p * 100;
          i = nat \<lfloor>x\<rfloor>
      in if 11 \<le> i then H ! 11 else H ! i + (H ! (i + 1) - H ! i) * (x - real i))"

section \<open>Reconciliation\<close>

definition ec_perm :: "nat \<Rightarrow> nat \<Rightarrow> nat \<Rightarrow> nat \<Rightarrow> nat" where
  "ec_perm nbits mul rnd i = (i * mul + rnd * 101) mod nbits"

definition ec_parity :: "(nat \<Rightarrow> nat) \<Rightarrow> bytes \<Rightarrow> nat \<Rightarrow> nat \<Rightarrow> u8" where
  "ec_parity perm buf lo hi = fold (\<lambda>i p. p XOR get_bit buf (perm i)) [lo..<hi] 0"

function ec_search :: "(nat \<Rightarrow> nat) \<Rightarrow> bytes \<Rightarrow> bytes \<Rightarrow> nat \<Rightarrow> nat \<Rightarrow> nat \<Rightarrow> nat \<times> nat" where
  "ec_search perm a b lo hi leaked =
     (if 1 < hi - lo then
        let mid = (lo + hi) div 2; leaked = leaked + 1
        in if ec_parity perm a lo mid \<noteq> ec_parity perm b lo mid
           then ec_search perm a b lo mid leaked else ec_search perm a b mid hi leaked
      else (lo, leaked))"
  by pat_completeness auto
termination by (relation "measure (\<lambda>(perm, a, b, lo, hi, leaked). hi - lo)") auto

declare ec_search.simps [simp del]

definition ec_chunk :: "(nat \<Rightarrow> nat) \<Rightarrow> bytes \<Rightarrow> nat \<Rightarrow> nat \<Rightarrow> nat \<times> bytes \<Rightarrow> nat \<times> bytes" where
  "ec_chunk perm a chunk_bits chunk st =
     (let (leaked, b) = st; lo = chunk * chunk_bits; hi = (chunk + 1) * chunk_bits; leaked = leaked + 1
      in if ec_parity perm a lo hi = ec_parity perm b lo hi then (leaked, b)
         else let (lo, leaked) = ec_search perm a b lo hi leaked in (leaked, flip_bit (perm lo) b))"

definition ec_passes :: "(nat \<times> nat) list" where
  "ec_passes = [(16, 1), (32, 1237), (64, 797), (128, 1531), (256, 389)]"

definition ec_pass :: "bytes \<Rightarrow> nat \<Rightarrow> nat \<Rightarrow> nat \<times> nat \<Rightarrow> nat \<times> bytes \<Rightarrow> nat \<times> bytes" where
  "ec_pass a nbits rnd pass st =
     (let (chunk_bits, mul0) = pass; mul = mul0 * (1 + 2 * rnd)
      in fold (ec_chunk (ec_perm nbits mul rnd) a chunk_bits) [0..<nbits div chunk_bits] st)"

fun ec_rounds :: "nat list \<Rightarrow> bytes \<Rightarrow> nat \<Rightarrow> nat \<times> bytes \<Rightarrow> nat \<times> bytes" where
  "ec_rounds [] a nbits st = st"
| "ec_rounds (r # rs) a nbits st =
     (if a = snd st then st else ec_rounds rs a nbits (fold (ec_pass a nbits r) ec_passes st))"

definition reconcile :: "bytes \<Rightarrow> bytes \<Rightarrow> nat \<Rightarrow> nat \<times> bytes" where
  "reconcile a b nbits = ec_rounds [0..<EC_MAX_ROUNDS] a nbits (0, b)"

section \<open>Privacy amplification\<close>

definition SEED_BITS :: nat where "SEED_BITS = RAW_BITS + KEY_BLOCK_BITS - 1"
definition SEED_BYTES :: nat where "SEED_BYTES = SEED_BITS div 8 + 1"

fun toeplitz_seed :: "nat \<Rightarrow> u64 \<Rightarrow> bytes" where
  "toeplitz_seed n x =
     (if n = 0 then []
      else let (v, x) = xorshift_next x in take n (to_le 8 v) @ toeplitz_seed (n - 8) x)"

declare toeplitz_seed.simps [simp del]

definition toeplitz_diag :: "bytes \<Rightarrow> nat \<Rightarrow> u8" where
  "toeplitz_diag seed k = drop_bit (k mod 8) (seed ! (k div 8)) AND 1"

definition toeplitz_row :: "(nat \<Rightarrow> u8) \<Rightarrow> bytes \<Rightarrow> nat \<Rightarrow> u8" where
  "toeplitz_row t raw i =
     fold (\<lambda>j acc. acc XOR (get_bit raw j AND t (i + (RAW_BITS - 1) - j))) [0..<RAW_BITS] 0"

definition toeplitz_compress :: "bytes \<Rightarrow> bytes \<Rightarrow> bytes" where
  "toeplitz_compress raw out =
     (let seed = toeplitz_seed SEED_BYTES (xorshift_new PA_SEED); t = toeplitz_diag seed;
          out = map (\<lambda>_. 0) out
      in fold (\<lambda>i out. let acc = toeplitz_row t raw i in if acc \<noteq> 0 then flip_bit i out else out)
           [0..<KEY_BLOCK_BITS] out)"

section \<open>Harvesting a block\<close>

record 'g quantum_link =
  ql_rng :: 'g
  ql_model :: channel_model
  ql_mode :: key_mode
  ql_next_seq :: u64

definition link_new :: "'g \<Rightarrow> channel_model \<Rightarrow> key_mode \<Rightarrow> 'g quantum_link" where
  "link_new rng model mode = \<lparr>ql_rng = rng, ql_model = model, ql_mode = mode, ql_next_seq = 0\<rparr>"

fun key_round :: "'g entropy \<Rightarrow> channel_model \<Rightarrow> key_mode \<Rightarrow> 'g \<Rightarrow> qround \<times> 'g" where
  "key_round next m Entanglement g = round_entanglement m next g"
| "key_round next m SuperdenseCoding g = round_superdense m next g"
| "key_round next m Teleportation g = round_teleport m next g"

record harvest_state =
  hs_a :: bytes
  hs_b :: bytes
  hs_filled :: nat
  hs_checks :: nat
  hs_errors :: nat

fun fill_bits :: "nat list \<Rightarrow> qround \<Rightarrow> harvest_state \<Rightarrow> harvest_state" where
  "fill_bits [] r h = h"
| "fill_bits (k # ks) r h =
     (if RAW_BITS \<le> hs_filled h then h
      else
        let h = (if drop_bit k (rd_a r) AND 1 = 1 then h\<lparr>hs_a := flip_bit (hs_filled h) (hs_a h)\<rparr> else h);
            h = (if drop_bit k (rd_b r) AND 1 = 1 then h\<lparr>hs_b := flip_bit (hs_filled h) (hs_b h)\<rparr> else h)
        in fill_bits ks r (h\<lparr>hs_filled := hs_filled h + 1\<rparr>))"

definition harvest_round ::
  "'g entropy \<Rightarrow> channel_model \<Rightarrow> key_mode \<Rightarrow> harvest_state \<Rightarrow> 'g \<Rightarrow> harvest_state \<times> 'g" where
  "harvest_round next m mode h g =
     (let (check, g) = chance_ppm next CHECK_PPM g
      in if check \<or> RAW_BITS \<le> hs_filled h then
           let (r, g) = round_entanglement m next g
           in (if rd_sifted r then
                 let h = h\<lparr>hs_checks := hs_checks h + 1\<rparr>
                 in if rd_a r \<noteq> rd_b r then h\<lparr>hs_errors := hs_errors h + 1\<rparr> else h
               else h, g)
         else
           let (r, g) = key_round next m mode g
           in (if \<not> rd_sifted r then h else fill_bits [0..<unat (rd_nbits r)] r h, g))"

fun harvest_rounds ::
  "nat \<Rightarrow> 'g entropy \<Rightarrow> channel_model \<Rightarrow> key_mode \<Rightarrow> harvest_state \<Rightarrow> 'g \<Rightarrow> harvest_state \<times> 'g" where
  "harvest_rounds 0 next m mode h g = (h, g)"
| "harvest_rounds (Suc n) next m mode h g =
     (if RAW_BITS \<le> hs_filled h \<and> MIN_CHECKS \<le> hs_checks h then (h, g)
      else let (h, g) = harvest_round next m mode h g in harvest_rounds n next m mode h g)"

definition harvest :: "'g entropy \<Rightarrow> 'g quantum_link \<Rightarrow> (phy_error + key_block_pair) \<times> 'g quantum_link" where
  "harvest next l =
     (let h = \<lparr>hs_a = replicate RAW_BYTES 0, hs_b = replicate RAW_BYTES 0, hs_filled = 0, hs_checks = 0,
               hs_errors = 0\<rparr>;
          (h, g) = harvest_rounds MAX_ROUNDS next (ql_model l) (ql_mode l) h (ql_rng l);
          l = l\<lparr>ql_rng := g\<rparr>
      in if hs_filled h < RAW_BITS \<or> hs_checks h < MIN_CHECKS then (Inl InsufficientSamples, l)
         else
           let qber_ppm = hs_errors h * 1000000 div hs_checks h
           in if QBER_ABORT_PPM < qber_ppm then (Inl (QberExceeded qber_ppm), l)
              else
                let (leaked, raw_b) = reconcile (hs_a h) (hs_b h) RAW_BITS
                in if hs_a h \<noteq> raw_b then (Inl ReconciliationFailed, l)
                   else
                     let eve_bits = nat \<lfloor>real RAW_BITS * binary_entropy qber_ppm\<rfloor>;
                         secure_bits = RAW_BITS - eve_bits - leaked - PA_SAFETY_BITS
                     in if secure_bits < KEY_BLOCK_BITS then (Inl (InsufficientSecrecy secure_bits), l)
                        else
                          (Inr \<lparr>kb_seq = ql_next_seq l,
                                kb_a = toeplitz_compress (hs_a h) (replicate KEY_BLOCK_BYTES 0),
                                kb_b = toeplitz_compress raw_b (replicate KEY_BLOCK_BYTES 0),
                                kb_qber_ppm = qber_ppm, kb_leaked_bits = leaked,
                                kb_secure_bits = secure_bits\<rparr>,
                           l\<lparr>ql_next_seq := ql_next_seq l + 1\<rparr>))"

section \<open>Bits of a buffer\<close>

lemma get_bit_eq: "get_bit buf i = of_bool (bit (buf ! (i div 8)) (i mod 8))"
  by (rule bit_word_eqI) (auto simp: get_bit_def bit_simps)

lemma length_flip_bit [simp]: "length (flip_bit i buf) = length buf"
  by (simp add: flip_bit_def)

lemma get_bit_flip:
  assumes "i < 8 * length buf" and "j < 8 * length buf"
  shows "get_bit (flip_bit i buf) j = (if i = j then get_bit buf j XOR 1 else get_bit buf j)"
proof -
  have l: "i div 8 < length buf" using assms(1) by (simp add: less_mult_imp_div_less mult.commute)
  have "i = j \<longleftrightarrow> i div 8 = j div 8 \<and> i mod 8 = j mod 8" by (metis div_mult_mod_eq)
  then show ?thesis
    using l by (cases "i div 8 = j div 8")
      (auto simp: get_bit_eq flip_bit_def bit_simps nth_list_update)
qed

definition bit_errors :: "bytes \<Rightarrow> bytes \<Rightarrow> nat set" where
  "bit_errors a b = {i. i < 8 * length b \<and> get_bit a i \<noteq> get_bit b i}"

lemma bit_errors_flip:
  assumes "i \<in> bit_errors a b"
  shows "bit_errors a (flip_bit i b) = bit_errors a b - {i}"
proof -
  have i: "i < 8 * length b" "get_bit a i \<noteq> get_bit b i" using assms by (simp_all add: bit_errors_def)
  then have "get_bit a i = get_bit b i XOR 1" by (auto simp: get_bit_eq)
  then show ?thesis using i by (auto simp: bit_errors_def get_bit_flip split: if_split_asm)
qed

lemma bit_errors_empty:
  assumes "length a = length b"
  shows "bit_errors a b = {} \<longleftrightarrow> a = b"
proof
  assume e: "bit_errors a b = {}"
  show "a = b"
  proof (rule nth_equalityI [OF assms], rule bit_word_eqI)
    fix i n
    assume i: "i < length a" and n: "n < LENGTH(8)"
    then have "8 * i + n \<notin> bit_errors a b" and "8 * i + n < 8 * length b" using assms by (simp_all add: e)
    then show "bit (a ! i) n \<longleftrightarrow> bit (b ! i) n"
      using n by (cases "bit (a ! i) n"; cases "bit (b ! i) n") (simp_all add: bit_errors_def get_bit_eq)
  qed
qed (simp add: bit_errors_def)

section \<open>Parities and the halving search\<close>

lemma parity_fold: "fold (\<lambda>i p. p XOR f i) xs p = p XOR fold (\<lambda>i p. p XOR f i) xs (0 :: u8)"
  by (induction xs rule: rev_induct) (simp_all add: xor.assoc)

lemma ec_parity_split:
  assumes "lo \<le> mid" and "mid \<le> hi"
  shows "ec_parity perm buf lo hi = ec_parity perm buf lo mid XOR ec_parity perm buf mid hi"
proof -
  have "[lo..<hi] = [lo..<mid] @ [mid..<hi]" using assms by (metis le_add_diff_inverse upt_add_eq_append)
  then show ?thesis
    unfolding ec_parity_def
    using parity_fold [of "\<lambda>i. get_bit buf (perm i)" "[mid..<hi]" "fold (\<lambda>i p. p XOR get_bit buf (perm i)) [lo..<mid] 0"]
    by simp
qed

lemma ec_parity_one [simp]: "ec_parity perm buf lo (Suc lo) = get_bit buf (perm lo)"
  by (simp add: ec_parity_def)

lemma ec_search_finds:
  assumes "hi = lo + 2 ^ k" and "ec_parity perm a lo hi \<noteq> ec_parity perm b lo hi"
  shows "\<exists>r. ec_search perm a b lo hi leaked = (r, leaked + k) \<and> lo \<le> r \<and> r < hi
    \<and> get_bit a (perm r) \<noteq> get_bit b (perm r)"
  using assms
proof (induction k arbitrary: lo hi leaked)
  case 0
  then show ?case by (simp add: ec_search.simps)
next
  case (Suc k)
  let ?mid = "lo + 2 ^ k"
  have "(1 :: nat) \<le> 2 ^ k" by simp
  then have mid: "(lo + hi) div 2 = ?mid" "1 < hi - lo" using Suc.prems(1) unfolding power_Suc by linarith+
  show ?case
  proof (cases "ec_parity perm a lo ?mid = ec_parity perm b lo ?mid")
    case True
    have "ec_parity perm a ?mid hi \<noteq> ec_parity perm b ?mid hi"
      using Suc.prems(2) True ec_parity_split [of lo ?mid hi perm a] ec_parity_split [of lo ?mid hi perm b]
      by (auto simp: Suc.prems(1))
    then obtain r where "ec_search perm a b ?mid hi (leaked + 1) = (r, leaked + 1 + k)" "?mid \<le> r" "r < hi"
      "get_bit a (perm r) \<noteq> get_bit b (perm r)"
      using Suc.IH [of hi ?mid "leaked + 1"] Suc.prems(1) by auto
    then show ?thesis using True mid by (subst ec_search.simps) (auto simp: Let_def)
  next
    case False
    then obtain r where "ec_search perm a b lo ?mid (leaked + 1) = (r, leaked + 1 + k)" "lo \<le> r" "r < ?mid"
      "get_bit a (perm r) \<noteq> get_bit b (perm r)"
      using Suc.IH [of ?mid lo "leaked + 1"] by auto
    then show ?thesis using False mid Suc.prems(1) by (subst ec_search.simps) (auto simp: Let_def)
  qed
qed

lemma ec_chunk_effect:
  assumes "chunk_bits = 2 ^ k" and "\<And>i. perm i < 8 * length b" and "ec_chunk perm a chunk_bits c (n, b) = (n', b')"
  shows "n' \<le> n + Suc k" and "length b' = length b"
    and "b' = b \<and> ec_parity perm a (c * chunk_bits) ((c + 1) * chunk_bits) = ec_parity perm b (c * chunk_bits) ((c + 1) * chunk_bits)
      \<or> (\<exists>r. b' = flip_bit (perm r) b \<and> perm r \<in> bit_errors a b \<and> c * chunk_bits \<le> r \<and> r < (c + 1) * chunk_bits)"
proof -
  let ?lo = "c * chunk_bits" and ?hi = "(c + 1) * chunk_bits"
  have "n' \<le> n + Suc k \<and> length b' = length b \<and> (b' = b \<and> ec_parity perm a ?lo ?hi = ec_parity perm b ?lo ?hi
      \<or> (\<exists>r. b' = flip_bit (perm r) b \<and> perm r \<in> bit_errors a b \<and> ?lo \<le> r \<and> r < ?hi))"
  proof (cases "ec_parity perm a ?lo ?hi = ec_parity perm b ?lo ?hi")
    case True
    then show ?thesis using assms(3) by (auto simp: ec_chunk_def Let_def)
  next
    case False
    have "?hi = ?lo + 2 ^ k" by (simp add: assms(1))
    then obtain r where r: "ec_search perm a b ?lo ?hi (n + 1) = (r, n + 1 + k)" "?lo \<le> r" "r < ?hi"
      "get_bit a (perm r) \<noteq> get_bit b (perm r)"
      using ec_search_finds [OF _ False, of k "n + 1"] by blast
    have "b' = flip_bit (perm r) b" "n' = n + 1 + k"
      using assms(3) r(1) False by (simp_all add: ec_chunk_def)
    moreover have "perm r \<in> bit_errors a b" using r(4) assms(2) by (simp add: bit_errors_def)
    ultimately show ?thesis using r(2,3) by auto
  qed
  then show "n' \<le> n + Suc k" and "length b' = length b"
    and "b' = b \<and> ec_parity perm a ?lo ?hi = ec_parity perm b ?lo ?hi
      \<or> (\<exists>r. b' = flip_bit (perm r) b \<and> perm r \<in> bit_errors a b \<and> ?lo \<le> r \<and> r < ?hi)" by auto
qed

text \<open>
  What every step of reconciliation keeps: the length, no new error, at most \<open>k\<close> more parities.
\<close>

definition reconciles :: "bytes \<Rightarrow> nat \<Rightarrow> nat \<times> bytes \<Rightarrow> nat \<times> bytes \<Rightarrow> bool" where
  "reconciles a k st st' \<longleftrightarrow> fst st' \<le> fst st + k \<and> length (snd st') = length (snd st)
     \<and> bit_errors a (snd st') \<subseteq> bit_errors a (snd st) \<and> (bit_errors a (snd st) = {} \<longrightarrow> snd st' = snd st)"

lemma reconciles_refl: "reconciles a 0 st st"
  by (simp add: reconciles_def)

lemma reconciles_trans:
  "reconciles a k st st1 \<Longrightarrow> reconciles a k' st1 st2 \<Longrightarrow> reconciles a (k + k') st st2"
  by (auto simp: reconciles_def)

lemma reconciles_mono: "reconciles a k st st' \<Longrightarrow> k \<le> k' \<Longrightarrow> reconciles a k' st st'"
  by (auto simp: reconciles_def)

lemma reconciles_fold:
  assumes "\<And>x st. x \<in> set xs \<Longrightarrow> length (snd st) = n \<Longrightarrow> reconciles a k st (f x st)" and "length (snd st) = n"
  shows "reconciles a (k * length xs) st (fold f xs st)"
  using assms
proof (induction xs arbitrary: st)
  case (Cons x xs)
  have x: "reconciles a k st (f x st)" using Cons.prems by simp
  then have "length (snd (f x st)) = n" using Cons.prems(2) by (simp add: reconciles_def)
  then have "reconciles a (k * length xs) (f x st) (fold f xs (f x st))" using Cons by simp
  from reconciles_trans [OF x this] show ?case by simp
qed (simp add: reconciles_refl)

lemma ec_chunk_reconciles:
  assumes "chunk_bits = 2 ^ k" and "\<And>i. perm i < 8 * length (snd st)"
  shows "reconciles a (Suc k) st (ec_chunk perm a chunk_bits c st)"
proof -
  obtain n b n' b' where st: "st = (n, b)" "ec_chunk perm a chunk_bits c (n, b) = (n', b')" by (metis surj_pair)
  have "\<And>i. perm i < 8 * length b" using assms(2) st by simp
  from ec_chunk_effect [OF assms(1) this st(2)] show ?thesis
    by (auto simp: reconciles_def st bit_errors_flip)
qed

lemma ec_perm_bound: "0 < nbits \<Longrightarrow> nbits \<le> m \<Longrightarrow> ec_perm nbits mul r i < m"
  unfolding ec_perm_def by (meson mod_less_divisor order_less_le_trans)

lemma ec_pass_reconciles:
  assumes "0 < nbits" and "nbits \<le> 8 * length (snd st)" and "cb = 2 ^ k"
  shows "reconciles a (Suc k * (nbits div cb)) st (ec_pass a nbits rnd (cb, mul0) st)"
proof -
  have "reconciles a (Suc k * length [0..<nbits div cb]) st
      (fold (ec_chunk (ec_perm nbits (mul0 * (1 + 2 * rnd)) rnd) a cb) [0..<nbits div cb] st)"
    by (rule reconciles_fold [of _ "length (snd st)"])
      (use assms in \<open>auto intro!: ec_chunk_reconciles ec_perm_bound\<close>)
  then show ?thesis by (simp add: ec_pass_def)
qed

definition ec_cost :: "nat \<Rightarrow> nat" where
  "ec_cost nbits = 5 * (nbits div 16) + 6 * (nbits div 32) + 7 * (nbits div 64) + 8 * (nbits div 128) + 9 * (nbits div 256)"

lemma ec_super_round_reconciles:
  assumes "0 < nbits" and "nbits \<le> 8 * length (snd st)"
  shows "reconciles a (ec_cost nbits) st (fold (ec_pass a nbits rnd) ec_passes st)"
proof -
  note p = ec_pass_reconciles [OF assms(1)]
  let ?f = "ec_pass a nbits rnd"
  define s1 where "s1 = ?f (16, 1) st"
  define s2 where "s2 = ?f (32, 1237) s1"
  define s3 where "s3 = ?f (64, 797) s2"
  define s4 where "s4 = ?f (128, 1531) s3"
  have r1: "reconciles a (5 * (nbits div 16)) st s1"
    unfolding s1_def using p [OF assms(2), of 16 4] by simp
  have l1: "nbits \<le> 8 * length (snd s1)" using r1 assms(2) by (simp add: reconciles_def)
  have r2: "reconciles a (6 * (nbits div 32)) s1 s2" unfolding s2_def using p [OF l1, of 32 5] by simp
  have l2: "nbits \<le> 8 * length (snd s2)" using r2 l1 by (simp add: reconciles_def)
  have r3: "reconciles a (7 * (nbits div 64)) s2 s3" unfolding s3_def using p [OF l2, of 64 6] by simp
  have l3: "nbits \<le> 8 * length (snd s3)" using r3 l2 by (simp add: reconciles_def)
  have r4: "reconciles a (8 * (nbits div 128)) s3 s4" unfolding s4_def using p [OF l3, of 128 7] by simp
  have l4: "nbits \<le> 8 * length (snd s4)" using r4 l3 by (simp add: reconciles_def)
  have r5: "reconciles a (9 * (nbits div 256)) s4 (?f (256, 389) s4)" using p [OF l4, of 256 8] by simp
  have "fold ?f ec_passes st = ?f (256, 389) s4" by (simp add: ec_passes_def s1_def s2_def s3_def s4_def)
  then show ?thesis
    using reconciles_trans [OF reconciles_trans [OF reconciles_trans [OF reconciles_trans [OF r1 r2] r3] r4] r5]
    by (simp add: ec_cost_def)
qed

lemma ec_rounds_reconciles:
  assumes "0 < nbits" and "nbits \<le> 8 * length (snd st)"
  shows "reconciles a (ec_cost nbits * length rs) st (ec_rounds rs a nbits st)"
  using assms(2)
proof (induction rs arbitrary: st)
  case (Cons r rs)
  show ?case
  proof (cases "a = snd st")
    case False
    let ?st = "fold (ec_pass a nbits r) ec_passes st"
    have r: "reconciles a (ec_cost nbits) st ?st" by (rule ec_super_round_reconciles [OF assms(1) Cons.prems])
    then have "nbits \<le> 8 * length (snd ?st)" using Cons.prems by (simp add: reconciles_def)
    from reconciles_trans [OF r Cons.IH [OF this]] False show ?thesis by simp
  qed (simp add: reconciles_mono [OF reconciles_refl])
qed (simp add: reconciles_refl)

lemma reconcile_reconciles:
  assumes "0 < nbits" and "nbits \<le> 8 * length b"
  shows "reconciles a (12 * ec_cost nbits) (0, b) (reconcile a b nbits)"
proof -
  have "reconciles a (ec_cost nbits * length [0..<EC_MAX_ROUNDS]) (0, b) (reconcile a b nbits)"
    unfolding reconcile_def by (rule ec_rounds_reconciles) (use assms in simp_all)
  then show ?thesis by (simp add: EC_MAX_ROUNDS_def mult.commute)
qed

lemma ec_cost_raw: "12 * ec_cost RAW_BITS = 34752"
  by (simp add: ec_cost_def qphy_consts)

lemma reconcile_leaked: "length b = RAW_BYTES \<Longrightarrow> fst (reconcile a b RAW_BITS) \<le> 34752"
  using reconcile_reconciles [of RAW_BITS b a] unfolding ec_cost_raw
  by (simp add: reconciles_def) (simp add: qphy_consts)

text \<open>
  C30. Reconciliation only corrects: whatever the two keys, it keeps the length, never turns an
  agreeing bit into an error, leaves equal keys alone without publishing a parity, and publishes
  at most twelve times the cost of the five passes (34752 parities on a raw key, so its counter
  cannot wrap).
\<close>

theorem reconcile_only_corrects:
  assumes "0 < nbits" and "nbits \<le> 8 * length b"
  shows "case reconcile a b nbits of (leaked, b') \<Rightarrow>
    length b' = length b \<and> bit_errors a b' \<subseteq> bit_errors a b \<and> leaked \<le> 12 * ec_cost nbits
    \<and> (a \<noteq> b \<or> (leaked = 0 \<and> b' = b))"
proof -
  have "reconciles a (12 * ec_cost nbits) (0, b) (reconcile a b nbits)" by (rule reconcile_reconciles [OF assms])
  moreover have "ec_rounds rs b nbits (0, b) = (0, b)" for rs by (cases rs) simp_all
  then have "reconcile b b nbits = (0, b)" by (simp add: reconcile_def)
  ultimately show ?thesis by (cases "a = b") (auto simp: reconciles_def split: prod.split)
qed

theorem reconcile_only_corrects_witness:
  "case reconcile [0] [1] 8 of (leaked, b') \<Rightarrow>
    length b' = length [1 :: u8] \<and> bit_errors [0] b' \<subseteq> bit_errors [0] [1] \<and> leaked \<le> 12 * ec_cost 8
    \<and> ([0] \<noteq> [1 :: u8] \<or> (leaked = 0 \<and> b' = [1]))"
  by (rule reconcile_only_corrects) simp_all

section \<open>Sparse errors are all corrected\<close>

definition sparse_errors :: "nat set \<Rightarrow> bool" where
  "sparse_errors E \<longleftrightarrow> inj_on (\<lambda>i. i div 16) E"

lemma xor_sandwich:
  assumes "p XOR (x XOR q) = p XOR (y XOR q)" shows "x = (y :: u8)"
proof (rule bit_word_eqI)
  fix i
  have "bit (p XOR (x XOR q)) i \<longleftrightarrow> bit (p XOR (y XOR q)) i" by (simp only: assms)
  then show "bit x i \<longleftrightarrow> bit y i" by (auto simp: bit_xor_iff)
qed

lemma parity_one_error:
  assumes "\<And>i. lo \<le> i \<Longrightarrow> i < hi \<Longrightarrow> i \<noteq> e \<Longrightarrow> get_bit a (perm i) = get_bit b (perm i)"
    and "lo \<le> e" and "e < hi" and "get_bit a (perm e) \<noteq> get_bit b (perm e)"
  shows "ec_parity perm a lo hi \<noteq> ec_parity perm b lo hi"
proof -
  have same: "ec_parity perm a l h = ec_parity perm b l h" if "\<And>i. l \<le> i \<Longrightarrow> i < h \<Longrightarrow> get_bit a (perm i) = get_bit b (perm i)" for l h
    unfolding ec_parity_def by (rule fold_cong) (use that in auto)
  have "ec_parity perm x lo hi = ec_parity perm x lo e XOR (get_bit x (perm e) XOR ec_parity perm x (Suc e) hi)" for x
    using assms(2,3) ec_parity_split [of lo e hi perm x] ec_parity_split [of e "Suc e" hi perm x] by simp
  moreover have "ec_parity perm a lo e = ec_parity perm b lo e" "ec_parity perm a (Suc e) hi = ec_parity perm b (Suc e) hi"
    using assms(1-3) by (auto intro!: same)
  ultimately show ?thesis using assms(4) xor_sandwich by metis
qed

lemma ec_first_pass:
  assumes "sparse_errors (bit_errors a b)" and "16 * m = 8 * length b" and "c \<le> m"
    and "\<And>i. i < 8 * length b \<Longrightarrow> perm i = i" and "\<And>i. perm i < 8 * length b"
  shows "bit_errors a (snd (fold (ec_chunk perm a 16) [0..<c] (n, b))) = bit_errors a b - {..<16 * c}
    \<and> length (snd (fold (ec_chunk perm a 16) [0..<c] (n, b))) = length b"
  using assms(3)
proof (induction c)
  case (Suc c)
  obtain n1 b1 where b1: "fold (ec_chunk perm a 16) [0..<c] (n, b) = (n1, b1)" by fastforce
  have e1: "bit_errors a b1 = bit_errors a b - {..<16 * c}" and l1: "length b1 = length b" using Suc b1 by simp_all
  obtain n2 b2 where b2: "ec_chunk perm a 16 c (n1, b1) = (n2, b2)" by fastforce
  have pb: "\<And>i. perm i < 8 * length b1" using assms(5) l1 by simp
  note ch = ec_chunk_effect [of 16 4 perm b1 a c n1 n2 b2, OF _ pb b2, simplified]
  have in_range: "perm i = i" if "i < (c + 1) * 16" for i using that assms(2,4) Suc.prems by simp
  show ?case
  proof (cases "\<exists>e \<in> bit_errors a b1. e div 16 = c")
    case True
    then obtain e where e: "e \<in> bit_errors a b1" "e div 16 = c" by blast
    have r: "16 * c \<le> e" "e < 16 * c + 16" using e(2) by auto
    have only: "i = e" if "i \<in> bit_errors a b1" "i div 16 = c" for i
      using assms(1) that e e1 by (auto simp: sparse_errors_def inj_on_def)
    have "ec_parity perm a (c * 16) (16 + c * 16) \<noteq> ec_parity perm b1 (c * 16) (16 + c * 16)"
    proof (rule parity_one_error [of _ _ e])
      fix i assume i: "c * 16 \<le> i" "i < 16 + c * 16" "i \<noteq> e"
      then have "i div 16 = c" by auto
      then show "get_bit a (perm i) = get_bit b1 (perm i)"
        using only [of i] i in_range [of i] pb [of i] by (auto simp: bit_errors_def)
    next
      show "get_bit a (perm e) \<noteq> get_bit b1 (perm e)" using e in_range [of e] r by (simp add: bit_errors_def)
    qed (use r in simp_all)
    then obtain r' where r': "b2 = flip_bit (perm r') b1" "perm r' \<in> bit_errors a b1" "c * 16 \<le> r'" "r' < 16 + c * 16"
      using ch(3) by auto
    have "r' = e" using only [of r'] r' in_range [of r'] by auto
    then have "bit_errors a b2 = bit_errors a b1 - {e}" using r' bit_errors_flip [of e a b1] in_range [of e] r by simp
    also have "\<dots> = bit_errors a b - {..<16 * Suc c}"
    proof (rule set_eqI)
      fix i
      have "i = e" if "i \<in> bit_errors a b" "16 * c \<le> i" "i < 16 * c + 16"
        using only [of i] that by (simp add: e1 div_nat_eqI)
      then show "i \<in> bit_errors a b1 - {e} \<longleftrightarrow> i \<in> bit_errors a b - {..<16 * Suc c}"
        using r by (cases "i \<in> bit_errors a b"; simp add: e1 not_less; linarith)
    qed
    finally show ?thesis using b1 b2 ch(2) l1 by simp
  next
    case False
    then have none: "i \<notin> bit_errors a b1" if "16 * c \<le> i" "i < 16 * c + 16" for i using that by fastforce
    have "b2 = b1"
    proof (rule ccontr)
      assume "b2 \<noteq> b1"
      then obtain r' where "perm r' \<in> bit_errors a b1" "c * 16 \<le> r'" "r' < 16 + c * 16" using ch(3) by auto
      then show False using none [of r'] in_range [of r'] by simp
    qed
    moreover have "bit_errors a b1 = bit_errors a b - {..<16 * Suc c}" using e1 none by fastforce
    ultimately show ?thesis using b1 b2 l1 by simp
  qed
qed simp

lemma first_pass_corrects:
  assumes "length a = length b" and "sparse_errors (bit_errors a b)" and "16 * m = 8 * length b" and "0 < length b"
  shows "snd (ec_pass a (8 * length b) 0 (16, 1) (n, b)) = a"
proof -
  let ?perm = "ec_perm (8 * length b) 1 0"
  have p: "\<And>i. i < 8 * length b \<Longrightarrow> ?perm i = i" "\<And>i. ?perm i < 8 * length b"
    using assms(4) by (simp_all add: ec_perm_def)
  have m: "8 * length b div 16 = m" using assms(3) by simp
  have "bit_errors a b \<subseteq> {..<16 * m}" using assms(3) by (auto simp: bit_errors_def)
  then have "bit_errors a (snd (ec_pass a (8 * length b) 0 (16, 1) (n, b))) = {}
      \<and> length (snd (ec_pass a (8 * length b) 0 (16, 1) (n, b))) = length b"
    using ec_first_pass [OF assms(2,3) order_refl p, of n] m by (auto simp: ec_pass_def)
  then show ?thesis using bit_errors_empty [of a] assms(1) by metis
qed

text \<open>
  Sparse errors are all corrected: if no two of the errors lie in the same aligned group of
  sixteen bits, the other end has the same key afterwards.
\<close>

theorem reconcile_corrects_sparse:
  assumes "length a = length b" and "even (length b)" and "sparse_errors (bit_errors a b)"
  shows "snd (reconcile a b (8 * length b)) = a"
proof (cases "length b = 0 \<or> a = b")
  case True
  have "ec_rounds rs b n (0, b) = (0, b)" for rs n by (cases rs) simp_all
  then show ?thesis using True assms(1) by (auto simp: reconcile_def)
next
  case False
  let ?N = "8 * length b" and ?f = "ec_pass a (8 * length b)"
  obtain m where m: "16 * m = ?N" using assms(2) by (elim evenE) simp
  have N: "0 < ?N" using False by simp
  have pos: "0 < length b" using False by simp
  obtain n1 where s1: "?f 0 (16, 1) (0, b) = (n1, a)"
    using first_pass_corrects [OF assms(1,3) m pos, of 0] by (metis prod.collapse)
  have keep: "\<exists>n'. ?f 0 (2 ^ k, mul0) (n, a) = (n', a)" for k mul0 n
    using ec_pass_reconciles [OF N _ refl, of "(n, a)" a k 0 mul0] assms(1)
    by (cases "?f 0 (2 ^ k, mul0) (n, a)") (simp add: reconciles_def bit_errors_def)
  obtain n3 where s3: "?f 0 (32, 1237) (n1, a) = (n3, a)" using keep [of 5 1237 n1] by auto
  obtain n4 where s4: "?f 0 (64, 797) (n3, a) = (n4, a)" using keep [of 6 797 n3] by auto
  obtain n5 where s5: "?f 0 (128, 1531) (n4, a) = (n5, a)" using keep [of 7 1531 n4] by auto
  obtain n2 where s6: "?f 0 (256, 389) (n5, a) = (n2, a)" using keep [of 8 389 n5] by auto
  have s2: "fold (?f 0) ec_passes (0, b) = (n2, a)" by (simp add: ec_passes_def s1 [unfolded One_nat_def] s3 s4 s5 s6)
  have "ec_rounds rs a ?N (n2, a) = (n2, a)" for rs by (cases rs) simp_all
  moreover have "[0..<EC_MAX_ROUNDS] = 0 # [1..<EC_MAX_ROUNDS]" by (simp add: EC_MAX_ROUNDS_def upt_conv_Cons)
  ultimately show ?thesis using False by (simp add: reconcile_def s2)
qed

theorem reconcile_corrects_sparse_witness:
  "snd (reconcile [90, 90, 90, 90] [91, 90, 88, 90] (8 * length [91, 90, 88, 90 :: u8])) = [90, 90, 90, 90]"
proof (rule reconcile_corrects_sparse)
  have "[91, 90, 88, 90] = flip_bit 17 (flip_bit 0 [90, 90, 90, 90])" by (simp add: flip_bit_def)
  then have "bit_errors [90, 90, 90, 90] [91, 90, 88, 90] \<subseteq> {0, 17}"
    by (auto simp: bit_errors_def get_bit_flip split: if_split_asm)
  moreover have "inj_on (\<lambda>i :: nat. i div 16) {0, 17}" by simp
  ultimately show "sparse_errors (bit_errors [90, 90, 90, 90] [91, 90, 88, 90])"
    unfolding sparse_errors_def by (rule inj_on_subset [rotated])
qed simp_all

section \<open>The Toeplitz hash\<close>

text \<open>The diagonals of the matrix: the bits of the public seed.\<close>

definition toeplitz_matrix :: "nat \<Rightarrow> nat \<Rightarrow> bool" where
  "toeplitz_matrix i j =
     (let k = i + (RAW_BITS - 1) - j
      in bit (toeplitz_seed SEED_BYTES (xorshift_new PA_SEED) ! (k div 8)) (k mod 8))"

lemma toeplitz_diag_eq: "toeplitz_diag seed k = of_bool (bit (seed ! (k div 8)) (k mod 8))"
  by (rule bit_word_eqI) (auto simp: toeplitz_diag_def bit_simps)

lemma fold_parity:
  "fold (\<lambda>j acc. acc XOR of_bool (P j)) [0..<n] (0 :: u8) = of_bool (odd (card {j. j < n \<and> P j}))"
proof (induction n)
  case (Suc n)
  have "{j. j < Suc n \<and> P j} = (if P n then insert n {j. j < n \<and> P j} else {j. j < n \<and> P j})"
    by (auto simp: less_Suc_eq)
  then show ?case using Suc by simp
qed simp

lemma toeplitz_row_eq:
  "toeplitz_row (toeplitz_diag (toeplitz_seed SEED_BYTES (xorshift_new PA_SEED))) raw i
   = of_bool (odd (card {j. j < RAW_BITS \<and> bit (raw ! (j div 8)) (j mod 8) \<and> toeplitz_matrix i j}))"
proof -
  have and_bool: "(of_bool p :: u8) AND of_bool q = of_bool (p \<and> q)" for p q by (cases p; cases q) simp_all
  show ?thesis
    unfolding toeplitz_row_def get_bit_eq toeplitz_diag_eq and_bool fold_parity toeplitz_matrix_def Let_def ..
qed

lemma flips_get_bit:
  assumes "n \<le> 8 * length out" and "\<And>i. i < 8 * length out \<Longrightarrow> get_bit out i = 0" and "j < 8 * length out"
  shows "get_bit (fold (\<lambda>i out. if P i then flip_bit i out else out) [0..<n] out) j = of_bool (j < n \<and> P j)
    \<and> length (fold (\<lambda>i out. if P i then flip_bit i out else out) [0..<n] out) = length out"
  using assms(1)
proof (induction n)
  case (Suc n)
  then show ?case using assms(3) by (auto simp: get_bit_flip less_Suc_eq)
qed (use assms in simp)

lemma toeplitz_compress_bits:
  assumes "length out = KEY_BLOCK_BYTES" and "i < KEY_BLOCK_BITS"
  shows "get_bit (toeplitz_compress raw out) i
     = of_bool (odd (card {j. j < RAW_BITS \<and> bit (raw ! (j div 8)) (j mod 8) \<and> toeplitz_matrix i j}))
   \<and> length (toeplitz_compress raw out) = KEY_BLOCK_BYTES"
proof -
  let ?row = "toeplitz_row (toeplitz_diag (toeplitz_seed SEED_BYTES (xorshift_new PA_SEED))) raw"
  have z: "get_bit (map (\<lambda>_. 0) out) k = 0" if "k < 8 * length (map (\<lambda>_. 0 :: u8) out)" for k
    using that by (simp add: get_bit_eq less_mult_imp_div_less mult.commute)
  have "get_bit (fold (\<lambda>i out. if ?row i \<noteq> 0 then flip_bit i out else out) [0..<KEY_BLOCK_BITS] (map (\<lambda>_. 0) out)) i
        = of_bool (i < KEY_BLOCK_BITS \<and> ?row i \<noteq> 0)
      \<and> length (fold (\<lambda>i out. if ?row i \<noteq> 0 then flip_bit i out else out) [0..<KEY_BLOCK_BITS] (map (\<lambda>_. 0) out))
        = length (map (\<lambda>_. 0 :: u8) out)"
    by (rule flips_get_bit [OF _ z]) (use assms in \<open>simp_all add: qphy_consts\<close>)
  then show ?thesis
    using assms unfolding toeplitz_compress_def Let_def by (simp add: toeplitz_row_eq)
qed

lemma toeplitz_compress_length [simp]: "length out = KEY_BLOCK_BYTES \<Longrightarrow> length (toeplitz_compress raw out) = KEY_BLOCK_BYTES"
  using toeplitz_compress_bits [of out 0 raw] by (simp add: qphy_consts)

text \<open>
  Privacy amplification multiplies the raw key by a fixed Toeplitz matrix over GF(2): bit
  \<open>i\<close> of the block is the parity of the raw bits \<open>j\<close> at which row \<open>i\<close> of the matrix has a one,
  for every raw key and whatever the output buffer held, and the matrix is constant along its
  diagonals.
\<close>

theorem toeplitz_is_matrix_product:
  assumes "length out = KEY_BLOCK_BYTES" and "i < KEY_BLOCK_BITS"
  shows "get_bit (toeplitz_compress raw out) i
      = of_bool (odd (card {j. j < RAW_BITS \<and> get_bit raw j = 1 \<and> toeplitz_matrix i j}))
    \<and> toeplitz_matrix (Suc i) (Suc k) = toeplitz_matrix i k"
  using toeplitz_compress_bits [OF assms, of raw] by (simp add: get_bit_eq toeplitz_matrix_def)

theorem toeplitz_is_matrix_product_witness:
  "get_bit (toeplitz_compress (replicate 512 90) (replicate 256 7)) 3
      = of_bool (odd (card {j. j < RAW_BITS \<and> get_bit (replicate 512 90) j = 1 \<and> toeplitz_matrix 3 j}))
    \<and> toeplitz_matrix (Suc 3) (Suc 5) = toeplitz_matrix 3 5"
  by (rule toeplitz_is_matrix_product) (simp_all add: qphy_consts)

lemma get_bit_xor:
  assumes "j < 8 * length x" and "length x = length y"
  shows "get_bit (xor_bytes x y) j = get_bit x j XOR get_bit y j"
proof -
  have "j div 8 < length x" using assms(1) by (simp add: less_mult_imp_div_less mult.commute)
  then show ?thesis using assms(2) by (simp add: get_bit_def drop_bit_xor bit.conj_xor_distrib2)
qed

lemma fold_xor_both:
  "fold (\<lambda>j acc. acc XOR (f j XOR g j)) xs (a XOR b)
   = fold (\<lambda>j acc. acc XOR f j) xs (a :: u8) XOR fold (\<lambda>j acc. acc XOR g j) xs b"
proof (induction xs arbitrary: a b)
  case (Cons j xs)
  have "(a XOR b) XOR (f j XOR g j) = (a XOR f j) XOR (b XOR g j)" by (simp add: ac_simps)
  then show ?case using Cons by simp
qed simp

lemma toeplitz_row_xor:
  assumes "length x = RAW_BYTES" and "length y = RAW_BYTES"
  shows "toeplitz_row t (xor_bytes x y) i = toeplitz_row t x i XOR toeplitz_row t y i"
proof -
  have "toeplitz_row t (xor_bytes x y) i
      = fold (\<lambda>j acc. acc XOR ((get_bit x j AND t (i + (RAW_BITS - 1) - j)) XOR (get_bit y j AND t (i + (RAW_BITS - 1) - j))))
          [0..<RAW_BITS] 0"
    unfolding toeplitz_row_def
    by (rule fold_cong) (use assms in \<open>auto simp: get_bit_xor RAW_BITS_def bit.conj_xor_distrib2\<close>)
  then show ?thesis unfolding toeplitz_row_def using fold_xor_both [of _ _ "[0..<RAW_BITS]" 0 0] by simp
qed

text \<open>
  Privacy amplification is linear over GF(2): the hash of the XOR of two raw keys is the XOR
  of their hashes.
\<close>

theorem toeplitz_linear:
  assumes "length x = RAW_BYTES" and "length y = RAW_BYTES" and "length out = KEY_BLOCK_BYTES"
  shows "toeplitz_compress (xor_bytes x y) out = xor_bytes (toeplitz_compress x out) (toeplitz_compress y out)"
proof -
  let ?t = "toeplitz_diag (toeplitz_seed SEED_BYTES (xorshift_new PA_SEED))"
  have row: "get_bit (toeplitz_compress raw out) i = toeplitz_row ?t raw i" if "i < KEY_BLOCK_BITS" for raw i
    using toeplitz_compress_bits [OF assms(3) that, of raw] by (simp add: toeplitz_row_eq)
  have "get_bit (toeplitz_compress (xor_bytes x y) out) i
      = get_bit (xor_bytes (toeplitz_compress x out) (toeplitz_compress y out)) i" if "i < KEY_BLOCK_BITS" for i
    using that assms(3) by (simp add: row toeplitz_row_xor [OF assms(1,2)] get_bit_xor KEY_BLOCK_BITS_def)
  then have "bit_errors (toeplitz_compress (xor_bytes x y) out)
      (xor_bytes (toeplitz_compress x out) (toeplitz_compress y out)) = {}"
    using assms(3) by (auto simp: bit_errors_def KEY_BLOCK_BITS_def)
  then show ?thesis using bit_errors_empty assms(3) by simp
qed

theorem toeplitz_linear_witness:
  "toeplitz_compress (xor_bytes (replicate 512 90) (replicate 512 7)) (replicate 256 0)
   = xor_bytes (toeplitz_compress (replicate 512 90) (replicate 256 0)) (toeplitz_compress (replicate 512 7) (replicate 256 0))"
  by (rule toeplitz_linear) (simp_all add: qphy_consts)

section \<open>Harvesting\<close>

text \<open>The branches of \<open>harvest\<close>, in the order the code takes them.\<close>

definition harvest_start :: harvest_state where
  "harvest_start = \<lparr>hs_a = replicate RAW_BYTES 0, hs_b = replicate RAW_BYTES 0, hs_filled = 0,
     hs_checks = 0, hs_errors = 0\<rparr>"

definition secure_bits_of :: "nat \<Rightarrow> nat \<Rightarrow> nat" where
  "secure_bits_of qber leaked =
     RAW_BITS - nat \<lfloor>real RAW_BITS * binary_entropy qber\<rfloor> - leaked - PA_SAFETY_BITS"

lemma harvest_cases:
  fixes nx :: "'g entropy" and l :: "'g quantum_link"
  defines "hg \<equiv> harvest_rounds MAX_ROUNDS nx (ql_model l) (ql_mode l) harvest_start (ql_rng l)"
  defines "h \<equiv> fst hg" and "q \<equiv> hs_errors (fst hg) * 1000000 div hs_checks (fst hg)"
  defines "rb \<equiv> reconcile (hs_a (fst hg)) (hs_b (fst hg)) RAW_BITS"
  shows "harvest nx l =
     (if hs_filled h < RAW_BITS \<or> hs_checks h < MIN_CHECKS then (Inl InsufficientSamples, l\<lparr>ql_rng := snd hg\<rparr>)
      else if QBER_ABORT_PPM < q then (Inl (QberExceeded q), l\<lparr>ql_rng := snd hg\<rparr>)
      else if hs_a h \<noteq> snd rb then (Inl ReconciliationFailed, l\<lparr>ql_rng := snd hg\<rparr>)
      else if secure_bits_of q (fst rb) < KEY_BLOCK_BITS
        then (Inl (InsufficientSecrecy (secure_bits_of q (fst rb))), l\<lparr>ql_rng := snd hg\<rparr>)
      else (Inr \<lparr>kb_seq = ql_next_seq l,
                 kb_a = toeplitz_compress (hs_a h) (replicate KEY_BLOCK_BYTES 0),
                 kb_b = toeplitz_compress (snd rb) (replicate KEY_BLOCK_BYTES 0),
                 kb_qber_ppm = q, kb_leaked_bits = fst rb, kb_secure_bits = secure_bits_of q (fst rb)\<rparr>,
            l\<lparr>ql_rng := snd hg, ql_next_seq := ql_next_seq l + 1\<rparr>))"
  unfolding harvest_def harvest_start_def [symmetric] h_def q_def rb_def hg_def secure_bits_of_def
  by (simp add: Let_def case_prod_beta)

section \<open>The rounds of a block\<close>

text \<open>
  The reference for \<open>harvest\<close> keeps the whole history of rounds, each with the decision whether it
  is a check, and reads everything else off it: the raw keys are the sifted bits of the key
  rounds, the statistics count the sifted checks and those whose two results differ.
\<close>

definition round_bits :: "(qround \<Rightarrow> u8) \<Rightarrow> bool \<times> qround \<Rightarrow> u8 list" where
  "round_bits side cr =
     (let (check, r) = cr
      in if \<not> check \<and> rd_sifted r then map (\<lambda>k. drop_bit k (side r) AND 1) [0..<unat (rd_nbits r)] else [])"

definition key_bits :: "(qround \<Rightarrow> u8) \<Rightarrow> (bool \<times> qround) list \<Rightarrow> u8 list" where
  "key_bits side tr = take RAW_BITS (concat (map (round_bits side) tr))"

definition check_count :: "(bool \<times> qround) list \<Rightarrow> nat" where
  "check_count tr = length (filter (\<lambda>(check, r). check \<and> rd_sifted r) tr)"

definition error_count :: "(bool \<times> qround) list \<Rightarrow> nat" where
  "error_count tr = length (filter (\<lambda>(check, r). check \<and> rd_sifted r \<and> rd_a r \<noteq> rd_b r) tr)"

definition enough_rounds :: "(bool \<times> qround) list \<Rightarrow> bool" where
  "enough_rounds tr \<longleftrightarrow> length (key_bits rd_a tr) = RAW_BITS \<and> MIN_CHECKS \<le> check_count tr"

definition error_rate :: "(bool \<times> qround) list \<Rightarrow> nat" where
  "error_rate tr = error_count tr * 1000000 div check_count tr"

fun link_trace ::
  "nat \<Rightarrow> 'g entropy \<Rightarrow> channel_model \<Rightarrow> key_mode \<Rightarrow> (bool \<times> qround) list \<Rightarrow> 'g \<Rightarrow> (bool \<times> qround) list \<times> 'g" where
  "link_trace 0 next m mode tr g = (tr, g)"
| "link_trace (Suc n) next m mode tr g =
     (if enough_rounds tr then (tr, g)
      else
        let (chosen, g) = chance_ppm next CHECK_PPM g; check = (chosen \<or> length (key_bits rd_a tr) = RAW_BITS);
            (r, g) = (if check then round_entanglement m next g else key_round next m mode g)
        in link_trace n next m mode (tr @ [(check, r)]) g)"

definition holds_bits :: "bytes \<Rightarrow> u8 list \<Rightarrow> bool" where
  "holds_bits buf bits \<longleftrightarrow> length buf = RAW_BYTES \<and> length bits \<le> RAW_BITS
     \<and> (\<forall>i < RAW_BITS. get_bit buf i = (if i < length bits then bits ! i else 0))"

lemma holds_bits_snoc:
  assumes "holds_bits buf bits" and "length bits < RAW_BITS"
  shows "holds_bits (if drop_bit k w AND 1 = (1 :: u8) then flip_bit (length bits) buf else buf) (bits @ [drop_bit k w AND 1])"
proof -
  have "drop_bit k w AND 1 = of_bool (bit w k)" by (rule bit_word_eqI) (auto simp: bit_simps)
  then show ?thesis
    using assms by (auto simp: holds_bits_def get_bit_flip nth_append RAW_BITS_def)
qed

lemma fill_bits_holds:
  assumes "holds_bits (hs_a h) as" and "holds_bits (hs_b h) bs" and "length as = hs_filled h" and "length bs = hs_filled h"
  shows "holds_bits (hs_a (fill_bits ks r h)) (take RAW_BITS (as @ map (\<lambda>k. drop_bit k (rd_a r) AND 1) ks))
    \<and> holds_bits (hs_b (fill_bits ks r h)) (take RAW_BITS (bs @ map (\<lambda>k. drop_bit k (rd_b r) AND 1) ks))
    \<and> hs_filled (fill_bits ks r h) = min RAW_BITS (hs_filled h + length ks)
    \<and> hs_checks (fill_bits ks r h) = hs_checks h \<and> hs_errors (fill_bits ks r h) = hs_errors h"
  using assms
proof (induction ks arbitrary: h as bs)
  case Nil
  then show ?case by (simp add: holds_bits_def min_def)
next
  case (Cons k ks)
  show ?case
  proof (cases "RAW_BITS \<le> hs_filled h")
    case True
    then show ?thesis using Cons.prems by (simp add: holds_bits_def min_def)
  next
    case False
    define h1 where "h1 = h\<lparr>hs_a := if drop_bit k (rd_a r) AND 1 = 1 then flip_bit (hs_filled h) (hs_a h) else hs_a h,
      hs_b := if drop_bit k (rd_b r) AND 1 = 1 then flip_bit (hs_filled h) (hs_b h) else hs_b h,
      hs_filled := hs_filled h + 1\<rparr>"
    have "fill_bits (k # ks) r h = fill_bits ks r h1" using False by (simp add: h1_def Let_def)
    moreover have "holds_bits (hs_a h1) (as @ [drop_bit k (rd_a r) AND 1])" "holds_bits (hs_b h1) (bs @ [drop_bit k (rd_b r) AND 1])"
      using holds_bits_snoc [OF Cons.prems(1), of k "rd_a r"] holds_bits_snoc [OF Cons.prems(2), of k "rd_b r"]
        Cons.prems(3,4) False by (simp_all add: h1_def split: if_splits)
    ultimately show ?thesis
      using Cons.IH [of h1 "as @ [drop_bit k (rd_a r) AND 1]" "bs @ [drop_bit k (rd_b r) AND 1]"] Cons.prems(3,4)
      by (simp add: h1_def)
  qed
qed

definition follows :: "harvest_state \<Rightarrow> (bool \<times> qround) list \<Rightarrow> bool" where
  "follows h tr \<longleftrightarrow> holds_bits (hs_a h) (key_bits rd_a tr) \<and> holds_bits (hs_b h) (key_bits rd_b tr)
     \<and> hs_filled h = length (key_bits rd_a tr) \<and> length (key_bits rd_b tr) = length (key_bits rd_a tr)
     \<and> hs_checks h = check_count tr \<and> hs_errors h = error_count tr"

lemma key_bits_snoc: "key_bits side (tr @ [cr]) = take RAW_BITS (key_bits side tr @ round_bits side cr)"
  by (simp add: key_bits_def min_def)

lemma length_key_bits: "length (key_bits side tr) \<le> RAW_BITS"
  by (simp add: key_bits_def)

lemma key_bits_no_bits: "round_bits side cr = [] \<Longrightarrow> key_bits side (tr @ [cr]) = key_bits side tr"
  by (simp add: key_bits_def)

lemma follows_round:
  assumes "follows h tr" and "chance_ppm next CHECK_PPM g = (chosen, g1)"
    and "check = (chosen \<or> length (key_bits rd_a tr) = RAW_BITS)"
    and "(if check then round_entanglement m next g1 else key_round next m mode g1) = (r, g2)"
  shows "follows (fst (harvest_round next m mode h g)) (tr @ [(check, r)]) \<and> snd (harvest_round next m mode h g) = g2"
proof -
  have full: "RAW_BITS \<le> hs_filled h \<longleftrightarrow> length (key_bits rd_a tr) = RAW_BITS"
    using assms(1) length_key_bits [of rd_a tr] by (auto simp: follows_def)
  show ?thesis
  proof (cases "check \<or> \<not> rd_sifted r")
    case True
    then have "round_bits side (check, r) = []" for side by (auto simp: round_bits_def)
    then show ?thesis
      using assms True full
      by (auto simp: harvest_round_def follows_def key_bits_no_bits check_count_def error_count_def split: if_splits)
  next
    case False
    let ?ks = "[0..<unat (rd_nbits r)]"
    have b: "round_bits side (check, r) = map (\<lambda>k. drop_bit k (side r) AND 1) ?ks" for side
      using False by (simp add: round_bits_def)
    have step: "harvest_round next m mode h g = (fill_bits ?ks r h, g2)"
      using assms False full by (simp add: harvest_round_def)
    have "check_count (tr @ [(check, r)]) = check_count tr" "error_count (tr @ [(check, r)]) = error_count tr"
      using False by (simp_all add: check_count_def error_count_def)
    then show ?thesis
      using fill_bits_holds [of h "key_bits rd_a tr" "key_bits rd_b tr" ?ks r] assms(1)
      unfolding step follows_def key_bits_snoc b by (simp add: min.commute)
  qed
qed

lemma follows_trace:
  assumes "follows h tr"
  shows "case link_trace n next m mode tr g of (tr', g') \<Rightarrow>
    follows (fst (harvest_rounds n next m mode h g)) tr' \<and> snd (harvest_rounds n next m mode h g) = g'"
  using assms
proof (induction n arbitrary: h tr g)
  case (Suc n)
  have e: "RAW_BITS \<le> hs_filled h \<and> MIN_CHECKS \<le> hs_checks h \<longleftrightarrow> enough_rounds tr"
    using Suc.prems length_key_bits [of rd_a tr] by (auto simp: follows_def enough_rounds_def)
  show ?case
  proof (cases "enough_rounds tr")
    case False
    obtain chosen g1 where c: "chance_ppm next CHECK_PPM g = (chosen, g1)" by fastforce
    define check where "check = (chosen \<or> length (key_bits rd_a tr) = RAW_BITS)"
    obtain r g2 where r: "(if check then round_entanglement m next g1 else key_round next m mode g1) = (r, g2)" by fastforce
    obtain h1 where h1: "harvest_round next m mode h g = (h1, g2)" "follows h1 (tr @ [(check, r)])"
      using follows_round [OF Suc.prems c check_def r] by (metis prod.collapse)
    have "harvest_rounds (Suc n) next m mode h g = harvest_rounds n next m mode h1 g2"
      unfolding harvest_rounds.simps e using False h1(1) by simp
    moreover have "link_trace (Suc n) next m mode tr g = link_trace n next m mode (tr @ [(check, r)]) g2"
      using False c r by (simp add: check_def)
    ultimately show ?thesis using Suc.IH [OF h1(2), of g2] by simp
  qed (use Suc.prems e in simp)
qed simp

lemma follows_start: "follows harvest_start []"
  by (simp add: follows_def harvest_start_def holds_bits_def key_bits_def check_count_def error_count_def
      get_bit_def RAW_BITS_def less_mult_imp_div_less)


section \<open>What a block is\<close>

text \<open>
  A raw key holds the first \<open>RAW_BITS\<close> key bits of its side; a block is its product with the Toeplitz
  matrix; of the raw bits, those count as known to others that the error rate may have leaked, those
  published as parities, and the safety margin.
\<close>

definition raw_key :: "bytes \<Rightarrow> u8 list \<Rightarrow> bool" where
  "raw_key buf bits \<longleftrightarrow> holds_bits buf bits \<and> length bits = RAW_BITS"

definition compressed_key :: "bytes \<Rightarrow> bytes \<Rightarrow> bool" where
  "compressed_key raw block \<longleftrightarrow> length block = KEY_BLOCK_BYTES
     \<and> (\<forall>i < KEY_BLOCK_BITS. get_bit block i
          = of_bool (odd (card {j. j < RAW_BITS \<and> get_bit raw j = 1 \<and> toeplitz_matrix i j})))"

lemma compressed_key: "length out = KEY_BLOCK_BYTES \<Longrightarrow> compressed_key raw (toeplitz_compress raw out)"
  using toeplitz_compress_bits [of out _ raw] by (simp add: compressed_key_def get_bit_eq)

definition raw_keys :: "(bool \<times> qround) list \<Rightarrow> bytes \<Rightarrow> bytes \<Rightarrow> bool" where
  "raw_keys tr x y \<longleftrightarrow> raw_key x (key_bits rd_a tr) \<and> raw_key y (key_bits rd_b tr)"

definition known_bits :: "nat \<Rightarrow> nat \<Rightarrow> nat" where
  "known_bits rate leaked = nat \<lfloor>real RAW_BITS * binary_entropy rate\<rfloor> + leaked + PA_SAFETY_BITS"

lemma error_rate_le: "error_rate tr \<le> 1000000"
proof (cases "check_count tr = 0")
  case False
  have "error_count tr \<le> check_count tr"
    unfolding error_count_def check_count_def by (induction tr) auto
  then have "error_count tr * 1000000 div check_count tr \<le> check_count tr * 1000000 div check_count tr"
    by (intro div_le_mono) simp
  with False show ?thesis by (simp add: error_rate_def)
qed (simp add: error_rate_def)

text \<open>
  C29. \<open>harvest\<close> delivers a block exactly when every check passes, and otherwise names the first that
  fails; all checks are stated on the history of rounds.  A block is there only if the key rounds
  filled the raw keys and at least 256 checks were sifted, the rate of differing checks is at most 11
  percent, and reconciliation made the two raw keys equal; both ends then hold the Toeplitz
  product of the raw key, 256 bytes, under the next sequence number, and the raw bits are split
  without remainder into what eavesdropping may have leaked at that rate, the published parities (at
  most 34752), the margin and the secure bits, of which there are at least as many as the block has.
  An error leaves the sequence number, and carries the value that fails.
\<close>

theorem harvest_delivers_equal_keys:
  "case link_trace MAX_ROUNDS next (ql_model l) (ql_mode l) [] (ql_rng l) of (tr, g) \<Rightarrow>
   case harvest next l of (result, l') \<Rightarrow>
     ql_rng l' = g \<and>
     (case result of
        Inr b \<Rightarrow> ql_next_seq l' = ql_next_seq l + 1 \<and> kb_seq b = ql_next_seq l
          \<and> enough_rounds tr \<and> kb_qber_ppm b = error_rate tr \<and> error_rate tr \<le> QBER_ABORT_PPM
          \<and> (\<exists>x y. raw_keys tr x y \<and> reconcile x y RAW_BITS = (kb_leaked_bits b, x) \<and> compressed_key x (kb_a b))
          \<and> kb_b b = kb_a b \<and> kb_leaked_bits b \<le> 34752
          \<and> kb_secure_bits b + known_bits (error_rate tr) (kb_leaked_bits b) = RAW_BITS
          \<and> KEY_BLOCK_BITS \<le> kb_secure_bits b
      | Inl e \<Rightarrow> ql_next_seq l' = ql_next_seq l \<and>
          (case e of
             InsufficientSamples \<Rightarrow> \<not> enough_rounds tr
           | QberExceeded q \<Rightarrow> enough_rounds tr \<and> q = error_rate tr \<and> QBER_ABORT_PPM < q \<and> q \<le> 1000000
           | ReconciliationFailed \<Rightarrow> enough_rounds tr \<and> error_rate tr \<le> QBER_ABORT_PPM
               \<and> (\<exists>x y. raw_keys tr x y \<and> snd (reconcile x y RAW_BITS) \<noteq> x)
           | InsufficientSecrecy n \<Rightarrow> enough_rounds tr \<and> error_rate tr \<le> QBER_ABORT_PPM
               \<and> (\<exists>x y leaked. raw_keys tr x y \<and> reconcile x y RAW_BITS = (leaked, x)
                    \<and> n = RAW_BITS - known_bits (error_rate tr) leaked \<and> n < KEY_BLOCK_BITS)
           | NoDevice \<Rightarrow> False))"
proof -
  let ?hg = "harvest_rounds MAX_ROUNDS next (ql_model l) (ql_mode l) harvest_start (ql_rng l)"
  obtain tr g where tr: "link_trace MAX_ROUNDS next (ql_model l) (ql_mode l) [] (ql_rng l) = (tr, g)" by fastforce
  define h where "h = fst ?hg"
  have h: "?hg = (h, g)" "follows h tr"
    using follows_trace [OF follows_start, of MAX_ROUNDS "next" "ql_model l" "ql_mode l" "ql_rng l"]
    by (simp_all add: tr h_def prod_eq_iff)
  have few: "hs_filled h < RAW_BITS \<or> hs_checks h < MIN_CHECKS \<longleftrightarrow> \<not> enough_rounds tr"
    using h(2) length_key_bits [of rd_a tr] by (auto simp: follows_def enough_rounds_def)
  have rate: "hs_errors h * 1000000 div hs_checks h = error_rate tr"
    using h(2) by (simp add: follows_def error_rate_def)
  have keys: "raw_keys tr (hs_a h) (hs_b h)" if "enough_rounds tr"
    using h(2) that by (simp add: follows_def raw_keys_def raw_key_def enough_rounds_def)
  obtain leaked b where rb: "reconcile (hs_a h) (hs_b h) RAW_BITS = (leaked, b)" by fastforce
  have leaked: "leaked \<le> 34752" using reconcile_leaked [of "hs_b h" "hs_a h"] h(2) rb by (simp add: follows_def holds_bits_def)
  have secure: "secure_bits_of q leaked = RAW_BITS - known_bits q leaked" for q by (simp add: secure_bits_of_def known_bits_def)
  note harvest = harvest_cases [of "next" l, unfolded h(1) fst_conv snd_conv rate few rb secure]
  consider "\<not> enough_rounds tr" | "enough_rounds tr" "QBER_ABORT_PPM < error_rate tr"
    | "enough_rounds tr" "error_rate tr \<le> QBER_ABORT_PPM" "hs_a h \<noteq> b"
    | "enough_rounds tr" "error_rate tr \<le> QBER_ABORT_PPM" "hs_a h = b"
        "RAW_BITS - known_bits (error_rate tr) leaked < KEY_BLOCK_BITS"
    | "enough_rounds tr" "error_rate tr \<le> QBER_ABORT_PPM" "hs_a h = b"
        "KEY_BLOCK_BITS \<le> RAW_BITS - known_bits (error_rate tr) leaked"
    by linarith
  then show ?thesis
  proof cases
    case 1
    then show ?thesis using harvest by (simp add: tr)
  next
    case 2
    then show ?thesis using harvest error_rate_le [of tr] by (simp add: tr)
  next
    case 3
    have "\<exists>x y. raw_keys tr x y \<and> snd (reconcile x y RAW_BITS) \<noteq> x"
      using keys [OF 3(1)] 3(3) rb by (intro exI conjI) auto
    then show ?thesis using harvest 3 by (simp add: tr)
  next
    case 4
    have "\<exists>x y leaked'. raw_keys tr x y \<and> reconcile x y RAW_BITS = (leaked', x)
        \<and> RAW_BITS - known_bits (error_rate tr) leaked = RAW_BITS - known_bits (error_rate tr) leaked'
        \<and> RAW_BITS - known_bits (error_rate tr) leaked < KEY_BLOCK_BITS"
      using keys [OF 4(1)] 4(3,4) rb by blast
    then show ?thesis using harvest 4(1-4) by (simp add: tr)
  next
    case 5
    have "\<exists>x y. raw_keys tr x y \<and> reconcile x y RAW_BITS = (leaked, x)
        \<and> compressed_key x (toeplitz_compress b (replicate KEY_BLOCK_BYTES 0))"
      using keys [OF 5(1)] 5(3) rb compressed_key [of "replicate KEY_BLOCK_BYTES 0" "hs_a h"] by auto
    moreover have "RAW_BITS - known_bits (error_rate tr) leaked + known_bits (error_rate tr) leaked = RAW_BITS"
      using 5(4) by (simp add: qphy_consts)
    ultimately show ?thesis using harvest 5 leaked by (simp add: tr not_less)
  qed
qed

theorem harvest_delivers_equal_keys_witness:
  "case harvest xorshift_next (link_new (xorshift_new 7) IDEAL Teleportation) of
     (Inr b, l) \<Rightarrow> ql_next_seq l = 1 \<and> kb_b b = kb_a b \<and> length (kb_a b) = 256 \<and> kb_secure_bits b \<le> 4032
   | (Inl e, l) \<Rightarrow> ql_next_seq l = 0 \<and> e \<noteq> NoDevice"
  using harvest_delivers_equal_keys [of "link_new (xorshift_new 7) IDEAL Teleportation" xorshift_next]
  by (auto simp: link_new_def compressed_key_def known_bits_def qphy_consts PA_SAFETY_BITS_def
      split: sum.splits prod.splits phy_error.splits)

section \<open>The ideal channel end to end\<close>

lemma key_round_ideal:
  assumes "rd_sifted (fst (key_round next IDEAL mode g))"
  shows "rd_a (fst (key_round next IDEAL mode g)) = rd_b (fst (key_round next IDEAL mode g))"
  using assms ideal_entanglement ideal_superdense ideal_teleport by (cases mode) simp_all

definition in_agreement :: "harvest_state \<Rightarrow> bool" where
  "in_agreement h \<longleftrightarrow> hs_a h = hs_b h \<and> hs_errors h = 0"

lemma fill_bits_agree: "rd_a r = rd_b r \<Longrightarrow> in_agreement h \<Longrightarrow> in_agreement (fill_bits ks r h)"
  by (induction ks arbitrary: h) (simp_all add: Let_def in_agreement_def)

lemma harvest_round_agree:
  assumes "in_agreement h"
  shows "in_agreement (fst (harvest_round next IDEAL mode h g))"
proof -
  obtain c g1 where c: "chance_ppm next CHECK_PPM g = (c, g1)" by fastforce
  obtain r g2 where r: "round_entanglement IDEAL next g1 = (r, g2)" by fastforce
  obtain r' g3 where r': "key_round next IDEAL mode g1 = (r', g3)" by fastforce
  have "rd_sifted r \<Longrightarrow> rd_a r = rd_b r" using ideal_entanglement [of "next" g1] r by simp
  moreover have "rd_sifted r' \<Longrightarrow> rd_a r' = rd_b r'" using key_round_ideal [of "next" mode g1] r' by simp
  moreover have "in_agreement (h\<lparr>hs_checks := Suc (hs_checks h)\<rparr>)" using assms by (simp add: in_agreement_def)
  ultimately show ?thesis
    using assms fill_bits_agree by (auto simp: harvest_round_def c r r')
qed

lemma harvest_rounds_agree:
  "in_agreement h \<Longrightarrow> in_agreement (fst (harvest_rounds n next IDEAL mode h g))"
proof (induction n arbitrary: h g)
  case (Suc n)
  obtain h1 g1 where s: "harvest_round next IDEAL mode h g = (h1, g1)" by fastforce
  then have "in_agreement h1" using harvest_round_agree [OF Suc.prems, of "next" mode g] by simp
  then show ?case using Suc.IH [of h1 g1] Suc.prems s by simp
qed simp

lemma binary_entropy_0 [simp]: "binary_entropy 0 = 0"
  by (simp add: binary_entropy_def Let_def)

text \<open>
  Without noise and without an eavesdropper nothing is lost: in every key mode and for every
  random source, \<open>harvest\<close> on the ideal channel either runs out of rounds or delivers a block
  with error rate zero, no published parity and 4032 secure bits; it never suspects an
  eavesdropper and reconciliation never fails.
\<close>

theorem harvest_ideal_channel:
  assumes "ql_model l = IDEAL"
  shows "fst (harvest next l) = Inl InsufficientSamples
    \<or> (\<exists>b. fst (harvest next l) = Inr b \<and> kb_a b = kb_b b \<and> kb_qber_ppm b = 0
          \<and> kb_leaked_bits b = 0 \<and> kb_secure_bits b = 4032)"
proof -
  let ?h = "fst (harvest_rounds MAX_ROUNDS next IDEAL (ql_mode l) harvest_start (ql_rng l))"
  have "in_agreement ?h" by (rule harvest_rounds_agree) (simp add: in_agreement_def harvest_start_def)
  then have h: "hs_b ?h = hs_a ?h" "hs_errors ?h = 0" by (simp_all add: in_agreement_def)
  have "reconcile b b n = (0, b)" for b n by (cases "[0..<EC_MAX_ROUNDS]") (simp_all add: reconcile_def)
  moreover have "secure_bits_of 0 0 = 4032" by (simp add: secure_bits_of_def qphy_consts PA_SAFETY_BITS_def)
  ultimately show ?thesis unfolding harvest_cases assms h by (simp add: qphy_consts)
qed

theorem harvest_ideal_channel_witness:
  "fst (harvest xorshift_next (link_new (xorshift_new 7) IDEAL Teleportation)) = Inl InsufficientSamples
    \<or> (\<exists>b. fst (harvest xorshift_next (link_new (xorshift_new 7) IDEAL Teleportation)) = Inr b
          \<and> kb_a b = kb_b b \<and> kb_qber_ppm b = 0 \<and> kb_leaked_bits b = 0 \<and> kb_secure_bits b = 4032)"
  by (rule harvest_ideal_channel) (simp add: link_new_def)

section \<open>The entropy table\<close>

definition h2 :: "real \<Rightarrow> real" where
  "h2 p = - p * log 2 p - (1 - p) * log 2 (1 - p)"

lemma log2_le_minus: "0 < x \<Longrightarrow> x < 1 \<Longrightarrow> log 2 x \<le> x - 1"
proof -
  assume x: "0 < x" "x < 1"
  have l2: "0 < ln (2 :: real)" "ln (2 :: real) \<le> 1" using ln_le_minus_one [of "2 :: real"] by simp_all
  have "ln x \<le> x - 1" by (rule ln_le_minus_one) (use x in simp)
  moreover have "ln x / ln 2 \<le> ln x" using x l2 by (simp add: divide_le_eq mult_le_cancel_left2)
  ultimately show ?thesis by (simp add: log_def)
qed

text \<open>
  The interpolated entropy is not an upper bound: at an error rate of half a percent the code
  charges less than the binary entropy that an eavesdropper may hold (the straight line between
  two points of a concave curve lies below it), so fewer bits are subtracted than the bound
  requires.
\<close>

theorem binary_entropy_underestimates: "binary_entropy 5000 < h2 (5 / 1000)"
proof -
  have b: "binary_entropy 5000 = 404 / 10000" by (simp add: binary_entropy_def Let_def)
  have "log 2 ((2 :: real) ^ 38) \<le> log 2 (200 ^ 5)" by (subst log_le_cancel_iff) simp_all
  then have "38 * log 2 (2 :: real) \<le> 5 * log 2 200" by (simp only: log_nat_power zero_less_numeral of_nat_numeral)
  then have "log 2 (200 :: real) \<ge> 38 / 5" by simp
  moreover have "log 2 (5 / 1000 :: real) = - log 2 200" using log_inverse [of 2 200] by (simp add: inverse_eq_divide)
  ultimately have "- (5 / 1000) * log 2 (5 / 1000 :: real) \<ge> 38 / 1000" by simp
  moreover have "log 2 (995 / 1000 :: real) \<le> - (5 / 1000)" using log2_le_minus [of "995 / 1000"] by simp
  then have "- (995 / 1000) * log 2 (995 / 1000 :: real) \<ge> 995 / 1000 * (5 / 1000)" by simp
  ultimately show ?thesis by (simp add: b h2_def)
qed

end
