(* ===== verification/Drivers.thy ===== *)
theory Drivers
  imports Prelude
begin

text \<open>
  The core drivers (\<open>kernel/drivers_core/src/lib.rs\<close>): the 16550 serial port, the timer and the
  serial console on them.  The I/O ports are outside the program: a bus is the log of all
  \<open>outb\<close>, the number of \<open>inb\<close> so far, and the value the devices give to each of them.  The loop
  that waits for the transmitter has fuel, and \<open>None\<close> stands for still waiting.
\<close>

unbundle bit_operations_syntax

section \<open>Ports\<close>

record bus =
  bus_out :: "(u16 \<times> u8) list"
  bus_reads :: nat
  bus_in :: "nat \<Rightarrow> u16 \<Rightarrow> u8"

definition outb :: "u16 \<Rightarrow> u8 \<Rightarrow> bus \<Rightarrow> bus" where
  "outb port val b = b\<lparr>bus_out := bus_out b @ [(port, val)]\<rparr>"

definition inb :: "u16 \<Rightarrow> bus \<Rightarrow> u8 \<times> bus" where
  "inb port b = (bus_in b (bus_reads b) port, b\<lparr>bus_reads := bus_reads b + 1\<rparr>)"

section \<open>The serial port\<close>

definition COM1_BASE :: u16 where "COM1_BASE = 0x3F8"

definition uart_init :: "u16 \<Rightarrow> bus \<Rightarrow> bus" where
  "uart_init base b =
     (let b = outb (base + 1) 0x00 b; b = outb (base + 3) 0x80 b; b = outb (base + 0) 0x01 b;
          b = outb (base + 1) 0x00 b; b = outb (base + 3) 0x03 b; b = outb (base + 2) 0xC7 b
      in outb (base + 4) 0x0B b)"

fun wait_ready :: "nat \<Rightarrow> u16 \<Rightarrow> bus \<Rightarrow> bus option" where
  "wait_ready 0 base b = None"
| "wait_ready (Suc fuel) base b =
     (let (status, b) = inb (base + 5) b in if status AND 0x20 = 0 then wait_ready fuel base b else Some b)"

definition write_byte :: "nat \<Rightarrow> u16 \<Rightarrow> u8 \<Rightarrow> bus \<Rightarrow> bus option" where
  "write_byte fuel base byte b =
     (case wait_ready fuel base b of None \<Rightarrow> None | Some b \<Rightarrow> Some (outb base byte b))"

definition NEWLINE :: u8 where "NEWLINE = 0x0A"
definition RETURN :: u8 where "RETURN = 0x0D"

fun write_str_raw :: "nat \<Rightarrow> u16 \<Rightarrow> bytes \<Rightarrow> bus \<Rightarrow> bus option" where
  "write_str_raw fuel base [] b = Some b"
| "write_str_raw fuel base (byte # bs) b =
     (case (if byte = NEWLINE then write_byte fuel base RETURN b else Some b) of
        None \<Rightarrow> None
      | Some b \<Rightarrow>
          (case write_byte fuel base byte b of None \<Rightarrow> None | Some b \<Rightarrow> write_str_raw fuel base bs b))"

section \<open>The timer\<close>

definition PIT_CHANNEL0 :: u16 where "PIT_CHANNEL0 = 0x40"
definition PIT_CMD :: u16 where "PIT_CMD = 0x43"
definition PIT_FREQ_HZ :: u32 where "PIT_FREQ_HZ = 1193182"

text \<open>\<open>None\<close> is the panic of a division by zero.\<close>

definition pit_set_frequency :: "u32 \<Rightarrow> bus \<Rightarrow> bus option" where
  "pit_set_frequency freq_hz b =
     (if freq_hz = 0 then None
      else
        let divisor = ucast (PIT_FREQ_HZ div freq_hz) :: u16;
            b = outb PIT_CMD 0x36 b;
            b = outb PIT_CHANNEL0 (ucast (divisor AND 0xFF)) b
        in Some (outb PIT_CHANNEL0 (ucast (drop_bit 8 divisor AND 0xFF)) b))"

section \<open>The console\<close>

record console =
  con_initialized :: bool
  con_bus :: bus

definition console_init :: "console \<Rightarrow> console option" where
  "console_init c =
     (case pit_set_frequency 100 (uart_init COM1_BASE (con_bus c)) of
        None \<Rightarrow> None
      | Some b \<Rightarrow> Some (c\<lparr>con_initialized := True, con_bus := b\<rparr>))"

text \<open>\<open>serial_write_str\<close> and \<open>serial_write_bytes\<close>: the same loop over the bytes.\<close>

definition serial_write_str :: "nat \<Rightarrow> bytes \<Rightarrow> console \<Rightarrow> ((unit + unit) \<times> console) option" where
  "serial_write_str fuel s c =
     (if \<not> con_initialized c then Some (Inl (), c)
      else case write_str_raw fuel COM1_BASE s (con_bus c) of
        None \<Rightarrow> None
      | Some b \<Rightarrow> Some (Inr (), c\<lparr>con_bus := b\<rparr>))"

fun write_bytes_loop :: "nat \<Rightarrow> bytes \<Rightarrow> bus \<Rightarrow> bus option" where
  "write_bytes_loop fuel [] b = Some b"
| "write_bytes_loop fuel (x # xs) b =
     (case (if x = NEWLINE then write_byte fuel COM1_BASE RETURN b else Some b) of
        None \<Rightarrow> None
      | Some b \<Rightarrow>
          (case write_byte fuel COM1_BASE x b of None \<Rightarrow> None | Some b \<Rightarrow> write_bytes_loop fuel xs b))"

definition serial_write_bytes :: "nat \<Rightarrow> bytes \<Rightarrow> console \<Rightarrow> ((unit + unit) \<times> console) option" where
  "serial_write_bytes fuel data c =
     (if \<not> con_initialized c then Some (Inl (), c)
      else case write_bytes_loop fuel data (con_bus c) of
        None \<Rightarrow> None
      | Some b \<Rightarrow> Some (Inr (), c\<lparr>con_bus := b\<rparr>))"

section \<open>What the console prints\<close>

definition crlf :: "bytes \<Rightarrow> bytes" where
  "crlf s = concat (map (\<lambda>x. if x = NEWLINE then [RETURN, NEWLINE] else [x]) s)"

text \<open>The transmitter empties within \<open>k\<close> looks at the status register, wherever one starts.\<close>

definition uart_drains :: "nat \<Rightarrow> u16 \<Rightarrow> bus \<Rightarrow> bool" where
  "uart_drains k base b \<longleftrightarrow> (\<forall>n. \<exists>j < k. bus_in b (n + j) (base + 5) AND 0x20 \<noteq> 0)"

lemma wait_ready_ends:
  assumes "\<exists>j < k. bus_in b (bus_reads b + j) (base + 5) AND 0x20 \<noteq> 0"
  shows "\<exists>n. wait_ready k base b = Some (b\<lparr>bus_reads := n\<rparr>)"
  using assms
proof (induction k arbitrary: b)
  case (Suc k)
  show ?case
  proof (cases "bus_in b (bus_reads b) (base + 5) AND 0x20 = 0")
    case True
    from Suc.prems obtain j where j: "j < Suc k" "bus_in b (bus_reads b + j) (base + 5) AND 0x20 \<noteq> 0" by blast
    then have "j \<noteq> 0" using True by (cases j) simp_all
    then obtain i where i: "j = Suc i" by (cases j) simp_all
    let ?b = "b\<lparr>bus_reads := bus_reads b + 1\<rparr>"
    have "\<exists>j < k. bus_in ?b (bus_reads ?b + j) (base + 5) AND 0x20 \<noteq> 0" using i j by (intro exI [of _ i]) simp
    from Suc.IH [OF this] True show ?thesis by (simp add: inb_def)
  qed (auto simp: inb_def)
qed simp

lemma wait_ready_mono: "wait_ready k base b = Some b' \<Longrightarrow> k \<le> m \<Longrightarrow> wait_ready m base b = Some b'"
proof (induction k arbitrary: b m)
  case (Suc k)
  then show ?case by (cases m) (auto simp: inb_def split: if_splits)
qed simp

lemma write_byte_ends:
  assumes "uart_drains k base b" and "k \<le> fuel"
  shows "\<exists>n. write_byte fuel base x b = Some (b\<lparr>bus_reads := n, bus_out := bus_out b @ [(base, x)]\<rparr>)"
proof -
  obtain n where "wait_ready k base b = Some (b\<lparr>bus_reads := n\<rparr>)"
    using wait_ready_ends [of k b base] assms(1) by (auto simp: uart_drains_def)
  then have "wait_ready fuel base b = Some (b\<lparr>bus_reads := n\<rparr>)" using assms(2) by (rule wait_ready_mono)
  then show ?thesis by (auto simp: write_byte_def outb_def)
qed

lemma write_str_raw_ends:
  assumes "uart_drains k base b" and "k \<le> fuel"
  shows "\<exists>n. write_str_raw fuel base s b
    = Some (b\<lparr>bus_reads := n, bus_out := bus_out b @ map (Pair base) (crlf s)\<rparr>)"
  using assms(1)
proof (induction s arbitrary: b)
  case Nil
  show ?case by (rule exI [of _ "bus_reads b"]) (simp add: crlf_def)
next
  case (Cons x s)
  obtain n0 where n0: "write_byte fuel base RETURN b = Some (b\<lparr>bus_reads := n0, bus_out := bus_out b @ [(base, RETURN)]\<rparr>)"
    using write_byte_ends [OF Cons.prems assms(2)] by blast
  define b1 where "b1 = (if x = NEWLINE then b\<lparr>bus_reads := n0, bus_out := bus_out b @ [(base, RETURN)]\<rparr> else b)"
  have b1: "(if x = NEWLINE then write_byte fuel base RETURN b else Some b) = Some b1" "bus_in b1 = bus_in b"
    "bus_out b1 = bus_out b @ map (Pair base) (if x = NEWLINE then [RETURN] else [])"
    by (simp_all add: b1_def n0)
  have d1: "uart_drains k base b1" using Cons.prems b1(2) by (simp add: uart_drains_def)
  obtain n2 where b2: "write_byte fuel base x b1 = Some (b1\<lparr>bus_reads := n2, bus_out := bus_out b1 @ [(base, x)]\<rparr>)"
    using write_byte_ends [OF d1 assms(2)] by blast
  let ?b2 = "b1\<lparr>bus_reads := n2, bus_out := bus_out b1 @ [(base, x)]\<rparr>"
  have "uart_drains k base ?b2" using d1 by (simp add: uart_drains_def)
  from Cons.IH [OF this] obtain n3 where
    "write_str_raw fuel base s ?b2 = Some (?b2\<lparr>bus_reads := n3, bus_out := bus_out ?b2 @ map (Pair base) (crlf s)\<rparr>)" by blast
  moreover have "?b2\<lparr>bus_reads := n3, bus_out := bus_out ?b2 @ map (Pair base) (crlf s)\<rparr>
      = b\<lparr>bus_reads := n3, bus_out := bus_out b @ map (Pair base) (crlf (x # s))\<rparr>"
    by (rule bus.equality) (simp_all add: b1 crlf_def)
  ultimately have "write_str_raw fuel base (x # s) b
      = Some (b\<lparr>bus_reads := n3, bus_out := bus_out b @ map (Pair base) (crlf (x # s))\<rparr>)"
    by (simp only: write_str_raw.simps b1(1) b2 option.case)
  then show ?case by blast
qed

lemma write_bytes_loop_eq: "write_bytes_loop fuel s b = write_str_raw fuel COM1_BASE s b"
  by (induction s arbitrary: b) (simp_all split: option.split)

text \<open>
  C31. The console prints exactly the text: once it is initialised and while the transmitter
  drains within \<open>k\<close> looks at its status, printing ends, and what goes to the data port, after
  everything printed before, is the text with a carriage return before every line feed; nothing
  else is written to any port.  Before the initialisation it is refused and touches no port.
\<close>

theorem console_prints_text:
  assumes "uart_drains k COM1_BASE (con_bus c)" and "k \<le> fuel"
  shows "\<exists>r c'. serial_write_bytes fuel s c = Some (r, c') \<and> serial_write_str fuel s c = Some (r, c')
    \<and> bus_out (con_bus c') = bus_out (con_bus c) @ (if con_initialized c then map (Pair COM1_BASE) (crlf s) else [])
    \<and> (r = Inl () \<longleftrightarrow> \<not> con_initialized c) \<and> con_initialized c' = con_initialized c"
  using write_str_raw_ends [OF assms, of s]
  by (auto simp: serial_write_bytes_def serial_write_str_def write_bytes_loop_eq)

theorem console_prints_text_witness:
  "\<exists>r c'. serial_write_bytes 1 [72, NEWLINE] \<lparr>con_initialized = True, con_bus = \<lparr>bus_out = [], bus_reads = 0, bus_in = (\<lambda>_ _. 0x60)\<rparr>\<rparr> = Some (r, c')
    \<and> bus_out (con_bus c') = [(0x3F8, 72), (0x3F8, RETURN), (0x3F8, NEWLINE)]"
proof -
  have "uart_drains 1 COM1_BASE (con_bus \<lparr>con_initialized = True, con_bus = \<lparr>bus_out = [], bus_reads = 0, bus_in = (\<lambda>_ _. 0x60)\<rparr>\<rparr>)"
    by (simp add: uart_drains_def)
  from console_prints_text [OF this, of 1 "[72, NEWLINE]"] show ?thesis
    by (auto simp: crlf_def COM1_BASE_def NEWLINE_def RETURN_def)
qed

end
