(* ===== verification/Kernel.thy ===== *)
theory Kernel
  imports Syscall Distill Drivers
begin

text \<open>
  The monolithic kernel (\<open>kernel/src/lib.rs\<close>) and the statics of the network crate
  (\<open>kernel/net/src/lib.rs\<close>): the driver interface of the quantum link, the pump that moves a
  key block from the driver into the key lanes, \<open>kernel_main\<close> up to its endless loop and one
  round of that loop with the messages it prints, and the emergency wipe of the panic path.
\<close>

section \<open>The driver interface\<close>

record 'q quantum_link_driver =
  harvest_local :: "bytes \<Rightarrow> 'q \<Rightarrow> (phy_error + u64) \<times> bytes \<times> 'q"

definition qeda_chip_driver :: "unit quantum_link_driver" where
  "qeda_chip_driver = \<lparr>harvest_local = (\<lambda>out q. (Inl NoDevice, out, q))\<rparr>"

definition qkd_pump ::
  "'q quantum_link_driver \<Rightarrow> ipv4_addr \<Rightarrow> 'q \<Rightarrow> 'd net_stack \<Rightarrow> (phy_error + unit) \<times> 'q \<times> 'd net_stack" where
  "qkd_pump D peer drv s =
     (let blk = replicate KEY_BLOCK_BYTES 0; (r, blk, drv) = harvest_local D blk drv
      in case r of
           Inl e \<Rightarrow> (Inl e, drv, s)
         | Inr seqno \<Rightarrow> (Inr (), drv, snd (deposit_key_block peer seqno blk s)))"

section \<open>The statics and the boot\<close>

definition NODE_IP :: ipv4_addr where "NODE_IP = [10, 0, 0, 1]"
definition QLINK_PEER_IP :: ipv4_addr where "QLINK_PEER_IP = [10, 0, 0, 2]"
definition QLINK_ROLE :: link_role where "QLINK_ROLE = RoleA"
definition KERNEL_MAC :: mac_addr where "KERNEL_MAC = [0x02, 0x51, 0x4C, 0x00, 0x00, 0x01]"

definition KERNEL_NET :: "loopback net_stack spin_lock" where
  "KERNEL_NET = spin_new (stack_new (loopback_new KERNEL_MAC))"

record 'q machine =
  mc_kernel :: kernel
  mc_qphy :: "'q spin_lock"
  mc_initialized :: bool
  mc_console :: console

text \<open>The state the loader leaves: every static has its initial value, the memory any contents.\<close>

definition machine_reset :: "'q \<Rightarrow> user_mem \<Rightarrow> bus \<Rightarrow> 'q machine" where
  "machine_reset q m b =
     \<lparr>mc_kernel = \<lparr>k_net = KERNEL_NET, k_lo = 0, k_hi = 0, k_mem = m\<rparr>, mc_qphy = spin_new q,
      mc_initialized = False, mc_console = \<lparr>con_initialized = False, con_bus = b\<rparr>\<rparr>"

definition lock_net :: "(loopback net_stack \<Rightarrow> 'r \<times> loopback net_stack) \<Rightarrow> kernel \<Rightarrow> ('r \<times> kernel) option" where
  "lock_net body k =
     (case spin_atomic False LCas (k_net k) of
        (LHeld, l) \<Rightarrow> let (r, s) = body (guard_read l) in Some (r, k\<lparr>k_net := guard_drop (guard_write s l)\<rparr>)
      | _ \<Rightarrow> None)"

definition net_init :: "ipv4_addr \<Rightarrow> kernel \<Rightarrow> (unit \<times> kernel) option" where
  "net_init ip k = lock_net (\<lambda>s. ((), stack_configure ip s)) k"

definition emergency_zeroize :: "loopback net_stack spin_lock \<Rightarrow> loopback net_stack spin_lock" where
  "emergency_zeroize l =
     (case with_try_lock wipe_keys l of Some l \<Rightarrow> l | None \<Rightarrow> force_get_mut wipe_keys l)"

definition qkd_tick :: "'q quantum_link_driver \<Rightarrow> 'q machine \<Rightarrow> ((phy_error + unit) \<times> 'q machine) option" where
  "qkd_tick D mc =
     (case spin_atomic False LCas (mc_qphy mc) of
        (LHeld, lq) \<Rightarrow>
          (case lock_net (\<lambda>s. let (r, q, s) = qkd_pump D QLINK_PEER_IP (guard_read lq) s in ((r, q), s))
                  (mc_kernel mc) of
             None \<Rightarrow> None
           | Some ((r, q), k) \<Rightarrow>
               Some (r, mc\<lparr>mc_kernel := k, mc_qphy := guard_drop (guard_write q lq)\<rparr>))
      | _ \<Rightarrow> None)"

text \<open>
  \<open>kernel_main\<close> up to the loop; \<open>skernel\<close> and \<open>ekernel\<close> are the linker symbols.  \<open>Inl\<close> is the
  machine that halts because the kernel was entered a second time.
\<close>

definition BANNER :: bytes where
  "BANNER = map of_char ''QLinux monolithic kernel'' @ [NEWLINE]"

definition NO_LINK_MESSAGE :: bytes where
  "NO_LINK_MESSAGE = map of_char ''[qphy] quantum link not present: QTLS disabled'' @ [NEWLINE]"

definition print :: "nat \<Rightarrow> bytes \<Rightarrow> 'q machine \<Rightarrow> 'q machine option" where
  "print fuel s mc = map_option (\<lambda>(_, c). mc\<lparr>mc_console := c\<rparr>) (serial_write_str fuel s (mc_console mc))"

definition kernel_main ::
  "nat \<Rightarrow> 'q quantum_link_driver \<Rightarrow> u64 \<Rightarrow> u64 \<Rightarrow> 'q machine \<Rightarrow> ('q machine + 'q machine) option" where
  "kernel_main fuel D skernel ekernel mc =
     (if mc_initialized mc then Some (Inl mc)
      else
        let mc = mc\<lparr>mc_initialized := True\<rparr>
        in case console_init (mc_console mc) of
             None \<Rightarrow> None
           | Some c \<Rightarrow>
               (case print fuel BANNER (mc\<lparr>mc_console := c\<rparr>) of
                  None \<Rightarrow> None
                | Some mc \<Rightarrow>
                    (case net_init NODE_IP (mc_kernel mc) of
                       None \<Rightarrow> None
                     | Some (_, k) \<Rightarrow>
                         (case lock_net (register_peer QLINK_PEER_IP QLINK_ROLE) k of
                            None \<Rightarrow> None
                          | Some (_, k) \<Rightarrow>
                              (case qkd_tick D (mc\<lparr>mc_kernel := k\<rparr>) of
                                 None \<Rightarrow> None
                               | Some (r, mc) \<Rightarrow>
                                   (case (if r = Inl NoDevice then print fuel NO_LINK_MESSAGE mc else Some mc) of
                                      None \<Rightarrow> None
                                    | Some mc \<Rightarrow>
                                        Some (Inr (mc\<lparr>mc_kernel :=
                                          set_kernel_image skernel ekernel (mc_kernel mc)\<rparr>))))))))"

text \<open>
  The panic handler: the state in which the processor stops, in the final loop or, when the
  serial port never drains, while it prints; \<open>loc\<close> is the file of the panic, if known.
\<close>

definition PANIC_MESSAGE :: bytes where
  "PANIC_MESSAGE = NEWLINE # map of_char ''[KERNEL PANIC]'' @ [NEWLINE]"

definition kernel_panic :: "nat \<Rightarrow> bytes option \<Rightarrow> 'q machine \<Rightarrow> 'q machine" where
  "kernel_panic fuel loc mc =
     (let mc = mc\<lparr>mc_kernel := (mc_kernel mc)\<lparr>k_net := emergency_zeroize (k_net (mc_kernel mc))\<rparr>\<rparr>
      in case print fuel PANIC_MESSAGE mc of
           None \<Rightarrow> mc
         | Some mc \<Rightarrow>
             (case loc of
                None \<Rightarrow> mc
              | Some file \<Rightarrow> (case print fuel file mc of None \<Rightarrow> mc | Some mc \<Rightarrow> mc)))"

text \<open>One round of the loop, up to the \<open>hlt\<close> that waits for the next interrupt.\<close>

definition kernel_loop :: "nat \<Rightarrow> 'q quantum_link_driver \<Rightarrow> 'q machine \<Rightarrow> 'q machine option" where
  "kernel_loop fuel D mc =
     (case qkd_tick D mc of
        None \<Rightarrow> None
      | Some (_, mc) \<Rightarrow>
          (case with_kernel_net (\<lambda>s m. map_option (\<lambda>(n, s). (0, s, m)) (poll fuel loopback_nic s)) (mc_kernel mc) of
             Returned _ k \<Rightarrow> Some (mc\<lparr>mc_kernel := k\<rparr>)
           | _ \<Rightarrow> None))"

section \<open>The kernel keeps running\<close>

definition machine_inv :: "'q machine \<Rightarrow> bool" where
  "machine_inv mc \<longleftrightarrow> kernel_inv (mc_kernel mc) \<and> \<not> sl_locked (mc_qphy mc)"

lemma lock_net_Some:
  "kernel_inv k \<Longrightarrow> lock_net body k =
     (let (r, s) = body (sl_data (k_net k)) in Some (r, k\<lparr>k_net := (k_net k)\<lparr>sl_data := s, sl_locked := False\<rparr>\<rparr>))"
  by (simp add: kernel_inv_def lock_net_def guard_read_def guard_write_def guard_drop_def)

lemma qkd_pump_inv:
  assumes "stack_inv ok s" shows "stack_inv ok (snd (snd (qkd_pump D peer q s)))"
  using deposit_key_block_inv [OF assms] assms
  by (auto simp: qkd_pump_def Let_def split: prod.splits sum.splits)

lemma qkd_tick_returns:
  assumes "machine_inv mc"
  shows "\<exists>r mc'. qkd_tick D mc = Some (r, mc') \<and> machine_inv mc' \<and> mc_initialized mc' = mc_initialized mc
    \<and> k_lo (mc_kernel mc') = k_lo (mc_kernel mc) \<and> k_hi (mc_kernel mc') = k_hi (mc_kernel mc)
    \<and> mc_console mc' = mc_console mc"
proof -
  let ?k = "mc_kernel mc"
  have k: "kernel_inv ?k" and q: "\<not> sl_locked (mc_qphy mc)" using assms by (simp_all add: machine_inv_def)
  obtain r q' s where p: "qkd_pump D QLINK_PEER_IP (sl_data (mc_qphy mc)) (sl_data (k_net ?k)) = (r, q', s)"
    by (metis prod.collapse)
  have "stack_inv loopback_inv s"
    using qkd_pump_inv [of loopback_inv "sl_data (k_net ?k)" D QLINK_PEER_IP "sl_data (mc_qphy mc)"] k p
    by (simp add: kernel_inv_def)
  then show ?thesis
    using k q by (simp add: qkd_tick_def lock_net_Some guard_read_def p guard_write_def guard_drop_def
        machine_inv_def kernel_inv_def)
qed

lemma kernel_loop_returns:
  assumes "machine_inv mc" and "13 \<le> fuel"
  shows "\<exists>mc'. kernel_loop fuel D mc = Some mc' \<and> machine_inv mc' \<and> mc_initialized mc' = mc_initialized mc
    \<and> k_lo (mc_kernel mc') = k_lo (mc_kernel mc) \<and> k_hi (mc_kernel mc') = k_hi (mc_kernel mc)"
proof -
  obtain r m1 where t: "qkd_tick D mc = Some (r, m1)" "machine_inv m1" "mc_initialized m1 = mc_initialized mc"
    "k_lo (mc_kernel m1) = k_lo (mc_kernel mc)" "k_hi (mc_kernel m1) = k_hi (mc_kernel mc)"
    using qkd_tick_returns [OF assms(1), of D] by blast
  have k: "kernel_inv (mc_kernel m1)" using t(2) by (simp add: machine_inv_def)
  obtain n s where s: "poll fuel loopback_nic (sl_data (k_net (mc_kernel m1))) = Some (n, s)" "stack_inv loopback_inv s"
    by (rule poll_returns [OF kernel_invD [OF k] assms(2)])
  have "call_returns (mc_kernel m1)
      (with_kernel_net (\<lambda>s m. map_option (\<lambda>(n, s). (0, s, m)) (poll fuel loopback_nic s)) (mc_kernel m1))"
    by (rule with_kernel_net_returns' [OF k]) (simp add: s)
  then show ?thesis
    using t by (auto simp: kernel_loop_def call_returns_def machine_inv_def split: outcome.splits)
qed

lemma machine_reset_inv: "machine_inv (machine_reset q m b)"
  by (simp add: machine_inv_def machine_reset_def kernel_inv_def KERNEL_NET_def spin_new_def stack_inv_new
      loopback_inv_new KERNEL_MAC_def)

definition console_ready :: "nat \<Rightarrow> console \<Rightarrow> bool" where
  "console_ready k c \<longleftrightarrow> uart_drains k COM1_BASE (con_bus c)"

lemma print_ends:
  assumes "console_ready k (mc_console mc)" and "k \<le> fuel"
  shows "\<exists>c. print fuel s mc = Some (mc\<lparr>mc_console := c\<rparr>) \<and> console_ready k c"
proof (cases "con_initialized (mc_console mc)")
  case True
  obtain n where "write_str_raw fuel COM1_BASE s (con_bus (mc_console mc)) = Some ((con_bus (mc_console mc))
      \<lparr>bus_reads := n, bus_out := bus_out (con_bus (mc_console mc)) @ map (Pair COM1_BASE) (crlf s)\<rparr>)"
    using write_str_raw_ends [of k COM1_BASE "con_bus (mc_console mc)" fuel s] assms by (auto simp: console_ready_def)
  then show ?thesis using assms(1) True
    by (intro exI [of _ "(mc_console mc)\<lparr>con_bus := (con_bus (mc_console mc))\<lparr>bus_reads := n,
        bus_out := bus_out (con_bus (mc_console mc)) @ map (Pair COM1_BASE) (crlf s)\<rparr>\<rparr>"])
      (simp add: print_def serial_write_str_def console_ready_def uart_drains_def)
next
  case False
  have "mc\<lparr>mc_console := mc_console mc\<rparr> = mc" by simp
  then show ?thesis using assms(1) False by (auto simp: print_def serial_write_str_def intro: exI [of _ "mc_console mc"])
qed

lemma console_init_ready:
  "console_ready k c \<Longrightarrow> \<exists>c'. console_init c = Some c' \<and> console_ready k c'"
  by (simp add: console_init_def pit_set_frequency_def console_ready_def uart_drains_def uart_init_def outb_def Let_def)

lemma kernel_main_steps:
  assumes "uart_drains k COM1_BASE b" and "k \<le> fuel"
  obtains c k1 k2 r r' mc c' where "net_init NODE_IP (mc_kernel (machine_reset q m b)) = Some ((), k1)"
    and "lock_net (register_peer QLINK_PEER_IP QLINK_ROLE) k1 = Some (r, k2)" and "kernel_inv k2"
    and "qkd_tick D ((machine_reset q m b)\<lparr>mc_initialized := True, mc_console := c, mc_kernel := k2\<rparr>) = Some (r', mc)"
    and "machine_inv mc"
    and "kernel_main fuel D lo hi (machine_reset q m b)
      = Some (Inr (mc\<lparr>mc_console := c', mc_kernel := set_kernel_image lo hi (mc_kernel mc)\<rparr>))"
proof -
  let ?r = "machine_reset q m b"
  have k0: "kernel_inv (mc_kernel ?r)" using machine_reset_inv [of q m b] by (simp add: machine_inv_def)
  have "console_ready k (mc_console ?r)" using assms(1) by (simp add: console_ready_def machine_reset_def)
  then obtain c0 where c0: "console_init (mc_console ?r) = Some c0" "console_ready k c0"
    using console_init_ready by blast
  let ?m0 = "?r\<lparr>mc_initialized := True, mc_console := c0\<rparr>"
  obtain c where c: "print fuel BANNER ?m0 = Some (?m0\<lparr>mc_console := c\<rparr>)" "console_ready k c"
    using print_ends [of k ?m0 fuel BANNER] c0(2) assms(2) by auto
  obtain k1 where k1: "net_init NODE_IP (mc_kernel ?r) = Some ((), k1)" "kernel_inv k1"
    using k0 by (simp add: net_init_def lock_net_Some kernel_inv_def stack_configure_def stack_inv_def NODE_IP_def)
  obtain r k2 where k2: "lock_net (register_peer QLINK_PEER_IP QLINK_ROLE) k1 = Some (r, k2)" "kernel_inv k2"
    using register_peer_inv [of loopback_inv "sl_data (k_net k1)" QLINK_PEER_IP QLINK_ROLE] k1(2)
    by (cases "register_peer QLINK_PEER_IP QLINK_ROLE (sl_data (k_net k1))")
      (auto simp: lock_net_Some QLINK_PEER_IP_def kernel_inv_def)
  let ?mc = "?r\<lparr>mc_initialized := True, mc_console := c, mc_kernel := k2\<rparr>"
  have "machine_inv ?mc" using k2(2) machine_reset_inv [of q m b] by (simp add: machine_inv_def)
  then obtain e mc where t: "qkd_tick D ?mc = Some (e, mc)" "machine_inv mc" "mc_console mc = c"
    using qkd_tick_returns [of ?mc D] by auto
  obtain c' where c': "(if e = Inl NoDevice then print fuel NO_LINK_MESSAGE mc else Some mc) = Some (mc\<lparr>mc_console := c'\<rparr>)"
  proof (cases "e = Inl NoDevice")
    case True
    then show ?thesis using that print_ends [of k mc fuel NO_LINK_MESSAGE] c(2) t(3) assms(2) by auto
  next
    case False
    have "mc\<lparr>mc_console := mc_console mc\<rparr> = mc" by simp
    with False show ?thesis using that [of "mc_console mc"] by simp
  qed
  have "\<not> mc_initialized ?r" by (simp add: machine_reset_def)
  moreover have "mc_kernel ?m0 = mc_kernel ?r" "?m0\<lparr>mc_console := c, mc_kernel := k2\<rparr> = ?mc" by simp_all
  ultimately have "kernel_main fuel D lo hi ?r
      = Some (Inr (mc\<lparr>mc_console := c', mc_kernel := set_kernel_image lo hi (mc_kernel mc)\<rparr>))"
    using c0(1) c(1) k1(1) k2(1) t(1) c' by (simp add: kernel_main_def)
  with k1(1) k2 t(1,2) show ?thesis by (rule that)
qed

lemma kernel_main_boots:
  assumes "uart_drains k COM1_BASE b" and "k \<le> fuel"
  shows "\<exists>mc. kernel_main fuel D lo hi (machine_reset q m b) = Some (Inr mc) \<and> machine_inv mc
     \<and> k_lo (mc_kernel mc) = lo \<and> k_hi (mc_kernel mc) = hi"
  by (rule kernel_main_steps [OF assms, of q m D lo hi])
    (simp add: machine_inv_def kernel_inv_def set_kernel_image_def)

text \<open>What happens to a running kernel: a round of its loop, a system call, a store by user code.\<close>

datatype kernel_event = LoopRound | SystemCall u64 u64 u64 u64 | UserStore u64 u8

fun kernel_exec :: "nat \<Rightarrow> 'q quantum_link_driver \<Rightarrow> kernel_event \<Rightarrow> 'q machine \<Rightarrow> 'q machine option" where
  "kernel_exec fuel D LoopRound mc = kernel_loop fuel D mc"
| "kernel_exec fuel D (SystemCall nr a0 a1 a2) mc =
     (case syscall_dispatch fuel nr a0 a1 a2 (mc_kernel mc) of
        Returned r k \<Rightarrow> Some (mc\<lparr>mc_kernel := k\<rparr>) | _ \<Rightarrow> None)"
| "kernel_exec fuel D (UserStore a v) mc =
     Some (mc\<lparr>mc_kernel := (mc_kernel mc)\<lparr>k_mem := (k_mem (mc_kernel mc))(a := v)\<rparr>\<rparr>)"

fun kernel_run :: "nat \<Rightarrow> 'q quantum_link_driver \<Rightarrow> kernel_event list \<Rightarrow> 'q machine \<Rightarrow> 'q machine option" where
  "kernel_run fuel D [] mc = Some mc"
| "kernel_run fuel D (e # es) mc =
     (case kernel_exec fuel D e mc of None \<Rightarrow> None | Some mc \<Rightarrow> kernel_run fuel D es mc)"

fun is_exit :: "kernel_event \<Rightarrow> bool" where
  "is_exit (SystemCall nr a0 a1 a2) = (nr = SYS_EXIT)"
| "is_exit _ = False"

lemma kernel_exec_returns:
  assumes "machine_inv mc" and "13 \<le> fuel" and "\<not> is_exit e"
  shows "\<exists>mc'. kernel_exec fuel D e mc = Some mc' \<and> machine_inv mc'
    \<and> k_lo (mc_kernel mc') = k_lo (mc_kernel mc) \<and> k_hi (mc_kernel mc') = k_hi (mc_kernel mc)"
proof (cases e)
  case LoopRound
  then show ?thesis using kernel_loop_returns [OF assms(1,2), of D] by auto
next
  case (SystemCall nr a0 a1 a2)
  have "call_returns (mc_kernel mc) (syscall_dispatch fuel nr a0 a1 a2 (mc_kernel mc))"
    using assms SystemCall by (simp add: machine_inv_def dispatch_returns)
  then show ?thesis
    using assms(1) SystemCall by (auto simp: call_returns_def machine_inv_def split: outcome.splits)
next
  case (UserStore a v)
  then show ?thesis using assms(1) by (simp add: machine_inv_def kernel_inv_def)
qed

lemma kernel_run_returns:
  assumes "machine_inv mc" and "13 \<le> fuel" and "\<forall>e \<in> set es. \<not> is_exit e"
  shows "\<exists>mc'. kernel_run fuel D es mc = Some mc' \<and> machine_inv mc'
    \<and> k_lo (mc_kernel mc') = k_lo (mc_kernel mc) \<and> k_hi (mc_kernel mc') = k_hi (mc_kernel mc)"
  using assms(1,3)
proof (induction es arbitrary: mc)
  case (Cons e es)
  obtain m1 where m1: "kernel_exec fuel D e mc = Some m1" "machine_inv m1"
    "k_lo (mc_kernel m1) = k_lo (mc_kernel mc)" "k_hi (mc_kernel m1) = k_hi (mc_kernel mc)"
    using kernel_exec_returns [OF Cons.prems(1) assms(2), of e D] Cons.prems(2) by auto
  from Cons.IH [OF m1(2)] Cons.prems(2) m1 show ?case by auto
qed simp

text \<open>
  C25. The kernel boots and never hangs: from reset, with any driver of the quantum link, any
  memory and a serial port that drains, \<open>kernel_main\<close> reaches its loop, and afterwards every sequence of loop rounds, stores of
  user code and system calls other than \<open>SYS_EXIT\<close> runs to its end with both locks free, the
  network stack well formed and the image range as registered.
\<close>

theorem kernel_runs_forever:
  assumes "13 \<le> fuel" and "\<forall>e \<in> set es. \<not> is_exit e" and "uart_drains fuel COM1_BASE b"
  shows "\<exists>mc mc'. kernel_main fuel D lo hi (machine_reset q m b) = Some (Inr mc) \<and> kernel_run fuel D es mc = Some mc'
    \<and> machine_inv mc' \<and> k_lo (mc_kernel mc') = lo \<and> k_hi (mc_kernel mc') = hi"
  using kernel_main_boots [OF assms(3) order_refl, of D lo hi q m] kernel_run_returns [OF _ assms(1,2)] by fastforce

text \<open>A serial port that is always ready.\<close>

definition demo_bus :: bus where
  "demo_bus = \<lparr>bus_out = [], bus_reads = 0, bus_in = (\<lambda>_ _. 0x60)\<rparr>"

lemma demo_bus_drains: "0 < k \<Longrightarrow> uart_drains k base demo_bus"
  by (auto simp: uart_drains_def demo_bus_def)

theorem kernel_runs_forever_witness:
  "\<exists>mc mc'. kernel_main 13 qeda_chip_driver 0x100000 0x200000 (machine_reset () (\<lambda>_. 0) demo_bus) = Some (Inr mc)
    \<and> kernel_run 13 qeda_chip_driver [LoopRound, SystemCall SYS_QTLS_LISTEN 4433 0 0, UserStore 0x3000 1] mc = Some mc'
    \<and> machine_inv mc' \<and> k_lo (mc_kernel mc') = 0x100000 \<and> k_hi (mc_kernel mc') = 0x200000"
  by (rule kernel_runs_forever) (simp_all add: nr_defs demo_bus_drains)

section \<open>Panic\<close>

lemma emergency_zeroize_eq: "emergency_zeroize l = l\<lparr>sl_data := wipe_keys (sl_data l)\<rparr>"
  by (cases "sl_locked l")
    (simp_all add: emergency_zeroize_def with_try_lock_def force_get_mut_def guard_drop_def guard_write_def guard_read_def)

lemma print_kernel: "print fuel s mc = Some mc' \<Longrightarrow> mc_kernel mc' = mc_kernel mc"
  by (auto simp: print_def)

lemma kernel_panic_net: "k_net (mc_kernel (kernel_panic fuel loc mc)) = emergency_zeroize (k_net (mc_kernel mc))"
  by (auto simp: kernel_panic_def Let_def split: option.split dest!: print_kernel)

text \<open>
  C28. The panic path always wipes: whether the lock of the network stack was free or taken when
  the kernel panicked, and whether or not its message can be printed, in the state in which the
  processor stops every key lane and every receive queue is all zero and empty.
\<close>

theorem kernel_panic_wipes:
  "list_all (\<lambda>p. list_all (\<lambda>l. all_zero (lane_buf l) \<and> lane_available l = 0) (pk_lanes (peer_keys p)))
      (ns_peers (sl_data (k_net (mc_kernel (kernel_panic fuel loc mc)))))
   \<and> list_all (\<lambda>v. list_all all_zero (rxq_msgs (ses_rx v)) \<and> rxq_view (ses_rx v) = [])
      (ns_sessions (sl_data (k_net (mc_kernel (kernel_panic fuel loc mc)))))"
  by (simp add: kernel_panic_net emergency_zeroize_eq stack_wipe_zeroizes)

section \<open>Without the quantum chip\<close>

definition keyless :: "'d net_stack \<Rightarrow> bool" where
  "keyless s \<longleftrightarrow> (\<forall>p \<in> set (ns_peers s). \<forall>l \<in> set (pk_lanes (peer_keys p)). lane_count l = 0)"

lemma keyless_lanes:
  assumes "stack_inv ok s" and "keyless s" and "peer_index ip s = Some px"
  shows "lane_count (peer_tx (keys_of s px)) = 0" and "lane_count (peer_rx (keys_of s px)) = 0"
proof -
  have px: "px < MAX_PEERS" by (rule peer_index_bound [OF assms(3,1)])
  then have "ns_peers s ! px \<in> set (ns_peers s)" using assms(1) by (simp add: stack_inv_def)
  moreover have "keys_ok (keys_of s px)" by (rule stack_inv_keys_ok [OF assms(1) px])
  ultimately show "lane_count (peer_tx (keys_of s px)) = 0" and "lane_count (peer_rx (keys_of s px)) = 0"
    using assms(2) by (cases "pk_role (keys_of s px)";
      simp add: keyless_def keys_of_def keys_ok_def peer_tx_def peer_rx_def rx_lane_def)+
qed

lemma keyless_same: "ns_peers s' = ns_peers s \<Longrightarrow> keyless s \<Longrightarrow> keyless s'"
  by (simp add: keyless_def)

lemma send_record_keyless:
  assumes "lane_count (peer_tx (keys_of s px)) = 0"
  shows "sent_from s (snd (send_record N px si c data s))"
proof (rule send_record_effect [where N = N and pi = px and s = s and si = si and c = c and data = data])
  fix tx
  assume s: "sent_from (set_keys px (peer_set_tx tx (keys_of s px)) s) (snd (send_record N px si c data s))"
    and "tx = fst (snd (seal (peer_tx (keys_of s px)) c (ses_id (ns_sessions s ! si)) data (replicate MAX_RECORD_LEN 0)))
      \<or> tx = peer_tx (keys_of s px)"
  then have "tx = peer_tx (keys_of s px)"
    using seal_no_key [OF assms, of c "ses_id (ns_sessions s ! si)" data "replicate MAX_RECORD_LEN 0"] by auto
  with s show ?thesis by simp
qed

lemma open_record_keyless:
  assumes "lane_count rx = 0" shows "\<exists>e. open_record rx rc out = (Inl e, rx, out)"
proof -
  have no: "lane_peek_at off (key_cost n) rx \<noteq> Inr ks" if "n \<le> 65535" for off n ks
  proof -
    have c: "key_cost n < 2 ^ 64" "0 < key_cost n"
      using that by (simp_all add: key_cost_def MAC_KEY_LEN_def POLY1305_KEY_LEN_def)
    then have "unat (of_nat (key_cost n) :: u64) = key_cost n" by (intro unat_of_nat_fits) simp
    then show ?thesis using assms c(2)
      by (auto simp: lane_peek_at_def checked_add_def word_less_nat_alt split: option.splits)
  qed
  have len: "unat (rh_length h) \<le> 65535" for h :: record_header
  proof -
    have "unat (rh_length h) < 2 ^ LENGTH(16)" by (rule unsigned_less)
    then show ?thesis by simp
  qed
  have peek: "\<exists>e. lane_peek_at (rh_key_offset h) (key_cost (unat (rh_length h))) rx = Inl e" for h :: record_header
    using no [OF len] by (cases "lane_peek_at (rh_key_offset h) (key_cost (unat (rh_length h))) rx") simp_all
  show ?thesis
  proof (cases "header_parse rc")
    case (Inr h)
    obtain e where "lane_peek_at (rh_key_offset h) (key_cost (unat (rh_length h))) rx = Inl e" using peek by blast
    then show ?thesis by (simp add: open_record_def Inr Let_def)
  qed (simp add: open_record_def)
qed

lemma handle_qtls_keyless:
  assumes "stack_inv ok s" and "keyless s"
  shows "handle_qtls N src sp dp rc s = s"
proof (cases "peer_index src s")
  case (Some px)
  then obtain e where "open_record (peer_rx (keys_of s px)) rc (replicate MAX_RECORD_PAYLOAD 0)
      = (Inl e, peer_rx (keys_of s px), replicate MAX_RECORD_PAYLOAD 0)"
    using open_record_keyless [OF keyless_lanes(2) [OF assms Some]] by blast
  then show ?thesis by (auto simp: handle_qtls_def Some Let_def split: sum.split)
qed (simp add: handle_qtls_def)

lemma send_arp_peers [simp]: "ns_peers (snd (send_arp N dst pkt s)) = ns_peers s"
  using send_arp_sent [of s N dst pkt] by (simp add: sent_from_def)

lemma handle_frame_keyless:
  assumes "stack_inv ok s" and "keyless s"
  shows "ns_peers (handle_frame N f s) = ns_peers s"
  using handle_qtls_keyless [OF assms]
  by (auto simp: handle_frame_def handle_arp_def handle_ipv4_def Let_def split: option.splits prod.splits)

lemma poll_loop_keyless:
  assumes "stack_inv loopback_inv s" and "keyless s" and "poll_loop fuel loopback_nic frame s = Some (n, s')"
  shows "ns_peers s' = ns_peers s"
  using assms
proof (induction fuel arbitrary: frame s n)
  case (Suc fuel)
  obtain r f2 d where r: "loopback_receive frame (ns_dev s) = (r, f2, d)" by (metis prod.collapse)
  have "loopback_inv d" using lbn.receive_ok [of "ns_dev s" frame r f2 d] r Suc.prems(1) by (simp add: stack_inv_def)
  then have t: "stack_inv loopback_inv (s\<lparr>ns_dev := d\<rparr>)" using Suc.prems(1) by (simp add: stack_inv_def)
  have kt: "keyless (s\<lparr>ns_dev := d\<rparr>)" using Suc.prems(2) by (simp add: keyless_def)
  show ?case
  proof (cases r)
    case (Some len)
    let ?u = "handle_frame loopback_nic (take len f2) (s\<lparr>ns_dev := d\<rparr>)"
    obtain m where m: "poll_loop fuel loopback_nic f2 ?u = Some (m, s')" using Suc.prems(3) Some by (auto simp: r)
    have p: "ns_peers ?u = ns_peers s" using handle_frame_keyless [OF t kt] by simp
    have "ns_peers s' = ns_peers ?u"
      by (rule Suc.IH [OF lbn.handle_frame_inv [OF t] keyless_same [OF p Suc.prems(2)] m])
    with p show ?thesis by simp
  qed (use Suc.prems in \<open>auto simp: r\<close>)
qed simp

lemma poll_keyless:
  "stack_inv loopback_inv s \<Longrightarrow> keyless s \<Longrightarrow> poll fuel loopback_nic s = Some (n, s') \<Longrightarrow> ns_peers s' = ns_peers s"
  unfolding poll_def by (rule poll_loop_keyless)

text \<open>The socket calls of a keyless stack leave the lanes as they are, and none sends.\<close>

lemma connect_keyless:
  assumes "stack_inv ok s" and "keyless s"
  shows "ns_peers (snd (connect N ip port s)) = ns_peers s"
proof (cases "peer_index ip s")
  case (Some px)
  obtain r s1 where r: "resolve N ip s = (r, s1)" by (cases "resolve N ip s")
  have s1: "sent_from s s1" using resolve_sent [of s N ip] by (simp add: r)
  have zero: "lane_count (peer_tx (keys_of s px)) = 0" by (rule keyless_lanes(1) [OF assms Some])
  have "ns_peers (snd (send_record N px si c d (set_session si v (s1\<lparr>ns_next_session := n\<rparr>)))) = ns_peers s" for si c d v n
  proof -
    have "keys_of (set_session si v (s1\<lparr>ns_next_session := n\<rparr>)) px = keys_of s px"
      using s1 by (simp add: keys_of_def set_session_def sent_from_def)
    then show ?thesis
      using send_record_keyless [of "set_session si v (s1\<lparr>ns_next_session := n\<rparr>)" px N si c d] zero s1
      by (simp add: sent_from_def set_session_def)
  qed
  note send = this
  show ?thesis
  proof (cases "position (\<lambda>v. ses_state v = Free) (ns_sessions s1)")
    case None
    then show ?thesis using Some s1 by (cases r) (simp_all add: connect_def r sent_from_def)
  next
    case si: (Some si)
    let ?s3 = "set_session si \<lparr>ses_state = HelloSent, ses_id = ns_next_session s1, ses_peer_ip = ip,
      ses_peer_port = port, ses_local_port = EPHEMERAL_BASE + ns_next_session s1 mod 16384,
      ses_accepted = True, ses_rx = rxq_new\<rparr> (s1\<lparr>ns_next_session := max (ns_next_session s1 + 1) 1\<rparr>)"
    obtain q s4 where q: "send_record N px si Hello [] ?s3 = (q, s4)" by (cases "send_record N px si Hello [] ?s3")
    have "ns_peers s4 = ns_peers s" using send [of si Hello "[]"] q by (metis snd_conv)
    then show ?thesis
      using Some si s1 q by (cases r; cases q) (simp_all add: connect_def r Let_def sent_from_def set_session_def)
  qed
qed (simp add: connect_def)

lemma stack_send_keyless:
  assumes "stack_inv ok s" and "keyless s"
  shows "ns_peers (snd (stack_send N h data s)) = ns_peers s" and "\<exists>e. fst (stack_send N h data s) = Inl e"
proof -
  have "ns_peers (snd (stack_send N h data s)) = ns_peers s \<and> (\<exists>e. fst (stack_send N h data s) = Inl e)"
  proof (cases "peer_index (ses_peer_ip (ns_sessions s ! h)) s")
    case (Some px)
    let ?d = "take (min (length data) MAX_RECORD_PAYLOAD) data"
    have zero: "lane_count (peer_tx (keys_of s px)) = 0" by (rule keyless_lanes(1) [OF assms Some])
    obtain e where "fst (send_record N px h Data ?d s) = Inl e" using send_record_no_key [OF zero] by blast
    moreover have "ns_peers (snd (send_record N px h Data ?d s)) = ns_peers s"
      using send_record_keyless [OF zero, of N h Data ?d] by (simp add: sent_from_def)
    ultimately show ?thesis
      using Some by (cases "send_record N px h Data ?d s") (simp add: stack_send_def Let_def)
  qed (simp add: stack_send_def Let_def)
  then show "ns_peers (snd (stack_send N h data s)) = ns_peers s" and "\<exists>e. fst (stack_send N h data s) = Inl e"
    by auto
qed

lemma stack_close_keyless:
  assumes "stack_inv ok s" and "keyless s"
  shows "ns_peers (snd (stack_close N h s)) = ns_peers s"
proof -
  have "ns_peers (snd (send_record N px h Close [] s)) = ns_peers s"
    if "peer_index (ses_peer_ip (ns_sessions s ! h)) s = Some px" for px
    using send_record_keyless [OF keyless_lanes(1) [OF assms that], of N h Close "[]"] by (simp add: sent_from_def)
  then show ?thesis by (auto simp: stack_close_def Let_def set_session_def split: option.split)
qed

lemma plain_calls_keyless:
  "ns_peers (snd (stack_listen port s)) = ns_peers s"
  "ns_peers (snd (accept port s)) = ns_peers s"
  "ns_peers (snd (snd (stack_recv h out s))) = ns_peers s"
  by (auto simp: stack_listen_def accept_def stack_recv_def set_session_def Let_def
      split: option.split prod.split session_state.split)

lemma with_kernel_net_keyless:
  assumes "with_kernel_net body k = Returned r k'"
    and "case body (sl_data (k_net k)) (k_mem k) of None \<Rightarrow> True | Some (v, s, m) \<Rightarrow> keyless s"
  shows "keyless (sl_data (k_net k'))"
  using assms by (auto elim!: with_kernel_net_Returned)

lemma net_calls_keyless:
  assumes k: "kernel_inv k" and e: "keyless (sl_data (k_net k))"
  shows "sys_qtls_listen p k = Returned r k' \<Longrightarrow> keyless (sl_data (k_net k'))"
    and "sys_qtls_connect fuel ip p k = Returned r k' \<Longrightarrow> keyless (sl_data (k_net k'))"
    and "sys_qtls_accept fuel p k = Returned r k' \<Longrightarrow> keyless (sl_data (k_net k'))"
    and "sys_qtls_send h b n k = Returned r k' \<Longrightarrow> keyless (sl_data (k_net k'))"
    and "sys_qtls_recv fuel h b n k = Returned r k' \<Longrightarrow> keyless (sl_data (k_net k'))"
    and "sys_qtls_close h k = Returned r k' \<Longrightarrow> keyless (sl_data (k_net k'))"
    and "sys_qkey_avail ip k = Returned r k' \<Longrightarrow> keyless (sl_data (k_net k'))"
proof -
  note i = kernel_invD [OF k]
  have polled: "stack_inv loopback_inv s" "keyless s"
    if "poll fuel loopback_nic (sl_data (k_net k)) = Some (c, s)" for fuel c s
    using that lbn.poll_loop_inv [OF i] keyless_same [OF poll_keyless [OF i e that] e] by (simp_all add: poll_def)
  have con: "keyless (snd (connect loopback_nic a q s))" if "stack_inv loopback_inv s" "keyless s" for a q s
    by (rule keyless_same [OF connect_keyless [OF that] that(2)])
  have acc: "keyless (snd (accept q s))" if "keyless s" for q and s :: "loopback net_stack"
    by (rule keyless_same [OF plain_calls_keyless(2) that])
  have rec: "keyless (snd (snd (stack_recv h' out s)))" if "keyless s" for h' out and s :: "loopback net_stack"
    by (rule keyless_same [OF plain_calls_keyless(3) that])
  show "keyless (sl_data (k_net k'))" if r: "sys_qtls_listen p k = Returned r k'"
  proof (cases "port_arg p")
    case (Inr q)
    have "keyless (snd (stack_listen q (sl_data (k_net k))))" by (rule keyless_same [OF plain_calls_keyless(1) e])
    then show ?thesis
      using r unfolding sys_qtls_listen_def Inr sum.case
      by (elim with_kernel_net_keyless) (simp add: case_prod_beta)
  qed (use r e in \<open>simp add: sys_qtls_listen_def\<close>)
  show "keyless (sl_data (k_net k'))" if r: "sys_qtls_connect fuel ip p k = Returned r k'"
  proof (cases "port_arg p")
    case (Inr q)
    show ?thesis
      using r unfolding sys_qtls_connect_def Inr sum.case
      by (elim with_kernel_net_keyless) (auto simp: case_prod_beta split: option.split intro!: con dest: polled)
  qed (use r e in \<open>simp add: sys_qtls_connect_def\<close>)
  show "keyless (sl_data (k_net k'))" if r: "sys_qtls_accept fuel p k = Returned r k'"
  proof (cases "port_arg p")
    case (Inr q)
    show ?thesis
      using r unfolding sys_qtls_accept_def Inr sum.case
      by (elim with_kernel_net_keyless) (auto simp: case_prod_beta split: option.split intro!: acc dest: polled)
  qed (use r e in \<open>simp add: sys_qtls_accept_def\<close>)
  show "keyless (sl_data (k_net k'))" if r: "sys_qtls_send h b n k = Returned r k'"
  proof (cases "validate_user_ptr b n k")
    case (Inr u)
    have "keyless (snd (stack_send loopback_nic (unat h) out (sl_data (k_net k))))" for out
      by (rule keyless_same [OF stack_send_keyless(1) [OF i e] e])
    then show ?thesis
      using r e unfolding sys_qtls_send_def Inr sum.case
      by (cases "n = 0") (auto simp: case_prod_beta elim!: with_kernel_net_keyless)
  qed (use r e in \<open>simp add: sys_qtls_send_def split: if_split_asm\<close>)
  show "keyless (sl_data (k_net k'))" if r: "sys_qtls_recv fuel h b n k = Returned r k'"
  proof (cases "validate_user_ptr b n k")
    case (Inr u)
    show ?thesis
      using r e unfolding sys_qtls_recv_def Inr sum.case
      by (cases "n = 0") (auto simp: case_prod_beta split: option.split intro!: rec dest: polled elim!: with_kernel_net_keyless)
  qed (use r e in \<open>simp add: sys_qtls_recv_def split: if_split_asm\<close>)
  show "keyless (sl_data (k_net k'))" if r: "sys_qtls_close h k = Returned r k'"
    using r keyless_same [OF stack_close_keyless [OF i e] e] unfolding sys_qtls_close_def
    by (elim with_kernel_net_keyless) (simp add: case_prod_beta)
  show "keyless (sl_data (k_net k'))" if r: "sys_qkey_avail ip k = Returned r k'"
    using r e unfolding sys_qkey_avail_def by (elim with_kernel_net_keyless) simp
qed

lemma dispatch_keyless:
  assumes "kernel_inv k" and "keyless (sl_data (k_net k))" and "syscall_dispatch fuel nr a0 a1 a2 k = Returned r k'"
  shows "keyless (sl_data (k_net k'))"
  using assms(3) assms(2) unfolding syscall_dispatch_def
  by (auto split: if_split_asm sum.splits simp: plain_mem dest: net_calls_keyless [OF assms(1,2)])

definition chipless :: "unit machine \<Rightarrow> bool" where
  "chipless mc \<longleftrightarrow> machine_inv mc \<and> keyless (sl_data (k_net (mc_kernel mc)))"

lemma qkd_tick_chip:
  assumes "machine_inv mc"
  shows "\<exists>mc'. qkd_tick qeda_chip_driver mc = Some (Inl NoDevice, mc')
    \<and> sl_data (k_net (mc_kernel mc')) = sl_data (k_net (mc_kernel mc))"
  using assms
  by (simp add: machine_inv_def qkd_tick_def lock_net_Some guard_read_def qkd_pump_def qeda_chip_driver_def)

lemma kernel_exec_chipless:
  assumes "chipless mc" and "13 \<le> fuel" and "\<not> is_exit ev" and "kernel_exec fuel qeda_chip_driver ev mc = Some mc'"
  shows "chipless mc'"
proof -
  have inv: "machine_inv mc" and e: "keyless (sl_data (k_net (mc_kernel mc)))" using assms(1) by (simp_all add: chipless_def)
  have inv': "machine_inv mc'" using kernel_exec_returns [OF inv assms(2,3), of qeda_chip_driver] assms(4) by auto
  have "keyless (sl_data (k_net (mc_kernel mc')))"
  proof (cases ev)
    case LoopRound
    obtain m1 where t: "qkd_tick qeda_chip_driver mc = Some (Inl NoDevice, m1)"
      "sl_data (k_net (mc_kernel m1)) = sl_data (k_net (mc_kernel mc))" using qkd_tick_chip [OF inv] by blast
    have "machine_inv m1" using qkd_tick_returns [OF inv, of qeda_chip_driver] t(1) by auto
    then have i: "stack_inv loopback_inv (sl_data (k_net (mc_kernel m1)))" by (simp add: machine_inv_def kernel_invD)
    have p: "keyless s" if "poll fuel loopback_nic (sl_data (k_net (mc_kernel m1))) = Some (n, s)" for n s
      using keyless_same [OF poll_keyless [OF i _ that]] e t(2) by simp
    obtain r k where k: "mc' = m1\<lparr>mc_kernel := k\<rparr>" and "with_kernel_net
        (\<lambda>s m. map_option (\<lambda>(n, s). (0, s, m)) (poll fuel loopback_nic s)) (mc_kernel m1) = Returned r k"
      using assms(4) LoopRound t(1) by (auto simp: kernel_loop_def split: outcome.splits)
    then have "keyless (sl_data (k_net k))"
      by (elim with_kernel_net_keyless) (auto split: option.split dest: p)
    then show ?thesis by (simp add: k)
  next
    case (SystemCall nr a0 a1 a2)
    then obtain r k where "syscall_dispatch fuel nr a0 a1 a2 (mc_kernel mc) = Returned r k" "mc' = mc\<lparr>mc_kernel := k\<rparr>"
      using assms(4) by (auto split: outcome.splits)
    then show ?thesis using dispatch_keyless [OF _ e] inv by (simp add: machine_inv_def)
  next
    case (UserStore a v)
    then show ?thesis using assms(4) e by auto
  qed
  with inv' show ?thesis by (simp add: chipless_def)
qed

lemma keyless_boot:
  assumes "uart_drains k COM1_BASE b" and "k \<le> fuel"
    and "kernel_main fuel qeda_chip_driver lo hi (machine_reset q m b) = Some (Inr mc)"
  shows "chipless mc"
proof -
  have e0: "keyless (stack_configure NODE_IP (stack_new (loopback_new KERNEL_MAC)))"
    by (auto simp: keyless_def stack_configure_def stack_new_def peer_keys_new_def lane_new_def)
  have e1: "keyless (snd (register_peer ip r s))" if "keyless s" for ip r and s :: "loopback net_stack"
  proof (cases "position (\<lambda>p. peer_ip p = None) (ns_peers s)")
    case (Some i)
    then have "ns_peers s ! i \<in> set (ns_peers s)" using position_SomeD by fastforce
    then show ?thesis
      using that Some by (auto simp: register_peer_def keyless_def Let_def dest: set_update_subset_insert [THEN subsetD])
  qed (use that in \<open>simp add: register_peer_def\<close>)
  obtain c k1 k2 r r' mc0 c' where s: "net_init NODE_IP (mc_kernel (machine_reset q m b)) = Some ((), k1)"
    "lock_net (register_peer QLINK_PEER_IP QLINK_ROLE) k1 = Some (r, k2)" "kernel_inv k2"
    "qkd_tick qeda_chip_driver ((machine_reset q m b)\<lparr>mc_initialized := True, mc_console := c, mc_kernel := k2\<rparr>) = Some (r', mc0)"
    "machine_inv mc0"
    and boot: "kernel_main fuel qeda_chip_driver lo hi (machine_reset q m b)
      = Some (Inr (mc0\<lparr>mc_console := c', mc_kernel := set_kernel_image lo hi (mc_kernel mc0)\<rparr>))"
    by (rule kernel_main_steps [OF assms(1,2), of q m qeda_chip_driver lo hi])
  let ?m1 = "(machine_reset q m b)\<lparr>mc_initialized := True, mc_console := c, mc_kernel := k2\<rparr>"
  have mc: "mc = mc0\<lparr>mc_console := c', mc_kernel := set_kernel_image lo hi (mc_kernel mc0)\<rparr>" using boot assms(3) by simp
  have "sl_data (k_net k1) = stack_configure NODE_IP (stack_new (loopback_new KERNEL_MAC))"
    using s(1) by (auto simp: net_init_def lock_net_def machine_reset_def KERNEL_NET_def spin_new_def
        guard_read_def guard_write_def guard_drop_def)
  then have "sl_data (k_net k2) = snd (register_peer QLINK_PEER_IP QLINK_ROLE
      (stack_configure NODE_IP (stack_new (loopback_new KERNEL_MAC))))"
    using s(2) by (auto simp: lock_net_def guard_read_def guard_write_def guard_drop_def Let_def case_prod_beta
        split: if_splits)
  then have k2: "keyless (sl_data (k_net k2))" using e1 [OF e0] by simp
  have "machine_inv ?m1" using s(3) machine_reset_inv [of q m b] by (simp add: machine_inv_def)
  then have "sl_data (k_net (mc_kernel mc0)) = sl_data (k_net k2)"
    using qkd_tick_chip [of ?m1] s(4) by auto
  then show ?thesis using s(5) k2 by (simp add: chipless_def mc machine_inv_def kernel_inv_def set_kernel_image_def)
qed

lemma kernel_run_chipless:
  assumes "chipless mc" and "13 \<le> fuel" and "\<forall>e \<in> set es. \<not> is_exit e"
    and "kernel_run fuel qeda_chip_driver es mc = Some mc'"
  shows "chipless mc'"
  using assms(1,3,4)
proof (induction es arbitrary: mc)
  case (Cons e es)
  obtain m1 where m1: "kernel_exec fuel qeda_chip_driver e mc = Some m1" "kernel_run fuel qeda_chip_driver es m1 = Some mc'"
    using Cons.prems(3) by (auto split: option.splits)
  have "chipless m1" by (rule kernel_exec_chipless [OF Cons.prems(1) assms(2) _ m1(1)]) (use Cons.prems(2) in simp)
  then show ?case by (rule Cons.IH) (use Cons.prems(2) m1(2) in simp_all)
qed simp

text \<open>
  C26. Without the chip nothing is sent: as shipped (the chip driver reports no device) the kernel
  never has a key byte, so after any run from boot a \<open>SYS_QTLS_SEND\<close> of a non-empty buffer returns
  one of the error numbers and \<open>SYS_QKEY_AVAIL\<close> zero or an error; there is no fallback to sending in
  the clear or under a weaker key.
\<close>

theorem kernel_without_chip_is_silent:
  assumes "kernel_main fuel qeda_chip_driver lo hi (machine_reset q m b) = Some (Inr mc)" and "13 \<le> fuel"
    and "uart_drains fuel COM1_BASE b" and "\<forall>e \<in> set es. \<not> is_exit e" and "kernel_run fuel qeda_chip_driver es mc = Some mc'" and "n \<noteq> 0"
  shows "(\<exists>r k. syscall_dispatch fuel SYS_QTLS_SEND h buf n (mc_kernel mc') = Returned r k \<and> r \<in> errnos)
    \<and> (\<exists>r k. syscall_dispatch fuel SYS_QKEY_AVAIL ip 0 0 (mc_kernel mc') = Returned r k \<and> (r = 0 \<or> r \<in> errnos))"
proof -
  let ?k = "mc_kernel mc'" let ?s = "sl_data (k_net ?k)"
  have c: "chipless mc'" by (rule kernel_run_chipless [OF keyless_boot [OF assms(3) order_refl assms(1)] assms(2,4,5)])
  then have e: "keyless ?s" and i: "stack_inv loopback_inv ?s" and l: "\<not> sl_locked (k_net ?k)"
    by (simp_all add: chipless_def machine_inv_def kernel_inv_def)
  have "\<exists>r k'. sys_qtls_send h buf n ?k = Returned r k' \<and> r \<in> errnos"
  proof (cases "validate_user_ptr buf n ?k")
    case (Inr u)
    obtain x s where s: "stack_send loopback_nic (unat h) (read_mem buf (unat n) (k_mem ?k)) ?s = (Inl x, s)"
      using stack_send_keyless(2) [OF i e, of loopback_nic "unat h" "read_mem buf (unat n) (k_mem ?k)"]
      by (metis prod.collapse)
    then show ?thesis
      using assms(6) Inr with_kernel_net_Some [OF l] by (simp add: sys_qtls_send_def net_result_def)
  qed (use assms(6) in \<open>auto simp: sys_qtls_send_def dest: validate_errno\<close>)
  moreover have "\<exists>r k'. sys_qkey_avail (ucast ip) ?k = Returned r k' \<and> (r = 0 \<or> r \<in> errnos)"
  proof (cases "peer_index (to_be 4 (ucast ip :: u32)) ?s")
    case (Some px)
    then show ?thesis
      using keyless_lanes(1) [OF i e Some] with_kernel_net_Some [OF l]
      by (simp add: sys_qkey_avail_def key_available_def lane_available_def)
  qed (use with_kernel_net_Some [OF l] in \<open>simp add: sys_qkey_avail_def key_available_def\<close>)
  ultimately show ?thesis by (simp add: syscall_dispatch_def nr_defs)
qed

theorem kernel_without_chip_is_silent_witness:
  "\<exists>mc mc'. kernel_main 13 qeda_chip_driver 0 0 (machine_reset () (\<lambda>_. 0) demo_bus) = Some (Inr mc)
    \<and> kernel_run 13 qeda_chip_driver [LoopRound] mc = Some mc'
    \<and> (\<exists>r k. syscall_dispatch 13 SYS_QTLS_SEND 0 0x1000 5 (mc_kernel mc') = Returned r k \<and> r \<in> errnos)
    \<and> (\<exists>r k. syscall_dispatch 13 SYS_QKEY_AVAIL 0x0A000002 0 0 (mc_kernel mc') = Returned r k \<and> (r = 0 \<or> r \<in> errnos))"
proof -
  obtain mc where mc: "kernel_main 13 qeda_chip_driver 0 0 (machine_reset () (\<lambda>_. 0) demo_bus) = Some (Inr mc)" "machine_inv mc"
    using kernel_main_boots [OF demo_bus_drains order_refl, of 13 qeda_chip_driver 0 0 "()" "\<lambda>_. 0"] by auto
  obtain mc' where mc': "kernel_run 13 qeda_chip_driver [LoopRound] mc = Some mc'"
    using kernel_run_returns [OF mc(2), of 13 "[LoopRound]" qeda_chip_driver] by auto
  have five: "(5 :: u64) \<noteq> 0" by simp
  show ?thesis
    using mc(1) mc' kernel_without_chip_is_silent [OF mc(1) _ demo_bus_drains _ mc' five, of 0 "0x1000" "0x0A000002"] by auto
qed

section \<open>Two nodes on one quantum link\<close>

lemma peer_deposit_lanes:
  "pk_lanes k = pk_lanes k' \<Longrightarrow>
   (case peer_deposit_block sq blk k of Inl e \<Rightarrow> peer_deposit_block sq blk k' = Inl e
     | Inr v \<Rightarrow> \<exists>v'. peer_deposit_block sq blk k' = Inr v' \<and> pk_lanes v' = pk_lanes v
         \<and> pk_role v = pk_role k \<and> pk_role v' = pk_role k')"
  by (auto simp: peer_deposit_block_def Let_def split: sum.split)

lemma deposit_keys_of:
  assumes "stack_inv ok s" and "peer_index ip s = Some i"
  shows "keys_of (snd (deposit_key_block ip sq blk s)) i
    = (case peer_deposit_block sq blk (keys_of s i) of Inl e \<Rightarrow> keys_of s i | Inr v \<Rightarrow> v)"
  using peer_index_bound [OF assms(2,1)] assms
  by (auto simp: deposit_key_block_def set_keys_def keys_of_def stack_inv_def split: sum.split)

text \<open>
  The two ends of a quantum link stay equal: if the drivers of two nodes return the same block
  under the same number (as \<open>harvest\<close> delivers it to both), the pumps keep the key lanes of the
  two nodes identical, so what one node sends under is exactly what the other receives under, in
  both directions.
\<close>

theorem link_keeps_ends_equal:
  assumes "stack_inv ok sA" and "stack_inv ok' sB" and "peer_index ipB sA = Some i" and "peer_index ipA sB = Some j"
    and "pk_role (keys_of sA i) = RoleA" and "pk_role (keys_of sB j) = RoleB"
    and "pk_lanes (keys_of sA i) = pk_lanes (keys_of sB j)"
    and "harvest_local DA (replicate KEY_BLOCK_BYTES 0) qA = (Inr sq, blk, qA')"
    and "harvest_local DB (replicate KEY_BLOCK_BYTES 0) qB = (Inr sq, blk, qB')"
    and "qkd_pump DA ipB qA sA = (rA, qA'', sA')" and "qkd_pump DB ipA qB sB = (rB, qB'', sB')"
  shows "pk_lanes (keys_of sA' i) = pk_lanes (keys_of sB' j)
    \<and> peer_tx (keys_of sA' i) = peer_rx (keys_of sB' j) \<and> peer_rx (keys_of sA' i) = peer_tx (keys_of sB' j)"
proof -
  have "sA' = snd (deposit_key_block ipB sq blk sA)" "sB' = snd (deposit_key_block ipA sq blk sB)"
    using assms(8-11) by (simp_all add: qkd_pump_def)
  then have A: "keys_of sA' i = (case peer_deposit_block sq blk (keys_of sA i) of Inl e \<Rightarrow> keys_of sA i | Inr v \<Rightarrow> v)"
    and B: "keys_of sB' j = (case peer_deposit_block sq blk (keys_of sB j) of Inl e \<Rightarrow> keys_of sB j | Inr v \<Rightarrow> v)"
    using deposit_keys_of assms(1-4) by blast+
  have "pk_lanes (keys_of sA' i) = pk_lanes (keys_of sB' j)
      \<and> pk_role (keys_of sA' i) = RoleA \<and> pk_role (keys_of sB' j) = RoleB"
    using peer_deposit_lanes [OF assms(7), of sq blk] assms(5-7)
    by (cases "peer_deposit_block sq blk (keys_of sA i)") (auto simp: A B)
  then show ?thesis by (simp add: peer_tx_def peer_rx_def rx_lane_def)
qed

theorem link_keeps_ends_equal_witness:
  "\<exists>sA' sB'. snd (snd (qkd_pump \<lparr>harvest_local = (\<lambda>out q. (Inr q, replicate 256 90, q + 1))\<rparr> [10, 0, 0, 2] (4 :: u64) demo_a)) = sA'
    \<and> snd (snd (qkd_pump \<lparr>harvest_local = (\<lambda>out q. (Inr q, replicate 256 90, q + 1))\<rparr> [10, 0, 0, 1] 4 demo_b)) = sB'
    \<and> peer_tx (keys_of sA' 0) = peer_rx (keys_of sB' 0)"
proof -
  let ?D = "\<lparr>harvest_local = (\<lambda>out q :: u64. (Inr q, replicate 256 (90 :: u8), q + 1))\<rparr>"
  have l: "pk_lanes (keys_of demo_a 0) = pk_lanes (keys_of demo_b 0)" "pk_role (keys_of demo_a 0) = RoleA"
    "pk_role (keys_of demo_b 0) = RoleB"
    unfolding demo_a_def demo_b_def demo_stack_def keys_of_def by simp_all
  obtain rA qA sA' where a: "qkd_pump ?D [10, 0, 0, 2] 4 demo_a = (rA, qA, sA')" by (rule prod_cases3)
  obtain rB qB sB' where b: "qkd_pump ?D [10, 0, 0, 1] 4 demo_b = (rB, qB, sB')" by (rule prod_cases3)
  have h: "harvest_local ?D (replicate KEY_BLOCK_BYTES 0) 4 = (Inr 4, replicate 256 90, 5)" by simp
  have "peer_tx (keys_of sA' 0) = peer_rx (keys_of sB' 0)"
    by (rule link_keeps_ends_equal [OF demo_facts(1-4) l(2,3,1) h h a b, THEN conjunct2, THEN conjunct1])
  then show ?thesis unfolding a b snd_conv by blast
qed

end
