(* ===== verification/Stack_Exchange.thy ===== *)
theory Stack_Exchange
  imports Stack_Weight
begin

text \<open>
  The exact effect of the calls and of the frames of a session that is set up or in use: what
  \<open>connect\<close>, \<open>send\<close> and \<open>recv\<close> do when they succeed, and what a frame with a \<open>Hello\<close>, a
  \<open>HelloAck\<close> or data does to the host it is addressed to.  The lanes of two hosts are related by
  \<open>lanes_linked\<close>, which every record that is sent keeps, whether it arrives or not.
\<close>

unbundle bit_operations_syntax

section \<open>Linked lanes\<close>

definition lanes_linked :: "key_lane \<Rightarrow> key_lane \<Rightarrow> bool" where
  "lanes_linked tx rx \<longleftrightarrow> lane_ok tx \<and> lane_ok rx \<and> win_agree (lane_window tx) (lane_window rx)
     \<and> unat (lane_base rx) \<le> unat (lane_base tx) \<and> lane_end rx = lane_end tx"

lemma lanes_linked_same: "lane_ok l \<Longrightarrow> lanes_linked l l"
  by (simp add: lanes_linked_def win_agree_def)

lemma linked_record:
  assumes "lanes_linked tx rx" and "length data \<le> MAX_RECORD_PAYLOAD" and "key_cost (length data) \<le> lane_count tx"
  obtains tx' rc rx' off where
    "seal tx c sid data (replicate MAX_RECORD_LEN 0) = (Inr (30 + length data), tx', rc)"
    and "length (take (30 + length data) rc) = 30 + length data"
    and "open_record rx (take (30 + length data) rc) (replicate MAX_RECORD_PAYLOAD 0)
      = (Inr (\<lparr>rh_ctype = c, rh_session_id = sid, rh_key_offset = off, rh_length = of_nat (length data)\<rparr>,
          length data), rx', blit 0 data (replicate MAX_RECORD_PAYLOAD 0))"
    and "lanes_linked tx' rx'" and "lanes_linked tx' rx"
    and "lane_count tx' + key_cost (length data) = lane_count tx"
    and "lane_end tx' = lane_end tx" and "lane_end rx' = lane_end rx"
proof -
  note l = assms(1) [unfolded lanes_linked_def]
  obtain tx' rc where s: "seal tx c sid data (replicate MAX_RECORD_LEN 0) = (Inr (30 + length data), tx', rc)"
    and b: "lane_base tx' = lane_base tx + of_nat (32 + length data)" and e: "lane_end tx' = lane_end tx"
    by (rule seal_ok [of tx data "replicate MAX_RECORD_LEN 0" c sid]) (use l assms(2,3) in \<open>simp_all add: qtls_lens\<close>)
  have k: "unat (lane_base tx) + key_cost (length data) \<le> lane_end rx"
    using assms(3) l by (simp add: lane_end_def)
  obtain rx' off where o: "open_record rx (take (30 + length data) rc) (replicate MAX_RECORD_PAYLOAD 0)
      = (Inr (\<lparr>rh_ctype = c, rh_session_id = sid, rh_key_offset = off, rh_length = of_nat (length data)\<rparr>,
          length data), rx', blit 0 data (replicate MAX_RECORD_PAYLOAD 0))"
    and br: "lane_base rx' = lane_base tx'" and okr: "lane_ok rx'" and w: "win_agree (lane_window tx') (lane_window rx')"
    using seal_open_agree [of tx rx data c sid "replicate MAX_RECORD_LEN 0" "30 + length data" tx' rc "replicate MAX_RECORD_PAYLOAD 0"]
      l k s assms(2) by auto
  have okt: "lane_ok tx'" by (rule seal_lane_ok [OF _ s]) (use l in simp)
  have u: "unat (lane_base tx') = unat (lane_base tx) + key_cost (length data)"
    unfolding b using l k by (subst unat_u64_add) (simp_all add: qtls_lens lane_ok_def)
  obtain ks where tk: "lane_take (32 + length data) tx = Inr (lane_base tx, ks, tx')"
    by (rule seal_Inr [OF s]) (use lane_take_Inr(3) in blast)
  have dt: "tx' = lane_discard (32 + length data) tx" using lane_take_Inr(5) [OF tk] .
  have lc: "lane_consume_through off (32 + length data) rx = Inr rx'"
    by (rule open_record_Inr [OF _ o]) (use l in simp_all)
  have small: "32 + length data < 2 ^ 64" using assms(2) by (simp add: qtls_lens)
  have er: "lane_end rx' = lane_end rx"
    using lane_consume_through_Inr [OF _ small lc] l lane_discard_end(2) by (simp add: lane_ok_def)
  have lose: "win_agree (lane_window tx') (lane_window rx)"
    using kl.take_agree [OF _ _ tk] l by blast
  show thesis
  proof (rule that [OF s _ o])
    show "length (take (30 + length data) rc) = 30 + length data"
      by (rule seal_Inr [OF s]) (simp add: length_sealed)
    show "lanes_linked tx' rx'" using okt okr w br e er l by (simp add: lanes_linked_def)
    show "lanes_linked tx' rx" using okt l lose e u by (simp add: lanes_linked_def)
    show "lane_count tx' + key_cost (length data) = lane_count tx" using e u by (simp add: lane_end_def)
  qed (rule e er)+
qed

lemma linked_no_key:
  "length data \<le> MAX_RECORD_PAYLOAD \<Longrightarrow> lane_count tx < key_cost (length data)
   \<Longrightarrow> seal tx c sid data (replicate MAX_RECORD_LEN 0) = (Inl (Key InsufficientKey), tx, replicate MAX_RECORD_LEN 0)"
  by (simp add: seal_def lane_take_def qtls_lens)

text \<open>Deposits: the end moves by the length of the key, the oldest bytes fall out of a full lane.\<close>

lemma lane_deposit_end:
  assumes "lane_ok l" and "lane_deposit key l = Inr l'" and "lane_end l + length key < 2 ^ 64"
  shows "lane_ok l'" and "lane_end l' = lane_end l + length key"
    and "lane_count l' = min LANE_CAPACITY (lane_count l + length key)"
    and "\<exists>lost. lane_window l' = (unat (lane_base l) + lost, drop lost (lane_keys l @ key))"
proof -
  let ?lost = "length (lane_keys l @ key) - LANE_CAPACITY"
  have i: "lane_inv l" using assms(1) by (simp add: lane_ok_def)
  note k = lane_deposit_InrD [OF assms(2)]
  obtain d where d: "lane_deposit key l = Inr d" "lane_inv d" "lane_keys d = drop ?lost (lane_keys l @ key)"
    "lane_base d = lane_base l + of_nat ?lost" by (rule lane_deposit_Inr [OF i k])
  then have d': "d = l'" using assms(2) by simp
  have le: "?lost \<le> lane_count l + length key" by simp
  have "unat (lane_base l) + ?lost < 2 ^ 64" using assms(3) le by (simp add: lane_end_def)
  then have base: "unat (lane_base l') = unat (lane_base l) + ?lost" using d(4) unat_u64_add d' by simp
  have "lane_count l' = lane_count l + length key - ?lost"
    using arg_cong [OF d(3), of length] d' by (simp only: length_drop length_append length_lane_keys)
  then show e: "lane_end l' = lane_end l + length key" and "lane_count l' = min LANE_CAPACITY (lane_count l + length key)"
    using base le unfolding lane_end_def by (simp_all add: min_def)
  show "lane_ok l'" using d(2) d' e assms(3) by (simp add: lane_ok_def)
  show "\<exists>lost. lane_window l' = (unat (lane_base l) + lost, drop lost (lane_keys l @ key))"
    using base d(3) d' by (intro exI [of _ ?lost]) (simp add: lane_window_def)
qed

lemma win_agree_append:
  assumes "win_agree (b, ks) (c, ls)" and "b + length ks = c + length ls"
  shows "win_agree (b, ks @ xs) (c, ls @ xs)"
  unfolding win_agree_def
proof (intro allI impI; clarsimp)
  fix i assume i: "b \<le> i" "i < b + (length ks + length xs)" "c \<le> i"
  show "(ks @ xs) ! (i - b) = (ls @ xs) ! (i - c)"
  proof (cases "i < b + length ks")
    case True
    then have "i - b < length ks" "i - c < length ls" using i assms(2) by linarith+
    then show ?thesis using assms(1) i True assms(2) by (simp add: win_agree_def nth_append)
  next
    case False
    then have "\<not> i - b < length ks" "\<not> i - c < length ls" "i - b - length ks = i - c - length ls"
      using i assms(2) by linarith+
    then show ?thesis by (simp add: nth_append)
  qed
qed

lemma lanes_linked_deposit:
  assumes "lanes_linked tx rx" and "lane_deposit key tx = Inr tx'" and "lane_deposit key rx = Inr rx'"
    and "lane_end tx + length key < 2 ^ 64"
  shows "lanes_linked tx' rx'"
proof -
  note l = assms(1) [unfolded lanes_linked_def]
  have ends: "lane_end rx = lane_end tx" "lane_end rx + length key < 2 ^ 64" using l assms(4) by simp_all
  note t = lane_deposit_end [OF _ assms(2,4)] and r = lane_deposit_end [OF _ assms(3) ends(2)]
  have ok: "lane_ok tx" "lane_ok rx" using l by simp_all
  obtain m n where w: "lane_window tx' = (unat (lane_base tx) + m, drop m (lane_keys tx @ key))"
    "lane_window rx' = (unat (lane_base rx) + n, drop n (lane_keys rx @ key))"
    using t(4) [OF ok(1)] r(4) [OF ok(2)] by blast
  have "win_agree (unat (lane_base tx), lane_keys tx @ key) (unat (lane_base rx), lane_keys rx @ key)"
    using l ends(1) by (intro win_agree_append) (simp_all add: lane_window_def lane_end_def)
  then have "win_agree (lane_window tx') (lane_window rx')"
    unfolding w by (intro win_agree_drop win_agree_sym [OF win_agree_drop [OF win_agree_sym]])
  moreover have "unat (lane_base rx') \<le> unat (lane_base tx')"
    using t(2,3) [OF ok(1)] r(2,3) [OF ok(2)] l by (simp add: lane_end_def min_def split: if_splits)
  ultimately show ?thesis using t(1,2) [OF ok(1)] r(1,2) [OF ok(2)] ends(1) by (simp add: lanes_linked_def)
qed

section \<open>What a host looks like to the others\<close>

definition ses_face :: "session \<Rightarrow> session_state \<times> u16 \<times> ipv4_addr \<times> u16 \<times> u16" where
  "ses_face v = (ses_state v, ses_id v, ses_peer_ip v, ses_peer_port v, ses_local_port v)"

definition same_face :: "'d net_stack \<Rightarrow> 'd net_stack \<Rightarrow> bool" where
  "same_face s s' \<longleftrightarrow> ns_ip s' = ns_ip s \<and> ns_arp s' = ns_arp s
     \<and> map peer_ip (ns_peers s') = map peer_ip (ns_peers s)
     \<and> map ses_face (ns_sessions s') = map ses_face (ns_sessions s)"

lemma position_map: "position P (map f xs) = position (\<lambda>x. P (f x)) xs"
  by (induction xs) auto

lemma same_face_refl [intro]: "same_face s s"
  by (simp add: same_face_def)

lemma same_face_trans: "same_face s t \<Longrightarrow> same_face t u \<Longrightarrow> same_face s u"
  by (simp add: same_face_def)

lemma same_face_finds:
  assumes "same_face s s'"
  shows "peer_index ip s' = peer_index ip s" and "find_session src sp dp i s' = find_session src sp dp i s"
proof -
  have "peer_index ip s = position (\<lambda>x. x = Some ip) (map peer_ip (ns_peers s))" for s :: "'a net_stack"
    by (simp add: peer_index_def position_map)
  then show "peer_index ip s' = peer_index ip s" using assms by (simp add: same_face_def)
  have "find_session src sp dp i s = position (\<lambda>(st, j, a, p, l). st \<noteq> Free \<and> a = src \<and> p = sp \<and> l = dp \<and> j = i)
      (map ses_face (ns_sessions s))" for s :: "'a net_stack"
    by (simp add: find_session_def position_map ses_face_def)
  then show "find_session src sp dp i s' = find_session src sp dp i s" using assms by (simp add: same_face_def)
qed

lemma same_face_session:
  assumes "same_face s s'" and "h < length (ns_sessions s)"
  shows "ses_face (ns_sessions s' ! h) = ses_face (ns_sessions s ! h)"
proof -
  have "map ses_face (ns_sessions s') ! h = map ses_face (ns_sessions s) ! h" "length (ns_sessions s') = length (ns_sessions s)"
    using assms(1) map_eq_imp_length_eq by (auto simp: same_face_def)
  then show ?thesis using assms(2) by simp
qed

lemma map_update_same: "f x = f (xs ! i) \<Longrightarrow> map f (xs[i := x]) = map f xs"
  by (cases "i < length xs") (simp_all add: map_update list_update_same_conv list_update_beyond)

lemma same_face_keys: "same_face s (set_keys p k s)"
  by (simp add: same_face_def set_keys_def map_update_same)

lemma same_face_queue:
  "ses_face v = ses_face (ns_sessions s ! h) \<Longrightarrow> same_face s (set_session h v s)"
  by (simp add: same_face_def set_session_def map_update_same)

lemma same_face_dev: "same_face s (s\<lparr>ns_dev := d\<rparr>)" "same_face s (s\<lparr>ns_ip_id := i\<rparr>)"
  by (simp_all add: same_face_def)

section \<open>A session in use\<close>

text \<open>
  Host \<open>S\<close> can send on session \<open>h\<close> to session \<open>k\<close> of host \<open>T\<close>: the hosts are the peers \<open>p\<close> and \<open>r\<close>
  of each other, their lanes in this direction are linked, \<open>S\<close> knows the MAC address \<open>m\<close>, and both
  sessions are established.
\<close>

definition can_send ::
  "mac_addr \<Rightarrow> nat \<Rightarrow> nat \<Rightarrow> nat \<Rightarrow> nat \<Rightarrow> 'd net_stack \<Rightarrow> 'd net_stack \<Rightarrow> bool" where
  "can_send m p r h k S T \<longleftrightarrow>
     peer_index (ns_ip T) S = Some p \<and> peer_index (ns_ip S) T = Some r
     \<and> lanes_linked (peer_tx (keys_of S p)) (peer_rx (keys_of T r))
     \<and> arp_lookup (ns_ip T) (ns_arp S) = Some m \<and> h < length (ns_sessions S)
     \<and> ses_state (ns_sessions S ! h) = Established \<and> ses_peer_ip (ns_sessions S ! h) = ns_ip T
     \<and> find_session (ns_ip S) (ses_local_port (ns_sessions S ! h)) (ses_peer_port (ns_sessions S ! h))
         (ses_id (ns_sessions S ! h)) T = Some k
     \<and> ses_state (ns_sessions T ! k) = Established"

lemma can_send_cong:
  assumes "can_send m p r h k S T" and "same_face S S'" and "same_face T T'"
    and "lanes_linked (peer_tx (keys_of S' p)) (peer_rx (keys_of T' r))"
  shows "can_send m p r h k S' T'"
proof -
  have k: "k < length (ns_sessions T)"
    using assms(1) find_session_bound unfolding can_send_def by blast
  have h: "h < length (ns_sessions S)" using assms(1) by (simp add: can_send_def)
  have ip: "ns_ip S' = ns_ip S" "ns_ip T' = ns_ip T" "ns_arp S' = ns_arp S"
    using assms(2,3) by (simp_all add: same_face_def)
  have "h < length (ns_sessions S')"
    using assms(2) h map_eq_imp_length_eq by (fastforce simp: same_face_def)
  then show ?thesis
    using assms(1,4) same_face_session [OF assms(2) h] same_face_session [OF assms(3) k]
      same_face_finds [OF assms(2)] same_face_finds [OF assms(3)] ip
    by (simp add: can_send_def ses_face_def)
qed

lemma keys_of_set_keys [simp]:
  "p < length (ns_peers s) \<Longrightarrow> keys_of (set_keys p k s) p = k"
  by (simp add: keys_of_def set_keys_def)

lemma keys_of_simps [simp]:
  "keys_of (set_session h v s) p = keys_of s p" "keys_of (s\<lparr>ns_dev := d\<rparr>) p = keys_of s p"
  "keys_of (s\<lparr>ns_ip_id := i\<rparr>) p = keys_of s p" "keys_of (s\<lparr>ns_arp := c\<rparr>) p = keys_of s p"
  "keys_of (s\<lparr>ns_next_session := j\<rparr>) p = keys_of s p" "keys_of (s\<lparr>ns_listen := l\<rparr>) p = keys_of s p"
  by (simp_all add: keys_of_def set_session_def)

text \<open>Moving one lane of a peer leaves the other where it was.\<close>

lemma peer_set_lanes [simp]:
  assumes "length (pk_lanes k) = 2"
  shows "peer_tx (peer_set_tx l k) = l" "peer_rx (peer_set_tx l k) = peer_rx k"
    "peer_rx (peer_set_rx l k) = l" "peer_tx (peer_set_rx l k) = peer_tx k"
  using assms by (cases "pk_role k"; simp add: peer_tx_def peer_rx_def peer_set_tx_def peer_set_rx_def rx_lane_def)+

text \<open>
  A record sent to a host whose lane is linked: the frame that carries it, and what the receiver's
  \<open>open\<close> makes of it.
\<close>

definition opens_to ::
  "key_lane \<Rightarrow> bytes \<Rightarrow> content_type \<Rightarrow> u16 \<Rightarrow> bytes \<Rightarrow> key_lane \<Rightarrow> bool" where
  "opens_to rx rc c sid data rx' \<longleftrightarrow> (\<exists>off. open_record rx rc (replicate MAX_RECORD_PAYLOAD 0)
     = (Inr (\<lparr>rh_ctype = c, rh_session_id = sid, rh_key_offset = off, rh_length = of_nat (length data)\<rparr>,
          length data), rx', blit 0 data (replicate MAX_RECORD_PAYLOAD 0)))"

text \<open>
  A record whose key bytes start before the window of a lane is refused, and a record that was
  opened is such a record ever after.
\<close>

definition behind :: "key_lane \<Rightarrow> bytes \<Rightarrow> bool" where
  "behind rx rc \<longleftrightarrow> (\<exists>hdr. header_parse rc = Inr hdr \<and> rh_key_offset hdr < lane_base rx)"

lemma behind_mono: "behind rx rc \<Longrightarrow> lane_base rx \<le> lane_base rx' \<Longrightarrow> behind rx' rc"
  by (auto simp: behind_def)

lemma behind_refused:
  assumes "behind rx rc"
  shows "open_record rx rc (replicate MAX_RECORD_PAYLOAD 0) = (Inl (Key AlreadyConsumed), rx, replicate MAX_RECORD_PAYLOAD 0)"
proof -
  obtain hdr where h: "header_parse rc = Inr hdr" "rh_key_offset hdr < lane_base rx" using assms by (auto simp: behind_def)
  then have "checked_sub (rh_key_offset hdr) (lane_base rx) = None" by (simp add: checked_sub_def)
  then show ?thesis using h header_parse_Inr [OF h(1)]
    by (simp add: open_record_def lane_peek_at_def qtls_lens Let_def)
qed

lemma opened_behind:
  assumes "lane_ok rx" and "opens_to rx rc c sid data rx'"
  shows "behind rx' rc" and "lane_base rx \<le> lane_base rx'"
proof -
  obtain h b where o: "open_record rx rc (replicate MAX_RECORD_PAYLOAD 0) = (Inr (h, length data), rx', b)"
    using assms(2) by (auto simp: opens_to_def)
  obtain ks where hp: "header_parse rc = Inr h" and n: "length data = unat (rh_length h)"
    and pk: "lane_peek_at (rh_key_offset h) (32 + length data) rx = Inr ks"
    and cons: "lane_consume_through (rh_key_offset h) (32 + length data) rx = Inr rx'"
    by (rule open_record_Inr [OF assms(1) o]) (use that in blast)
  have "lane_peek_at (rh_key_offset h) (32 + length data) rx' = Inl AlreadyConsumed"
    using header_parse_Inr [OF hp] n by (intro kl.consumed_gone [OF assms(1) _ cons]) (simp_all add: qtls_lens)
  then have lt: "rh_key_offset h < lane_base rx'"
    by (auto simp: lane_peek_at_def checked_sub_def Let_def split: option.splits if_splits)
  then show "behind rx' rc" using hp by (auto simp: behind_def)
  have "lane_base rx \<le> rh_key_offset h"
    using pk by (auto simp: lane_peek_at_def checked_sub_def split: option.splits if_splits)
  then show "lane_base rx \<le> lane_base rx'" using lt by simp
qed

lemma handle_qtls_behind:
  assumes "peer_index src s = Some r" and "behind (peer_rx (keys_of s r)) rc"
  shows "handle_qtls N src sp dp rc s = s"
  using assms(1) behind_refused [OF assms(2)] by (simp add: handle_qtls_def Let_def split: sum.split)

text \<open>The host a frame is addressed to; every other host drops it.\<close>

definition addressed :: "bytes \<Rightarrow> mac_addr \<Rightarrow> bool" where
  "addressed f m \<longleftrightarrow> (\<exists>eth p. eth_parse f = Some (eth, p) \<and> eth_dst eth = m)"

lemma addressed_ignored:
  "addressed f m \<Longrightarrow> m \<noteq> nic_mac N (ns_dev s) \<Longrightarrow> m \<noteq> BROADCAST \<Longrightarrow> handle_frame N f s = s"
  by (auto simp: addressed_def handle_frame_def)

lemma udp_frame_addressed:
  assumes "length m = 6" "length src_mac = 6" "length src = 4" "length dst = 4" and "length rc \<le> 1430"
  shows "addressed (udp_frame m src_mac src dst ident sp dp rc) m"
proof -
  have "28 + length rc < 2 ^ 16" using assms(5) by simp
  then show ?thesis by (rule udp_frame_parse [OF assms(1-4)]) (auto simp: addressed_def)
qed

context net_card
begin

lemma record_delivers:
  assumes "stack_inv ok S" and "stack_inv ok T" and "v = ns_sessions S ! h" and "ses_peer_ip v = ns_ip T"
    and "arp_lookup (ns_ip T) (ns_arp S) = Some (nic_mac N (ns_dev T))"
    and "lanes_linked (peer_tx (keys_of S p)) rx"
    and "length data \<le> MAX_RECORD_PAYLOAD" and "key_cost (length data) \<le> lane_count (peer_tx (keys_of S p))"
  obtains f rc tx' rx' where
    "send_record N p h c data S
      = send_frame N f (set_keys p (peer_set_tx tx' (keys_of S p)) S\<lparr>ns_ip_id := ns_ip_id S + 1\<rparr>)"
    and "frame_fit f" and "frame_weight f = (if c = Hello then 3 else 1)" and "length f = 72 + length data"
    and "\<And>T'. ns_ip T' = ns_ip T \<Longrightarrow> nic_mac N (ns_dev T') = nic_mac N (ns_dev T) \<Longrightarrow>
      handle_frame N f T' = handle_qtls N (ns_ip S) (ses_local_port v) (ses_peer_port v) rc T'"
    and "opens_to rx rc c (ses_id v) data rx'"
    and "lanes_linked tx' rx'" and "lanes_linked tx' rx"
    and "lane_count tx' + key_cost (length data) = lane_count (peer_tx (keys_of S p))"
    and "lane_end tx' = lane_end (peer_tx (keys_of S p))" and "lane_end rx' = lane_end rx"
    and "addressed f (nic_mac N (ns_dev T))"
proof -
  let ?m = "nic_mac N (ns_dev T)"
  obtain tx' rc rx' off where
    sl: "seal (peer_tx (keys_of S p)) c (ses_id v) data (replicate MAX_RECORD_LEN 0) = (Inr (30 + length data), tx', rc)"
    and len: "length (take (30 + length data) rc) = 30 + length data"
    and o: "open_record rx (take (30 + length data) rc) (replicate MAX_RECORD_PAYLOAD 0)
      = (Inr (\<lparr>rh_ctype = c, rh_session_id = ses_id v, rh_key_offset = off, rh_length = of_nat (length data)\<rparr>,
          length data), rx', blit 0 data (replicate MAX_RECORD_PAYLOAD 0))"
    and l: "lanes_linked tx' rx'" "lanes_linked tx' rx"
    and n: "lane_count tx' + key_cost (length data) = lane_count (peer_tx (keys_of S p))"
      "lane_end tx' = lane_end (peer_tx (keys_of S p))" "lane_end rx' = lane_end rx"
    by (rule linked_record [OF assms(6-8), of c "ses_id v"])
  have macs: "length (nic_mac N (ns_dev S)) = 6" "length ?m = 6"
    using assms(1,2) mac_length by (simp_all add: stack_inv_def)
  have ip: "length (ns_ip S) = 4" "length (ns_ip T) = 4" using assms(1,2) by (simp_all add: stack_inv_def)
  let ?rc = "take (30 + length data) rc"
  define f where "f = udp_frame ?m (nic_mac N (ns_dev S)) (ns_ip S) (ns_ip T) (ns_ip_id S)
        (ses_local_port v) (ses_peer_port v) ?rc"
  have rl: "length ?rc \<le> 1430" using len assms(7) by (simp add: qtls_lens)
  have first: "?rc ! 0 = ctype_byte c"
    by (rule seal_Inr [OF sl]) (simp add: sealed_def header_bytes_def Let_def)
  note fw = udp_frame_weight [OF macs(2,1) ip rl, of "ns_ip_id S" "ses_local_port v" "ses_peer_port v", folded f_def]
  have sr: "send_record N p h c data S = send_frame N f
      (set_keys p (peer_set_tx tx' (keys_of S p)) S\<lparr>ns_ip_id := ns_ip_id S + 1\<rparr>)"
    using assms sl macs ip unfolding f_def
    by (subst send_record_known [of v S ?m h p c data "30 + length data" tx' rc]) (simp_all add: lanes_linked_def)
  have ad: "addressed f ?m" unfolding f_def by (rule udp_frame_addressed [OF macs(2,1) ip rl])
  show thesis
  proof (rule that [OF sr fw(2) _ _ _ _ l n ad])
    show "frame_weight f = (if c = Hello then 3 else 1)"
      unfolding fw(1) first using len by (cases c) simp_all
    show "length f = 72 + length data" using fw(3) len by simp
    show "handle_frame N f T' = handle_qtls N (ns_ip S) (ses_local_port v) (ses_peer_port v) ?rc T'"
      if "ns_ip T' = ns_ip T" "nic_mac N (ns_dev T') = ?m" for T'
      unfolding f_def using that macs ip rl by (intro handle_frame_udp) simp_all
    show "opens_to rx ?rc c (ses_id v) data rx'" using o by (auto simp: opens_to_def)
  qed
qed

text \<open>What \<open>handle_qtls\<close> does with a record that opens.\<close>

lemma handle_qtls_opens:
  assumes "peer_index src s = Some r" and "opens_to (peer_rx (keys_of s r)) rc c sid data rx'"
    and "find_session src sp dp sid s = ex" and "ex = None \<Longrightarrow> c = Hello \<and> dp \<in> set (ns_listen s)"
  shows "\<exists>hdr. rh_ctype hdr = c \<and> rh_session_id hdr = sid \<and> handle_qtls N src sp dp rc s
    = deliver_record N r ex src sp dp hdr data (set_keys r (peer_set_rx rx' (keys_of s r)) s)"
proof -
  obtain off where o: "open_record (peer_rx (keys_of s r)) rc (replicate MAX_RECORD_PAYLOAD 0)
     = (Inr (\<lparr>rh_ctype = c, rh_session_id = sid, rh_key_offset = off, rh_length = of_nat (length data)\<rparr>,
          length data), rx', blit 0 data (replicate MAX_RECORD_PAYLOAD 0))"
    using assms(2) by (auto simp: opens_to_def)
  have "take (length data) (blit 0 data (replicate MAX_RECORD_PAYLOAD 0)) = data" by (simp add: blit_def)
  then show ?thesis
    using assms(1,3,4) o open_record_length(4) [OF o]
    by (intro exI [of _ "\<lparr>rh_ctype = c, rh_session_id = sid, rh_key_offset = off, rh_length = of_nat (length data)\<rparr>"])
      (auto simp: handle_qtls_def Let_def)
qed

text \<open>
  \<open>send\<close> while there is key: one record is sealed and handed to the card, and the receiver that
  gets it puts exactly the data into the queue of its session.
\<close>

lemma send_delivers:
  assumes "can_send m p r h k S T" and "stack_inv ok S" and "stack_inv ok T" and "m = nic_mac N (ns_dev T)"
    and "length data \<le> MAX_RECORD_PAYLOAD" and "key_cost (length data) \<le> lane_count (peer_tx (keys_of S p))"
  obtains f tx' rx' where
    "stack_send N h data S =
       (case send_frame N f (set_keys p (peer_set_tx tx' (keys_of S p)) S\<lparr>ns_ip_id := ns_ip_id S + 1\<rparr>) of
          (Inl e, s) \<Rightarrow> (Inl e, s) | (Inr _, s) \<Rightarrow> (Inr (length data), s))"
    and "frame_fit f" and "frame_weight f = 1" and "length f = 72 + length data"
    and "handle_frame N f T = set_session k ((ns_sessions T ! k)
          \<lparr>ses_rx := snd (rxq_push data (ses_rx (ns_sessions T ! k)))\<rparr>)
        (set_keys r (peer_set_rx rx' (keys_of T r)) T)"
    and "lanes_linked tx' rx'" and "lanes_linked tx' (peer_rx (keys_of T r))"
    and "lane_count tx' + key_cost (length data) = lane_count (peer_tx (keys_of S p))"
    and "lane_end tx' = lane_end (peer_tx (keys_of S p))" and "lane_end rx' = lane_end (peer_rx (keys_of T r))"
    and "lane_base (peer_rx (keys_of T r)) \<le> lane_base rx'" and "addressed f m"
    and "\<exists>rc. behind rx' rc \<and> (\<forall>T'. ns_ip T' = ns_ip T \<and> nic_mac N (ns_dev T') = nic_mac N (ns_dev T) \<longrightarrow>
      handle_frame N f T' = handle_qtls N (ns_ip S) (ses_local_port (ns_sessions S ! h)) (ses_peer_port (ns_sessions S ! h)) rc T')"
proof -
  note c = assms(1) [unfolded can_send_def]
  let ?v = "ns_sessions S ! h"
  obtain f rc tx' rx' where sr: "send_record N p h Data data S
      = send_frame N f (set_keys p (peer_set_tx tx' (keys_of S p)) S\<lparr>ns_ip_id := ns_ip_id S + 1\<rparr>)"
    and f: "frame_fit f" "frame_weight f = (if Data = Hello then 3 else 1)" "length f = 72 + length data"
    and hf: "\<And>T'. ns_ip T' = ns_ip T \<Longrightarrow> nic_mac N (ns_dev T') = nic_mac N (ns_dev T) \<Longrightarrow>
      handle_frame N f T' = handle_qtls N (ns_ip S) (ses_local_port ?v) (ses_peer_port ?v) rc T'"
    and o: "opens_to (peer_rx (keys_of T r)) rc Data (ses_id ?v) data rx'"
    and l: "lanes_linked tx' rx'" "lanes_linked tx' (peer_rx (keys_of T r))"
      "lane_count tx' + key_cost (length data) = lane_count (peer_tx (keys_of S p))"
      "lane_end tx' = lane_end (peer_tx (keys_of S p))" "lane_end rx' = lane_end (peer_rx (keys_of T r))"
    and ad: "addressed f (nic_mac N (ns_dev T))"
    by (rule record_delivers [OF assms(2,3) refl, of h p "peer_rx (keys_of T r)" data Data])
      (use c assms(4-6) in auto)
  obtain hdr where hq: "rh_ctype hdr = Data"
    "handle_qtls N (ns_ip S) (ses_local_port ?v) (ses_peer_port ?v) rc T
      = deliver_record N r (Some k) (ns_ip S) (ses_local_port ?v) (ses_peer_port ?v) hdr data
          (set_keys r (peer_set_rx rx' (keys_of T r)) T)"
    using handle_qtls_opens [OF _ o, of "ns_ip S" "ses_local_port ?v" "ses_peer_port ?v" "Some k"] c by auto
  have ss: "stack_send N h data S =
       (case send_frame N f (set_keys p (peer_set_tx tx' (keys_of S p)) S\<lparr>ns_ip_id := ns_ip_id S + 1\<rparr>) of
          (Inl e, s) \<Rightarrow> (Inl e, s) | (Inr _, s) \<Rightarrow> (Inr (length data), s))"
    using c assms(5) by (simp add: stack_send_def Let_def sr not_le)
  have ok: "lane_ok (peer_rx (keys_of T r))" using c by (simp add: lanes_linked_def)
  have old: "\<exists>rc. behind rx' rc \<and> (\<forall>T'. ns_ip T' = ns_ip T \<and> nic_mac N (ns_dev T') = nic_mac N (ns_dev T) \<longrightarrow>
      handle_frame N f T' = handle_qtls N (ns_ip S) (ses_local_port ?v) (ses_peer_port ?v) rc T')"
    using opened_behind(1) [OF ok o] hf by blast
  show thesis
    by (rule that [OF ss f(1) _ f(3) _ l opened_behind(2) [OF ok o] ad [folded assms(4)] old])
      (use f(2) hf [of T] hq c in \<open>simp_all add: deliver_record_def\<close>)
qed

text \<open>\<open>close\<close> while there is key tells the peer; without key the session just disappears here.\<close>

lemma close_delivers:
  assumes "can_send m p r h k S T" and "stack_inv ok S" and "stack_inv ok T" and "m = nic_mac N (ns_dev T)"
    and "key_cost 0 \<le> lane_count (peer_tx (keys_of S p))"
  obtains f tx' rx' where
    "stack_close N h S = (Inr (), set_session h session_empty
       (snd (send_frame N f (set_keys p (peer_set_tx tx' (keys_of S p)) S\<lparr>ns_ip_id := ns_ip_id S + 1\<rparr>))))"
    and "frame_fit f" and "length f = 72"
    and "handle_frame N f T = set_session k ((ns_sessions T ! k)\<lparr>ses_state := Closed\<rparr>)
        (set_keys r (peer_set_rx rx' (keys_of T r)) T)"
proof -
  note c = assms(1) [unfolded can_send_def]
  let ?v = "ns_sessions S ! h"
  have nil: "length ([] :: bytes) \<le> MAX_RECORD_PAYLOAD" "key_cost (length ([] :: bytes)) \<le> lane_count (peer_tx (keys_of S p))"
    using assms(5) by simp_all
  obtain f rc tx' rx' where sr: "send_record N p h Close [] S
      = send_frame N f (set_keys p (peer_set_tx tx' (keys_of S p)) S\<lparr>ns_ip_id := ns_ip_id S + 1\<rparr>)"
    and f: "frame_fit f" "frame_weight f = (if Close = Hello then 3 else 1)" "length f = 72 + length ([] :: bytes)"
    and hf: "\<And>T'. ns_ip T' = ns_ip T \<Longrightarrow> nic_mac N (ns_dev T') = nic_mac N (ns_dev T) \<Longrightarrow>
      handle_frame N f T' = handle_qtls N (ns_ip S) (ses_local_port ?v) (ses_peer_port ?v) rc T'"
    and o: "opens_to (peer_rx (keys_of T r)) rc Close (ses_id ?v) [] rx'"
    and l: "lanes_linked tx' rx'" "lanes_linked tx' (peer_rx (keys_of T r))"
      "lane_count tx' + key_cost (length ([] :: bytes)) = lane_count (peer_tx (keys_of S p))"
      "lane_end tx' = lane_end (peer_tx (keys_of S p))" "lane_end rx' = lane_end (peer_rx (keys_of T r))"
    and ad: "addressed f (nic_mac N (ns_dev T))"
    by (rule record_delivers [OF assms(2,3) refl, of h p "peer_rx (keys_of T r)" "[]" Close])
      (use c assms(4) nil in auto)
  obtain hdr where hq: "rh_ctype hdr = Close"
    "handle_qtls N (ns_ip S) (ses_local_port ?v) (ses_peer_port ?v) rc T
      = deliver_record N r (Some k) (ns_ip S) (ses_local_port ?v) (ses_peer_port ?v) hdr []
          (set_keys r (peer_set_rx rx' (keys_of T r)) T)"
    using handle_qtls_opens [OF _ o, of "ns_ip S" "ses_local_port ?v" "ses_peer_port ?v" "Some k"] c by auto
  have again: "set_session h x (set_session h y s) = set_session h x s" for x y and s :: "'a net_stack"
    by (simp add: set_session_def)
  have "stack_close N h S = (Inr (), set_session h session_empty
       (snd (send_frame N f (set_keys p (peer_set_tx tx' (keys_of S p)) S\<lparr>ns_ip_id := ns_ip_id S + 1\<rparr>))))"
    using c by (simp add: stack_close_def Let_def sr not_le again)
  then show thesis
    by (rule that [OF _ f(1)]) (use f(3) hf [of T] hq c in \<open>simp_all add: deliver_record_def\<close>)
qed

lemma close_silent:
  assumes "can_send m p r h k S T" and "lane_count (peer_tx (keys_of S p)) < key_cost 0" and "p < length (ns_peers S)"
  shows "stack_close N h S = (Inr (), set_session h session_empty S)"
proof -
  note c = assms(1) [unfolded can_send_def]
  have "resolve N (ns_ip T) S = (Inr m, S)" using c by (simp add: resolve_def)
  then have "send_record N p h Close [] S = (Inl (Key InsufficientKey), S)"
    using c linked_no_key [of "[]"] assms(2) by (simp add: send_record_def Let_def)
  then show ?thesis using c by (simp add: stack_close_def Let_def not_le set_session_def)
qed

lemma send_refused:
  assumes "can_send m p r h k S T" and "length data \<le> MAX_RECORD_PAYLOAD"
    and "lane_count (peer_tx (keys_of S p)) < key_cost (length data)" and "p < length (ns_peers S)"
  shows "stack_send N h data S = (Inl (Key InsufficientKey), S)"
proof -
  note c = assms(1) [unfolded can_send_def]
  have "resolve N (ns_ip T) S = (Inr m, S)" using c by (simp add: resolve_def)
  then have "send_record N p h Data data S = (Inl (Key InsufficientKey), S)"
    using c linked_no_key [OF assms(2,3)] by (simp add: send_record_def Let_def)
  then show ?thesis using c assms(2) by (simp add: stack_send_def Let_def not_le)
qed

end

section \<open>Setting up a session\<close>

text \<open>The sessions the two ends create.\<close>

definition client_session :: "u16 \<Rightarrow> ipv4_addr \<Rightarrow> u16 \<Rightarrow> session" where
  "client_session i ip port = \<lparr>ses_state = HelloSent, ses_id = i, ses_peer_ip = ip, ses_peer_port = port,
     ses_local_port = EPHEMERAL_BASE + i mod 16384, ses_accepted = True, ses_rx = rxq_new\<rparr>"

definition server_session :: "u16 \<Rightarrow> ipv4_addr \<Rightarrow> u16 \<Rightarrow> u16 \<Rightarrow> session" where
  "server_session i ip sp dp = \<lparr>ses_state = Established, ses_id = i, ses_peer_ip = ip, ses_peer_port = sp,
     ses_local_port = dp, ses_accepted = False, ses_rx = rxq_new\<rparr>"

context net_card
begin

lemma connect_sends_hello:
  fixes port :: u16
  assumes "stack_inv ok S" and "stack_inv ok T" and "peer_index (ns_ip T) S = Some p"
    and "arp_lookup (ns_ip T) (ns_arp S) = Some (nic_mac N (ns_dev T))"
    and "position (\<lambda>v. ses_state v = Free) (ns_sessions S) = Some h"
    and "lanes_linked (peer_tx (keys_of S p)) rx" and "key_cost 0 \<le> lane_count (peer_tx (keys_of S p))"
  defines "v \<equiv> client_session (ns_next_session S) (ns_ip T) port"
    and "S0 \<equiv> set_session h (client_session (ns_next_session S) (ns_ip T) port)
          (S\<lparr>ns_next_session := max (ns_next_session S + 1) 1\<rparr>)"
  obtains f rc tx' rx' where
    "connect N (ns_ip T) port S =
       (case send_frame N f (set_keys p (peer_set_tx tx' (keys_of S p)) S0\<lparr>ns_ip_id := ns_ip_id S + 1\<rparr>) of
          (Inl e, s) \<Rightarrow> (Inl e, set_session h ((ns_sessions s ! h)\<lparr>ses_state := Free\<rparr>) s)
        | (Inr _, s) \<Rightarrow> (Inr h, s))"
    and "frame_fit f" and "frame_weight f = 3"
    and "\<And>T'. ns_ip T' = ns_ip T \<Longrightarrow> nic_mac N (ns_dev T') = nic_mac N (ns_dev T) \<Longrightarrow>
      handle_frame N f T' = handle_qtls N (ns_ip S) (ses_local_port v) port rc T'"
    and "opens_to rx rc Hello (ns_next_session S) [] rx'" and "lanes_linked tx' rx'"
    and "lane_count tx' + key_cost 0 = lane_count (peer_tx (keys_of S p))"
    and "lane_end tx' = lane_end (peer_tx (keys_of S p))" and "lane_end rx' = lane_end rx"
proof -
  have h: "h < length (ns_sessions S)" by (rule position_SomeD [OF assms(5)])
  have "stack_inv ok (S\<lparr>ns_next_session := max (ns_next_session S + 1) 1\<rparr>)"
    using assms(1) by (simp add: stack_inv_def)
  moreover have "session_ok v"
    using assms(2) by (simp add: v_def client_session_def session_ok_def stack_inv_def)
  ultimately have S0: "stack_inv ok S0" unfolding S0_def v_def by (rule stack_inv_session)
  have f: "ns_arp S0 = ns_arp S" "keys_of S0 p = keys_of S p" "ns_ip S0 = ns_ip S" "ns_ip_id S0 = ns_ip_id S"
    "v = ns_sessions S0 ! h" "ses_peer_ip v = ns_ip T" "ses_id v = ns_next_session S" "ses_peer_port v = port"
    using h by (simp_all add: S0_def v_def client_session_def keys_of_def set_session_def)
  obtain f rc tx' rx' where sr: "send_record N p h Hello [] S0
      = send_frame N f (set_keys p (peer_set_tx tx' (keys_of S0 p)) S0\<lparr>ns_ip_id := ns_ip_id S0 + 1\<rparr>)"
    and ff: "frame_fit f" "frame_weight f = (if Hello = Hello then 3 else 1)"
    and hf: "\<And>T'. ns_ip T' = ns_ip T \<Longrightarrow> nic_mac N (ns_dev T') = nic_mac N (ns_dev T) \<Longrightarrow>
      handle_frame N f T' = handle_qtls N (ns_ip S0) (ses_local_port v) (ses_peer_port v) rc T'"
    and o: "opens_to rx rc Hello (ses_id v) [] rx'" and l: "lanes_linked tx' rx'" "lanes_linked tx' rx"
    and n: "lane_count tx' + key_cost (length ([] :: bytes)) = lane_count (peer_tx (keys_of S0 p))"
      "lane_end tx' = lane_end (peer_tx (keys_of S0 p))" "lane_end rx' = lane_end rx"
    and ad: "addressed f (nic_mac N (ns_dev T))"
    by (rule record_delivers [OF S0 assms(2) f(5,6), of p rx "[]" Hello])
      (use assms(4,6,7) f in \<open>simp_all add: qtls_lens\<close>)
  have rs: "resolve N (ns_ip T) S = (Inr (nic_mac N (ns_dev T)), S)" using assms(4) by (simp add: resolve_def)
  have o': "opens_to rx rc Hello (ns_next_session S) [] rx'" using o f by simp
  show thesis
  proof (rule that [OF _ ff(1) _ _ o' l(1)])
    show "connect N (ns_ip T) port S =
       (case send_frame N f (set_keys p (peer_set_tx tx' (keys_of S p)) S0\<lparr>ns_ip_id := ns_ip_id S + 1\<rparr>) of
          (Inl e, s) \<Rightarrow> (Inl e, set_session h ((ns_sessions s ! h)\<lparr>ses_state := Free\<rparr>) s)
        | (Inr _, s) \<Rightarrow> (Inr h, s))"
      using sr assms(3,5) rs unfolding f(2,4) by (simp add: connect_def Let_def S0_def client_session_def)
  qed (use ff hf n f in \<open>simp_all only: if_True list.size simp_thms refl\<close>)
qed

text \<open>The listener answers an authentic \<open>Hello\<close>: a new established session and a \<open>HelloAck\<close>.\<close>

lemma hello_accepted:
  assumes "stack_inv ok S" and "stack_inv ok T" and "peer_index (ns_ip S) T = Some r"
    and "opens_to (peer_rx (keys_of T r)) rc Hello sid [] rx'"
    and "find_session (ns_ip S) sp dp sid T = None" and "dp \<in> set (ns_listen T)"
    and "position (\<lambda>v. ses_state v = Free) (ns_sessions T) = Some k"
    and "arp_lookup (ns_ip S) (ns_arp T) = Some (nic_mac N (ns_dev S))"
    and "lanes_linked (peer_tx (keys_of T r)) srx" and "key_cost 0 \<le> lane_count (peer_tx (keys_of T r))"
    and "lane_inv rx'"
  defines "T0 \<equiv> set_session k (server_session sid (ns_ip S) sp dp) (set_keys r (peer_set_rx rx' (keys_of T r)) T)"
  obtains g rc2 tx2 rx2 where
    "handle_qtls N (ns_ip S) sp dp rc T = snd (send_frame N g
       (set_keys r (peer_set_tx tx2 (keys_of T0 r)) T0\<lparr>ns_ip_id := ns_ip_id T + 1\<rparr>))"
    and "frame_fit g" and "frame_weight g = 1"
    and "\<And>S'. ns_ip S' = ns_ip S \<Longrightarrow> nic_mac N (ns_dev S') = nic_mac N (ns_dev S) \<Longrightarrow>
      handle_frame N g S' = handle_qtls N (ns_ip T) dp sp rc2 S'"
    and "opens_to srx rc2 HelloAck sid [] rx2" and "lanes_linked tx2 rx2"
    and "lane_count tx2 + key_cost 0 = lane_count (peer_tx (keys_of T r))"
    and "lane_end tx2 = lane_end (peer_tx (keys_of T r))" and "lane_end rx2 = lane_end srx"
proof -
  let ?T1 = "set_keys r (peer_set_rx rx' (keys_of T r)) T" and ?w = "server_session sid (ns_ip S) sp dp"
  have r: "r < MAX_PEERS" by (rule peer_index_bound [OF assms(3,2)])
  have k: "k < length (ns_sessions T)" by (rule position_SomeD [OF assms(7)])
  have ko: "keys_ok (keys_of T r)" by (rule stack_inv_keys_ok [OF assms(2) r])
  have T1: "stack_inv ok ?T1" by (rule stack_inv_keys [OF assms(2) keys_ok_set(2) [OF ko assms(11)]])
  have "session_ok ?w" using assms(1) by (simp add: server_session_def session_ok_def stack_inv_def)
  then have T0: "stack_inv ok T0" unfolding T0_def by (rule stack_inv_session [OF T1])
  have kt: "peer_tx (keys_of T0 r) = peer_tx (keys_of T r)"
    using r assms(2) ko by (simp add: T0_def stack_inv_def keys_ok_def)
  have f: "ns_arp T0 = ns_arp T" "ns_ip T0 = ns_ip T" "ns_ip_id T0 = ns_ip_id T" "?w = ns_sessions T0 ! k"
    "ses_peer_ip ?w = ns_ip S" "ses_id ?w = sid" "ses_peer_port ?w = sp" "ses_local_port ?w = dp"
    using k by (simp_all add: T0_def server_session_def set_session_def set_keys_def)
  obtain g rc2 tx2 rx2 where sr: "send_record N r k HelloAck [] T0
      = send_frame N g (set_keys r (peer_set_tx tx2 (keys_of T0 r)) T0\<lparr>ns_ip_id := ns_ip_id T0 + 1\<rparr>)"
    and ff: "frame_fit g" "frame_weight g = (if HelloAck = Hello then 3 else 1)"
    and hf: "\<And>S'. ns_ip S' = ns_ip S \<Longrightarrow> nic_mac N (ns_dev S') = nic_mac N (ns_dev S) \<Longrightarrow>
      handle_frame N g S' = handle_qtls N (ns_ip T0) (ses_local_port ?w) (ses_peer_port ?w) rc2 S'"
    and o: "opens_to srx rc2 HelloAck (ses_id ?w) [] rx2" and l: "lanes_linked tx2 rx2" "lanes_linked tx2 srx"
    and n: "lane_count tx2 + key_cost (length ([] :: bytes)) = lane_count (peer_tx (keys_of T0 r))"
      "lane_end tx2 = lane_end (peer_tx (keys_of T0 r))" "lane_end rx2 = lane_end srx"
    and ad: "addressed g (nic_mac N (ns_dev S))"
    by (rule record_delivers [OF T0 assms(1) f(4,5), of r srx "[]" HelloAck])
      (use assms(8-10) f kt in \<open>simp_all add: qtls_lens\<close>)
  obtain hdr where "rh_ctype hdr = Hello" "rh_session_id hdr = sid" "handle_qtls N (ns_ip S) sp dp rc T
      = deliver_record N r None (ns_ip S) sp dp hdr [] ?T1"
    using handle_qtls_opens [OF assms(3,4), of sp dp None] assms(5,6) by auto
  then have "handle_qtls N (ns_ip S) sp dp rc T = snd (send_record N r k HelloAck [] T0)"
    using assms(7) by (simp add: deliver_record_def T0_def server_session_def)
  then have hq: "handle_qtls N (ns_ip S) sp dp rc T = snd (send_frame N g
       (set_keys r (peer_set_tx tx2 (keys_of T0 r)) T0\<lparr>ns_ip_id := ns_ip_id T + 1\<rparr>))"
    using sr by (simp add: f)
  have o': "opens_to srx rc2 HelloAck sid [] rx2" using o f by simp
  show thesis
    by (rule that [OF hq ff(1) _ _ o' l(1)]) (use ff(2) hf n f kt in \<open>simp_all\<close>)
qed

lemma ack_accepted:
  assumes "peer_index src S = Some p" and "opens_to (peer_rx (keys_of S p)) rc HelloAck sid [] rx'"
    and "find_session src sp dp sid S = Some h" and "ses_state (ns_sessions S ! h) = HelloSent"
  shows "handle_qtls N src sp dp rc S = set_session h ((ns_sessions S ! h)\<lparr>ses_state := Established\<rparr>)
    (set_keys p (peer_set_rx rx' (keys_of S p)) S)"
  using handle_qtls_opens [OF assms(1,2,3)] assms(4) by (auto simp: deliver_record_def)

text \<open>Address resolution: the request, the answer, and what both hosts know afterwards.\<close>

lemma request_answered:
  assumes "stack_inv ok S" and "stack_inv ok T" and "peer_index (ns_ip S) T \<noteq> None"
    and "arp_lookup (ns_ip T) (ns_arp S) = None"
  obtains f g where "resolve N (ns_ip T) S = (case send_frame N f S of (Inl e, s) \<Rightarrow> (Inl e, s) | (Inr _, s) \<Rightarrow> (Inl ArpPending, s))"
    and "frame_fit f" and "frame_weight f = 2" and "frame_fit g" and "frame_weight g = 1"
    and "handle_frame N f T = snd (send_frame N g
      (T\<lparr>ns_arp := arp_insert (ns_ip S) (nic_mac N (ns_dev S)) (ns_arp T)\<rparr>))"
    and "\<And>S'. ns_ip S' = ns_ip S \<Longrightarrow> nic_mac N (ns_dev S') = nic_mac N (ns_dev S) \<Longrightarrow>
      peer_index (ns_ip T) S' \<noteq> None \<Longrightarrow>
      handle_frame N g S' = S'\<lparr>ns_arp := arp_insert (ns_ip T) (nic_mac N (ns_dev T)) (ns_arp S')\<rparr>"
proof -
  let ?ms = "nic_mac N (ns_dev S)" and ?mt = "nic_mac N (ns_dev T)"
  let ?req = "\<lparr>arp_op = OP_REQUEST, arp_sha = ?ms, arp_spa = ns_ip S, arp_tha = replicate 6 0, arp_tpa = ns_ip T\<rparr>"
  let ?rep = "\<lparr>arp_op = OP_REPLY, arp_sha = ?mt, arp_spa = ns_ip T, arp_tha = ?ms, arp_tpa = ns_ip S\<rparr>"
  let ?f = "arp_frame BROADCAST ?ms ?req" and ?g = "arp_frame ?ms ?mt ?rep"
  have m: "length ?ms = 6" "length ?mt = 6" using assms(1,2) mac_length by (simp_all add: stack_inv_def)
  have ip: "length (ns_ip S) = 4" "length (ns_ip T) = 4" using assms(1,2) by (simp_all add: stack_inv_def)
  have ok: "arp_ok ?req" "arp_ok ?rep" using m ip by (simp_all add: arp_ok_def)
  have bc: "length BROADCAST = 6" by (simp add: BROADCAST_def)
  have rs: "resolve N (ns_ip T) S = (case send_frame N ?f S of (Inl e, s) \<Rightarrow> (Inl e, s) | (Inr _, s) \<Rightarrow> (Inl ArpPending, s))"
    using assms(4) send_arp_frame [OF bc m(1)] by (simp add: resolve_def Let_def)
  have "handle_frame N ?f T = handle_arp N (arp_write ?req (replicate 28 0)) T"
    using bc m ok by (intro handle_arp_frame) simp_all
  also have "\<dots> = snd (send_arp N ?ms \<lparr>arp_op = OP_REPLY, arp_sha = ?mt, arp_spa = ns_ip T, arp_tha = ?ms, arp_tpa = ns_ip S\<rparr>
      (T\<lparr>ns_arp := arp_insert (ns_ip S) ?ms (ns_arp T)\<rparr>))"
    using ok assms(3) by (simp add: handle_arp_def arp_parse_write Let_def)
  also have "\<dots> = snd (send_frame N ?g (T\<lparr>ns_arp := arp_insert (ns_ip S) ?ms (ns_arp T)\<rparr>))"
    using send_arp_frame [of ?ms N "T\<lparr>ns_arp := arp_insert (ns_ip S) ?ms (ns_arp T)\<rparr>"] m by simp
  finally have hf: "handle_frame N ?f T = snd (send_frame N ?g (T\<lparr>ns_arp := arp_insert (ns_ip S) ?ms (ns_arp T)\<rparr>))" .
  have hg: "handle_frame N ?g S' = S'\<lparr>ns_arp := arp_insert (ns_ip T) ?mt (ns_arp S')\<rparr>"
    if "ns_ip S' = ns_ip S" "nic_mac N (ns_dev S') = ?ms" "peer_index (ns_ip T) S' \<noteq> None" for S'
  proof -
    have "handle_frame N ?g S' = handle_arp N (arp_write ?rep (replicate 28 0)) S'"
      using m ok that by (intro handle_arp_frame) simp_all
    then show ?thesis
      using ok that by (simp add: handle_arp_def arp_parse_write OP_REPLY_def OP_REQUEST_def Let_def)
  qed
  note w = arp_frame_weight [OF bc m(1) ok(1)] arp_frame_weight [OF m ok(2)]
  show thesis
    by (rule that [OF rs w(2) _ w(4) _ hf hg]) (use w in \<open>simp_all add: OP_REPLY_def OP_REQUEST_def\<close>)
qed

end

end
