(* ===== verification/Two_Node.thy ===== *)
theory Two_Node
  imports Distill Stack_Exchange "HOL-Library.Sublist"
begin

text \<open>
  The simulation of two nodes (\<open>kernel/net/examples/two_node.rs\<close>): two network stacks joined by a
  cable with a tap, keys from the simulated quantum link.  It is where all layers meet: the link
  of \<open>Distill\<close>, the lanes, the records, the stack, on a card of its own (two unbounded queues).
  The queues that the Rust code shares between a card and the cable belong to the card here, and
  the cable takes from one and puts into the other.  Text on the terminal is not modelled, except
  \<open>describe\<close>, whose \<open>unwrap\<close> can panic and whose result the replay searches.  A panic, and a loop
  that does not end within its fuel, is \<open>None\<close>.
\<close>

unbundle bit_operations_syntax

section \<open>The card\<close>

record queue_card =
  qc_mac :: mac_addr
  qc_tx :: "bytes list"
  qc_rx :: "bytes list"
  qc_panicked :: bool

definition queue_transmit :: "bytes \<Rightarrow> queue_card \<Rightarrow> (net_error + unit) \<times> queue_card" where
  "queue_transmit f d = (Inr (), d\<lparr>qc_tx := qc_tx d @ [f]\<rparr>)"

text \<open>\<open>buf[..f.len()]\<close> panics when the frame is longer than the buffer; the card then records it.\<close>

definition queue_receive :: "bytes \<Rightarrow> queue_card \<Rightarrow> nat option \<times> bytes \<times> queue_card" where
  "queue_receive buf d =
     (case qc_rx d of
        [] \<Rightarrow> (None, buf, d)
      | f # fs \<Rightarrow>
          if length buf < length f then (None, buf, d\<lparr>qc_rx := fs, qc_panicked := True\<rparr>)
          else (Some (length f), blit 0 f buf, d\<lparr>qc_rx := fs\<rparr>))"

definition queue_nic :: "queue_card nic" where
  "queue_nic = \<lparr>nic_mac = qc_mac, nic_transmit = queue_transmit, nic_receive = queue_receive\<rparr>"

lemma queue_nic_simps [simp]:
  "nic_mac queue_nic = qc_mac" "nic_transmit queue_nic = queue_transmit" "nic_receive queue_nic = queue_receive"
  by (simp_all add: queue_nic_def)

definition queue_ok :: "queue_card \<Rightarrow> bool" where
  "queue_ok d \<longleftrightarrow> length (qc_mac d) = 6"

interpretation qcn: frame_queue queue_ok queue_nic qc_tx
  by unfold_locales
    (auto simp: queue_ok_def queue_transmit_def queue_receive_def split: list.splits if_splits)

section \<open>Rendering\<close>

definition hex2 :: "u8 \<Rightarrow> string" where
  "hex2 b = [digit (unat b div 16), digit (unat b mod 16)]"

definition render_hex :: "bytes \<Rightarrow> string" where
  "render_hex bs = concat (map hex2 bs)"

definition render_ip :: "ipv4_addr \<Rightarrow> string" where
  "render_ip a = dec (unat (a ! 0)) @ ''.'' @ dec (unat (a ! 1)) @ ''.'' @ dec (unat (a ! 2)) @ ''.''
     @ dec (unat (a ! 3))"

text \<open>\<open>{:<n}\<close> fills with blanks on the right.\<close>

definition pad_to :: "nat \<Rightarrow> string \<Rightarrow> string" where
  "pad_to n t = t @ replicate (n - length t) (CHR '' '')"

fun ctype_name :: "content_type \<Rightarrow> string" where
  "ctype_name Hello = ''Hello''"
| "ctype_name HelloAck = ''HelloAck''"
| "ctype_name Data = ''Data''"
| "ctype_name Close = ''Close''"

text \<open>The arrow between the addresses, in UTF-8.\<close>

definition arrow :: string where
  "arrow = map char_of [0xE2, 0x86, 0x92 :: nat]"

definition describe :: "bytes \<Rightarrow> string option" where
  "describe f =
     (case eth_parse f of
        None \<Rightarrow> Some ''??''
      | Some (eth, l3) \<Rightarrow>
          if eth_type eth = ETHERTYPE_ARP then
            (case arp_parse l3 of
               None \<Rightarrow> None
             | Some a \<Rightarrow>
                 Some (if arp_op a = 1
                       then ''ARP  who-has '' @ render_ip (arp_tpa a) @ '' tell '' @ render_ip (arp_spa a)
                       else ''ARP  '' @ render_ip (arp_spa a) @ '' is-at '' @ render_hex (arp_sha a)))
          else if eth_type eth = ETHERTYPE_IPV4 then
            (case ipv4_parse l3 of
               None \<Rightarrow> Some ''IPv4 (broken header)''
             | Some (h, l4) \<Rightarrow>
                 (case udp_parse (ip_src h) (ip_dst h) l4 of
                    None \<Rightarrow> Some (''IPv4 '' @ render_ip (ip_src h) @ arrow @ render_ip (ip_dst h) @ '' UDP (checksum NG)'')
                  | Some (u, rc) \<Rightarrow>
                      (case header_parse rc of
                         Inl _ \<Rightarrow> Some ''QTLS (malformed)''
                       | Inr r \<Rightarrow>
                           let n = unat (rh_length r) in
                           if length rc < RECORD_HDR_LEN + n then None
                           else
                             let ct = slice RECORD_HDR_LEN (RECORD_HDR_LEN + n) rc
                             in Some (''IPv4 '' @ render_ip (ip_src h) @ '':'' @ dec (unat (udp_src_port u)) @ arrow
                                  @ render_ip (ip_dst h) @ '':'' @ dec (unat (udp_dst_port u)) @ '' UDP | QTLS ''
                                  @ pad_to 8 (ctype_name (rh_ctype r)) @ '' sid='' @ dec (unat (rh_session_id r))
                                  @ '' key_off='' @ pad_to 5 (dec (unat (rh_key_offset r)))
                                  @ '' len='' @ pad_to 3 (dec n) @ '' ct='' @ render_hex (take 12 ct)))))
          else Some (''ethertype 0x'' @ hex2 (f ! 12) @ hex2 (f ! 13)))"

lemma describe_fit: "frame_fit f \<Longrightarrow> \<exists>text. describe f = Some text"
  by (auto simp: describe_def frame_fit_def Let_def qtls_lens dest: header_parse_Inr(1)
      split: option.splits sum.splits)

section \<open>The cable\<close>

definition IP_A :: ipv4_addr where "IP_A = [10, 0, 0, 1]"
definition IP_B :: ipv4_addr where "IP_B = [10, 0, 0, 2]"

datatype tap = Pass | Tamper | Drop

record wire =
  wr_tap :: tap
  wr_captured :: "bytes list"

record sim =
  sm_a :: "queue_card net_stack"
  sm_b :: "queue_card net_stack"
  sm_wire :: wire
  sm_frame_no :: nat

definition queue_card_new :: "mac_addr \<Rightarrow> queue_card" where
  "queue_card_new mac = \<lparr>qc_mac = mac, qc_tx = [], qc_rx = [], qc_panicked = False\<rparr>"

definition sim_new :: "sim option" where
  "sim_new =
     (let a = stack_configure IP_A (stack_new (queue_card_new [2, 0, 0, 0, 0, 0xA1]));
          b = stack_configure IP_B (stack_new (queue_card_new [2, 0, 0, 0, 0, 0xB2]))
      in case (register_peer IP_B RoleA a, register_peer IP_A RoleB b) of
           ((Inr _, a), (Inr _, b)) \<Rightarrow>
             Some \<lparr>sm_a = a, sm_b = b, sm_wire = \<lparr>wr_tap = Pass, wr_captured = []\<rparr>, sm_frame_no = 0\<rparr>
         | _ \<Rightarrow> None)"

definition set_tx :: "bytes list \<Rightarrow> queue_card net_stack \<Rightarrow> queue_card net_stack" where
  "set_tx fs s = s\<lparr>ns_dev := (ns_dev s)\<lparr>qc_tx := fs\<rparr>\<rparr>"

definition push_rx :: "bytes \<Rightarrow> queue_card net_stack \<Rightarrow> queue_card net_stack" where
  "push_rx f s = s\<lparr>ns_dev := (ns_dev s)\<lparr>qc_rx := qc_rx (ns_dev s) @ [f]\<rparr>\<rparr>"

abbreviation tx_of :: "queue_card net_stack \<Rightarrow> bytes list" where
  "tx_of s \<equiv> qc_tx (ns_dev s)"

abbreviation rx_of :: "queue_card net_stack \<Rightarrow> bytes list" where
  "rx_of s \<equiv> qc_rx (ns_dev s)"

text \<open>The attacker flips a bit of the last ciphertext byte and clears the UDP checksum.\<close>

definition tamper :: "bytes \<Rightarrow> bytes" where
  "tamper f = (let i = length f - TAG_LEN - 1 in f[i := f ! i XOR 1, 14 + 20 + 6 := 0, 14 + 20 + 7 := 0])"

definition carry :: "bool \<Rightarrow> bytes \<Rightarrow> sim \<Rightarrow> sim option" where
  "carry from_a f s =
     (let s = s\<lparr>sm_frame_no := sm_frame_no s + 1\<rparr>;
          f = (if wr_tap (sm_wire s) = Tamper \<and> 80 < length f then tamper f else f)
      in case describe f of
           None \<Rightarrow> None
         | Some _ \<Rightarrow>
             if wr_tap (sm_wire s) = Drop then Some s
             else
               let s = s\<lparr>sm_wire := (sm_wire s)\<lparr>wr_captured := wr_captured (sm_wire s) @ [f]\<rparr>\<rparr>
               in Some (if from_a then s\<lparr>sm_b := push_rx f (sm_b s)\<rparr> else s\<lparr>sm_a := push_rx f (sm_a s)\<rparr>))"

text \<open>The two inner loops of \<open>run\<close>: a queue is emptied onto the cable, frame by frame.\<close>

definition pop_a :: "sim \<Rightarrow> (bytes \<times> sim) option" where
  "pop_a s = (case tx_of (sm_a s) of [] \<Rightarrow> None | f # fs \<Rightarrow> Some (f, s\<lparr>sm_a := set_tx fs (sm_a s)\<rparr>))"

definition pop_b :: "sim \<Rightarrow> (bytes \<times> sim) option" where
  "pop_b s = (case tx_of (sm_b s) of [] \<Rightarrow> None | f # fs \<Rightarrow> Some (f, s\<lparr>sm_b := set_tx fs (sm_b s)\<rparr>))"

lemma carry_tx:
  "carry d f s = Some s' \<Longrightarrow> tx_of (sm_a s') = tx_of (sm_a s) \<and> tx_of (sm_b s') = tx_of (sm_b s)"
  by (auto simp: carry_def push_rx_def Let_def split: option.splits if_splits)

function drain_a :: "bool \<Rightarrow> sim \<Rightarrow> (bool \<times> sim) option" where
  "drain_a moved s =
     (case pop_a s of
        None \<Rightarrow> Some (moved, s)
      | Some (f, s) \<Rightarrow> (case carry True f s of None \<Rightarrow> None | Some s \<Rightarrow> drain_a True s))"
  by auto

termination
  by (relation "measure (\<lambda>(_, s). length (tx_of (sm_a s)))")
    (auto simp: pop_a_def set_tx_def dest!: carry_tx split: list.splits)

function drain_b :: "bool \<Rightarrow> sim \<Rightarrow> (bool \<times> sim) option" where
  "drain_b moved s =
     (case pop_b s of
        None \<Rightarrow> Some (moved, s)
      | Some (f, s) \<Rightarrow> (case carry False f s of None \<Rightarrow> None | Some s \<Rightarrow> drain_b True s))"
  by auto

termination
  by (relation "measure (\<lambda>(_, s). length (tx_of (sm_b s)))")
    (auto simp: pop_b_def set_tx_def dest!: carry_tx split: list.splits)

declare drain_a.simps [simp del] drain_b.simps [simp del]

definition poll_node :: "nat \<Rightarrow> queue_card net_stack \<Rightarrow> (nat \<times> queue_card net_stack) option" where
  "poll_node fuel s =
     (case poll fuel queue_nic s of
        None \<Rightarrow> None
      | Some (n, s) \<Rightarrow> if qc_panicked (ns_dev s) then None else Some (n, s))"

fun sim_run :: "nat \<Rightarrow> sim \<Rightarrow> sim option" where
  "sim_run 0 s = None"
| "sim_run (Suc fuel) s =
     (case drain_a False s of
        None \<Rightarrow> None
      | Some (moved, s) \<Rightarrow>
          (case drain_b moved s of
             None \<Rightarrow> None
           | Some (moved, s) \<Rightarrow>
               (case poll_node (Suc fuel) (sm_a s) of
                  None \<Rightarrow> None
                | Some (m, a) \<Rightarrow>
                    (case poll_node (Suc fuel) (sm_b s) of
                       None \<Rightarrow> None
                     | Some (n, b) \<Rightarrow>
                         let s = s\<lparr>sm_a := a, sm_b := b\<rparr>
                         in if \<not> moved \<and> m + n = 0 \<and> tx_of a = [] \<and> tx_of b = [] then Some s
                            else sim_run fuel s))))"

section \<open>Keys, connections, messages\<close>

definition show_keys :: "sim \<Rightarrow> sim option" where
  "show_keys s =
     (case key_available IP_B (sm_a s) of
        None \<Rightarrow> None
      | Some _ \<Rightarrow> (case key_available IP_A (sm_b s) of None \<Rightarrow> None | Some _ \<Rightarrow> Some s))"

text \<open>One block: printing it reads its first six bytes, and both ends must agree.\<close>

definition deposit_pair :: "key_block_pair \<Rightarrow> sim \<Rightarrow> sim option" where
  "deposit_pair blk s =
     (if length (kb_a blk) < 6 \<or> kb_a blk \<noteq> kb_b blk then None
      else
        (case deposit_key_block IP_B (kb_seq blk) (kb_a blk) (sm_a s) of
           (Inl _, _) \<Rightarrow> None
         | (Inr _, a) \<Rightarrow>
             (case deposit_key_block IP_A (kb_seq blk) (kb_b blk) (sm_b s) of
                (Inl _, _) \<Rightarrow> None
              | (Inr _, b) \<Rightarrow> Some (s\<lparr>sm_a := a, sm_b := b\<rparr>))))"

fun distribute_loop :: "nat \<Rightarrow> 'g entropy \<Rightarrow> 'g quantum_link \<Rightarrow> sim \<Rightarrow> ('g quantum_link \<times> sim) option" where
  "distribute_loop 0 nx link s = Some (link, s)"
| "distribute_loop (Suc blocks) nx link s =
     (case harvest nx link of
        (Inl e, link) \<Rightarrow> distribute_loop blocks nx link s
      | (Inr blk, link) \<Rightarrow>
          (case deposit_pair blk s of None \<Rightarrow> None | Some s \<Rightarrow> distribute_loop blocks nx link s))"

definition distribute_keys :: "'g entropy \<Rightarrow> 'g quantum_link \<Rightarrow> nat \<Rightarrow> sim \<Rightarrow> ('g quantum_link \<times> sim) option" where
  "distribute_keys nx link blocks s =
     (case distribute_loop blocks nx link s of
        None \<Rightarrow> None
      | Some (link, s) \<Rightarrow> (case show_keys s of None \<Rightarrow> None | Some s \<Rightarrow> Some (link, s)))"

text \<open>\<open>tries\<close> bounds the loop that waits for the address of the peer.\<close>

fun connect_loop :: "nat \<Rightarrow> nat \<Rightarrow> sim \<Rightarrow> ((nat \<times> nat) \<times> sim) option" where
  "connect_loop fuel 0 s = None"
| "connect_loop fuel (Suc tries) s =
     (case connect queue_nic IP_B QTLS_PORT (sm_a s) of
        (Inr h, a) \<Rightarrow>
          (case sim_run fuel (s\<lparr>sm_a := a\<rparr>) of
             None \<Rightarrow> None
           | Some s \<Rightarrow>
               (case accept QTLS_PORT (sm_b s) of
                  (None, _) \<Rightarrow> None
                | (Some k, b) \<Rightarrow> Some ((h, k), s\<lparr>sm_b := b\<rparr>)))
      | (Inl ArpPending, a) \<Rightarrow>
          (case sim_run fuel (s\<lparr>sm_a := a\<rparr>) of None \<Rightarrow> None | Some s \<Rightarrow> connect_loop fuel tries s)
      | (Inl _, a) \<Rightarrow> None)"

definition sim_connect :: "nat \<Rightarrow> nat \<Rightarrow> sim \<Rightarrow> ((nat \<times> nat) \<times> sim) option" where
  "sim_connect fuel tries s =
     (case stack_listen QTLS_PORT (sm_b s) of
        (Inl _, _) \<Rightarrow> None
      | (Inr _, b) \<Rightarrow> connect_loop fuel tries (s\<lparr>sm_b := b\<rparr>))"

text \<open>
  \<open>say\<close> prints what happened: the sender's refusal (\<open>Inl\<close>), the receiver's error, or the message
  received.
\<close>

definition say :: "nat \<Rightarrow> bool \<Rightarrow> nat \<Rightarrow> nat \<Rightarrow> bytes \<Rightarrow> sim \<Rightarrow> ((net_error + net_error + bytes) \<times> sim) option" where
  "say fuel from_alice h peer_h msg s =
     (let (r, s) =
        (if from_alice
         then (case stack_send queue_nic h msg (sm_a s) of (r, a) \<Rightarrow> (r, s\<lparr>sm_a := a\<rparr>))
         else (case stack_send queue_nic h msg (sm_b s) of (r, b) \<Rightarrow> (r, s\<lparr>sm_b := b\<rparr>)))
      in case r of
           Inl e \<Rightarrow> Some (Inl e, s)
         | Inr _ \<Rightarrow>
             (case sim_run fuel s of
                None \<Rightarrow> None
              | Some s \<Rightarrow>
                  let buf = replicate 1500 0;
                      (rx, buf, s) =
                        (if from_alice
                         then (case stack_recv peer_h buf (sm_b s) of (rx, buf, b) \<Rightarrow> (rx, buf, s\<lparr>sm_b := b\<rparr>))
                         else (case stack_recv peer_h buf (sm_a s) of (rx, buf, a) \<Rightarrow> (rx, buf, s\<lparr>sm_a := a\<rparr>)))
                  in Some (Inr (case rx of Inr n \<Rightarrow> Inr (take n buf) | Inl e \<Rightarrow> Inl e), s)))"

text \<open>
  The replay of section 5 of \<open>main\<close>: the last captured frame that \<open>describe\<close> calls data is put in
  front of the receiver again.
\<close>

fun find_data :: "bytes list \<Rightarrow> bytes option option" where
  "find_data [] = Some None"
| "find_data (f # fs) =
     (case describe f of
        None \<Rightarrow> None
      | Some text \<Rightarrow> if sublist ''Data'' text then Some (Some f) else find_data fs)"

definition replay :: "nat \<Rightarrow> nat \<Rightarrow> sim \<Rightarrow> ((net_error + nat) \<times> sim) option" where
  "replay fuel k s =
     (case find_data (rev (wr_captured (sm_wire s))) of
        Some (Some f) \<Rightarrow>
          (case poll_node fuel (push_rx f (sm_b s)) of
             None \<Rightarrow> None
           | Some (n, b) \<Rightarrow>
               (case stack_recv k (replicate 64 0) b of (r, buf, b) \<Rightarrow> Some (r, s\<lparr>sm_b := b\<rparr>)))
      | _ \<Rightarrow> None)"

text \<open>Section 7: records are sent, and thrown away on the cable, until one is refused.\<close>

fun exhaust :: "nat \<Rightarrow> nat \<Rightarrow> bytes \<Rightarrow> nat \<Rightarrow> sim \<Rightarrow> (nat \<times> net_error \<times> sim) option" where
  "exhaust 0 h big sent s = None"
| "exhaust (Suc fuel) h big sent s =
     (case stack_send queue_nic h big (sm_a s) of
        (Inl e, a) \<Rightarrow> Some (sent, e, s\<lparr>sm_a := a\<rparr>)
      | (Inr _, a) \<Rightarrow> exhaust fuel h big (sent + 1) (s\<lparr>sm_a := set_tx [] a\<rparr>))"

text \<open>Then key is distributed until the lane of the first node grows, for at most \<open>tries\<close> blocks.\<close>

fun refill :: "nat \<Rightarrow> nat \<Rightarrow> 'g entropy \<Rightarrow> 'g quantum_link \<Rightarrow> sim \<Rightarrow> ('g quantum_link \<times> sim) option" where
  "refill tries before nx link s =
     (case key_available IP_B (sm_a s) of
        None \<Rightarrow> None
      | Some (tx, rx) \<Rightarrow>
          if tx \<noteq> before then Some (link, s)
          else
            (case tries of
               0 \<Rightarrow> None
             | Suc tries \<Rightarrow>
                 (case distribute_keys nx link 1 s of None \<Rightarrow> None | Some (link, s) \<Rightarrow> refill tries before nx link s)))"

declare refill.simps [simp del]

section \<open>The program\<close>

text \<open>
  The sections of \<open>main\<close>, in order; the mode and the noise are those of the link.  Sections 1 and
  2: keys and a session, or an early end when the links have not brought enough key.
\<close>

definition main_start ::
  "nat \<Rightarrow> nat \<Rightarrow> 'g entropy \<Rightarrow> 'g quantum_link \<Rightarrow> ((nat \<times> nat) option \<times> 'g quantum_link \<times> sim) option" where
  "main_start fuel tries nx link =
     (case sim_new of
        None \<Rightarrow> None
      | Some s \<Rightarrow>
          (case distribute_keys nx link 6 s of
             None \<Rightarrow> None
           | Some (link, s) \<Rightarrow>
               (case key_available IP_B (sm_a s) of
                  None \<Rightarrow> None
                | Some (atx, arx) \<Rightarrow>
                    if atx < key_cost 0 \<or> arx < key_cost 0 then Some (None, link, s)
                    else
                      (case sim_connect fuel tries s of
                         None \<Rightarrow> None
                       | Some (hs, s) \<Rightarrow>
                           (case show_keys s of None \<Rightarrow> None | Some s \<Rightarrow> Some (Some hs, link, s))))))"

text \<open>The texts, as UTF-8.\<close>

definition ascii :: "string \<Rightarrow> bytes" where
  "ascii t = map (\<lambda>c. of_nat (of_char c)) t"

definition pay_text :: bytes where
  "pay_text = [0xE9, 0x80, 0x81, 0xE9, 0x87, 0x91] @ ascii '' 100 '' @ [0xE5, 0x86, 0x86]"

definition pay_again_text :: bytes where
  "pay_again_text = pay_text @ ascii '' ('' @ [0xE5, 0x86, 0x8D, 0xE9, 0x80, 0x81] @ ascii '')''"

definition refilled_text :: bytes where
  "refilled_text = [0xE9, 0x8D, 0xB5, 0xE8, 0xA3, 0x9C, 0xE5, 0x85, 0x85, 0xE5, 0xBE, 0x8C, 0xE3, 0x81, 0xAE,
     0xE3, 0x83, 0xA1, 0xE3, 0x83, 0x83, 0xE3, 0x82, 0xBB, 0xE3, 0x83, 0xBC, 0xE3, 0x82, 0xB8]"

definition set_tap :: "tap \<Rightarrow> sim \<Rightarrow> sim" where
  "set_tap t s = s\<lparr>sm_wire := (sm_wire s)\<lparr>wr_tap := t\<rparr>\<rparr>"

text \<open>A list of messages, each with the state of the tap while it is said.\<close>

fun talk ::
  "nat \<Rightarrow> nat \<Rightarrow> nat \<Rightarrow> (tap \<times> bool \<times> bytes) list \<Rightarrow> sim \<Rightarrow> ((net_error + net_error + bytes) list \<times> sim) option" where
  "talk fuel h k [] s = Some ([], s)"
| "talk fuel h k ((t, d, msg) # rest) s =
     (case say fuel d (if d then h else k) (if d then k else h) msg (set_tap t s) of
        None \<Rightarrow> None
      | Some (r, s) \<Rightarrow> map_option (\<lambda>(rs, s). (r # rs, s)) (talk fuel h k rest s))"

text \<open>Sections 3 and 4: three messages, one that is tampered with, and its repetition.\<close>

definition main_talk ::
  "nat \<Rightarrow> nat \<Rightarrow> nat \<Rightarrow> sim \<Rightarrow> ((net_error + net_error + bytes) list \<times> sim) option" where
  "main_talk fuel h k s =
     (case talk fuel h k
             [(Pass, True, ascii ''Hello Bob, this is Alice over QTLS''),
              (Pass, False, ascii ''Hi Alice! OTP key never reused.''),
              (Pass, True, pay_text)] s of
        None \<Rightarrow> None
      | Some (rs, s) \<Rightarrow>
          (case show_keys s of
             None \<Rightarrow> None
           | Some s \<Rightarrow>
               map_option (\<lambda>(rs', s). (rs @ rs', s))
                 (talk fuel h k [(Tamper, True, pay_text), (Pass, True, pay_again_text)] s)))"

text \<open>Section 7: the keys run out, the link brings new ones, and the talk goes on.\<close>

definition main_drain ::
  "nat \<Rightarrow> nat \<Rightarrow> nat \<Rightarrow> 'g entropy \<Rightarrow> 'g quantum_link \<Rightarrow> nat \<Rightarrow> nat \<Rightarrow> sim
   \<Rightarrow> (nat \<times> net_error \<times> (net_error + net_error + bytes) \<times> sim) option" where
  "main_drain records tries fuel nx link h k s =
     (case exhaust records h (replicate 200 0x78) 0 s of
        None \<Rightarrow> None
      | Some (sent, e, s) \<Rightarrow>
          (case key_available IP_B (sm_a s) of
             None \<Rightarrow> None
           | Some (before, _) \<Rightarrow>
               (case refill tries before nx link s of
                  None \<Rightarrow> None
                | Some (link, s) \<Rightarrow>
                    (case say fuel True h k refilled_text
                            (s\<lparr>sm_b := (sm_b s)\<lparr>ns_dev := (ns_dev (sm_b s))\<lparr>qc_rx := []\<rparr>\<rparr>\<rparr>) of
                       None \<Rightarrow> None
                     | Some (r, s) \<Rightarrow> Some (sent, e, r, s)))))"

text \<open>Section 8: the session is closed, and the other side must have noticed.\<close>

definition main_close :: "nat \<Rightarrow> nat \<Rightarrow> nat \<Rightarrow> sim \<Rightarrow> sim option" where
  "main_close fuel h k s =
     (case stack_close queue_nic h (sm_a s) of
        (Inl _, a) \<Rightarrow> None
      | (Inr _, a) \<Rightarrow>
          (case sim_run fuel (s\<lparr>sm_a := a\<rparr>) of
             None \<Rightarrow> None
           | Some s \<Rightarrow> if stack_state k (sm_b s) = Closed then Some s else None))"

text \<open>
  Sections 5 and 6 are \<open>replay\<close> and, with a link of its own, \<open>distribute_keys\<close>.  The whole
  program: \<open>None\<close> is a panic or too little fuel, \<open>Some None\<close> the early end.
\<close>

definition main_rest ::
  "nat \<Rightarrow> nat \<Rightarrow> nat \<Rightarrow> 'g entropy \<Rightarrow> 'g quantum_link \<Rightarrow> 'g quantum_link \<Rightarrow> nat \<Rightarrow> nat \<Rightarrow> sim \<Rightarrow> sim option" where
  "main_rest records tries fuel nx link eve h k s =
     (case main_talk fuel h k s of
        None \<Rightarrow> None
      | Some (_, s) \<Rightarrow>
          (case replay fuel k (set_tap Pass s) of
             None \<Rightarrow> None
           | Some (_, s) \<Rightarrow>
               (case distribute_keys nx eve 3 s of
                  None \<Rightarrow> None
                | Some (_, s) \<Rightarrow>
                    (case main_drain records tries fuel nx link h k s of
                       None \<Rightarrow> None
                     | Some (_, _, _, s) \<Rightarrow> main_close fuel h k s))))"

definition two_node_main ::
  "nat \<Rightarrow> nat \<Rightarrow> nat \<Rightarrow> 'g entropy \<Rightarrow> 'g quantum_link \<Rightarrow> 'g quantum_link \<Rightarrow> sim option option" where
  "two_node_main records tries fuel nx link eve =
     (case main_start fuel tries nx link of
        None \<Rightarrow> None
      | Some (None, link, s) \<Rightarrow> Some None
      | Some (Some (h, k), link, s) \<Rightarrow> map_option Some (main_rest records tries fuel nx link eve h k s))"

section \<open>What the cable does to the queues\<close>

definition through :: "tap \<Rightarrow> bytes \<Rightarrow> bytes list" where
  "through t f = (if t = Drop then [] else [if t = Tamper \<and> 80 < length f then tamper f else f])"

definition cross :: "tap \<Rightarrow> bytes list \<Rightarrow> bytes list" where
  "cross t fs = concat (map (through t) fs)"

lemma cross_simps [simp]:
  "cross t [] = []" "cross t (f # fs) = through t f @ cross t fs" "cross Drop fs = []"
  by (simp_all add: cross_def through_def)

lemma cross_Pass [simp]: "cross Pass fs = fs"
  by (induction fs) (simp_all add: through_def)

definition push_all :: "bytes list \<Rightarrow> queue_card net_stack \<Rightarrow> queue_card net_stack" where
  "push_all fs s = s\<lparr>ns_dev := (ns_dev s)\<lparr>qc_rx := qc_rx (ns_dev s) @ fs\<rparr>\<rparr>"

lemma push_all_simps [simp]:
  "push_all [] s = s" "push_all fs (push_all gs s) = push_all (gs @ fs) s" "push_rx f s = push_all [f] s"
  by (simp_all add: push_all_def push_rx_def)

lemma length_tamper [simp]: "length (tamper f) = length f"
  by (simp add: tamper_def Let_def)

lemma tamper_nth:
  "80 < length f \<Longrightarrow> i \<noteq> 40 \<Longrightarrow> i \<noteq> 41 \<Longrightarrow> i \<noteq> length f - 17 \<Longrightarrow> tamper f ! i = f ! i"
  by (simp add: tamper_def qtls_lens Let_def)

lemma tamper_keeps:
  assumes "80 < length f"
  shows "frame_weight (tamper f) = frame_weight f" and "frame_fit f \<Longrightarrow> frame_fit (tamper f)"
proof -
  note n = tamper_nth [OF assms]
  have b: "tamper f ! 12 = f ! 12" "tamper f ! 13 = f ! 13" "tamper f ! 14 = f ! 14" "tamper f ! 20 = f ! 20"
    "tamper f ! 21 = f ! 21" using assms by (simp_all add: n)
  let ?start = "ETH_HDR_LEN + unat (f ! 14 AND 0x0F) * 4 + UDP_HDR_LEN"
  have "tamper f ! ?start = f ! ?start" if "42 \<le> ?start" and "?start + 30 \<le> length f"
    using that by (intro n) (auto simp: header_lens)
  then show "frame_weight (tamper f) = frame_weight f"
    using assms by (auto simp: frame_weight_def b header_lens qtls_lens Let_def)
  have six: "slice 0 6 (drop 14 (tamper f)) = slice 0 6 (drop 14 f)"
  proof (rule nth_equalityI)
    fix i assume "i < length (slice 0 6 (drop 14 (tamper f)))"
    then have "i < 6" by (simp add: slice_def)
    then show "slice 0 6 (drop 14 (tamper f)) ! i = slice 0 6 (drop 14 f) ! i"
      using assms by (simp add: slice_nth n)
  qed (simp add: slice_def)
  show "frame_fit (tamper f)" if "frame_fit f"
    using that six by (auto simp: frame_fit_def eth_parse_Some b arp_parse_def)
qed

lemma through_keeps:
  assumes "frame_fit f" and "g \<in> set (through t f)"
  shows "frame_fit g" and "frame_weight g = frame_weight f"
  using assms tamper_keeps by (auto simp: through_def split: if_splits)

lemma carry_eq:
  assumes "frame_fit f"
  shows "carry d f s = Some (s\<lparr>sm_frame_no := sm_frame_no s + 1,
      sm_wire := (sm_wire s)\<lparr>wr_captured := wr_captured (sm_wire s) @ through (wr_tap (sm_wire s)) f\<rparr>,
      sm_a := (if d then sm_a s else push_all (through (wr_tap (sm_wire s)) f) (sm_a s)),
      sm_b := (if d then push_all (through (wr_tap (sm_wire s)) f) (sm_b s) else sm_b s)\<rparr>)"
proof -
  have "\<exists>x. describe f = Some x" "80 < length f \<Longrightarrow> \<exists>x. describe (tamper f) = Some x"
    using assms tamper_keeps(2) by (auto intro: describe_fit)
  then show ?thesis
    by (cases "wr_tap (sm_wire s)"; cases "80 < length f"; cases d)
      (auto simp: carry_def through_def Let_def)
qed

text \<open>The state after a queue has been emptied onto the cable.\<close>

definition crossed_a :: "sim \<Rightarrow> sim" where
  "crossed_a s = (let fs = tx_of (sm_a s); gs = cross (wr_tap (sm_wire s)) fs in
     s\<lparr>sm_frame_no := sm_frame_no s + length fs,
       sm_wire := (sm_wire s)\<lparr>wr_captured := wr_captured (sm_wire s) @ gs\<rparr>,
       sm_a := set_tx [] (sm_a s), sm_b := push_all gs (sm_b s)\<rparr>)"

definition crossed_b :: "sim \<Rightarrow> sim" where
  "crossed_b s = (let fs = tx_of (sm_b s); gs = cross (wr_tap (sm_wire s)) fs in
     s\<lparr>sm_frame_no := sm_frame_no s + length fs,
       sm_wire := (sm_wire s)\<lparr>wr_captured := wr_captured (sm_wire s) @ gs\<rparr>,
       sm_b := set_tx [] (sm_b s), sm_a := push_all gs (sm_a s)\<rparr>)"

lemma set_tx_simps [simp]:
  "ns_dev (set_tx fs s) = (ns_dev s)\<lparr>qc_tx := fs\<rparr>" "ns_dev (push_all fs s) = (ns_dev s)\<lparr>qc_rx := qc_rx (ns_dev s) @ fs\<rparr>"
  "set_tx fs (set_tx gs s) = set_tx fs s"
  "tx_of s = [] \<Longrightarrow> set_tx [] s = s"
  by (simp_all add: set_tx_def push_all_def)

lemma drain_a_eq:
  assumes "\<forall>f \<in> set (tx_of (sm_a s)). frame_fit f"
  shows "drain_a m s = Some (m \<or> tx_of (sm_a s) \<noteq> [], crossed_a s)"
  using assms
proof (induction m s rule: drain_a.induct)
  case (1 m s)
  show ?case
  proof (cases "tx_of (sm_a s)")
    case Nil
    then show ?thesis by (subst drain_a.simps) (simp add: pop_a_def crossed_a_def)
  next
    case (Cons f fs)
    let ?s1 = "s\<lparr>sm_a := set_tx fs (sm_a s)\<rparr>"
    have p: "pop_a s = Some (f, ?s1)" using Cons by (simp add: pop_a_def)
    have f: "frame_fit f" using Cons 1(2) by simp
    obtain s2 where c: "carry True f ?s1 = Some s2" using carry_eq [OF f, of True ?s1] by blast
    have "\<forall>g \<in> set (tx_of (sm_a s2)). frame_fit g"
      using carry_tx [OF c] Cons 1(2) by simp
    then have ih: "drain_a True s2 = Some (True, crossed_a s2)"
      using 1(1) [OF p refl c] by simp
    have "crossed_a s2 = crossed_a s"
      using c carry_eq [OF f, of True ?s1] Cons by (auto simp: crossed_a_def Let_def)
    then show ?thesis using p c ih Cons by (subst drain_a.simps) simp
  qed
qed

lemma drain_b_eq:
  assumes "\<forall>f \<in> set (tx_of (sm_b s)). frame_fit f"
  shows "drain_b m s = Some (m \<or> tx_of (sm_b s) \<noteq> [], crossed_b s)"
  using assms
proof (induction m s rule: drain_b.induct)
  case (1 m s)
  show ?case
  proof (cases "tx_of (sm_b s)")
    case Nil
    then show ?thesis by (subst drain_b.simps) (simp add: pop_b_def crossed_b_def)
  next
    case (Cons f fs)
    let ?s1 = "s\<lparr>sm_b := set_tx fs (sm_b s)\<rparr>"
    have p: "pop_b s = Some (f, ?s1)" using Cons by (simp add: pop_b_def)
    have f: "frame_fit f" using Cons 1(2) by simp
    obtain s2 where c: "carry False f ?s1 = Some s2" using carry_eq [OF f, of False ?s1] by blast
    have "\<forall>g \<in> set (tx_of (sm_b s2)). frame_fit g"
      using carry_tx [OF c] Cons 1(2) by simp
    then have ih: "drain_b True s2 = Some (True, crossed_b s2)"
      using 1(1) [OF p refl c] by simp
    have "crossed_b s2 = crossed_b s"
      using c carry_eq [OF f, of False ?s1] Cons by (auto simp: crossed_b_def Let_def)
    then show ?thesis using p c ih Cons by (subst drain_b.simps) simp
  qed
qed

section \<open>Running ends\<close>

text \<open>
  The stack handles frames only by sending: whatever else is true of a card (what waits for it,
  that it has not panicked) stays true.
\<close>

interpretation qcr: frame_queue "\<lambda>d. queue_ok d \<and> qc_rx d = fs \<and> \<not> qc_panicked d" queue_nic qc_tx for fs
  by unfold_locales (auto simp: queue_ok_def queue_transmit_def)

definition node_ok :: "queue_card net_stack \<Rightarrow> bool" where
  "node_ok s \<longleftrightarrow> stack_inv queue_ok s \<and> \<not> qc_panicked (ns_dev s)
     \<and> (\<forall>f \<in> set (tx_of s) \<union> set (rx_of s). frame_fit f)"

definition sim_ok :: "sim \<Rightarrow> bool" where
  "sim_ok s \<longleftrightarrow> node_ok (sm_a s) \<and> node_ok (sm_b s)"

lemma stack_inv_card:
  "stack_inv (\<lambda>d. queue_ok d \<and> qc_rx d = fs \<and> \<not> qc_panicked d) s
   \<longleftrightarrow> stack_inv queue_ok s \<and> rx_of s = fs \<and> \<not> qc_panicked (ns_dev s)"
  by (auto simp: stack_inv_def)

text \<open>A step that keeps the invariant of the stack and queues at most one fitting frame.\<close>

lemma node_step:
  assumes "node_ok s" and "stack_inv (\<lambda>d. queue_ok d \<and> qc_rx d = rx_of s \<and> \<not> qc_panicked d) s'"
    and "adds_light qc_tx w s s'"
  shows "node_ok s'" and "rx_of s' = rx_of s"
  using assms by (auto simp: stack_inv_card node_ok_def adds_light_def)

lemma node_inv: "node_ok s \<Longrightarrow> stack_inv (\<lambda>d. queue_ok d \<and> qc_rx d = rx_of s \<and> \<not> qc_panicked d) s"
  by (simp add: stack_inv_card node_ok_def)

lemma handle_frame_node:
  assumes "node_ok s"
  shows "node_ok (handle_frame queue_nic f s)" and "rx_of (handle_frame queue_nic f s) = rx_of s"
    and "adds_light qc_tx (frame_weight f) s (handle_frame queue_nic f s)"
proof -
  note i = node_inv [OF assms]
  show a: "adds_light qc_tx (frame_weight f) s (handle_frame queue_nic f s)"
    by (rule qcr.handle_frame_adds [OF i])
  show "node_ok (handle_frame queue_nic f s)" "rx_of (handle_frame queue_nic f s) = rx_of s"
    by (rule node_step [OF assms qcr.handle_frame_inv [OF i] a])+
qed

definition wsum :: "bytes list \<Rightarrow> nat" where
  "wsum fs = sum_list (map frame_weight fs)"

lemma wsum_simps [simp]:
  "wsum [] = 0" "wsum (f # fs) = frame_weight f + wsum fs" "wsum (fs @ gs) = wsum fs + wsum gs"
  by (simp_all add: wsum_def)

lemma length_le_wsum: "length fs \<le> wsum fs"
proof (induction fs)
  case (Cons f fs)
  then show ?case using frame_weight_bounds(1) [of f] by simp
qed simp

lemma set_rx_node: "node_ok s \<Longrightarrow> set fs \<subseteq> Collect frame_fit \<Longrightarrow> node_ok (s\<lparr>ns_dev := (ns_dev s)\<lparr>qc_rx := fs\<rparr>\<rparr>)"
  by (auto simp: node_ok_def stack_inv_def queue_ok_def)

lemma poll_loop_node:
  assumes "node_ok s" and "length (rx_of s) < fuel" and "length buf = MAX_FRAME"
  shows "\<exists>s' gs. poll_loop fuel queue_nic buf s = Some (length (rx_of s), s') \<and> node_ok s' \<and> rx_of s' = []
    \<and> tx_of s' = tx_of s @ gs \<and> wsum gs + length (rx_of s) \<le> wsum (rx_of s)"
  using assms
proof (induction fuel arbitrary: s buf)
  case (Suc fuel)
  show ?case
  proof (cases "rx_of s")
    case Nil
    then show ?thesis using Suc.prems(1) by (simp add: queue_receive_def)
  next
    case (Cons f fs)
    let ?t = "s\<lparr>ns_dev := (ns_dev s)\<lparr>qc_rx := fs\<rparr>\<rparr>"
    have fit: "frame_fit f" "set fs \<subseteq> Collect frame_fit" using Suc.prems(1) Cons by (auto simp: node_ok_def)
    then have lf: "length f \<le> length buf" using Suc.prems(3) by (simp add: frame_fit_def)
    have t: "node_ok ?t" by (rule set_rx_node [OF Suc.prems(1) fit(2)])
    let ?u = "handle_frame queue_nic f ?t"
    note u = handle_frame_node [OF t, of f]
    have r: "queue_receive buf (ns_dev s) = (Some (length f), blit 0 f buf, (ns_dev s)\<lparr>qc_rx := fs\<rparr>)"
      using Cons lf by (simp add: queue_receive_def)
    have "take (length f) (blit 0 f buf) = f" by (simp add: blit_def)
    then have eq: "poll_loop (Suc fuel) queue_nic buf s
        = map_option (\<lambda>(n, s). (n + 1, s)) (poll_loop fuel queue_nic (blit 0 f buf) ?u)"
      using r by simp
    have "length (rx_of ?u) < fuel" "length (blit 0 f buf) = MAX_FRAME"
      using Suc.prems(2,3) Cons u(2) lf by simp_all
    from Suc.IH [OF u(1) this] obtain s' gs where
      "poll_loop fuel queue_nic (blit 0 f buf) ?u = Some (length fs, s')" "node_ok s'" "rx_of s' = []"
      "tx_of s' = tx_of ?u @ gs" "wsum gs + length fs \<le> wsum fs"
      using u(2) by auto
    moreover obtain hs where "tx_of ?u = tx_of s @ hs" "wsum hs < frame_weight f"
      using u(3) frame_weight_bounds(1) [of f] by (auto simp: adds_light_def)
    ultimately show ?thesis unfolding eq Cons by (intro exI [of _ s'] exI [of _ "hs @ gs"]) auto
  qed
qed simp

lemma poll_node_ok:
  assumes "node_ok s" and "length (rx_of s) < fuel"
  obtains s' gs where "poll_node fuel s = Some (length (rx_of s), s')" and "node_ok s'" and "rx_of s' = []"
    and "tx_of s' = tx_of s @ gs" and "wsum gs + length (rx_of s) \<le> wsum (rx_of s)"
proof -
  obtain s' gs where p: "poll fuel queue_nic s = Some (length (rx_of s), s')" "node_ok s'" "rx_of s' = []"
    "tx_of s' = tx_of s @ gs" "wsum gs + length (rx_of s) \<le> wsum (rx_of s)"
    using poll_loop_node [OF assms, of "replicate MAX_FRAME 0"] unfolding poll_def by auto
  moreover have "\<not> qc_panicked (ns_dev s')" using p(2) by (simp add: node_ok_def)
  ultimately show thesis by (intro that) (simp_all add: poll_node_def)
qed

definition pending :: "sim \<Rightarrow> nat" where
  "pending s = wsum (tx_of (sm_a s)) + wsum (tx_of (sm_b s)) + wsum (rx_of (sm_a s)) + wsum (rx_of (sm_b s))"

definition quiet :: "sim \<Rightarrow> bool" where
  "quiet s \<longleftrightarrow> tx_of (sm_a s) = [] \<and> tx_of (sm_b s) = [] \<and> rx_of (sm_a s) = [] \<and> rx_of (sm_b s) = []"

lemma cross_fit: "\<forall>f \<in> set fs. frame_fit f \<Longrightarrow> \<forall>g \<in> set (cross t fs). frame_fit g"
  by (induction fs) (auto simp: through_keeps(1))

lemma wsum_cross:
  assumes "\<forall>f \<in> set fs. frame_fit f"
  shows "wsum (cross t fs) = (if t = Drop then 0 else wsum fs)" and "t \<noteq> Drop \<Longrightarrow> length (cross t fs) = length fs"
proof -
  have "wsum (through t f) = (if t = Drop then 0 else frame_weight f)" if "frame_fit f" for f
    using through_keeps(2) [OF that, of _ t] by (auto simp: through_def)
  then show "wsum (cross t fs) = (if t = Drop then 0 else wsum fs)"
    using assms by (induction fs) auto
  show "t \<noteq> Drop \<Longrightarrow> length (cross t fs) = length fs" by (induction fs) (auto simp: through_def)
qed

lemma node_ok_moves:
  "node_ok s \<Longrightarrow> node_ok (set_tx [] s)"
  "node_ok s \<Longrightarrow> \<forall>f \<in> set fs. frame_fit f \<Longrightarrow> node_ok (push_all fs s)"
  by (auto simp: node_ok_def set_tx_def push_all_def stack_inv_def queue_ok_def)

lemma crossed_facts:
  assumes "sim_ok s"
  defines "s2 \<equiv> crossed_b (crossed_a s)" and "t \<equiv> wr_tap (sm_wire s)"
  shows "sim_ok s2" and "tx_of (sm_a s2) = []" and "tx_of (sm_b s2) = []"
    and "rx_of (sm_a s2) = rx_of (sm_a s) @ cross t (tx_of (sm_b s))"
    and "rx_of (sm_b s2) = rx_of (sm_b s) @ cross t (tx_of (sm_a s))"
    and "wr_tap (sm_wire s2) = t"
proof -
  have fit: "\<forall>f \<in> set (tx_of (sm_a s)). frame_fit f" "\<forall>f \<in> set (tx_of (sm_b s)). frame_fit f"
    using assms(1) by (auto simp: sim_ok_def node_ok_def)
  show "sim_ok s2"
    using assms(1) cross_fit [OF fit(1)] cross_fit [OF fit(2)]
    by (simp add: s2_def crossed_a_def crossed_b_def sim_ok_def Let_def node_ok_moves)
qed (simp_all add: s2_def t_def crossed_a_def crossed_b_def Let_def)

text \<open>One round of \<open>run\<close>: the cable, then both nodes.\<close>

lemma sim_round:
  assumes "sim_ok s" and "pending s \<le> fuel"
  obtains s3 where "sim_ok s3" and "rx_of (sm_a s3) = []" and "rx_of (sm_b s3) = []"
    and "sim_run (Suc fuel) s = (if quiet s then Some s3 else sim_run fuel s3)"
    and "if quiet s then quiet s3 else pending s3 < pending s"
proof -
  let ?t = "wr_tap (sm_wire s)" and ?s2 = "crossed_b (crossed_a s)"
  let ?ta = "tx_of (sm_a s)" and ?tb = "tx_of (sm_b s)"
  have fit: "\<forall>f \<in> set ?ta. frame_fit f" "\<forall>f \<in> set ?tb. frame_fit f"
    using assms(1) by (auto simp: sim_ok_def node_ok_def)
  note c = crossed_facts [OF assms(1)]
  have da: "drain_a False s = Some (?ta \<noteq> [], crossed_a s)" using drain_a_eq [OF fit(1), of False] by simp
  have tb: "tx_of (sm_b (crossed_a s)) = ?tb" by (simp add: crossed_a_def Let_def)
  have db: "drain_b m (crossed_a s) = Some (m \<or> ?tb \<noteq> [], ?s2)" for m
    using drain_b_eq [of "crossed_a s" m] fit(2) by (simp add: tb)
  have n: "node_ok (sm_a ?s2)" "node_ok (sm_b ?s2)" using c(1) by (simp_all add: sim_ok_def)
  have w: "wsum (rx_of (sm_a ?s2)) + wsum (rx_of (sm_b ?s2)) = wsum (rx_of (sm_a s)) + wsum (rx_of (sm_b s))
      + (if ?t = Drop then 0 else wsum ?ta + wsum ?tb)"
    using wsum_cross(1) [OF fit(1), of ?t] wsum_cross(1) [OF fit(2), of ?t] by (simp add: c)
  then have le: "wsum (rx_of (sm_a ?s2)) + wsum (rx_of (sm_b ?s2)) \<le> pending s" by (simp add: pending_def)
  have "length (rx_of (sm_a ?s2)) < Suc fuel" "length (rx_of (sm_b ?s2)) < Suc fuel"
    using le assms(2) length_le_wsum [of "rx_of (sm_a ?s2)"] length_le_wsum [of "rx_of (sm_b ?s2)"] by linarith+
  with poll_node_ok [OF n(1)] poll_node_ok [OF n(2)] obtain a ga b gb where
    a: "poll_node (Suc fuel) (sm_a ?s2) = Some (length (rx_of (sm_a ?s2)), a)" "node_ok a" "rx_of a = []"
      "tx_of a = ga" "wsum ga + length (rx_of (sm_a ?s2)) \<le> wsum (rx_of (sm_a ?s2))"
    and b: "poll_node (Suc fuel) (sm_b ?s2) = Some (length (rx_of (sm_b ?s2)), b)" "node_ok b" "rx_of b = []"
      "tx_of b = gb" "wsum gb + length (rx_of (sm_b ?s2)) \<le> wsum (rx_of (sm_b ?s2))"
    by (metis c(2,3) append_Nil)
  let ?m = "length (rx_of (sm_a ?s2))" and ?n = "length (rx_of (sm_b ?s2))"
  let ?s3 = "?s2\<lparr>sm_a := a, sm_b := b\<rparr>" and ?moved = "?ta \<noteq> [] \<or> ?tb \<noteq> []"
  have run: "sim_run (Suc fuel) s
      = (if \<not> ?moved \<and> ?m + ?n = 0 \<and> ga = [] \<and> gb = [] then Some ?s3 else sim_run fuel ?s3)"
    unfolding sim_run.simps by (simp add: da db a(1,4) b(1,4) Let_def del: sim_run.simps)
  have p3: "pending ?s3 = wsum ga + wsum gb" using a b by (simp add: pending_def)
  have none: "ga = []" "gb = []" if "?m + ?n = 0"
    using that a(5) b(5) length_le_wsum [of ga] length_le_wsum [of gb] by auto
  have idle: "quiet s \<longleftrightarrow> \<not> ?moved \<and> ?m + ?n = 0" using c(4,5) by (auto simp: quiet_def)
  have less: "pending ?s3 < pending s" if nq: "\<not> quiet s"
  proof (cases "?m + ?n = 0")
    case True
    then have mv: "?moved" using nq idle by simp
    then have "wsum ?ta + wsum ?tb > 0" using length_le_wsum [of ?ta] length_le_wsum [of ?tb]
      by (cases ?ta; cases ?tb) auto
    then show ?thesis using none [OF True] p3 by (simp add: pending_def)
  next
    case False
    then show ?thesis using a(5) b(5) le p3 by linarith
  qed
  show thesis
  proof (rule that [of ?s3])
    show "sim_ok ?s3" using a(2) b(2) by (simp add: sim_ok_def)
    show "sim_run (Suc fuel) s = (if quiet s then Some ?s3 else sim_run fuel ?s3)"
      using run idle none by (cases "?m + ?n = 0") auto
    show "if quiet s then quiet ?s3 else pending ?s3 < pending s"
      using less idle none a b by (auto simp: quiet_def)
  qed (use a b in simp_all)
qed

lemma sim_run_ends:
  assumes "sim_ok s" and "pending s < fuel"
  shows "\<exists>s'. sim_run fuel s = Some s' \<and> sim_ok s' \<and> quiet s'"
  using assms
proof (induction fuel arbitrary: s)
  case (Suc fuel)
  then have "pending s \<le> fuel" by simp
  from sim_round [OF Suc.prems(1) this] obtain s3 where "sim_ok s3"
    and r: "sim_run (Suc fuel) s = (if quiet s then Some s3 else sim_run fuel s3)"
    and p: "if quiet s then quiet s3 else pending s3 < pending s" by blast
  then show ?case
    using Suc.IH [of s3] Suc.prems(2) by (cases "quiet s") auto
qed simp

end
