(* ===== verification/Two_Node_Props.thy ===== *)
theory Two_Node_Props
  imports Two_Node Stack_Exchange
begin

text \<open>
  The simulation of two nodes from end to end: keys are handed out, the address of the peer is
  resolved, a session is set up, and messages travel in both directions over a cable that loses
  some of the frames.
\<close>

unbundle bit_operations_syntax

section \<open>One frame on the cable\<close>

lemma send_frame_queue [simp]: "send_frame queue_nic f s = (Inr (), set_tx (tx_of s @ [f]) s)"
  by (simp add: send_frame_def queue_transmit_def set_tx_def)

lemma poll_node_idle:
  "rx_of s = [] \<Longrightarrow> \<not> qc_panicked (ns_dev s) \<Longrightarrow> poll_node (Suc n) s = Some (0, s)"
  by (simp add: poll_node_def poll_def queue_receive_def)

lemma poll_node_one:
  assumes "node_ok s" and "rx_of s = []" and "frame_fit g"
  shows "poll_node (Suc (Suc n)) (push_all [g] s) = Some (1, handle_frame queue_nic g s)"
proof -
  let ?b = "replicate MAX_FRAME (0 :: u8)"
  have l: "length g \<le> length ?b" using assms(3) by (simp add: frame_fit_def)
  have d: "(ns_dev s)\<lparr>qc_rx := []\<rparr> = ns_dev s" using assms(2) by (cases "ns_dev s") simp
  then have s: "s\<lparr>ns_dev := (ns_dev s)\<lparr>qc_rx := []\<rparr>\<rparr> = s" by simp
  have r: "queue_receive ?b (ns_dev (push_all [g] s)) = (Some (length g), blit 0 g ?b, ns_dev s)"
    using l d assms(2) by (simp add: queue_receive_def push_all_def)
  have "take (length g) (blit 0 g ?b) = g" by (simp add: blit_def)
  moreover have "push_all [g] s\<lparr>ns_dev := ns_dev s\<rparr> = s" by (simp add: push_all_def)
  moreover note h = handle_frame_node [OF assms(1), of g]
  ultimately show ?thesis
    using r assms(2) h(1,2)
    by (simp add: poll_node_def poll_def queue_receive_def node_ok_def)
qed

definition receive_all :: "bytes list \<Rightarrow> queue_card net_stack \<Rightarrow> queue_card net_stack" where
  "receive_all gs s = fold (handle_frame queue_nic) gs s"

lemma receive_all_simps [simp]:
  "receive_all [] s = s" "receive_all [g] s = handle_frame queue_nic g s"
  by (simp_all add: receive_all_def)

definition hop_a :: "sim \<Rightarrow> sim" where
  "hop_a s = (crossed_a s)\<lparr>sm_b := receive_all (cross (wr_tap (sm_wire s)) (tx_of (sm_a s))) (sm_b s)\<rparr>"

definition hop_b :: "sim \<Rightarrow> sim" where
  "hop_b s = (crossed_b s)\<lparr>sm_a := receive_all (cross (wr_tap (sm_wire s)) (tx_of (sm_b s))) (sm_a s)\<rparr>"

lemma poll_node_cross:
  assumes "node_ok s" and "rx_of s = []" and "frame_fit f"
  shows "\<exists>m. poll_node (Suc (Suc n)) (push_all (cross t [f]) s) = Some (m, receive_all (cross t [f]) s)"
  using poll_node_one [OF assms(1,2)] through_keeps(1) [OF assms(3), of _ t] poll_node_idle [of s "Suc n"] assms
  by (cases "t = Drop") (auto simp: through_def node_ok_def)

lemma crossed_idle: "tx_of (sm_a s) = [] \<Longrightarrow> crossed_a s = s" "tx_of (sm_b s) = [] \<Longrightarrow> crossed_b s = s"
  by (simp_all add: crossed_a_def crossed_b_def)

lemma run_quiet:
  assumes "sim_ok s" and "quiet s"
  shows "sim_run (Suc n) s = Some s"
proof -
  have q: "tx_of (sm_a s) = []" "tx_of (sm_b s) = []" "rx_of (sm_a s) = []" "rx_of (sm_b s) = []"
    using assms(2) by (simp_all add: quiet_def)
  have "poll_node (Suc n) (sm_a s) = Some (0, sm_a s)" "poll_node (Suc n) (sm_b s) = Some (0, sm_b s)"
    using assms(1) q by (auto intro!: poll_node_idle simp: sim_ok_def node_ok_def)
  then show ?thesis
    using q drain_a_eq [of s False] drain_b_eq [of s False] by (simp add: crossed_idle)
qed

lemma run_hop_a:
  assumes "sim_ok s" and "tx_of (sm_a s) = [f]" and "tx_of (sm_b s) = []"
    and "rx_of (sm_a s) = []" and "rx_of (sm_b s) = []"
  shows "sim_run (Suc (Suc n)) s = sim_run (Suc n) (hop_a s)"
proof -
  have f: "frame_fit f" using assms(1,2) by (simp add: sim_ok_def node_ok_def)
  have da: "drain_a False s = Some (True, crossed_a s)" using drain_a_eq [of s False] assms(2) f by simp
  have tb: "tx_of (sm_b (crossed_a s)) = []" using assms(3) by (simp add: crossed_a_def Let_def)
  have db: "drain_b True (crossed_a s) = Some (True, crossed_a s)"
    using drain_b_eq [of "crossed_a s" True] tb by (simp add: crossed_idle)
  have a: "sm_a (crossed_a s) = set_tx [] (sm_a s)"
    and b: "sm_b (crossed_a s) = push_all (cross (wr_tap (sm_wire s)) [f]) (sm_b s)"
    using assms(2) by (simp_all add: crossed_a_def Let_def)
  have pa: "poll_node (Suc (Suc n)) (set_tx [] (sm_a s)) = Some (0, set_tx [] (sm_a s))"
    using assms(1,4) by (intro poll_node_idle) (simp_all add: sim_ok_def node_ok_def)
  obtain m where pb: "poll_node (Suc (Suc n)) (push_all (cross (wr_tap (sm_wire s)) [f]) (sm_b s))
      = Some (m, receive_all (cross (wr_tap (sm_wire s)) [f]) (sm_b s))"
    using poll_node_cross [of "sm_b s" f n "wr_tap (sm_wire s)"] assms(1,5) f by (auto simp: sim_ok_def)
  have eq: "crossed_a s\<lparr>sm_a := set_tx [] (sm_a s), sm_b := x\<rparr> = crossed_a s\<lparr>sm_b := x\<rparr>" for x
    using a by (cases "crossed_a s") simp
  then show ?thesis
    unfolding sim_run.simps(2) [of "Suc n" s]
    by (simp add: da db a b pa pb hop_a_def assms(2) eq Let_def del: cross_simps(2) sim_run.simps)
qed

lemma run_hop_b:
  assumes "sim_ok s" and "tx_of (sm_b s) = [f]" and "tx_of (sm_a s) = []"
    and "rx_of (sm_a s) = []" and "rx_of (sm_b s) = []"
  shows "sim_run (Suc (Suc n)) s = sim_run (Suc n) (hop_b s)"
proof -
  have f: "frame_fit f" using assms(1,2) by (simp add: sim_ok_def node_ok_def)
  have da: "drain_a False s = Some (False, s)" using drain_a_eq [of s False] assms(3) by (simp add: crossed_idle)
  have db: "drain_b False s = Some (True, crossed_b s)"
    using drain_b_eq [of s False] assms(2) f by simp
  have b: "sm_b (crossed_b s) = set_tx [] (sm_b s)"
    and a: "sm_a (crossed_b s) = push_all (cross (wr_tap (sm_wire s)) [f]) (sm_a s)"
    using assms(2) by (simp_all add: crossed_b_def Let_def)
  have pb: "poll_node (Suc (Suc n)) (set_tx [] (sm_b s)) = Some (0, set_tx [] (sm_b s))"
    using assms(1,5) by (intro poll_node_idle) (simp_all add: sim_ok_def node_ok_def)
  obtain m where pa: "poll_node (Suc (Suc n)) (push_all (cross (wr_tap (sm_wire s)) [f]) (sm_a s))
      = Some (m, receive_all (cross (wr_tap (sm_wire s)) [f]) (sm_a s))"
    using poll_node_cross [of "sm_a s" f n "wr_tap (sm_wire s)"] assms(1,4) f by (auto simp: sim_ok_def)
  have eq: "crossed_b s\<lparr>sm_a := x, sm_b := set_tx [] (sm_b s)\<rparr> = crossed_b s\<lparr>sm_a := x\<rparr>" for x
    using b by (cases "crossed_b s") simp
  then show ?thesis
    unfolding sim_run.simps(2) [of "Suc n" s]
    by (simp add: da db a b pa pb hop_b_def assms(2) eq Let_def del: cross_simps(2) sim_run.simps)
qed

section \<open>Nodes that share a session\<close>

definition macs_differ :: "queue_card net_stack \<Rightarrow> queue_card net_stack \<Rightarrow> bool" where
  "macs_differ S T \<longleftrightarrow> distinct [qc_mac (ns_dev S), qc_mac (ns_dev T), BROADCAST]"

lemma macs_differ_sym: "macs_differ S T \<Longrightarrow> macs_differ T S"
  by (auto simp: macs_differ_def)

lemma macs_differ_cong: "ns_dev S' = ns_dev S \<Longrightarrow> ns_dev T' = ns_dev T \<Longrightarrow> macs_differ S' T' \<longleftrightarrow> macs_differ S T"
  by (simp add: macs_differ_def)

definition pair_linked :: "nat \<Rightarrow> nat \<Rightarrow> queue_card net_stack \<Rightarrow> queue_card net_stack \<Rightarrow> bool" where
  "pair_linked h k S T \<longleftrightarrow> node_ok S \<and> node_ok T \<and> macs_differ S T
     \<and> tx_of S = [] \<and> rx_of S = [] \<and> tx_of T = [] \<and> rx_of T = []
     \<and> can_send (qc_mac (ns_dev T)) 0 0 h k S T \<and> can_send (qc_mac (ns_dev S)) 0 0 k h T S
     \<and> rxq_view (ses_rx (ns_sessions S ! h)) = [] \<and> rxq_view (ses_rx (ns_sessions T ! k)) = []"

definition key_left :: "queue_card net_stack \<Rightarrow> nat" where
  "key_left S = lane_count (peer_tx (keys_of S 0))"

lemma pair_linked_sym: "pair_linked h k S T \<Longrightarrow> pair_linked k h T S"
  by (simp add: pair_linked_def macs_differ_sym)

lemma node_session:
  assumes "node_ok s" and "h < length (ns_sessions s)"
  shows "session_ok (ns_sessions s ! h)"
  using assms by (simp add: node_ok_def stack_inv_def)

lemma node_keys:
  assumes "node_ok s" and "p < MAX_PEERS"
  shows "keys_ok (keys_of s p)" and "length (pk_lanes (keys_of s p)) = 2" and "p < length (ns_peers s)"
  using assms stack_inv_keys_ok [of queue_ok s p] by (simp_all add: node_ok_def stack_inv_def keys_ok_def)

text \<open>Reading a message from the queue of a session.\<close>

lemma stack_recv_view:
  assumes "h < length (ns_sessions s)" and "rxq_inv (ses_rx (ns_sessions s ! h))"
  shows "rxq_view (ses_rx (ns_sessions s ! h)) = [] \<Longrightarrow> ses_state (ns_sessions s ! h) = Established
      \<Longrightarrow> stack_recv h buf s = (Inl WouldBlock, buf, s)"
    and "rxq_view (ses_rx (ns_sessions s ! h)) = m # ms \<Longrightarrow> length m \<le> length buf
      \<Longrightarrow> \<exists>buf' q. stack_recv h buf s = (Inr (length m), buf', set_session h ((ns_sessions s ! h)\<lparr>ses_rx := q\<rparr>) s)
            \<and> take (length m) buf' = m \<and> rxq_view q = ms \<and> rxq_inv q"
proof -
  let ?q = "ses_rx (ns_sessions s ! h)"
  obtain r buf' q where p: "rxq_pop buf ?q = (r, buf', q)" by (metis prod.collapse)
  note c = rxq_pop_cases [OF assms(2) p]
  show "stack_recv h buf s = (Inl WouldBlock, buf, s)"
    if "rxq_view ?q = []" "ses_state (ns_sessions s ! h) = Established"
  proof -
    have "r = None" using c(2) that(1) by (cases r) auto
    then show ?thesis using that(2) assms(1) p c(1) by (simp add: stack_recv_def Let_def not_le)
  qed
  show "\<exists>buf' q. stack_recv h buf s = (Inr (length m), buf', set_session h ((ns_sessions s ! h)\<lparr>ses_rx := q\<rparr>) s)
            \<and> take (length m) buf' = m \<and> rxq_view q = ms \<and> rxq_inv q"
    if v: "rxq_view ?q = m # ms" "length m \<le> length buf"
  proof -
    obtain n where n: "r = Some n" using c(1) v by (cases r) auto
    note d = c(2) [OF n]
    have "length (blit 0 (take n buf') buf) = length buf" using d by (intro length_blit) (simp add: min.coboundedI2)
    then have "length buf' = length buf" using d by simp
    then have "n = length m" "take n buf' = m" "rxq_view q = ms" using d v(1) by auto
    then show ?thesis using d assms(1) p n by (auto simp: stack_recv_def Let_def not_le)
  qed
qed

lemma stack_send_take: "stack_send N h (take MAX_RECORD_PAYLOAD msg) s = stack_send N h msg s"
proof -
  have n: "min (length (take MAX_RECORD_PAYLOAD msg)) MAX_RECORD_PAYLOAD = min (length msg) MAX_RECORD_PAYLOAD"
    "take (min (length msg) MAX_RECORD_PAYLOAD) (take MAX_RECORD_PAYLOAD msg) = take (min (length msg) MAX_RECORD_PAYLOAD) msg"
    by (simp_all add: min.commute)
  show ?thesis by (simp only: stack_send_def Let_def n)
qed

lemma stack_send_node:
  assumes "node_ok s"
  shows "node_ok (snd (stack_send queue_nic h data s))" and "rx_of (snd (stack_send queue_nic h data s)) = rx_of s"
  using node_step [OF assms qcr.stack_send_inv [OF node_inv [OF assms]] qcr.stack_send_adds [OF node_inv [OF assms]]]
  by blast+

text \<open>A session whose queue alone changes.\<close>

lemma node_queue:
  assumes "node_ok s" and "h < length (ns_sessions s)" and "rxq_inv q"
  shows "node_ok (set_session h ((ns_sessions s ! h)\<lparr>ses_rx := q\<rparr>) s)"
proof -
  have "session_ok ((ns_sessions s ! h)\<lparr>ses_rx := q\<rparr>)"
    using node_session [OF assms(1,2)] assms(3) by (simp add: session_ok_def)
  then show ?thesis using assms(1) by (simp add: node_ok_def stack_inv_session)
qed

text \<open>What a message leaves alone: the address, the role, and where the lanes end.\<close>

definition keys_stay :: "queue_card net_stack \<Rightarrow> queue_card net_stack \<Rightarrow> bool" where
  "keys_stay S S' \<longleftrightarrow> ns_ip S' = ns_ip S \<and> pk_role (keys_of S' 0) = pk_role (keys_of S 0)
     \<and> lane_end (peer_tx (keys_of S' 0)) = lane_end (peer_tx (keys_of S 0))
     \<and> lane_end (peer_rx (keys_of S' 0)) = lane_end (peer_rx (keys_of S 0))"

lemma keys_stay_refl [simp]: "keys_stay S S"
  by (simp add: keys_stay_def)

lemma keys_stay_trans: "keys_stay S T \<Longrightarrow> keys_stay T U \<Longrightarrow> keys_stay S U"
  by (simp add: keys_stay_def)

lemma peer_set_role [simp]: "pk_role (peer_set_tx l k) = pk_role k" "pk_role (peer_set_rx l k) = pk_role k"
  by (simp_all add: peer_set_tx_def peer_set_rx_def)

text \<open>
  What an attacker on the cable can record.  \<open>spent\<close> says that a frame has no effect on a node any
  more: it is addressed to somebody else, or its record starts before the window of the node's
  receiving lane.  Nodes only move on: a spent frame stays spent.
\<close>

definition spent :: "bytes \<Rightarrow> queue_card net_stack \<Rightarrow> bool" where
  "spent f T \<longleftrightarrow> (\<exists>m. addressed f m \<and> m \<noteq> qc_mac (ns_dev T) \<and> m \<noteq> BROADCAST)
     \<or> (\<exists>src sp dp rc. peer_index src T = Some 0 \<and> behind (peer_rx (keys_of T 0)) rc
          \<and> (\<forall>T'. ns_ip T' = ns_ip T \<and> qc_mac (ns_dev T') = qc_mac (ns_dev T) \<longrightarrow>
               handle_frame queue_nic f T' = handle_qtls queue_nic src sp dp rc T'))"

definition moves_on :: "queue_card net_stack \<Rightarrow> queue_card net_stack \<Rightarrow> bool" where
  "moves_on S S' \<longleftrightarrow> same_face S S' \<and> ns_dev S' = ns_dev S
     \<and> lane_base (peer_rx (keys_of S 0)) \<le> lane_base (peer_rx (keys_of S' 0))"

lemma moves_on_refl [simp]: "moves_on S S"
  by (simp add: moves_on_def same_face_refl)

lemma spent_frame:
  assumes "spent f T"
  shows "handle_frame queue_nic f T = T"
proof -
  consider m where "addressed f m" "m \<noteq> qc_mac (ns_dev T)" "m \<noteq> BROADCAST"
    | src sp dp rc where "peer_index src T = Some 0" "behind (peer_rx (keys_of T 0)) rc"
      "handle_frame queue_nic f T = handle_qtls queue_nic src sp dp rc T"
    using assms by (auto simp: spent_def)
  then show ?thesis
  proof cases
    case 1
    then show ?thesis by (intro addressed_ignored) simp_all
  next
    case 2
    then show ?thesis by (simp add: handle_qtls_behind)
  qed
qed

lemma spent_moves_on:
  assumes "spent f S" and "moves_on S S'"
  shows "spent f S'"
proof -
  note m = assms(2) [unfolded moves_on_def]
  have ip: "ns_ip S' = ns_ip S" "ns_dev S' = ns_dev S" using m by (simp_all add: same_face_def)
  have "peer_index src S' = peer_index src S" for src using m same_face_finds(1) by blast
  then show ?thesis
    using assms(1) behind_mono m unfolding spent_def ip by (elim disjE) (blast, metis)
qed

text \<open>
  One message between linked nodes.  Whether its frame is lost or arrives, the nodes are linked
  afterwards; if it arrives, the receiver reads exactly the message.
\<close>

lemma exchange:
  assumes "pair_linked h k S T" and "length m \<le> MAX_RECORD_PAYLOAD" and "key_cost (length m) \<le> key_left S"
  obtains f S2 T2 T3 buf where
    "stack_send queue_nic h m S = (Inr (length m), set_tx [f] S2)"
    and "frame_fit f" and "length f = 72 + length m" and "node_ok (set_tx [f] S2)"
    and "handle_frame queue_nic f T = T2" and "node_ok T2" and "tx_of T2 = []" and "rx_of T2 = []"
    and "stack_recv k (replicate 1500 0) T2 = (Inr (length m), buf, T3)" and "take (length m) buf = m"
    and "pair_linked h k S2 T" and "pair_linked h k S2 T3"
    and "key_left S2 + key_cost (length m) = key_left S" and "key_left T3 = key_left T"
    and "keys_stay S S2" and "keys_stay T T3"
    and "moves_on S S2" and "moves_on T T3" and "spent f S2" and "spent f T3"
proof -
  note L = assms(1) [unfolded pair_linked_def]
  have S: "node_ok S" "stack_inv queue_ok S" and T: "node_ok T" "stack_inv queue_ok T"
    using L by (simp_all add: node_ok_def)
  have q: "tx_of S = []" "rx_of S = []" "tx_of T = []" "rx_of T = []" using L by simp_all
  have st: "can_send (qc_mac (ns_dev T)) 0 0 h k S T" and ts: "can_send (qc_mac (ns_dev S)) 0 0 k h T S"
    using L by simp_all
  have hk: "h < length (ns_sessions S)" "k < length (ns_sessions T)" using st ts by (simp_all add: can_send_def)
  have two: "0 < MAX_PEERS" by (simp add: MAX_PEERS_def)
  note kS = node_keys [OF S(1) two] and kT = node_keys [OF T(1) two]
  let ?w = "ns_sessions T ! k"
  obtain f tx' rx' where send: "stack_send queue_nic h m S =
       (case send_frame queue_nic f (set_keys 0 (peer_set_tx tx' (keys_of S 0)) S\<lparr>ns_ip_id := ns_ip_id S + 1\<rparr>) of
          (Inl e, s) \<Rightarrow> (Inl e, s) | (Inr _, s) \<Rightarrow> (Inr (length m), s))"
    and f: "frame_fit f" "length f = 72 + length m"
    and hf: "handle_frame queue_nic f T = set_session k (?w\<lparr>ses_rx := snd (rxq_push m (ses_rx ?w))\<rparr>)
        (set_keys 0 (peer_set_rx rx' (keys_of T 0)) T)"
    and l: "lanes_linked tx' rx'" "lanes_linked tx' (peer_rx (keys_of T 0))"
    and n: "lane_count tx' + key_cost (length m) = lane_count (peer_tx (keys_of S 0))"
    and e: "lane_end tx' = lane_end (peer_tx (keys_of S 0))" "lane_end rx' = lane_end (peer_rx (keys_of T 0))"
    and bs: "lane_base (peer_rx (keys_of T 0)) \<le> lane_base rx'" and ad: "addressed f (qc_mac (ns_dev T))"
    and old: "\<exists>rc. behind rx' rc \<and> (\<forall>T'. ns_ip T' = ns_ip T \<and> nic_mac queue_nic (ns_dev T') = nic_mac queue_nic (ns_dev T)
      \<longrightarrow> handle_frame queue_nic f T' = handle_qtls queue_nic (ns_ip S) (ses_local_port (ns_sessions S ! h))
            (ses_peer_port (ns_sessions S ! h)) rc T')"
    by (rule qcn.send_delivers [OF st S(2) T(2) _ assms(2)]) (use assms(3) in \<open>simp_all add: key_left_def\<close>)
  define S2 where "S2 = set_keys 0 (peer_set_tx tx' (keys_of S 0)) S\<lparr>ns_ip_id := ns_ip_id S + 1\<rparr>"
  define T2 where "T2 = handle_frame queue_nic f T"
  have S2d: "ns_dev S2 = ns_dev S" "keys_of S2 0 = peer_set_tx tx' (keys_of S 0)" "ns_sessions S2 = ns_sessions S"
    using kS(3) by (simp_all add: S2_def)
  have send': "stack_send queue_nic h m S = (Inr (length m), set_tx [f] S2)"
    unfolding send S2_def [symmetric] using S2d q by simp
  have nS: "node_ok (set_tx [f] S2)" using stack_send_node(1) [OF S(1), of h m] by (simp add: send')
  then have nS2: "node_ok S2" using S2d q by (auto simp: node_ok_def set_tx_def stack_inv_def queue_ok_def)
  have faceS: "same_face S S2" unfolding S2_def by (intro same_face_trans [OF same_face_keys same_face_dev(2)])
  have T2k: "keys_of T2 0 = peer_set_rx rx' (keys_of T 0)" "ns_dev T2 = ns_dev T" "length (ns_sessions T2) = length (ns_sessions T)"
    "ns_sessions T2 ! k = ?w\<lparr>ses_rx := snd (rxq_push m (ses_rx ?w))\<rparr>"
    using kT(3) hk(2) by (simp_all add: T2_def hf)
  have nT2: "node_ok T2" unfolding T2_def by (rule handle_frame_node(1) [OF T(1)])
  have rw: "rxq_inv (ses_rx ?w)" using node_session [OF T(1) hk(2)] by (simp add: session_ok_def)
  obtain b q' where pu: "rxq_push m (ses_rx ?w) = (b, q')" by (cases "rxq_push m (ses_rx ?w)")
  have "rxq_count (ses_rx ?w) = 0" using L length_rxq_view [of "ses_rx ?w"] by simp
  then have view: "rxq_view q' = [m]" "rxq_inv q'"
    using rxq_push_cases [OF rw assms(2) pu] L by simp_all
  have big: "length m \<le> length (replicate 1500 (0 :: u8))" using assms(2) by (simp add: qtls_lens)
  obtain buf q2 where recv: "stack_recv k (replicate 1500 0) T2
      = (Inr (length m), buf, set_session k ((ns_sessions T2 ! k)\<lparr>ses_rx := q2\<rparr>) T2)"
    "take (length m) buf = m" "rxq_view q2 = []" "rxq_inv q2"
    using stack_recv_view(2) [of k T2 m "[]" "replicate 1500 0"] view T2k(3,4) hk(2) pu big by auto
  define T3 where "T3 = set_session k ((ns_sessions T2 ! k)\<lparr>ses_rx := q2\<rparr>) T2"
  have T3d: "ns_dev T3 = ns_dev T" "keys_of T3 0 = peer_set_rx rx' (keys_of T 0)"
    "ses_rx (ns_sessions T3 ! k) = q2"
    using T2k hk(2) by (simp_all add: T3_def)
  have nT3: "node_ok T3" unfolding T3_def by (rule node_queue [OF nT2 _ recv(4)]) (use hk(2) T2k in simp)
  have faceT2: "same_face T T2" unfolding T2_def hf
    by (rule same_face_trans [OF same_face_keys same_face_queue]) (simp add: ses_face_def)
  have "same_face T2 T3" unfolding T3_def by (rule same_face_queue) (simp add: ses_face_def)
  then have faceT: "same_face T T3" by (rule same_face_trans [OF faceT2])
  have lanes: "lanes_linked (peer_tx (keys_of T 0)) (peer_rx (keys_of S 0))" using ts by (simp add: can_send_def)
  have lost: "pair_linked h k S2 T"
    using L nS2 S2d macs_differ_cong [OF S2d(1) refl] can_send_cong [OF st faceS same_face_refl] can_send_cong [OF ts same_face_refl faceS] l(2) lanes kS(2)
    by (simp add: pair_linked_def)
  have arrived: "pair_linked h k S2 T3"
    using L nS2 nT3 S2d T3d macs_differ_cong [OF S2d(1) T3d(1)] can_send_cong [OF st faceS faceT] can_send_cong [OF ts faceT faceS] l(1) lanes kS(2) kT(2) recv(3)
    by (simp add: pair_linked_def)
  have stay: "keys_stay S S2" "keys_stay T T3"
    using S2d T3d faceS faceT e kS(2) kT(2) by (simp_all add: keys_stay_def same_face_def)
  have moves: "moves_on S S2" "moves_on T T3"
    using S2d T3d faceS faceT bs kS(2) kT(2) by (simp_all add: moves_on_def)
  have "spent f S2"
    using ad L S2d by (auto simp: spent_def macs_differ_def)
  moreover have "spent f T3"
  proof -
    have "peer_index (ns_ip S) T = Some 0" using ts by (simp add: can_send_def)
    then have "peer_index (ns_ip S) T3 = Some 0" using same_face_finds(1) [OF faceT] by simp
    moreover have "ns_ip T3 = ns_ip T" using faceT by (simp add: same_face_def)
    ultimately show ?thesis using old T3d kT(2) unfolding spent_def by (intro disjI2) auto
  qed
  ultimately have dead: "spent f S2" "spent f T3" by blast+
  show thesis
    by (rule that [OF send' f nS T2_def [symmetric] nT2 _ _ recv(1) [folded T3_def] recv(2) lost arrived _ _ stay moves dead])
      (use T2k q n kS(2) kT(2) S2d T3d in \<open>simp_all add: key_left_def\<close>)
qed

lemma exchange_refused:
  assumes "pair_linked h k S T" and "length m \<le> MAX_RECORD_PAYLOAD" and "key_left S < key_cost (length m)"
  shows "stack_send queue_nic h m S = (Inl (Key InsufficientKey), S)"
  by (rule qcn.send_refused [of "qc_mac (ns_dev T)" 0 0 h k S T])
    (use assms node_keys(3) [of S 0] in \<open>simp_all add: pair_linked_def key_left_def MAX_PEERS_def\<close>)

section \<open>Conversations\<close>

text \<open>What a tap does to the frame of a message: with at most 80 bytes it is never altered.\<close>

lemma through_short: "t = Tamper \<Longrightarrow> length f \<le> 80 \<Longrightarrow> through t f = [f]"
  by (simp add: through_def)

text \<open>Running the simulation with one data frame on the cable.\<close>

lemma run_message_a:
  assumes "node_ok (set_tx [f] S)" and "tx_of S = []" and "rx_of S = []" and "node_ok T" and "tx_of T = []" and "rx_of T = []"
    and "handle_frame queue_nic f T = T2" and "tx_of T2 = []" and "rx_of T2 = []" and "node_ok S"
    and "sm_a s = set_tx [f] S" and "sm_b s = T" and "wr_tap (sm_wire s) = Tamper \<longrightarrow> length f \<le> 80"
  obtains s' where "sim_run (Suc (Suc n)) s = Some s'" and "sm_a s' = S"
    and "sm_b s' = (if wr_tap (sm_wire s) = Drop then T else T2)" and "wr_tap (sm_wire s') = wr_tap (sm_wire s)"
    and "wr_captured (sm_wire s') = wr_captured (sm_wire s) @ (if wr_tap (sm_wire s) = Drop then [] else [f])"
proof -
  let ?t = "wr_tap (sm_wire s)"
  have ok: "sim_ok s" using assms by (simp add: sim_ok_def)
  have c: "cross ?t [f] = (if ?t = Drop then [] else [f])" using assms(13) by (cases ?t) (simp_all add: through_def)
  have b: "receive_all (cross ?t [f]) T = (if ?t = Drop then T else T2)" unfolding c using assms(7) by simp
  have h: "sm_a (hop_a s) = S" "sm_b (hop_a s) = (if ?t = Drop then T else T2)" "wr_tap (sm_wire (hop_a s)) = ?t"
    "wr_captured (sm_wire (hop_a s)) = wr_captured (sm_wire s) @ (if ?t = Drop then [] else [f])"
    using assms(2,11,12) b c by (simp_all add: hop_a_def crossed_a_def Let_def del: cross_simps(2))
  have "node_ok T2" using handle_frame_node(1) [OF assms(4), of f] assms(7) by simp
  then have "sim_ok (hop_a s)" "quiet (hop_a s)" using assms h by (auto simp: sim_ok_def quiet_def)
  then have "sim_run (Suc n) (hop_a s) = Some (hop_a s)" by (rule run_quiet)
  moreover have "sim_run (Suc (Suc n)) s = sim_run (Suc n) (hop_a s)"
    using ok assms by (intro run_hop_a [of s f]) simp_all
  ultimately show thesis using that h by simp
qed

lemma run_message_b:
  assumes "node_ok (set_tx [f] S)" and "tx_of S = []" and "rx_of S = []" and "node_ok T" and "tx_of T = []" and "rx_of T = []"
    and "handle_frame queue_nic f T = T2" and "tx_of T2 = []" and "rx_of T2 = []" and "node_ok S"
    and "sm_b s = set_tx [f] S" and "sm_a s = T" and "wr_tap (sm_wire s) = Tamper \<longrightarrow> length f \<le> 80"
  obtains s' where "sim_run (Suc (Suc n)) s = Some s'" and "sm_b s' = S"
    and "sm_a s' = (if wr_tap (sm_wire s) = Drop then T else T2)" and "wr_tap (sm_wire s') = wr_tap (sm_wire s)"
    and "wr_captured (sm_wire s') = wr_captured (sm_wire s) @ (if wr_tap (sm_wire s) = Drop then [] else [f])"
proof -
  let ?t = "wr_tap (sm_wire s)"
  have ok: "sim_ok s" using assms by (simp add: sim_ok_def)
  have c: "cross ?t [f] = (if ?t = Drop then [] else [f])" using assms(13) by (cases ?t) (simp_all add: through_def)
  have b: "receive_all (cross ?t [f]) T = (if ?t = Drop then T else T2)" unfolding c using assms(7) by simp
  have h: "sm_b (hop_b s) = S" "sm_a (hop_b s) = (if ?t = Drop then T else T2)" "wr_tap (sm_wire (hop_b s)) = ?t"
    "wr_captured (sm_wire (hop_b s)) = wr_captured (sm_wire s) @ (if ?t = Drop then [] else [f])"
    using assms(2,11,12) b c by (simp_all add: hop_b_def crossed_b_def Let_def del: cross_simps(2))
  have "node_ok T2" using handle_frame_node(1) [OF assms(4), of f] assms(7) by simp
  then have "sim_ok (hop_b s)" "quiet (hop_b s)" using assms h by (auto simp: sim_ok_def quiet_def)
  then have "sim_run (Suc n) (hop_b s) = Some (hop_b s)" by (rule run_quiet)
  moreover have "sim_run (Suc (Suc n)) s = sim_run (Suc n) (hop_b s)"
    using ok assms by (intro run_hop_b [of s f]) simp_all
  ultimately show thesis using that h by simp
qed

text \<open>The nodes of a simulation as the sender and the receiver of a message.\<close>

definition speaker :: "bool \<Rightarrow> sim \<Rightarrow> queue_card net_stack" where
  "speaker d s = (if d then sm_a s else sm_b s)"

lemma pair_linked_waiting:
  assumes "pair_linked h k S T"
  shows "stack_recv k buf T = (Inl WouldBlock, buf, T)"
proof -
  have k: "k < length (ns_sessions T)" and st: "ses_state (ns_sessions T ! k) = Established"
    and v: "rxq_view (ses_rx (ns_sessions T ! k)) = []" and n: "node_ok T"
    using assms by (simp_all add: pair_linked_def can_send_def)
  then show ?thesis
    using stack_recv_view(1) [OF k] node_session [OF n k] by (simp add: session_ok_def)
qed

lemma say_linked:
  fixes h k :: nat
  assumes "pair_linked h k (speaker d s) (speaker (\<not> d) s)" and "m = take MAX_RECORD_PAYLOAD msg"
    and "wr_tap (sm_wire s) = Tamper \<longrightarrow> length m \<le> 8"
  shows "if key_left (speaker d s) < key_cost (length m)
    then say (Suc (Suc n)) d h k msg s = Some (Inl (Key InsufficientKey), s)
    else \<exists>s'. say (Suc (Suc n)) d h k msg s
          = Some (Inr (if wr_tap (sm_wire s) = Drop then Inl WouldBlock else Inr m), s')
        \<and> pair_linked h k (speaker d s') (speaker (\<not> d) s')
        \<and> key_left (speaker d s') + key_cost (length m) = key_left (speaker d s)
        \<and> key_left (speaker (\<not> d) s') = key_left (speaker (\<not> d) s)
        \<and> keys_stay (speaker d s) (speaker d s') \<and> keys_stay (speaker (\<not> d) s) (speaker (\<not> d) s')
        \<and> moves_on (speaker d s) (speaker d s') \<and> moves_on (speaker (\<not> d) s) (speaker (\<not> d) s')
        \<and> (\<exists>fs. wr_captured (sm_wire s') = wr_captured (sm_wire s) @ fs
             \<and> (\<forall>f \<in> set fs. frame_fit f \<and> spent f (speaker d s') \<and> spent f (speaker (\<not> d) s')))"
proof -
  let ?S = "speaker d s" and ?T = "speaker (\<not> d) s" and ?t = "wr_tap (sm_wire s)"
  have len: "length m \<le> MAX_RECORD_PAYLOAD" using assms(2) by simp
  have snd_eq: "stack_send queue_nic h msg ?S = stack_send queue_nic h m ?S"
    using stack_send_take [of queue_nic h msg ?S] assms(2) by simp
  note L = assms(1) [unfolded pair_linked_def]
  show ?thesis
  proof (cases "key_left ?S < key_cost (length m)")
    case True
    then have "stack_send queue_nic h msg ?S = (Inl (Key InsufficientKey), ?S)"
      using exchange_refused [OF assms(1) len] snd_eq by simp
    then show ?thesis using True by (cases d) (simp_all add: say_def speaker_def)
  next
    case False
    then have cost: "key_cost (length m) \<le> key_left ?S" by simp
    obtain f S2 T2 T3 buf where
      send: "stack_send queue_nic h m ?S = (Inr (length m), set_tx [f] S2)"
      and f: "length f = 72 + length m" and nf: "node_ok (set_tx [f] S2)"
      and hf: "handle_frame queue_nic f ?T = T2" and T2: "tx_of T2 = []" "rx_of T2 = []"
      and recv: "stack_recv k (replicate 1500 0) T2 = (Inr (length m), buf, T3)" "take (length m) buf = m"
      and lost: "pair_linked h k S2 ?T" and arrived: "pair_linked h k S2 T3"
      and key: "key_left S2 + key_cost (length m) = key_left ?S" "key_left T3 = key_left ?T"
        "keys_stay ?S S2" "keys_stay ?T T3" "moves_on ?S S2" "moves_on ?T T3"
      and dead: "frame_fit f" "spent f S2" "spent f T3"
      by (rule exchange [OF assms(1) len cost])
    have t: "?t = Tamper \<longrightarrow> length f \<le> 80" using assms(3) f by simp
    have S2: "node_ok S2" "tx_of S2 = []" "rx_of S2 = []" using lost by (simp_all add: pair_linked_def)
    have T: "node_ok ?T" "tx_of ?T = []" "rx_of ?T = []" using L by simp_all
    define s1 where "s1 = (if d then s\<lparr>sm_a := set_tx [f] S2\<rparr> else s\<lparr>sm_b := set_tx [f] S2\<rparr>)"
    obtain s2 where run: "sim_run (Suc (Suc n)) s1 = Some s2" "speaker d s2 = S2"
      "speaker (\<not> d) s2 = (if ?t = Drop then ?T else T2)"
      "wr_captured (sm_wire s2) = wr_captured (sm_wire s) @ (if ?t = Drop then [] else [f])"
    proof (cases d)
      case True
      show ?thesis
        by (rule run_message_a [OF nf S2(2,3) T hf T2 S2(1), of s1 n])
          (use True t that in \<open>simp_all add: s1_def speaker_def\<close>)
    next
      case False
      show ?thesis
        by (rule run_message_b [OF nf S2(2,3) T hf T2 S2(1), of s1 n])
          (use False t that in \<open>simp_all add: s1_def speaker_def\<close>)
    qed
    have say: "say (Suc (Suc n)) d h k msg s =
      (case stack_recv k (replicate 1500 0) (speaker (\<not> d) s2) of (rx, buf, x) \<Rightarrow>
         Some (Inr (case rx of Inr n \<Rightarrow> Inr (take n buf) | Inl e \<Rightarrow> Inl e),
               if d then s2\<lparr>sm_b := x\<rparr> else s2\<lparr>sm_a := x\<rparr>))"
      using run(1) snd_eq send
      by (cases d) (simp_all add: say_def s1_def speaker_def Let_def split: prod.split)
    have wire: "sm_wire (if d then s2\<lparr>sm_b := x\<rparr> else s2\<lparr>sm_a := x\<rparr>) = sm_wire s2" for x by simp
    have other: "speaker d (if d then s2\<lparr>sm_b := x\<rparr> else s2\<lparr>sm_a := x\<rparr>) = speaker d s2"
      "speaker (\<not> d) (if d then s2\<lparr>sm_b := x\<rparr> else s2\<lparr>sm_a := x\<rparr>) = x" for x
      by (cases d; simp add: speaker_def)+
    show ?thesis
    proof (cases "?t = Drop")
      case True
      then have "stack_recv k (replicate 1500 0) (speaker (\<not> d) s2) = (Inl WouldBlock, replicate 1500 0, ?T)"
        using pair_linked_waiting [OF lost] run(3) by simp
      then show ?thesis using say True False other [of ?T] wire [of ?T] run(2,4) lost key by auto
    next
      case nd: False
      then have "stack_recv k (replicate 1500 0) (speaker (\<not> d) s2) = (Inr (length m), buf, T3)"
        using recv(1) run(3) by simp
      then show ?thesis using say nd False other [of T3] wire [of T3] run(2,4) arrived key dead recv(2) by auto
    qed
  qed
qed

end
