(* ===== verification/Two_Node_Connect.thy ===== *)
theory Two_Node_Connect
  imports Two_Node_Props Stack_Props
begin

text \<open>
  From a new simulation to an established session: keys are distributed over the quantum link, the
  address of the peer is resolved over ARP, and \<open>Hello\<close> and \<open>HelloAck\<close> set up the session that
  \<open>Two_Node_Props\<close> talks over.
\<close>

unbundle bit_operations_syntax

section \<open>Two nodes that have only keys\<close>

definition fresh_nodes :: "nat \<Rightarrow> queue_card net_stack \<Rightarrow> queue_card net_stack \<Rightarrow> bool" where
  "fresh_nodes n a b \<longleftrightarrow> node_ok a \<and> node_ok b \<and> macs_differ a b
     \<and> tx_of a = [] \<and> rx_of a = [] \<and> tx_of b = [] \<and> rx_of b = []
     \<and> ns_ip a = IP_A \<and> ns_ip b = IP_B \<and> peer_index IP_B a = Some 0 \<and> peer_index IP_A b = Some 0
     \<and> ns_arp a = arp_cache_new \<and> ns_arp b = arp_cache_new
     \<and> ns_sessions a = replicate MAX_SESSIONS session_empty \<and> ns_sessions b = replicate MAX_SESSIONS session_empty
     \<and> ns_listen b = replicate MAX_LISTEN 0 \<and> ns_next_session a = 1
     \<and> pk_role (keys_of a 0) = RoleA \<and> pk_role (keys_of b 0) = RoleB
     \<and> pk_lanes (keys_of b 0) = pk_lanes (keys_of a 0)
     \<and> (\<forall>l \<in> set (pk_lanes (keys_of a 0)). lane_ok l \<and> lane_end l \<le> n)"

lemma harvest_block:
  assumes "harvest nx link = (Inr blk, link')"
  shows "kb_a blk = kb_b blk" and "length (kb_a blk) = KEY_BLOCK_BYTES"
  using assms unfolding harvest_cases by (auto simp: toeplitz_compress_length Let_def split: if_splits)

text \<open>A block goes into the same lane of both nodes.\<close>

lemma deposit_pair_fresh:
  assumes "fresh_nodes n (sm_a s) (sm_b s)" and "kb_a blk = kb_b blk" and "length (kb_a blk) = KEY_BLOCK_BYTES"
    and "n + 256 < 2 ^ 64"
  shows "\<exists>s' l. deposit_pair blk s = Some s' \<and> fresh_nodes (n + 256) (sm_a s') (sm_b s') \<and> sm_wire s' = sm_wire s
    \<and> lane_deposit (kb_a blk) (pk_lanes (keys_of (sm_a s) 0) ! unat (kb_seq blk AND 1)) = Inr l
    \<and> pk_lanes (keys_of (sm_a s') 0) = (pk_lanes (keys_of (sm_a s) 0))[unat (kb_seq blk AND 1) := l]"
proof -
  let ?a = "sm_a s" and ?b = "sm_b s" and ?key = "kb_a blk" and ?i = "unat (kb_seq blk AND 1)"
  note F = assms(1) [unfolded fresh_nodes_def]
  have two: "0 < MAX_PEERS" by (simp add: MAX_PEERS_def)
  note ka = node_keys [of ?a 0, OF _ two] and kb = node_keys [of ?b 0, OF _ two]
  have i: "?i < 2"
    using word_and_le1 [of "kb_seq blk" 1] by (simp add: word_le_nat_alt)
  let ?L = "pk_lanes (keys_of ?a 0)"
  have li: "?L ! ?i \<in> set ?L" using i ka(2) F by simp
  then have ok: "lane_ok (?L ! ?i)" "lane_end (?L ! ?i) \<le> n" using F by blast+
  have inv: "lane_inv (?L ! ?i)" using ok(1) by (simp add: lane_ok_def)
  obtain l where l: "lane_deposit ?key (?L ! ?i) = Inr l"
    by (rule lane_deposit_Inr [OF inv, of ?key]) (use assms(3) in \<open>auto simp: KEY_BLOCK_BYTES_def LANE_CAPACITY_def\<close>)
  have l': "lane_ok l" "lane_end l \<le> n + 256"
    using lane_deposit_end [OF ok(1) l] ok(2) assms(3,4) by (simp_all add: KEY_BLOCK_BYTES_def)
  define A where "A = set_keys 0 ((keys_of ?a 0)\<lparr>pk_lanes := ?L[?i := l]\<rparr>) ?a"
  define B where "B = set_keys 0 ((keys_of ?b 0)\<lparr>pk_lanes := ?L[?i := l]\<rparr>) ?b"
  have "deposit_key_block IP_B (kb_seq blk) ?key ?a = (Inr (), A)"
    "deposit_key_block IP_A (kb_seq blk) (kb_b blk) ?b = (Inr (), B)"
    using F l assms(2) by (simp_all add: deposit_key_block_def peer_deposit_block_def A_def B_def Let_def)
  then have d: "deposit_pair blk s = Some (s\<lparr>sm_a := A, sm_b := B\<rparr>)"
    using assms(2,3) by (simp add: deposit_pair_def KEY_BLOCK_BYTES_def)
  have lanes: "\<forall>x \<in> set (?L[?i := l]). lane_ok x \<and> lane_end x \<le> n + 256"
    using F l' set_update_subset_insert [of ?L ?i l] by fastforce
  have "keys_ok ((keys_of x 0)\<lparr>pk_lanes := ?L[?i := l]\<rparr>)" for x :: "queue_card net_stack"
    using ka(2) F lanes by (auto simp: keys_ok_def lane_ok_def)
  then have "node_ok A" "node_ok B" using F by (simp_all add: A_def B_def node_ok_def stack_inv_keys)
  moreover have "macs_differ A B" using F by (simp add: A_def B_def macs_differ_def)
  moreover have "same_face ?a A" "same_face ?b B" by (simp_all add: A_def B_def same_face_keys)
  ultimately have "fresh_nodes (n + 256) A B"
    using F lanes same_face_finds(1) [of ?a A] same_face_finds(1) [of ?b B] ka(3) kb(3)
    by (simp add: fresh_nodes_def A_def B_def) (simp add: set_keys_def)
  moreover have "pk_lanes (keys_of A 0) = ?L[?i := l]" using ka(3) F by (simp add: A_def)
  ultimately show ?thesis using d l by simp
qed

lemma distribute_loop_fresh:
  assumes "fresh_nodes n (sm_a s) (sm_b s)" and "n + 256 * blocks < 2 ^ 64"
  shows "\<exists>link' s'. distribute_loop blocks nx link s = Some (link', s')
    \<and> fresh_nodes (n + 256 * blocks) (sm_a s') (sm_b s') \<and> sm_wire s' = sm_wire s"
  using assms
proof (induction blocks arbitrary: n link s)
  case (Suc blocks)
  have up: "fresh_nodes m (sm_a s) (sm_b s) \<Longrightarrow> m \<le> m' \<Longrightarrow> fresh_nodes m' (sm_a s) (sm_b s)" for m m' s
    by (fastforce simp: fresh_nodes_def)
  obtain r link2 where h: "harvest nx link = (r, link2)" by (cases "harvest nx link")
  show ?case
  proof (cases r)
    case (Inl e)
    have "n + 256 * blocks < 2 ^ 64" using Suc.prems(2) by simp
    from Suc.IH [OF Suc.prems(1) this, of link2] obtain link' s' where
      "distribute_loop blocks nx link2 s = Some (link', s')" "fresh_nodes (n + 256 * blocks) (sm_a s') (sm_b s')"
      "sm_wire s' = sm_wire s" by blast
    then show ?thesis using h Inl up [of "n + 256 * blocks" s' "n + 256 * Suc blocks"] by simp
  next
    case (Inr blk)
    note g = harvest_block [OF h [unfolded Inr]]
    obtain s2 where s2: "deposit_pair blk s = Some s2" "fresh_nodes (n + 256) (sm_a s2) (sm_b s2)" "sm_wire s2 = sm_wire s"
      using deposit_pair_fresh [OF Suc.prems(1) g] Suc.prems(2) by auto
    have "n + 256 + 256 * blocks < 2 ^ 64" using Suc.prems(2) by simp
    from Suc.IH [OF s2(2) this, of link2] obtain link' s' where
      "distribute_loop blocks nx link2 s2 = Some (link', s')" "fresh_nodes (n + 256 + 256 * blocks) (sm_a s') (sm_b s')"
      "sm_wire s' = sm_wire s2" by blast
    then show ?thesis using h Inr s2 by (simp add: add.assoc)
  qed
qed simp

lemma distribute_keys_fresh:
  assumes "fresh_nodes n (sm_a s) (sm_b s)" and "n + 256 * blocks < 2 ^ 64"
  shows "\<exists>link' s'. distribute_keys nx link blocks s = Some (link', s')
    \<and> fresh_nodes (n + 256 * blocks) (sm_a s') (sm_b s') \<and> sm_wire s' = sm_wire s"
proof -
  obtain link' s' where d: "distribute_loop blocks nx link s = Some (link', s')"
    and f: "fresh_nodes (n + 256 * blocks) (sm_a s') (sm_b s')" and w: "sm_wire s' = sm_wire s"
    using distribute_loop_fresh [OF assms, of nx link] by blast
  have "show_keys s' = Some s'" using f by (simp add: show_keys_def key_available_def fresh_nodes_def)
  then show ?thesis using d f w by (simp add: distribute_keys_def)
qed

lemma register_first_peer:
  assumes "length mac = 6" and "length own = 4" and "length ip = 4"
  defines "s \<equiv> stack_configure own (stack_new (queue_card_new mac))"
  obtains s' where "register_peer ip r s = (Inr (), s')" and "node_ok s'" and "ns_dev s' = queue_card_new mac"
    and "ns_ip s' = own" and "peer_index ip s' = Some 0" and "keys_of s' 0 = peer_keys_new r"
    and "ns_arp s' = arp_cache_new" and "ns_sessions s' = replicate MAX_SESSIONS session_empty"
    and "ns_listen s' = replicate MAX_LISTEN 0" and "ns_next_session s' = 1"
proof -
  have i: "stack_inv queue_ok s"
    using assms stack_inv_new [of queue_ok "queue_card_new mac"]
    by (simp add: s_def stack_configure_def queue_ok_def queue_card_new_def stack_inv_def)
  have "register_peer ip r s = (Inr (), snd (register_peer ip r s))"
    and k: "peer_index ip (snd (register_peer ip r s)) = Some 0" "keys_of (snd (register_peer ip r s)) 0 = peer_keys_new r"
    by (simp_all add: register_peer_def s_def stack_configure_def stack_new_def peer_index_def keys_of_def
        MAX_PEERS_def numeral_2_eq_2 Let_def peer_keys_new_def)
  moreover have e: "ns_dev (snd (register_peer ip r s)) = queue_card_new mac" "ns_ip (snd (register_peer ip r s)) = own"
    "ns_arp (snd (register_peer ip r s)) = arp_cache_new" "ns_sessions (snd (register_peer ip r s)) = replicate MAX_SESSIONS session_empty"
    "ns_listen (snd (register_peer ip r s)) = replicate MAX_LISTEN 0" "ns_next_session (snd (register_peer ip r s)) = 1"
    by (simp_all add: register_peer_def s_def stack_configure_def stack_new_def Let_def split: option.split)
  moreover have "node_ok (snd (register_peer ip r s))"
    using register_peer_inv [OF i assms(3), of r] e by (simp add: node_ok_def queue_card_new_def)
  ultimately show thesis by (intro that)
qed

lemma sim_new_fresh:
  "\<exists>s. sim_new = Some s \<and> fresh_nodes 0 (sm_a s) (sm_b s) \<and> wr_tap (sm_wire s) = Pass
    \<and> pk_lanes (keys_of (sm_a s) 0) = [lane_new, lane_new]"
proof -
  obtain a where a: "register_peer IP_B RoleA (stack_configure IP_A (stack_new (queue_card_new [2, 0, 0, 0, 0, 0xA1]))) = (Inr (), a)"
    and fa: "node_ok a" "ns_dev a = queue_card_new [2, 0, 0, 0, 0, 0xA1]" "ns_ip a = IP_A" "peer_index IP_B a = Some 0"
      "keys_of a 0 = peer_keys_new RoleA" "ns_arp a = arp_cache_new" "ns_sessions a = replicate MAX_SESSIONS session_empty"
      "ns_listen a = replicate MAX_LISTEN 0" "ns_next_session a = 1"
    by (rule register_first_peer [of "[2, 0, 0, 0, 0, 0xA1]" IP_A IP_B RoleA]) (simp_all add: IP_A_def IP_B_def)
  obtain b where b: "register_peer IP_A RoleB (stack_configure IP_B (stack_new (queue_card_new [2, 0, 0, 0, 0, 0xB2]))) = (Inr (), b)"
    and fb: "node_ok b" "ns_dev b = queue_card_new [2, 0, 0, 0, 0, 0xB2]" "ns_ip b = IP_B" "peer_index IP_A b = Some 0"
      "keys_of b 0 = peer_keys_new RoleB" "ns_arp b = arp_cache_new" "ns_sessions b = replicate MAX_SESSIONS session_empty"
      "ns_listen b = replicate MAX_LISTEN 0" "ns_next_session b = 1"
    by (rule register_first_peer [of "[2, 0, 0, 0, 0, 0xB2]" IP_B IP_A RoleB]) (simp_all add: IP_A_def IP_B_def)
  have "lane_ok lane_new \<and> lane_end lane_new \<le> 0" using lane_inv_new lane_end_new by (simp add: lane_ok_def)
  moreover have "BROADCAST \<noteq> [2, 0, 0, 0, 0, 0xA1]" "BROADCAST \<noteq> [2, 0, 0, 0, 0, 0xB2]" by code_simp+
  then have "macs_differ a b" using fa(2) fb(2) by (auto simp: macs_differ_def queue_card_new_def)
  ultimately have "fresh_nodes 0 a b"
    using fa fb by (simp add: fresh_nodes_def queue_card_new_def peer_keys_new_def)
  then show ?thesis using a b fa(5) by (simp add: sim_new_def peer_keys_new_def Let_def)
qed

section \<open>Question and answer on the cable\<close>

lemma node_ok_tx: "node_ok s \<Longrightarrow> frame_fit f \<Longrightarrow> node_ok (set_tx [f] s)"
  by (auto simp: node_ok_def set_tx_def stack_inv_def queue_ok_def)

lemma run_exchange:
  assumes s: "sm_a s = set_tx [f] S" "sm_b s = T" "wr_tap (sm_wire s) = Pass"
    and S: "node_ok S" "tx_of S = []" "rx_of S = []" and T: "node_ok T" "tx_of T = []" "rx_of T = []"
    and f: "frame_fit f" "handle_frame queue_nic f T = set_tx [g] T'" "tx_of T' = []"
    and g: "handle_frame queue_nic g S = S'" "tx_of S' = []"
  obtains s' where "sim_run (Suc (Suc (Suc n))) s = Some s'" and "sm_a s' = S'" and "sm_b s' = T'"
    and "wr_tap (sm_wire s') = Pass" and "node_ok S'" and "node_ok T'" and "rx_of S' = []" and "rx_of T' = []"
proof -
  let ?s1 = "hop_a s" and ?s2 = "hop_b (hop_a s)"
  have h1: "sm_a ?s1 = S" "sm_b ?s1 = set_tx [g] T'" "wr_tap (sm_wire ?s1) = Pass"
    using s S f by (simp_all add: hop_a_def crossed_a_def through_def Let_def)
  have T1: "node_ok (set_tx [g] T')" "rx_of T' = []" using handle_frame_node(1,2) [OF T(1), of f] f(2) T(3) by simp_all
  then have T': "node_ok T'" using node_ok_moves(1) [OF T1(1)] f(3) by simp
  have S': "node_ok S'" "rx_of S' = []" using handle_frame_node(1,2) [OF S(1), of g] g(1) S(3) by simp_all
  have h2: "sm_a ?s2 = S'" "sm_b ?s2 = T'" "wr_tap (sm_wire ?s2) = Pass"
    using h1 f(3) g by (simp_all add: hop_b_def crossed_b_def through_def Let_def)
  have "sim_run (Suc (Suc (Suc n))) s = sim_run (Suc (Suc n)) ?s1"
    by (rule run_hop_a [of s f]) (use s S T node_ok_tx [OF S(1) f(1)] in \<open>simp_all add: sim_ok_def\<close>)
  also have "\<dots> = sim_run (Suc n) ?s2"
    by (rule run_hop_b [of ?s1 g]) (use h1 S T1 in \<open>simp_all add: sim_ok_def\<close>)
  also have "\<dots> = Some ?s2"
    by (rule run_quiet) (use h2 S' T' T1(2) f(3) g(2) in \<open>simp_all add: sim_ok_def quiet_def\<close>)
  finally show thesis using that h2 S' T' T1(2) by simp
qed

section \<open>Resolution and handshake\<close>

text \<open>Two idle nodes whose lanes are linked; the second one listens.\<close>

definition idle_pair :: "queue_card net_stack \<Rightarrow> queue_card net_stack \<Rightarrow> bool" where
  "idle_pair a b \<longleftrightarrow> node_ok a \<and> node_ok b \<and> macs_differ a b
     \<and> tx_of a = [] \<and> rx_of a = [] \<and> tx_of b = [] \<and> rx_of b = []
     \<and> ns_ip a = IP_A \<and> ns_ip b = IP_B \<and> peer_index IP_B a = Some 0 \<and> peer_index IP_A b = Some 0
     \<and> ns_sessions a = replicate MAX_SESSIONS session_empty \<and> ns_sessions b = replicate MAX_SESSIONS session_empty
     \<and> QTLS_PORT \<in> set (ns_listen b)
     \<and> lanes_linked (peer_tx (keys_of a 0)) (peer_rx (keys_of b 0))
     \<and> lanes_linked (peer_tx (keys_of b 0)) (peer_rx (keys_of a 0))"

lemma fresh_idle:
  assumes "fresh_nodes n a b"
  obtains b' where "stack_listen QTLS_PORT b = (Inr (), b')" and "idle_pair a b'"
    and "ns_arp b' = arp_cache_new" and "key_left b' = key_left b" and "keys_stay b b'"
proof -
  note F = assms [unfolded fresh_nodes_def]
  have two: "0 < MAX_PEERS" by (simp add: MAX_PEERS_def)
  have len: "length (pk_lanes (keys_of a 0)) = 2" using node_keys(2) [OF _ two] F by blast
  let ?b = "b\<lparr>ns_listen := (ns_listen b)[0 := QTLS_PORT]\<rparr>"
  have q: "QTLS_PORT \<in> set (ns_listen ?b)" using F by (simp add: MAX_LISTEN_def numeral_eq_Suc)
  have l: "ns_listen b = 0 # replicate (MAX_LISTEN - 1) 0" using F by (simp add: MAX_LISTEN_def numeral_eq_Suc)
  have sl: "stack_listen QTLS_PORT b = (Inr (), ?b)" unfolding stack_listen_def l by (simp add: QTLS_PORT_def)
  have ok: "lane_ok (pk_lanes (keys_of a 0) ! i)" if "i < 2" for i using F len that by simp
  have "node_ok b" using F by blast
  then have "node_ok ?b" by (simp add: node_ok_def stack_inv_def)
  then have "idle_pair a ?b"
    using F q ok [of 0] ok [of 1] by (simp add: idle_pair_def peer_index_def macs_differ_def peer_tx_def peer_rx_def rx_lane_def lanes_linked_same)
  then show thesis using F by (intro that [OF sl]) (simp_all add: key_left_def keys_stay_def)
qed

lemma sessions_free:
  "ns_sessions s = replicate n session_empty \<Longrightarrow> find_session src sp dp i s = None"
  "0 < n \<Longrightarrow> position (\<lambda>v. ses_state v = Free) (replicate n session_empty) = Some 0"
proof -
  have "position P (replicate n x) = None" if "\<not> P x" for P and x :: session
    using that by (induction n) auto
  then show "ns_sessions s = replicate n session_empty \<Longrightarrow> find_session src sp dp i s = None"
    by (simp add: find_session_def session_empty_def)
  show "0 < n \<Longrightarrow> position (\<lambda>v. ses_state v = Free) (replicate n session_empty) = Some 0"
    by (cases n) (simp_all add: session_empty_def)
qed

text \<open>The first \<open>connect\<close> only asks for the address; running the network answers it.\<close>

lemma connect_resolves:
  assumes "idle_pair a b" and "arp_lookup IP_B (ns_arp a) = None"
    and "sm_b s = b" and "wr_tap (sm_wire s) = Pass"
  obtains x s' where "connect queue_nic IP_B QTLS_PORT a = (Inl ArpPending, x)"
    and "sim_run (Suc (Suc (Suc n))) (s\<lparr>sm_a := x\<rparr>) = Some s'" and "wr_tap (sm_wire s') = Pass"
    and "idle_pair (sm_a s') (sm_b s')" and "ns_arp (sm_a s') = arp_insert IP_B (qc_mac (ns_dev b)) (ns_arp a)"
    and "ns_arp (sm_b s') = arp_insert IP_A (qc_mac (ns_dev a)) (ns_arp b)"
    and "ns_dev (sm_a s') = ns_dev a" and "ns_dev (sm_b s') = ns_dev b"
    and "key_left (sm_a s') = key_left a" and "key_left (sm_b s') = key_left b"
    and "keys_stay a (sm_a s')" and "keys_stay b (sm_b s')"
proof -
  note P = assms(1) [unfolded idle_pair_def]
  have i: "stack_inv queue_ok a" "stack_inv queue_ok b" "peer_index (ns_ip a) b \<noteq> None" "arp_lookup (ns_ip b) (ns_arp a) = None"
    using P assms(2) by (simp_all add: node_ok_def)
  obtain f g where r: "resolve queue_nic (ns_ip b) a
      = (case send_frame queue_nic f a of (Inl e, s) \<Rightarrow> (Inl e, s) | (Inr _, s) \<Rightarrow> (Inl ArpPending, s))"
    and f: "frame_fit f" "frame_weight f = 2" "frame_fit g" "frame_weight g = 1"
    and hf: "handle_frame queue_nic f b = snd (send_frame queue_nic g
      (b\<lparr>ns_arp := arp_insert (ns_ip a) (nic_mac queue_nic (ns_dev a)) (ns_arp b)\<rparr>))"
    and hg: "\<And>S'. ns_ip S' = ns_ip a \<Longrightarrow> nic_mac queue_nic (ns_dev S') = nic_mac queue_nic (ns_dev a) \<Longrightarrow>
      peer_index (ns_ip b) S' \<noteq> None \<Longrightarrow>
      handle_frame queue_nic g S' = S'\<lparr>ns_arp := arp_insert (ns_ip b) (nic_mac queue_nic (ns_dev b)) (ns_arp S')\<rparr>"
    by (rule qcn.request_answered [OF i]) (rule that; assumption)
  let ?a = "a\<lparr>ns_arp := arp_insert IP_B (qc_mac (ns_dev b)) (ns_arp a)\<rparr>"
  let ?b = "b\<lparr>ns_arp := arp_insert IP_A (qc_mac (ns_dev a)) (ns_arp b)\<rparr>"
  have c: "connect queue_nic IP_B QTLS_PORT a = (Inl ArpPending, set_tx [f] a)"
    using r P by (simp add: connect_def)
  have hf': "handle_frame queue_nic f b = set_tx [g] ?b" using hf P by simp
  have hg': "handle_frame queue_nic g a = ?a" using hg [of a] P by simp
  obtain s' where s': "sim_run (Suc (Suc (Suc n))) (s\<lparr>sm_a := set_tx [f] a\<rparr>) = Some s'" "sm_a s' = ?a" "sm_b s' = ?b"
    "wr_tap (sm_wire s') = Pass" "node_ok ?a" "node_ok ?b"
    by (rule run_exchange [of "s\<lparr>sm_a := set_tx [f] a\<rparr>" f a b g ?b ?a n])
      (use assms(3,4) P f hf' hg' in simp_all)
  have "idle_pair ?a ?b" using P s'(5,6) by (simp add: idle_pair_def peer_index_def macs_differ_def)
  then show thesis by (intro that [OF c s'(1,4)]; unfold s'(2,3)) (simp_all add: key_left_def keys_stay_def)
qed

lemma keys_of_set_session_keys [simp]:
  "ns_sessions (set_keys p k s) = ns_sessions s" "ns_sessions (set_session h v s) = (ns_sessions s)[h := v]"
  "ns_arp (set_keys p k s) = ns_arp s" "ns_arp (set_session h v s) = ns_arp s"
  "ns_listen (set_keys p k s) = ns_listen s" "ns_listen (set_session h v s) = ns_listen s"
  by (simp_all add: set_keys_def set_session_def)

lemma peer_index_set_keys [simp]:
  "peer_index ip (set_keys p k s) = peer_index ip s" "peer_index ip (set_session h v s) = peer_index ip s"
  "peer_index ip (s\<lparr>ns_ip_id := i\<rparr>) = peer_index ip s" "peer_index ip (s\<lparr>ns_next_session := j\<rparr>) = peer_index ip s"
  using same_face_finds(1) [OF same_face_keys] by (simp_all add: peer_index_def set_session_def)

lemma find_first:
  "find_session src sp dp i s = Some 0"
  if "ns_sessions s = (replicate MAX_SESSIONS session_empty)[0 := v]" "ses_state v \<noteq> Free" "ses_peer_ip v = src"
    "ses_peer_port v = sp" "ses_local_port v = dp" "ses_id v = i" for v
  using that by (simp add: find_session_def MAX_SESSIONS_def numeral_eq_Suc)

text \<open>\<open>Hello\<close> and \<open>HelloAck\<close>: what is sent, and the two sessions they leave.\<close>

lemma hello_exchange:
  assumes "idle_pair a b" and "arp_lookup IP_B (ns_arp a) = Some (qc_mac (ns_dev b))"
    and "arp_lookup IP_A (ns_arp b) = Some (qc_mac (ns_dev a))"
    and "key_cost 0 \<le> key_left a" and "key_cost 0 \<le> key_left b"
  defines "i \<equiv> ns_next_session a" and "v \<equiv> client_session (ns_next_session a) IP_B QTLS_PORT"
  obtains f g tx rx tx2 rx2 S T U where
    "connect queue_nic IP_B QTLS_PORT a = (Inr 0, set_tx [f] S)" and "frame_fit f" and "node_ok S"
    and "handle_frame queue_nic f b = set_tx [g] T" and "handle_frame queue_nic g S = U"
    and "ns_dev S = ns_dev a" and "ns_dev T = ns_dev b" and "ns_dev U = ns_dev a"
    and "same_face (set_session 0 (server_session i IP_A (ses_local_port v) QTLS_PORT) b) T"
    and "same_face (set_session 0 (v\<lparr>ses_state := Established\<rparr>) a) U"
    and "ns_sessions T = (ns_sessions b)[0 := server_session i IP_A (ses_local_port v) QTLS_PORT]"
    and "ns_sessions U = (ns_sessions a)[0 := v\<lparr>ses_state := Established\<rparr>]"
    and "keys_of U 0 = peer_set_rx rx2 (peer_set_tx tx (keys_of a 0))"
    and "keys_of T 0 = peer_set_tx tx2 (peer_set_rx rx (keys_of b 0))"
    and "lanes_linked tx rx" and "lanes_linked tx2 rx2"
    and "lane_count tx + key_cost 0 = key_left a" and "lane_count tx2 + key_cost 0 = key_left b"
    and "lane_end tx = lane_end (peer_tx (keys_of a 0))" and "lane_end rx2 = lane_end (peer_rx (keys_of a 0))"
    and "lane_end tx2 = lane_end (peer_tx (keys_of b 0))" and "lane_end rx = lane_end (peer_rx (keys_of b 0))"
proof -
  note P = assms(1) [unfolded idle_pair_def]
  have inv: "stack_inv queue_ok a" "stack_inv queue_ok b" using P by (simp_all add: node_ok_def)
  have two: "0 < MAX_PEERS" by (simp add: MAX_PEERS_def)
  have na: "node_ok a" and nb: "node_ok b" using P by blast+
  note ka = node_keys(2,3) [OF na two] and kb = node_keys(2,3) [OF nb two]
  have free: "position (\<lambda>v. ses_state v = Free) (replicate MAX_SESSIONS session_empty) = Some 0"
    by (simp add: sessions_free(2) MAX_SESSIONS_def)
  define S0 where "S0 = set_session 0 (client_session (ns_next_session a) (ns_ip b) QTLS_PORT)
      (a\<lparr>ns_next_session := max (ns_next_session a + 1) 1\<rparr>)"
  have v: "v = client_session (ns_next_session a) (ns_ip b) QTLS_PORT" using P by (simp add: v_def)
  obtain f rc tx rx where c: "connect queue_nic (ns_ip b) QTLS_PORT a =
       (case send_frame queue_nic f (set_keys 0 (peer_set_tx tx (keys_of a 0)) S0\<lparr>ns_ip_id := ns_ip_id a + 1\<rparr>) of
          (Inl e, s) \<Rightarrow> (Inl e, set_session 0 ((ns_sessions s ! 0)\<lparr>ses_state := Free\<rparr>) s)
        | (Inr _, s) \<Rightarrow> (Inr 0, s))"
    and f: "frame_fit f" "frame_weight f = 3"
    and hf: "\<And>T'. ns_ip T' = ns_ip b \<Longrightarrow> nic_mac queue_nic (ns_dev T') = nic_mac queue_nic (ns_dev b) \<Longrightarrow>
      handle_frame queue_nic f T' = handle_qtls queue_nic (ns_ip a) (ses_local_port v) QTLS_PORT rc T'"
    and o1: "opens_to (peer_rx (keys_of b 0)) rc Hello (ns_next_session a) [] rx" and l1: "lanes_linked tx rx"
    and n1: "lane_count tx + key_cost 0 = lane_count (peer_tx (keys_of a 0))"
      "lane_end tx = lane_end (peer_tx (keys_of a 0))" "lane_end rx = lane_end (peer_rx (keys_of b 0))"
    unfolding S0_def v
    by (rule qcn.connect_sends_hello [OF inv, of 0 0 "peer_rx (keys_of b 0)" QTLS_PORT])
      (use P assms(2,4) free in \<open>simp_all add: key_left_def\<close>)
  define S where "S = set_keys 0 (peer_set_tx tx (keys_of a 0)) S0\<lparr>ns_ip_id := ns_ip_id a + 1\<rparr>"
  have Sf: "ns_dev S = ns_dev a" "ns_ip S = IP_A" "peer_index IP_B S = Some 0" "ns_arp S = ns_arp a"
    "ns_sessions S = (ns_sessions a)[0 := v]" "keys_of S 0 = peer_set_tx tx (keys_of a 0)"
    using P ka by (simp_all add: S_def S0_def v)
  have cS: "connect queue_nic IP_B QTLS_PORT a = (Inr 0, set_tx [f] S)"
    using c Sf(1) P unfolding S_def [symmetric] by simp
  have nS: "node_ok S"
  proof -
    have "node_ok (set_tx [f] S)"
      using node_step(1) [OF na qcr.connect_inv [OF node_inv [OF na]] qcr.connect_adds [OF node_inv [OF na]],
          of IP_B QTLS_PORT] cS by simp
    from node_ok_moves(1) [OF this] show ?thesis using Sf(1) P by simp
  qed
  have fs: "find_session src sp dp j b = None" for src sp dp j
    by (rule sessions_free(1)) (use P in blast)
  have rx: "lane_inv rx" using l1 by (simp add: lanes_linked_def lane_ok_def)
  define T0 where "T0 = set_session 0 (server_session i (ns_ip S) (ses_local_port v) QTLS_PORT)
      (set_keys 0 (peer_set_rx rx (keys_of b 0)) b)"
  obtain g rc2 tx2 rx2 where hq: "handle_qtls queue_nic (ns_ip S) (ses_local_port v) QTLS_PORT rc b
      = snd (send_frame queue_nic g (set_keys 0 (peer_set_tx tx2 (keys_of T0 0)) T0\<lparr>ns_ip_id := ns_ip_id b + 1\<rparr>))"
    and g: "frame_fit g" "frame_weight g = 1"
    and hg: "\<And>S'. ns_ip S' = ns_ip S \<Longrightarrow> nic_mac queue_nic (ns_dev S') = nic_mac queue_nic (ns_dev S) \<Longrightarrow>
      handle_frame queue_nic g S' = handle_qtls queue_nic (ns_ip b) QTLS_PORT (ses_local_port v) rc2 S'"
    and o2: "opens_to (peer_rx (keys_of S 0)) rc2 HelloAck i [] rx2" and l2: "lanes_linked tx2 rx2"
    and n2: "lane_count tx2 + key_cost 0 = lane_count (peer_tx (keys_of b 0))"
      "lane_end tx2 = lane_end (peer_tx (keys_of b 0))" "lane_end rx2 = lane_end (peer_rx (keys_of S 0))"
    unfolding T0_def
    by (rule qcn.hello_accepted [of S b 0 rc i rx "ses_local_port v" QTLS_PORT 0 "peer_rx (keys_of S 0)"])
      (use nS P o1 Sf assms(3,5) free ka fs rx in \<open>simp_all add: node_ok_def i_def key_left_def\<close>)
  define T where "T = set_keys 0 (peer_set_tx tx2 (keys_of T0 0)) T0\<lparr>ns_ip_id := ns_ip_id b + 1\<rparr>"
  have Tf: "ns_dev T = ns_dev b" "ns_sessions T = (ns_sessions b)[0 := server_session i IP_A (ses_local_port v) QTLS_PORT]"
    "keys_of T 0 = peer_set_tx tx2 (peer_set_rx rx (keys_of b 0))"
    "same_face (set_session 0 (server_session i IP_A (ses_local_port v) QTLS_PORT) b) T"
    using kb Sf(2) by (simp_all add: T_def T0_def same_face_def)
      (simp_all add: set_keys_def keys_of_def set_session_def map_update_same)
  have hT: "handle_frame queue_nic f b = set_tx [g] T"
    using hf [of b] hq Sf(2) P Tf(1) unfolding T_def [symmetric] by simp
  define U where "U = set_session 0 (v\<lparr>ses_state := Established\<rparr>) (set_keys 0 (peer_set_rx rx2 (keys_of S 0)) S)"
  have S0: "ns_sessions S ! 0 = v" using P Sf(5) by (simp add: MAX_SESSIONS_def)
  have fS: "find_session IP_B QTLS_PORT (ses_local_port v) i S = Some 0"
    by (rule find_first [of S v]) (use Sf(5) P in \<open>simp_all add: v_def client_session_def i_def\<close>)
  have hU: "handle_frame queue_nic g S = U"
    using hg [of S] P qcn.ack_accepted [OF Sf(3) o2 fS] S0 by (simp add: U_def v_def client_session_def)
  have Uf: "ns_dev U = ns_dev a" "ns_sessions U = (ns_sessions a)[0 := v\<lparr>ses_state := Established\<rparr>]"
    "keys_of U 0 = peer_set_rx rx2 (peer_set_tx tx (keys_of a 0))"
    "same_face (set_session 0 (v\<lparr>ses_state := Established\<rparr>) a) U"
    using Sf ka P by (simp_all add: U_def S_def S0_def same_face_def)
      (simp_all add: set_keys_def keys_of_def set_session_def map_update_same)
  show thesis
    by (rule that [OF cS f(1) nS hT hU Sf(1) Tf(1) Uf(1) Tf(4) Uf(4) Tf(2) Uf(2) Uf(3) Tf(3) l1 l2])
      (use n1 n2 Sf(6) ka in \<open>simp_all add: key_left_def\<close>)
qed

lemma peer_lanes_set [simp]:
  "length (pk_lanes (peer_set_tx l k)) = length (pk_lanes k)" "length (pk_lanes (peer_set_rx l k)) = length (pk_lanes k)"
  by (simp_all add: peer_set_tx_def peer_set_rx_def)

lemma accept_node: "node_ok s \<Longrightarrow> node_ok (snd (accept port s)) \<and> ns_dev (snd (accept port s)) = ns_dev s"
  using accept_inv [of queue_ok s port] by (auto simp: node_ok_def accept_def split: option.split)

lemma handshake_links:
  assumes "idle_pair a b" and "arp_lookup IP_B (ns_arp a) = Some (qc_mac (ns_dev b))"
    and "arp_lookup IP_A (ns_arp b) = Some (qc_mac (ns_dev a))"
    and "key_cost 0 \<le> key_left a" and "key_cost 0 \<le> key_left b"
  obtains f g S T U y where
    "connect queue_nic IP_B QTLS_PORT a = (Inr 0, set_tx [f] S)" and "frame_fit f" and "node_ok S" and "ns_dev S = ns_dev a"
    and "handle_frame queue_nic f b = set_tx [g] T" and "ns_dev T = ns_dev b"
    and "handle_frame queue_nic g S = U" and "ns_dev U = ns_dev a"
    and "accept QTLS_PORT T = (Some 0, y)" and "node_ok U \<Longrightarrow> node_ok T \<Longrightarrow> pair_linked 0 0 U y"
    and "key_left U + key_cost 0 = key_left a" and "key_left y + key_cost 0 = key_left b"
    and "keys_stay a U" and "keys_stay b y"
proof -
  note P = assms(1) [unfolded idle_pair_def]
  let ?i = "ns_next_session a" and ?v = "client_session (ns_next_session a) IP_B QTLS_PORT"
  let ?w = "server_session ?i IP_A (ses_local_port ?v) QTLS_PORT" and ?e = "?v\<lparr>ses_state := Established\<rparr>"
  obtain f g tx rx tx2 rx2 S T U where
    S: "connect queue_nic IP_B QTLS_PORT a = (Inr 0, set_tx [f] S)" "frame_fit f" "node_ok S"
    and hf: "handle_frame queue_nic f b = set_tx [g] T" and hg: "handle_frame queue_nic g S = U"
    and d: "ns_dev S = ns_dev a" "ns_dev T = ns_dev b" "ns_dev U = ns_dev a"
    and face: "same_face (set_session 0 ?w b) T" "same_face (set_session 0 ?e a) U"
    and ses: "ns_sessions T = (ns_sessions b)[0 := ?w]" "ns_sessions U = (ns_sessions a)[0 := ?e]"
    and keys: "keys_of U 0 = peer_set_rx rx2 (peer_set_tx tx (keys_of a 0))"
      "keys_of T 0 = peer_set_tx tx2 (peer_set_rx rx (keys_of b 0))"
    and l: "lanes_linked tx rx" "lanes_linked tx2 rx2"
    and n: "lane_count tx + key_cost 0 = key_left a" "lane_count tx2 + key_cost 0 = key_left b"
    and e: "lane_end tx = lane_end (peer_tx (keys_of a 0))" "lane_end rx2 = lane_end (peer_rx (keys_of a 0))"
      "lane_end tx2 = lane_end (peer_tx (keys_of b 0))" "lane_end rx = lane_end (peer_rx (keys_of b 0))"
    by (rule hello_exchange [OF assms])
  have two: "0 < MAX_PEERS" by (simp add: MAX_PEERS_def)
  have len: "length (pk_lanes (keys_of a 0)) = 2" "length (pk_lanes (keys_of b 0)) = 2"
    using node_keys(2) [OF _ two] P by blast+
  let ?y = "set_session 0 (?w\<lparr>ses_accepted := True\<rparr>) T"
  have ac: "accept QTLS_PORT T = (Some 0, ?y)"
    using ses(1) P by (simp add: accept_def server_session_def MAX_SESSIONS_def numeral_eq_Suc)
  have fy: "ns_ip ?y = IP_B" "ns_arp ?y = ns_arp b" "peer_index IP_A ?y = Some 0" "ns_dev ?y = ns_dev b"
    "ns_sessions ?y = (replicate MAX_SESSIONS session_empty)[0 := ?w\<lparr>ses_accepted := True\<rparr>]"
    "keys_of ?y 0 = peer_set_tx tx2 (peer_set_rx rx (keys_of b 0))"
    using same_face_finds(1) [OF face(1), of IP_A] face(1) P ses(1) d keys(2) by (simp_all add: same_face_def)
  have fu: "ns_ip U = IP_A" "ns_arp U = ns_arp a" "peer_index IP_B U = Some 0"
    "ns_sessions U = (replicate MAX_SESSIONS session_empty)[0 := ?e]"
    using same_face_finds(1) [OF face(2), of IP_B] face(2) P ses(2) by (simp_all add: same_face_def)
  have s0: "ns_sessions U ! 0 = ?e" "ns_sessions ?y ! 0 = ?w\<lparr>ses_accepted := True\<rparr>"
    "0 < length (ns_sessions U)" "0 < length (ns_sessions ?y)"
    by (simp_all only: fu(4) fy(5)) (simp_all add: MAX_SESSIONS_def)
  have find: "find_session IP_A (ses_local_port ?v) QTLS_PORT ?i ?y = Some 0"
    "find_session IP_B QTLS_PORT (ses_local_port ?v) ?i U = Some 0"
    by (rule find_first [OF fy(5)], simp_all add: server_session_def)
      (rule find_first [OF fu(4)], simp_all add: client_session_def)
  have send: "can_send (qc_mac (ns_dev b)) 0 0 0 0 U ?y" "can_send (qc_mac (ns_dev a)) 0 0 0 0 ?y U"
    using fy fu s0 find keys(1) l len assms(2,3)
    by (simp_all add: can_send_def client_session_def server_session_def)
  have linked: "pair_linked 0 0 U ?y" if "node_ok U" "node_ok T"
    using that send P d s0 fy(4) accept_node [OF that(2), of QTLS_PORT] ac
    by (simp add: pair_linked_def macs_differ_def client_session_def server_session_def)
  show thesis
    by (rule that [OF S d(1) hf d(2) hg d(3) ac linked]) (use n e keys(1) fy(1,6) fu(1) len P in \<open>simp_all add: key_left_def keys_stay_def\<close>)
qed

text \<open>The whole of \<open>connect\<close>.\<close>

lemma connect_resolved:
  assumes "idle_pair (sm_a s) (sm_b s)" and "wr_tap (sm_wire s) = Pass"
    and "arp_lookup IP_B (ns_arp (sm_a s)) = Some (qc_mac (ns_dev (sm_b s)))"
    and "arp_lookup IP_A (ns_arp (sm_b s)) = Some (qc_mac (ns_dev (sm_a s)))"
    and "key_cost 0 \<le> key_left (sm_a s)" and "key_cost 0 \<le> key_left (sm_b s)"
  shows "\<exists>s'. connect_loop (Suc (Suc (Suc n))) (Suc tries) s = Some ((0, 0), s') \<and> pair_linked 0 0 (sm_a s') (sm_b s')
    \<and> wr_tap (sm_wire s') = Pass \<and> keys_stay (sm_a s) (sm_a s') \<and> keys_stay (sm_b s) (sm_b s')
    \<and> key_left (sm_a s') + key_cost 0 = key_left (sm_a s) \<and> key_left (sm_b s') + key_cost 0 = key_left (sm_b s)"
proof -
  note P = assms(1) [unfolded idle_pair_def]
  obtain f g S T U y where c: "connect queue_nic IP_B QTLS_PORT (sm_a s) = (Inr 0, set_tx [f] S)"
    and f: "frame_fit f" "node_ok S" "ns_dev S = ns_dev (sm_a s)" "handle_frame queue_nic f (sm_b s) = set_tx [g] T"
      "ns_dev T = ns_dev (sm_b s)" "handle_frame queue_nic g S = U" "ns_dev U = ns_dev (sm_a s)"
    and ac: "accept QTLS_PORT T = (Some 0, y)" and l: "node_ok U \<Longrightarrow> node_ok T \<Longrightarrow> pair_linked 0 0 U y"
    and n: "key_left U + key_cost 0 = key_left (sm_a s)" "key_left y + key_cost 0 = key_left (sm_b s)"
      "keys_stay (sm_a s) U" "keys_stay (sm_b s) y"
    by (rule handshake_links [OF assms(1,3-6)]) (rule that; assumption)
  obtain s' where s': "sim_run (Suc (Suc (Suc n))) (s\<lparr>sm_a := set_tx [f] S\<rparr>) = Some s'" "sm_a s' = U" "sm_b s' = T"
    "wr_tap (sm_wire s') = Pass" "node_ok U" "node_ok T"
    by (rule run_exchange [of "s\<lparr>sm_a := set_tx [f] S\<rparr>" f S "sm_b s" g T U n]) (use assms(2) P f in simp_all)
  have "connect_loop (Suc (Suc (Suc n))) (Suc tries) s = Some ((0, 0), s'\<lparr>sm_b := y\<rparr>)"
    using c s'(1,3) ac by (simp del: sim_run.simps)
  then show ?thesis using l [OF s'(5,6)] s'(2,4) n by (intro exI [of _ "s'\<lparr>sm_b := y\<rparr>"]) simp
qed

lemma connect_fresh:
  assumes "fresh_nodes m (sm_a s) (sm_b s)" and "wr_tap (sm_wire s) = Pass"
    and "key_cost 0 \<le> key_left (sm_a s)" and "key_cost 0 \<le> key_left (sm_b s)"
  shows "\<exists>s'. sim_connect (Suc (Suc (Suc n))) (Suc (Suc tries)) s = Some ((0, 0), s') \<and> pair_linked 0 0 (sm_a s') (sm_b s')
    \<and> wr_tap (sm_wire s') = Pass \<and> keys_stay (sm_a s) (sm_a s') \<and> keys_stay (sm_b s) (sm_b s')
    \<and> key_left (sm_a s') + key_cost 0 = key_left (sm_a s) \<and> key_left (sm_b s') + key_cost 0 = key_left (sm_b s)"
proof -
  let ?a = "sm_a s"
  obtain b where b: "stack_listen QTLS_PORT (sm_b s) = (Inr (), b)" and i: "idle_pair ?a b"
    and arp: "ns_arp b = arp_cache_new" and kb: "key_left b = key_left (sm_b s)" and stay: "keys_stay (sm_b s) b"
    by (rule fresh_idle [OF assms(1)])
  let ?s = "s\<lparr>sm_b := b\<rparr>"
  have arpa: "ns_arp ?a = arp_cache_new" using assms(1) by (simp add: fresh_nodes_def)
  have inv: "arp_cache_inv arp_cache_new" "length (qc_mac (ns_dev ?a)) = 6" "length (qc_mac (ns_dev b)) = 6"
    using i arp by (auto simp: idle_pair_def node_ok_def stack_inv_def queue_ok_def)
  have none: "arp_lookup IP_B (ns_arp ?a) = None"
    unfolding arpa by (simp add: arp_lookup_def arp_cache_new_def ac_match_def CACHE_SIZE_def numeral_eq_Suc)
  obtain x s1 where c: "connect queue_nic IP_B QTLS_PORT ?a = (Inl ArpPending, x)"
    and r: "sim_run (Suc (Suc (Suc n))) (?s\<lparr>sm_a := x\<rparr>) = Some s1" and t: "wr_tap (sm_wire s1) = Pass"
    and i1: "idle_pair (sm_a s1) (sm_b s1)" and a1: "ns_arp (sm_a s1) = arp_insert IP_B (qc_mac (ns_dev b)) (ns_arp ?a)"
    and a2: "ns_arp (sm_b s1) = arp_insert IP_A (qc_mac (ns_dev ?a)) (ns_arp b)"
    and d: "ns_dev (sm_a s1) = ns_dev ?a" "ns_dev (sm_b s1) = ns_dev b"
    and k: "key_left (sm_a s1) = key_left ?a" "key_left (sm_b s1) = key_left b"
      "keys_stay ?a (sm_a s1)" "keys_stay b (sm_b s1)"
    by (rule connect_resolves [OF i none, of ?s n]) (use assms(2) in simp_all)
  have "arp_lookup IP_B (ns_arp (sm_a s1)) = Some (qc_mac (ns_dev (sm_b s1)))"
    "arp_lookup IP_A (ns_arp (sm_b s1)) = Some (qc_mac (ns_dev (sm_a s1)))"
    using arp_lookup_insert inv by (simp_all add: a1 a2 d arpa arp)
  from connect_resolved [OF i1 t this, of n tries] obtain s' where
    "connect_loop (Suc (Suc (Suc n))) (Suc tries) s1 = Some ((0, 0), s')" "pair_linked 0 0 (sm_a s') (sm_b s')"
    "wr_tap (sm_wire s') = Pass" "keys_stay (sm_a s1) (sm_a s')" "keys_stay (sm_b s1) (sm_b s')"
    "key_left (sm_a s') + key_cost 0 = key_left ?a"
    "key_left (sm_b s') + key_cost 0 = key_left (sm_b s)" using k kb assms(3,4) by auto
  moreover have "sim_connect (Suc (Suc (Suc n))) (Suc (Suc tries)) s = connect_loop (Suc (Suc (Suc n))) (Suc tries) s1"
    unfolding sim_connect_def connect_loop.simps(2) [of _ "Suc tries"] using b c r by (simp del: sim_run.simps connect_loop.simps)
  moreover have "keys_stay ?a (sm_a s')" "keys_stay (sm_b s) (sm_b s')"
    using calculation(4,5) k(3,4) stay by (auto intro: keys_stay_trans)
  ultimately show ?thesis by auto
qed

end
