(* ===== verification/Two_Node_Script.thy ===== *)
theory Two_Node_Script
  imports Two_Node_Connect
begin

text \<open>
  A session in use while key is still being distributed: messages in both directions, frames that
  are lost, and blocks of the quantum link, in any order.  What both sides hear is computed from
  the link and the amount of key alone.
\<close>

unbundle bit_operations_syntax

section \<open>Scripts\<close>

text \<open>
  A message (is its frame lost, is the first node the speaker, the text); one more block of key; or
  an attacker who puts the \<open>i\<close>-th frame recorded on the cable into the receive queue of the second
  or the first node, which then polls and reads, as section 5 of \<open>main\<close> does with one such frame.
\<close>

datatype event = Utter bool bool bytes | Supply | Replay nat bool

definition inject :: "nat \<Rightarrow> nat \<Rightarrow> bytes \<Rightarrow> queue_card net_stack \<Rightarrow> ((net_error + bytes) \<times> queue_card net_stack) option" where
  "inject fuel k f x =
     (case poll_node fuel (push_rx f x) of
        None \<Rightarrow> None
      | Some (n, x) \<Rightarrow>
          (case stack_recv k (replicate 1500 0) x of
             (r, buf, x) \<Rightarrow> Some ((case r of Inr n \<Rightarrow> Inr (take n buf) | Inl e \<Rightarrow> Inl e), x)))"

text \<open>Frames are numbered from the first one recorded after frame \<open>c\<close>; without one nothing happens.\<close>

definition replay_at :: "nat \<Rightarrow> nat \<Rightarrow> nat \<Rightarrow> nat \<Rightarrow> nat \<Rightarrow> bool \<Rightarrow> sim \<Rightarrow> ((net_error + bytes) \<times> sim) option" where
  "replay_at fuel h k c i to_b s =
     (let fs = drop c (wr_captured (sm_wire s))
      in if length fs \<le> i then Some (Inl WouldBlock, s)
         else if to_b then map_option (\<lambda>(r, b). (r, s\<lparr>sm_b := b\<rparr>)) (inject fuel k (fs ! i) (sm_b s))
         else map_option (\<lambda>(r, a). (r, s\<lparr>sm_a := a\<rparr>)) (inject fuel h (fs ! i) (sm_a s)))"

fun script ::
  "nat \<Rightarrow> nat \<Rightarrow> nat \<Rightarrow> nat \<Rightarrow> 'g entropy \<Rightarrow> event list \<Rightarrow> 'g quantum_link \<Rightarrow> sim
   \<Rightarrow> ((net_error + net_error + bytes) list \<times> sim) option" where
  "script fuel h k c nx [] link s = Some ([], s)"
| "script fuel h k c nx (Replay i to_b # es) link s =
     (case replay_at fuel h k c i to_b s of
        None \<Rightarrow> None
      | Some (r, s) \<Rightarrow> map_option (\<lambda>(rs, s). (Inr r # rs, s)) (script fuel h k c nx es link s))"
| "script fuel h k c nx (Utter lost d msg # es) link s =
     (case say fuel d (if d then h else k) (if d then k else h) msg (set_tap (if lost then Drop else Pass) s) of
        None \<Rightarrow> None
      | Some (r, s) \<Rightarrow> map_option (\<lambda>(rs, s). (r # rs, s)) (script fuel h k c nx es link s))"
| "script fuel h k c nx (Supply # es) link s =
     (case distribute_keys nx link 1 s of None \<Rightarrow> None | Some (link, s) \<Rightarrow> script fuel h k c nx es link s)"

text \<open>
  The abstract account.  Each direction has an amount of key.  A message for which there is key
  arrives, cut to the length of one record, unless its frame is lost; one for which there is not
  enough is refused and costs nothing.  A block goes to the direction of its parity, and a full
  lane holds no more than its capacity.  A replayed frame yields nothing.
\<close>

fun account ::
  "nat \<Rightarrow> nat \<Rightarrow> 'g entropy \<Rightarrow> event list \<Rightarrow> 'g quantum_link \<Rightarrow> (net_error + net_error + bytes) list" where
  "account ka kb nx [] link = []"
| "account ka kb nx (Replay i to_b # es) link = Inr (Inl WouldBlock) # account ka kb nx es link"
| "account ka kb nx (Utter lost d msg # es) link =
     (let m = take MAX_RECORD_PAYLOAD msg; c = key_cost (length m)
      in if (if d then ka else kb) < c then Inl (Key InsufficientKey) # account ka kb nx es link
         else Inr (if lost then Inl WouldBlock else Inr m)
                # account (if d then ka - c else ka) (if d then kb else kb - c) nx es link)"
| "account ka kb nx (Supply # es) link =
     (case harvest nx link of
        (Inl _, link) \<Rightarrow> account ka kb nx es link
      | (Inr blk, link) \<Rightarrow>
          if kb_seq blk AND 1 = 0 then account (min LANE_CAPACITY (ka + KEY_BLOCK_BYTES)) kb nx es link
          else account ka (min LANE_CAPACITY (kb + KEY_BLOCK_BYTES)) nx es link)"

section \<open>Deposits on a session in use\<close>

definition session_pair :: "nat \<Rightarrow> nat \<Rightarrow> nat \<Rightarrow> queue_card net_stack \<Rightarrow> queue_card net_stack \<Rightarrow> bool" where
  "session_pair n h k a b \<longleftrightarrow> pair_linked h k a b \<and> ns_ip a = IP_A \<and> ns_ip b = IP_B
     \<and> pk_role (keys_of a 0) = RoleA \<and> pk_role (keys_of b 0) = RoleB
     \<and> lane_end (peer_tx (keys_of a 0)) \<le> n \<and> lane_end (peer_tx (keys_of b 0)) \<le> n"

text \<open>All that the attacker has recorded is spent, at both nodes.\<close>

definition recorded_spent :: "nat \<Rightarrow> sim \<Rightarrow> bool" where
  "recorded_spent c s \<longleftrightarrow> (\<forall>f \<in> set (drop c (wr_captured (sm_wire s))). frame_fit f \<and> spent f (sm_a s) \<and> spent f (sm_b s))"

lemma recorded_moves_on:
  assumes "recorded_spent c s" and "moves_on (sm_a s) (sm_a s')" and "moves_on (sm_b s) (sm_b s')"
    and "wr_captured (sm_wire s') = wr_captured (sm_wire s) @ fs"
    and "\<forall>f \<in> set fs. frame_fit f \<and> spent f (sm_a s') \<and> spent f (sm_b s')"
  shows "recorded_spent c s'"
  unfolding recorded_spent_def
proof
  fix f assume "f \<in> set (drop c (wr_captured (sm_wire s')))"
  then consider "f \<in> set (drop c (wr_captured (sm_wire s)))" | "f \<in> set fs"
    using assms(4) set_drop_subset [of _ fs] by (auto simp: subset_iff)
  then show "frame_fit f \<and> spent f (sm_a s') \<and> spent f (sm_b s')"
    using assms(1,2,3,5) spent_moves_on by cases (auto simp: recorded_spent_def)
qed

lemma inject_spent:
  assumes "node_ok x" and "rx_of x = []" and "frame_fit f" and "spent f x"
    and "stack_recv k (replicate 1500 0) x = (Inl WouldBlock, buf, x)"
  shows "inject (Suc (Suc i)) k f x = Some (Inl WouldBlock, x)"
  using poll_node_one [OF assms(1-3), of i] spent_frame [OF assms(4)] assms(5) by (simp add: inject_def)

lemma replay_refused:
  assumes "pair_linked h k (sm_a s) (sm_b s)" and "recorded_spent c s"
  shows "replay_at (Suc (Suc n)) h k c i to_b s = Some (Inl WouldBlock, s)"
proof (cases "length (drop c (wr_captured (sm_wire s))) \<le> i")
  case False
  let ?f = "drop c (wr_captured (sm_wire s)) ! i"
  have "?f \<in> set (drop c (wr_captured (sm_wire s)))" using False by (intro nth_mem) simp
  then have f: "frame_fit ?f" "spent ?f (sm_a s)" "spent ?f (sm_b s)" using assms(2) by (simp_all add: recorded_spent_def)
  note L = assms(1) [unfolded pair_linked_def]
  have "inject (Suc (Suc n)) k ?f (sm_b s) = Some (Inl WouldBlock, sm_b s)"
    using L f pair_linked_waiting [OF assms(1)] by (intro inject_spent) simp_all
  moreover have "inject (Suc (Suc n)) h ?f (sm_a s) = Some (Inl WouldBlock, sm_a s)"
    using L f pair_linked_waiting [OF pair_linked_sym [OF assms(1)]] by (intro inject_spent) simp_all
  ultimately show ?thesis using False by (simp add: replay_at_def Let_def)
qed (simp add: replay_at_def Let_def)

lemma session_pair_stay:
  assumes "session_pair n h k a b" and "pair_linked h k a' b'" and "keys_stay a a'" and "keys_stay b b'"
  shows "session_pair n h k a' b'"
  using assms by (simp add: session_pair_def keys_stay_def)

text \<open>The lanes as \<open>deposit_block\<close> sees them.\<close>

lemma role_lanes:
  "pk_role k = RoleA \<Longrightarrow> peer_tx k = pk_lanes k ! 0 \<and> peer_rx k = pk_lanes k ! 1"
  "pk_role k = RoleB \<Longrightarrow> peer_tx k = pk_lanes k ! 1 \<and> peer_rx k = pk_lanes k ! 0"
  by (simp_all add: peer_tx_def peer_rx_def rx_lane_def)

lemma pair_linked_lanes:
  assumes "pair_linked h k a b" and "node_ok a'" and "node_ok b'"
    and "ns_dev a' = ns_dev a" and "ns_dev b' = ns_dev b" and "same_face a a'" and "same_face b b'"
    and "ns_sessions a' = ns_sessions a" and "ns_sessions b' = ns_sessions b"
    and "lanes_linked (peer_tx (keys_of a' 0)) (peer_rx (keys_of b' 0))"
    and "lanes_linked (peer_tx (keys_of b' 0)) (peer_rx (keys_of a' 0))"
  shows "pair_linked h k a' b'"
  using assms macs_differ_cong [OF assms(4,5)] can_send_cong [OF _ assms(6,7,10)] can_send_cong [OF _ assms(7,6,11)]
  by (simp add: pair_linked_def)

lemma deposit_pair_session:
  assumes "session_pair n h k (sm_a s) (sm_b s)" and "kb_a blk = kb_b blk" and "length (kb_a blk) = KEY_BLOCK_BYTES"
    and "n + 256 < 2 ^ 64"
  shows "\<exists>s'. deposit_pair blk s = Some s' \<and> session_pair (n + 256) h k (sm_a s') (sm_b s')
    \<and> key_left (sm_a s') = (if kb_seq blk AND 1 = 0 then min LANE_CAPACITY (key_left (sm_a s) + KEY_BLOCK_BYTES)
        else key_left (sm_a s))
    \<and> key_left (sm_b s') = (if kb_seq blk AND 1 = 0 then key_left (sm_b s)
        else min LANE_CAPACITY (key_left (sm_b s) + KEY_BLOCK_BYTES))
    \<and> sm_wire s' = sm_wire s \<and> moves_on (sm_a s) (sm_a s') \<and> moves_on (sm_b s) (sm_b s')"
proof -
  let ?a = "sm_a s" and ?b = "sm_b s" and ?key = "kb_a blk" and ?i = "unat (kb_seq blk AND 1)"
  let ?ka = "keys_of ?a 0" and ?kb = "keys_of ?b 0"
  note F = assms(1) [unfolded session_pair_def]
  have two: "0 < MAX_PEERS" by (simp add: MAX_PEERS_def)
  have nodes: "node_ok ?a" "node_ok ?b" using F by (simp_all add: pair_linked_def)
  note ka = node_keys [OF nodes(1) two] and kb = node_keys [OF nodes(2) two]
  have i: "?i = 0 \<or> ?i = 1" using word_and_le1 [of "kb_seq blk" 1] by (auto simp: word_le_nat_alt)
  have i0: "kb_seq blk AND 1 = 0 \<longleftrightarrow> ?i = 0" by (simp add: unat_eq_0)
  have la: "peer_tx ?ka = pk_lanes ?ka ! 0" "peer_rx ?ka = pk_lanes ?ka ! 1"
    and lb: "peer_tx ?kb = pk_lanes ?kb ! 1" "peer_rx ?kb = pk_lanes ?kb ! 0" using role_lanes F by blast+
  have link: "lanes_linked (pk_lanes ?ka ! 0) (pk_lanes ?kb ! 0)" "lanes_linked (pk_lanes ?kb ! 1) (pk_lanes ?ka ! 1)"
    using F la lb by (simp_all add: pair_linked_def can_send_def)
  have ok: "lane_ok (pk_lanes ?ka ! j)" "lane_ok (pk_lanes ?kb ! j)"
    "lane_end (pk_lanes ?ka ! j) \<le> n" "lane_end (pk_lanes ?kb ! j) \<le> n" if "j = 0 \<or> j = 1" for j
    using that link F la lb by (auto simp: lanes_linked_def)
  have inv: "lane_inv (pk_lanes ?ka ! ?i)" "lane_inv (pk_lanes ?kb ! ?i)" using ok [OF i] by (simp_all add: lane_ok_def)
  have key: "?key \<noteq> []" "length ?key \<le> LANE_CAPACITY" using assms(3) by (auto simp: KEY_BLOCK_BYTES_def LANE_CAPACITY_def)
  obtain l where l: "lane_deposit ?key (pk_lanes ?ka ! ?i) = Inr l" by (rule lane_deposit_Inr [OF inv(1) key])
  obtain r where r: "lane_deposit ?key (pk_lanes ?kb ! ?i) = Inr r" by (rule lane_deposit_Inr [OF inv(2) key])
  have fits: "lane_end (pk_lanes ?ka ! ?i) + length ?key < 2 ^ 64" "lane_end (pk_lanes ?kb ! ?i) + length ?key < 2 ^ 64"
    using ok(3,4) [OF i] assms(3,4) by (simp_all add: KEY_BLOCK_BYTES_def)
  note L = lane_deposit_end [OF ok(1) [OF i] l fits(1)] and R = lane_deposit_end [OF ok(2) [OF i] r fits(2)]
  define A where "A = set_keys 0 (?ka\<lparr>pk_lanes := (pk_lanes ?ka)[?i := l]\<rparr>) ?a"
  define B where "B = set_keys 0 (?kb\<lparr>pk_lanes := (pk_lanes ?kb)[?i := r]\<rparr>) ?b"
  have ip: "ns_ip ?a = IP_A" "ns_ip ?b = IP_B" and "peer_index (ns_ip ?b) ?a = Some 0" "peer_index (ns_ip ?a) ?b = Some 0"
    using F unfolding pair_linked_def can_send_def by blast+
  then have pi: "peer_index IP_B ?a = Some 0" "peer_index IP_A ?b = Some 0" by simp_all
  have "deposit_key_block IP_B (kb_seq blk) ?key ?a = (Inr (), A)"
    "deposit_key_block IP_A (kb_seq blk) (kb_b blk) ?b = (Inr (), B)"
    using pi l r assms(2) by (simp_all add: deposit_key_block_def peer_deposit_block_def A_def B_def Let_def)
  then have d: "deposit_pair blk s = Some (s\<lparr>sm_a := A, sm_b := B\<rparr>)"
    using assms(2,3) by (simp add: deposit_pair_def KEY_BLOCK_BYTES_def)
  have kA: "keys_of A 0 = ?ka\<lparr>pk_lanes := (pk_lanes ?ka)[?i := l]\<rparr>" and kB: "keys_of B 0 = ?kb\<lparr>pk_lanes := (pk_lanes ?kb)[?i := r]\<rparr>"
    using ka(3) kb(3) by (simp_all add: A_def B_def)
  have lanes: "peer_tx (keys_of A 0) = (if ?i = 0 then l else peer_tx ?ka)" "peer_rx (keys_of A 0) = (if ?i = 0 then peer_rx ?ka else l)"
    "peer_tx (keys_of B 0) = (if ?i = 0 then peer_tx ?kb else r)" "peer_rx (keys_of B 0) = (if ?i = 0 then r else peer_rx ?kb)"
    using i ka(2) kb(2) F la lb role_lanes [of "keys_of A 0"] role_lanes [of "keys_of B 0"] unfolding kA kB by auto
  have kok: "keys_ok (?ka\<lparr>pk_lanes := (pk_lanes ?ka)[?i := l]\<rparr>)" "keys_ok (?kb\<lparr>pk_lanes := (pk_lanes ?kb)[?i := r]\<rparr>)"
    using ka(1) kb(1) L(1) R(1) set_update_subset_insert [of "pk_lanes ?ka" ?i l] set_update_subset_insert [of "pk_lanes ?kb" ?i r]
    by (auto simp: keys_ok_def lane_ok_def)
  have nodes': "node_ok A" "node_ok B" using nodes kok by (simp_all add: A_def B_def node_ok_def stack_inv_keys)
  have "lanes_linked l r" if "?i = 0"
    by (rule lanes_linked_deposit [OF link(1)]) (use l r fits that in simp_all)
  moreover have "lanes_linked r l" if "?i = 1"
    by (rule lanes_linked_deposit [OF link(2)]) (use l r fits that in simp_all)
  ultimately have ll: "lanes_linked (peer_tx (keys_of A 0)) (peer_rx (keys_of B 0))"
    "lanes_linked (peer_tx (keys_of B 0)) (peer_rx (keys_of A 0))"
    using lanes link la lb i by auto
  have "pair_linked h k A B"
  proof (rule pair_linked_lanes [OF _ nodes'])
    show "lanes_linked (peer_tx (keys_of A 0)) (peer_rx (keys_of B 0))" "lanes_linked (peer_tx (keys_of B 0)) (peer_rx (keys_of A 0))"
      by (rule ll)+
  qed (use F in \<open>simp_all add: A_def B_def same_face_keys\<close>)
  moreover have "ns_ip A = IP_A" "ns_ip B = IP_B" using F by (simp_all add: A_def B_def)
  moreover have "lane_end l \<le> n + 256" "lane_end r \<le> n + 256"
    using L(2) R(2) ok(3,4) [OF i] assms(3) by (simp_all add: KEY_BLOCK_BYTES_def)
  ultimately have "session_pair (n + 256) h k A B"
    using F lanes kA kB by (simp add: session_pair_def)
  moreover have "key_left A = (if ?i = 0 then min LANE_CAPACITY (key_left ?a + KEY_BLOCK_BYTES) else key_left ?a)"
    "key_left B = (if ?i = 0 then key_left ?b else min LANE_CAPACITY (key_left ?b + KEY_BLOCK_BYTES))"
    using L(3) R(3) i lanes la lb assms(3) by (auto simp: key_left_def)
  moreover have "unat (lane_base (pk_lanes ?ka ! ?i)) \<le> unat (lane_base l)"
    "unat (lane_base (pk_lanes ?kb ! ?i)) \<le> unat (lane_base r)"
    using L(2,3) R(2,3) by (simp_all add: lane_end_def min_def split: if_splits)
  then have "moves_on ?a A" "moves_on ?b B"
    using i lanes la lb by (auto simp: moves_on_def word_le_nat_alt A_def B_def same_face_keys)
  ultimately show ?thesis using d i0 by simp
qed

section \<open>The account is exact\<close>

lemma session_pair_mono: "session_pair m h k a b \<Longrightarrow> m \<le> n \<Longrightarrow> session_pair n h k a b"
  by (auto simp: session_pair_def)

lemma distribute_one:
  assumes "session_pair m h k (sm_a s) (sm_b s)" and "m + 256 < 2 ^ 64" and "harvest nx link = (r, link')"
  obtains s' where "distribute_keys nx link 1 s = Some (link', s')" and "session_pair (m + 256) h k (sm_a s') (sm_b s')"
    and "\<And>ka kb es. key_left (sm_a s) = ka \<Longrightarrow> key_left (sm_b s) = kb \<Longrightarrow>
      account ka kb nx (Supply # es) link = account (key_left (sm_a s')) (key_left (sm_b s')) nx es link'"
    and "sm_wire s' = sm_wire s" and "moves_on (sm_a s) (sm_a s')" and "moves_on (sm_b s) (sm_b s')"
proof -
  have shown: "show_keys x = Some x" if "session_pair n h k (sm_a x) (sm_b x)" for x n
  proof -
    have "peer_index (ns_ip (sm_b x)) (sm_a x) = Some 0" "peer_index (ns_ip (sm_a x)) (sm_b x) = Some 0"
      using that unfolding session_pair_def pair_linked_def can_send_def by blast+
    then show ?thesis using that by (simp add: show_keys_def key_available_def session_pair_def)
  qed
  show thesis
  proof (cases r)
    case (Inl e)
    have "distribute_keys nx link 1 s = Some (link', s)"
      using assms(3) Inl shown [OF assms(1)] by (simp add: distribute_keys_def)
    then show thesis
      by (rule that [OF _ session_pair_mono [OF assms(1)]]) (use assms(3) Inl in simp_all)
  next
    case (Inr blk)
    note b = harvest_block [OF assms(3) [unfolded Inr]]
    obtain s' where s': "deposit_pair blk s = Some s'" "session_pair (m + 256) h k (sm_a s') (sm_b s')"
      "key_left (sm_a s') = (if kb_seq blk AND 1 = 0 then min LANE_CAPACITY (key_left (sm_a s) + KEY_BLOCK_BYTES)
          else key_left (sm_a s))"
      "key_left (sm_b s') = (if kb_seq blk AND 1 = 0 then key_left (sm_b s)
          else min LANE_CAPACITY (key_left (sm_b s) + KEY_BLOCK_BYTES))"
      "sm_wire s' = sm_wire s" "moves_on (sm_a s) (sm_a s')" "moves_on (sm_b s) (sm_b s')"
      using deposit_pair_session [OF assms(1) b assms(2)] by blast
    have "distribute_keys nx link 1 s = Some (link', s')"
      using assms(3) Inr s'(1) shown [OF s'(2)] by (simp add: distribute_keys_def)
    then show thesis
      by (rule that [OF _ s'(2)]) (use assms(3) Inr s'(3-7) in simp_all)
  qed
qed

lemma script_account:
  assumes "session_pair n h k (sm_a s) (sm_b s)" and "n + 256 * length es < 2 ^ 64" and "recorded_spent c s"
  shows "\<exists>s'. script (Suc (Suc i)) h k c nx es link s
      = Some (account (key_left (sm_a s)) (key_left (sm_b s)) nx es link, s')
    \<and> session_pair (n + 256 * length es) h k (sm_a s') (sm_b s')"
  using assms
proof (induction es arbitrary: n link s)
  case (Cons e es)
  have small: "n + 256 * length es < 2 ^ 64" "n + 256 < 2 ^ 64" "n + 256 + 256 * length es < 2 ^ 64"
    using Cons.prems(2) by simp_all
  show ?case
  proof (cases e)
    case Supply
    obtain r link' where r: "harvest nx link = (r, link')" by (cases "harvest nx link")
    obtain s1 where s1: "distribute_keys nx link 1 s = Some (link', s1)" "session_pair (n + 256) h k (sm_a s1) (sm_b s1)"
      "account (key_left (sm_a s)) (key_left (sm_b s)) nx (Supply # es) link
        = account (key_left (sm_a s1)) (key_left (sm_b s1)) nx es link'"
      "sm_wire s1 = sm_wire s" "moves_on (sm_a s) (sm_a s1)" "moves_on (sm_b s) (sm_b s1)"
      by (rule distribute_one [OF Cons.prems(1) small(2) r]) blast
    have r1: "recorded_spent c s1"
      by (rule recorded_moves_on [OF Cons.prems(3) s1(5,6), of "[]"]) (simp_all add: s1(4))
    obtain s' where "script (Suc (Suc i)) h k c nx es link' s1
        = Some (account (key_left (sm_a s1)) (key_left (sm_b s1)) nx es link', s')"
      "session_pair (n + 256 + 256 * length es) h k (sm_a s') (sm_b s')"
      using Cons.IH [OF s1(2) small(3) r1] by blast
    then show ?thesis using s1(1) unfolding Supply s1(3) by (simp add: add.assoc)
  next
    case (Replay j to_b)
    have pl: "pair_linked h k (sm_a s) (sm_b s)" using Cons.prems(1) by (simp add: session_pair_def)
    obtain s' where "script (Suc (Suc i)) h k c nx es link s
        = Some (account (key_left (sm_a s)) (key_left (sm_b s)) nx es link, s')"
      "session_pair (n + 256 * length es) h k (sm_a s') (sm_b s')"
      using Cons.IH [OF Cons.prems(1) small(1) Cons.prems(3)] by blast
    then show ?thesis
      using replay_refused [OF pl Cons.prems(3), of i j to_b]
        session_pair_mono [of "n + 256 * length es" h k "sm_a s'" "sm_b s'" "n + 256 * length (e # es)"]
      unfolding Replay by simp
  next
    case (Utter lost d msg)
    let ?t = "if lost then Drop else Pass" and ?m = "take MAX_RECORD_PAYLOAD msg"
    let ?s = "set_tap ?t s"
    let ?h = "if d then h else k" and ?k = "if d then k else h"
    have tap: "wr_tap (sm_wire ?s) = ?t" "sm_a ?s = sm_a s" "sm_b ?s = sm_b s"
      "wr_captured (sm_wire ?s) = wr_captured (sm_wire s)" by (simp_all add: set_tap_def)
    have sp: "speaker c ?s = (if c then sm_a s else sm_b s)" for c by (simp add: speaker_def tap)
    have pl: "pair_linked h k (sm_a s) (sm_b s)" using Cons.prems(1) by (simp add: session_pair_def)
    then have link: "pair_linked ?h ?k (speaker d ?s) (speaker (\<not> d) ?s)"
      using pair_linked_sym by (cases d) (simp_all add: sp)
    have short: "wr_tap (sm_wire ?s) = Tamper \<longrightarrow> length ?m \<le> 8" by (simp add: tap(1))
    note say = say_linked [OF link refl short, of i]
    show ?thesis
    proof (cases "key_left (speaker d ?s) < key_cost (length ?m)")
      case True
      then have "say (Suc (Suc i)) d ?h ?k msg ?s = Some (Inl (Key InsufficientKey), ?s)" using say by simp
      moreover obtain s' where "script (Suc (Suc i)) h k c nx es link ?s
          = Some (account (key_left (sm_a s)) (key_left (sm_b s)) nx es link, s')"
        "session_pair (n + 256 * length es) h k (sm_a s') (sm_b s')"
        using Cons.IH [of n ?s link] Cons.prems(1,3) small(1) tap by (auto simp: recorded_spent_def)
      ultimately show ?thesis
        using True session_pair_mono [of "n + 256 * length es" h k "sm_a s'" "sm_b s'" "n + 256 * length (e # es)"]
        unfolding Utter by (cases d) (simp_all add: sp Let_def)
    next
      case False
      then obtain s1 fs where s1: "say (Suc (Suc i)) d ?h ?k msg ?s = Some (Inr (if lost then Inl WouldBlock else Inr ?m), s1)"
        "pair_linked ?h ?k (speaker d s1) (speaker (\<not> d) s1)"
        "key_left (speaker d s1) + key_cost (length ?m) = key_left (speaker d ?s)"
        "key_left (speaker (\<not> d) s1) = key_left (speaker (\<not> d) ?s)"
        "keys_stay (speaker d ?s) (speaker d s1)" "keys_stay (speaker (\<not> d) ?s) (speaker (\<not> d) s1)"
        and rec: "moves_on (speaker d ?s) (speaker d s1)" "moves_on (speaker (\<not> d) ?s) (speaker (\<not> d) s1)"
          "wr_captured (sm_wire s1) = wr_captured (sm_wire ?s) @ fs"
          "\<forall>f \<in> set fs. frame_fit f \<and> spent f (speaker d s1) \<and> spent f (speaker (\<not> d) s1)"
        using say tap(1) by (auto split: if_splits)
      have r1: "recorded_spent c s1"
        by (rule recorded_moves_on [OF Cons.prems(3), of s1 fs])
          (use rec tap in \<open>cases d; simp add: speaker_def\<close>)+
      have l1: "pair_linked h k (sm_a s1) (sm_b s1)"
        using s1(2) pair_linked_sym by (cases d) (simp_all add: speaker_def)
      have "keys_stay (sm_a s) (sm_a s1)" "keys_stay (sm_b s) (sm_b s1)"
        using s1(5,6) tap by (cases d; simp add: speaker_def)+
      then have p1: "session_pair n h k (sm_a s1) (sm_b s1)" by (rule session_pair_stay [OF Cons.prems(1) l1])
      have keys: "key_left (sm_a s1) = (if d then key_left (sm_a s) - key_cost (length ?m) else key_left (sm_a s))"
        "key_left (sm_b s1) = (if d then key_left (sm_b s) else key_left (sm_b s) - key_cost (length ?m))"
        using s1(3,4) tap by (cases d; simp add: speaker_def)+
      obtain s' where "script (Suc (Suc i)) h k c nx es link s1
          = Some (account (key_left (sm_a s1)) (key_left (sm_b s1)) nx es link, s')"
        "session_pair (n + 256 * length es) h k (sm_a s') (sm_b s')"
        using Cons.IH [OF p1 small(1) r1] by blast
      then show ?thesis
        using s1(1) False keys session_pair_mono [of "n + 256 * length es" h k "sm_a s'" "sm_b s'" "n + 256 * length (e # es)"]
        unfolding Utter by (cases d) (simp_all add: sp Let_def)
    qed
  qed
qed simp

end
