(* ===== verification/Two_Node_Main.thy ===== *)
theory Two_Node_Main
  imports Two_Node_Script
begin

text \<open>
  The sections of the program as a whole: keys, address, session and any conversation after them;
  sending until the key is used up; closing.
\<close>

unbundle bit_operations_syntax

section \<open>A linked pair\<close>

text \<open>Two nodes that got one block of key in each direction and then connected.\<close>

definition example_block :: "u64 \<Rightarrow> key_block_pair" where
  "example_block i = \<lparr>kb_seq = i, kb_a = replicate 256 0x5A, kb_b = replicate 256 0x5A, kb_qber_ppm = 0, kb_leaked_bits = 0, kb_secure_bits = 2048\<rparr>"

definition example_sim :: sim where
  "example_sim = snd (the (sim_connect 3 2 (the (deposit_pair (example_block 1) (the (deposit_pair (example_block 0) (the sim_new)))))))"

lemma lane_deposit_new:
  assumes "lane_deposit key lane_new = Inr l" and "length key = 256"
  shows "lane_count l = 256"
proof -
  have ok: "lane_ok lane_new" and e: "lane_end lane_new = 0"
    using lane_inv_new lane_end_new by (simp_all add: lane_ok_def)
  obtain d where d: "lane_deposit key lane_new = Inr d" "lane_keys d = drop (length (lane_keys lane_new @ key) - LANE_CAPACITY) (lane_keys lane_new @ key)"
    by (rule lane_deposit_Inr [OF lane_inv_new lane_deposit_InrD [OF assms(1)]])
  have "lane_count lane_new = 0" by (simp add: lane_new_def)
  then have "length (lane_keys d) = 256" using d(2) assms(2) by (simp add: LANE_CAPACITY_def)
  then show ?thesis using d(1) assms(1) by simp
qed

lemma example_linked:
  "pair_linked 0 0 (sm_a example_sim) (sm_b example_sim)" "wr_tap (sm_wire example_sim) = Pass"
  "key_left (sm_a example_sim) = 224"
proof -
  obtain s0 where s0: "sim_new = Some s0" and f0: "fresh_nodes 0 (sm_a s0) (sm_b s0)" and t0: "wr_tap (sm_wire s0) = Pass"
    and k0: "pk_lanes (keys_of (sm_a s0) 0) = [lane_new, lane_new]"
    using sim_new_fresh by blast
  have b: "kb_a (example_block i) = kb_b (example_block i)" "length (kb_a (example_block i)) = KEY_BLOCK_BYTES"
    "kb_seq (example_block i) = i" for i
    by (simp_all add: example_block_def KEY_BLOCK_BYTES_def)
  obtain s1 l1 where s1: "deposit_pair (example_block 0) s0 = Some s1" "fresh_nodes 256 (sm_a s1) (sm_b s1)"
    "sm_wire s1 = sm_wire s0" and l1: "lane_deposit (kb_a (example_block 0)) lane_new = Inr l1"
    and k1: "pk_lanes (keys_of (sm_a s1) 0) = [l1, lane_new]"
    using deposit_pair_fresh [OF f0, of "example_block 0"] b [of 0] by (auto simp: k0)
  obtain s2 l2 where s2: "deposit_pair (example_block 1) s1 = Some s2" "fresh_nodes 512 (sm_a s2) (sm_b s2)"
    "sm_wire s2 = sm_wire s1" and l2: "lane_deposit (kb_a (example_block 1)) lane_new = Inr l2"
    and k2: "pk_lanes (keys_of (sm_a s2) 0) = [l1, l2]"
    using deposit_pair_fresh [OF s1(2), of "example_block 1"] b [of 1] by (auto simp: k1)
  have c: "lane_count l1 = 256" "lane_count l2 = 256"
    using lane_deposit_new [OF l1] lane_deposit_new [OF l2] by (simp_all add: example_block_def)
  have key: "key_left (sm_a s2) = 256" "key_left (sm_b s2) = 256"
    using s2(2) k2 c by (simp_all add: fresh_nodes_def key_left_def peer_tx_def)
  from connect_fresh [OF s2(2), of 0 0] obtain s3 where s3: "sim_connect 3 2 s2 = Some ((0, 0), s3)"
    "pair_linked 0 0 (sm_a s3) (sm_b s3)" "wr_tap (sm_wire s3) = Pass" "key_left (sm_a s3) + key_cost 0 = 256"
    using key s1(3) s2(3) t0 by (auto simp: key_cost_def qtls_lens numeral_eq_Suc)
  have "example_sim = s3" unfolding example_sim_def s0 using s1(1) s2(1) s3(1) by simp
  then show "pair_linked 0 0 (sm_a example_sim) (sm_b example_sim)" "wr_tap (sm_wire example_sim) = Pass"
    "key_left (sm_a example_sim) = 224" using s3 by (simp_all add: key_cost_def qtls_lens)
qed

section \<open>Sections 1 to 4\<close>

lemma distribute_blocks:
  assumes "sim_new = Some s0"
  obtains link' s where "distribute_keys nx link 6 s0 = Some (link', s)" and "fresh_nodes 1536 (sm_a s) (sm_b s)"
    and "wr_tap (sm_wire s) = Pass"
proof -
  have s0: "fresh_nodes 0 (sm_a s0) (sm_b s0)" "wr_tap (sm_wire s0) = Pass" using sim_new_fresh unfolding assms by auto
  have "0 + 256 * 6 < (2 :: nat) ^ 64" by simp
  from distribute_keys_fresh [OF s0(1) this, of nx link] obtain link' s where
    "distribute_keys nx link 6 s0 = Some (link', s)" "fresh_nodes (0 + 256 * 6) (sm_a s) (sm_b s)" "sm_wire s = sm_wire s0"
    by blast
  then show thesis using that s0(2) by simp
qed

lemma fresh_key_available:
  assumes "fresh_nodes m a b"
  shows "key_available IP_B a = Some (key_left a, key_left b)"
  using assms by (simp add: fresh_nodes_def key_available_def key_left_def peer_tx_def peer_rx_def rx_lane_def lane_available_def)

lemma linked_show_keys:
  assumes "pair_linked h k (sm_a s) (sm_b s)" and "ns_ip (sm_a s) = IP_A" and "ns_ip (sm_b s) = IP_B"
  shows "show_keys s = Some s"
  using assms by (simp add: show_keys_def key_available_def pair_linked_def can_send_def)

lemma main_start_linked:
  "\<exists>r link' s. main_start (Suc (Suc (Suc n))) (Suc (Suc tries)) nx link = Some (r, link', s) \<and>
     (case r of None \<Rightarrow> key_left (sm_a s) < key_cost 0 \<or> key_left (sm_b s) < key_cost 0
      | Some (h, k) \<Rightarrow> session_pair 1536 h k (sm_a s) (sm_b s))"
proof -
  obtain s0 where s0: "sim_new = Some s0" using sim_new_fresh by blast
  obtain link' s where d: "distribute_keys nx link 6 s0 = Some (link', s)" "fresh_nodes 1536 (sm_a s) (sm_b s)"
    "wr_tap (sm_wire s) = Pass" by (rule distribute_blocks [OF s0])
  note k = fresh_key_available [OF d(2)]
  show ?thesis
  proof (cases "key_left (sm_a s) < key_cost 0 \<or> key_left (sm_b s) < key_cost 0")
    case True
    then show ?thesis unfolding main_start_def s0 using d(1) k by auto
  next
    case False
    then obtain s' where c: "sim_connect (Suc (Suc (Suc n))) (Suc (Suc tries)) s = Some ((0, 0), s')"
      "pair_linked 0 0 (sm_a s') (sm_b s')" "keys_stay (sm_a s) (sm_a s')" "keys_stay (sm_b s) (sm_b s')"
      using connect_fresh [OF d(2,3), of n tries] by (auto simp: not_less)
    note F = d(2) [unfolded fresh_nodes_def]
    have two: "0 < MAX_PEERS" by (simp add: MAX_PEERS_def)
    have len: "length (pk_lanes (keys_of (sm_a s) 0)) = 2" using node_keys(2) [OF _ two] F by blast
    then have "lane_end (pk_lanes (keys_of (sm_a s) 0) ! i) \<le> 1536" if "i < 2" for i using F that by simp
    from this [of 0] this [of 1] have "lane_end (peer_tx (keys_of (sm_a s) 0)) \<le> 1536" "lane_end (peer_tx (keys_of (sm_b s) 0)) \<le> 1536"
      using F by (simp_all add: peer_tx_def)
    then have p: "session_pair 1536 0 0 (sm_a s') (sm_b s')"
      using F c(2-4) by (simp add: session_pair_def keys_stay_def)
    have sk: "show_keys s' = Some s'"
      by (rule linked_show_keys [OF c(2)]) (use p in \<open>simp_all add: session_pair_def\<close>)
    show ?thesis unfolding main_start_def s0 using d(1) k False c(1) p sk by simp
  qed
qed

text \<open>
  C6. The start of the program (sections 1 and 2 of its \<open>main\<close>), continued by any script: whatever the
  quantum link does (any noise, any eavesdropper, any entropy), it never panics.  Either one direction has less key than a record costs, and the
  program stops there; or the address is resolved, the session is set up, and then every script of
  messages in both directions, of lost frames, of further blocks from the link and of an attacker
  who puts any frame recorded since then back into either node at any time, is heard exactly as the
  abstract account says: nothing is altered, duplicated or reordered, a replayed frame yields
  nothing, a lost record never disturbs the next one, however many are lost and however many old
  bytes fall out of the full lanes meanwhile, and a node refuses to send exactly when its one-time
  key is used up.  (The scripts stand for the fixed conversation of the later sections, which is not
  itself part of this statement; sections 7 and 8 have theorems of their own below.)
\<close>

theorem two_node_session:
  assumes "length es < 2 ^ 50"
  shows "\<exists>r link' s. main_start (n + 3) (tries + 2) nx link = Some (r, link', s) \<and>
     (case r of
        None \<Rightarrow> key_left (sm_a s) < key_cost 0 \<or> key_left (sm_b s) < key_cost 0
      | Some (h, k) \<Rightarrow> \<exists>s'. script (n + 3) h k (length (wr_captured (sm_wire s))) nx es link' s
          = Some (account (key_left (sm_a s)) (key_left (sm_b s)) nx es link', s'))"
proof -
  have n: "n + 3 = Suc (Suc (Suc n))" "tries + 2 = Suc (Suc tries)" by simp_all
  obtain r link' s where r: "main_start (n + 3) (tries + 2) nx link = Some (r, link', s)"
    "case r of None \<Rightarrow> key_left (sm_a s) < key_cost 0 \<or> key_left (sm_b s) < key_cost 0
      | Some (h, k) \<Rightarrow> session_pair 1536 h k (sm_a s) (sm_b s)"
    using main_start_linked [of n tries nx link] unfolding n by blast
  have "1536 + 256 * length es < 2 ^ 64" using assms by simp
  then have "\<exists>s'. script (n + 3) h k (length (wr_captured (sm_wire s))) nx es link' s = Some (account (key_left (sm_a s)) (key_left (sm_b s)) nx es link', s')"
    if "session_pair 1536 h k (sm_a s) (sm_b s)" for h k
    using script_account [OF that, of es "length (wr_captured (sm_wire s))" "Suc n" nx link']
    unfolding n by (auto simp: recorded_spent_def)
  then show ?thesis using r by (intro exI [of _ r] exI [of _ link'] exI [of _ s]) (auto split: option.splits prod.splits)
qed

lemma two_node_session_witness:
  "\<exists>r link' s. main_start 3 2 xorshift_next (link_new 2026 \<lparr>depolarize_ppm = 5000, eavesdropper = False\<rparr> Entanglement)
       = Some (r, link', s) \<and>
     (case r of
        None \<Rightarrow> key_left (sm_a s) < key_cost 0 \<or> key_left (sm_b s) < key_cost 0
      | Some (h, k) \<Rightarrow> \<exists>s'. script 3 h k (length (wr_captured (sm_wire s))) xorshift_next [Utter True True [1, 2], Supply, Utter False True [3], Replay 0 True] link' s
          = Some (account (key_left (sm_a s)) (key_left (sm_b s)) xorshift_next
              [Utter True True [1, 2], Supply, Utter False True [3], Replay 0 True] link', s'))"
proof -
  have "length [Utter True True [1, 2], Supply, Utter False True [3], Replay 0 True] < 2 ^ 50" by simp
  from two_node_session [OF this, of 0 0 xorshift_next "link_new 2026 \<lparr>depolarize_ppm = 5000, eavesdropper = False\<rparr> Entanglement"]
  show ?thesis unfolding add_0 .
qed

section \<open>Section 7\<close>

lemma exhaust_linked:
  assumes "pair_linked h k (sm_a s) (sm_b s)" and "length big \<le> MAX_RECORD_PAYLOAD"
    and "key_left (sm_a s) div key_cost (length big) < fuel"
  shows "\<exists>s'. exhaust fuel h big sent s = Some (sent + key_left (sm_a s) div key_cost (length big), Key InsufficientKey, s')
    \<and> pair_linked h k (sm_a s') (sm_b s') \<and> sm_b s' = sm_b s
    \<and> key_left (sm_a s') = key_left (sm_a s) mod key_cost (length big)"
  using assms(1,3)
proof (induction fuel arbitrary: s sent)
  case (Suc fuel)
  let ?S = "sm_a s" and ?T = "sm_b s" and ?c = "key_cost (length big)"
  have c: "0 < ?c" by (simp add: qtls_lens)
  show ?case
  proof (cases "key_left ?S < ?c")
    case True
    then show ?thesis using exchange_refused [OF Suc.prems(1) assms(2)] Suc.prems(1) by simp
  next
    case False
    obtain f S2 T2 T3 buf where send: "stack_send queue_nic h big ?S = (Inr (length big), set_tx [f] S2)"
      and f: "frame_fit f" "length f = 72 + length big" "node_ok (set_tx [f] S2)"
        "handle_frame queue_nic f ?T = T2" "node_ok T2" "tx_of T2 = []" "rx_of T2 = []"
        "stack_recv k (replicate 1500 0) T2 = (Inr (length big), buf, T3)" "take (length big) buf = big"
      and l: "pair_linked h k S2 ?T" "pair_linked h k S2 T3"
      and key: "key_left S2 + ?c = key_left ?S" "key_left T3 = key_left ?T"
      by (rule exchange [OF Suc.prems(1) assms(2)]) (use False in simp_all)
    have "set_tx [] (set_tx [f] S2) = S2" using l(1) by (simp add: pair_linked_def)
    then have step: "exhaust (Suc fuel) h big sent s = exhaust fuel h big (sent + 1) (s\<lparr>sm_a := S2\<rparr>)"
      using send by simp
    have dm: "key_left ?S div ?c = Suc (key_left S2 div ?c)" "key_left ?S mod ?c = key_left S2 mod ?c"
      using c key(1) by (simp_all flip: key(1))
    then have "key_left S2 div ?c < fuel" using Suc.prems(2) by simp
    then show ?thesis using Suc.IH [of "s\<lparr>sm_a := S2\<rparr>" "sent + 1"] l(1) dm unfolding step by simp
  qed
qed simp

text \<open>
  C10. Sending until a refusal ends, and the number of records that went out is exactly the key that
  was left divided by the key a record costs; the sender keeps the remainder, the receiver keeps
  its state, and the two are still linked although none of the records arrived.
\<close>

theorem two_node_exhausts:
  assumes "pair_linked h k (sm_a s) (sm_b s)" and "length big \<le> MAX_RECORD_PAYLOAD"
    and "key_left (sm_a s) div key_cost (length big) < fuel"
  shows "\<exists>s'. exhaust fuel h big 0 s = Some (key_left (sm_a s) div key_cost (length big), Key InsufficientKey, s')
    \<and> pair_linked h k (sm_a s') (sm_b s') \<and> sm_b s' = sm_b s
    \<and> key_left (sm_a s') = key_left (sm_a s) mod key_cost (length big)"
  using exhaust_linked [OF assms, of 0] by simp

section \<open>Section 8\<close>

lemma stack_close_node:
  assumes "node_ok s"
  shows "node_ok (snd (stack_close queue_nic h s))"
  by (rule node_step(1) [OF assms qcr.stack_close_inv [OF node_inv [OF assms]] qcr.stack_close_adds [OF node_inv [OF assms]]])

lemma set_tx_session [simp]: "set_session h v (set_tx fs s) = set_tx fs (set_session h v s)"
  by (simp add: set_session_def set_tx_def)

text \<open>Closing, with and without key for the record that tells the peer.\<close>

lemma close_run_silent:
  assumes "pair_linked h k (sm_a s) (sm_b s)" and "key_left (sm_a s) < key_cost 0"
  shows "main_close (Suc n) h k s = None"
proof -
  let ?S = "sm_a s"
  note L = assms(1) [unfolded pair_linked_def]
  have two: "0 < MAX_PEERS" by (simp add: MAX_PEERS_def)
  have S: "node_ok ?S" and st: "can_send (qc_mac (ns_dev (sm_b s))) 0 0 h k ?S (sm_b s)"
    and ts: "can_send (qc_mac (ns_dev ?S)) 0 0 k h (sm_b s) ?S" using L by simp_all
  have c: "stack_close queue_nic h ?S = (Inr (), set_session h session_empty ?S)"
    by (rule qcn.close_silent [OF st]) (use assms(2) node_keys(3) [OF S two] in \<open>simp_all add: key_left_def\<close>)
  let ?s = "s\<lparr>sm_a := set_session h session_empty ?S\<rparr>"
  have "sim_ok ?s" "quiet ?s" using stack_close_node [OF S, of h] c L by (simp_all add: sim_ok_def quiet_def)
  then have "sim_run (Suc n) ?s = Some ?s" by (rule run_quiet)
  moreover have "stack_state k (sm_b s) = Established" using ts by (simp add: can_send_def stack_state_def)
  ultimately show ?thesis unfolding main_close_def using c by simp
qed

lemma close_run_told:
  assumes "pair_linked h k (sm_a s) (sm_b s)" and "key_cost 0 \<le> key_left (sm_a s)"
  shows "if wr_tap (sm_wire s) = Drop then main_close (Suc (Suc n)) h k s = None
    else \<exists>s'. main_close (Suc (Suc n)) h k s = Some s' \<and> stack_state h (sm_a s') = Free \<and> stack_state k (sm_b s') = Closed"
proof -
  let ?S = "sm_a s" and ?T = "sm_b s"
  note L = assms(1) [unfolded pair_linked_def]
  have S: "node_ok ?S" and T: "node_ok ?T" "tx_of ?T = []" "rx_of ?T = []" and q: "tx_of ?S = []" "rx_of ?S = []"
    and st: "can_send (qc_mac (ns_dev ?T)) 0 0 h k ?S ?T" and ts: "can_send (qc_mac (ns_dev ?S)) 0 0 k h ?T ?S"
    using L by simp_all
  have hk: "h < length (ns_sessions ?S)" "k < length (ns_sessions ?T)" using st ts by (simp_all add: can_send_def)
  have inv: "stack_inv queue_ok ?S" "stack_inv queue_ok ?T" using S T by (simp_all add: node_ok_def)
  obtain f tx' rx' where c: "stack_close queue_nic h ?S = (Inr (), set_session h session_empty
       (snd (send_frame queue_nic f (set_keys 0 (peer_set_tx tx' (keys_of ?S 0)) ?S\<lparr>ns_ip_id := ns_ip_id ?S + 1\<rparr>))))"
    and f: "frame_fit f" "length f = 72"
    and hf: "handle_frame queue_nic f ?T = set_session k ((ns_sessions ?T ! k)\<lparr>ses_state := Closed\<rparr>)
        (set_keys 0 (peer_set_rx rx' (keys_of ?T 0)) ?T)"
    by (rule qcn.close_delivers [OF st inv]) (use assms(2) in \<open>simp_all add: key_left_def\<close>)
  define S2 where "S2 = set_session h session_empty (set_keys 0 (peer_set_tx tx' (keys_of ?S 0)) ?S\<lparr>ns_ip_id := ns_ip_id ?S + 1\<rparr>)"
  have S2: "ns_dev S2 = ns_dev ?S" "stack_state h S2 = Free"
    using hk by (simp_all add: S2_def stack_state_def session_empty_def)
  have c': "stack_close queue_nic h ?S = (Inr (), set_tx [f] S2)" using c q by (simp add: S2_def)
  then have n2: "node_ok (set_tx [f] S2)" using stack_close_node [OF S, of h] by simp
  have n3: "node_ok S2" using node_ok_moves(1) [OF n2] S2(1) q by simp
  let ?T2 = "handle_frame queue_nic f ?T"
  have T2: "tx_of ?T2 = []" "rx_of ?T2 = []" "stack_state k ?T2 = Closed"
    using T hk unfolding hf by (simp_all add: stack_state_def)
  obtain s' where r: "sim_run (Suc (Suc n)) (s\<lparr>sm_a := set_tx [f] S2\<rparr>) = Some s'" "sm_a s' = S2"
    "sm_b s' = (if wr_tap (sm_wire s) = Drop then ?T else ?T2)"
    by (rule run_message_a [of f S2 ?T ?T2 "s\<lparr>sm_a := set_tx [f] S2\<rparr>" n])
      (use n2 n3 S2(1) q T T2 f in simp_all)
  have "stack_state k ?T = Established" using ts by (simp add: can_send_def stack_state_def)
  then show ?thesis using c' r S2(2) T2(3) unfolding main_close_def by (simp del: sim_run.simps)
qed

text \<open>
  C27. Closing tells the peer only while there is key for it and the cable carries the frame: then
  the one end is free and the other closed, and otherwise the assertion at the end of the program
  fails, because the peer still takes the session for established.
\<close>

theorem two_node_close:
  assumes "pair_linked h k (sm_a s) (sm_b s)" and "2 \<le> fuel"
  shows "if key_left (sm_a s) < key_cost 0 \<or> wr_tap (sm_wire s) = Drop then main_close fuel h k s = None
    else \<exists>s'. main_close fuel h k s = Some s' \<and> stack_state h (sm_a s') = Free \<and> stack_state k (sm_b s') = Closed"
proof -
  obtain n where n: "fuel = Suc (Suc n)" using assms(2) by (metis add_2_eq_Suc le_Suc_ex)
  show ?thesis
  proof (cases "key_left (sm_a s) < key_cost 0")
    case True
    then show ?thesis using close_run_silent [OF assms(1)] n by simp
  next
    case False
    then show ?thesis using close_run_told [OF assms(1), of n] n by (simp split: if_splits)
  qed
qed

text \<open>
  C9. \<open>run\<close> always ends, whatever frames wait on the cable and on both cards and whatever the tap
  does to them: after at most as many rounds as the waiting frames weigh, all four queues are
  empty, and no \<open>unwrap\<close> or slice has panicked.
\<close>

theorem two_node_run_ends:
  assumes "sim_ok s" and "pending s < fuel"
  shows "\<exists>s'. sim_run fuel s = Some s' \<and> sim_ok s' \<and> quiet s'"
  by (rule sim_run_ends [OF assms])

lemma two_node_run_ends_witness:
  "\<exists>s'. sim_run 2 (example_sim\<lparr>sm_a := set_tx [[1, 2, 3]] (sm_a example_sim)\<rparr>) = Some s' \<and> quiet s'"
proof -
  have fit: "frame_fit [1, 2, 3]" by (simp add: frame_fit_def eth_parse_def header_lens MAX_FRAME_def)
  have "sim_ok (example_sim\<lparr>sm_a := set_tx [[1, 2, 3]] (sm_a example_sim)\<rparr>)"
    using example_linked(1) node_ok_tx [OF _ fit] by (simp add: pair_linked_def sim_ok_def)
  moreover have "pending (example_sim\<lparr>sm_a := set_tx [[1, 2, 3]] (sm_a example_sim)\<rparr>) < 2"
    using example_linked(1) by (simp add: pair_linked_def pending_def frame_weight_def header_lens Let_def)
  ultimately show ?thesis using two_node_run_ends by blast
qed

lemma two_node_exhausts_witness:
  "\<exists>s'. exhaust 8 0 [] 0 example_sim = Some (7, Key InsufficientKey, s') \<and> key_left (sm_a s') = 0"
  using two_node_exhausts [OF example_linked(1), of "[]" 8] by (auto simp: example_linked(3) key_cost_def qtls_lens)

lemma two_node_close_witness:
  "\<exists>s'. main_close 2 0 0 example_sim = Some s' \<and> stack_state 0 (sm_b s') = Closed"
  using two_node_close [OF example_linked(1), of 2] by (auto simp: example_linked(2,3) key_cost_def qtls_lens)

end
