(* ===== verification/Poly1305.thy ===== *)
theory Poly1305
  imports Uhf
begin

text \<open>
  What the Poly1305 code of \<open>Uhf\<close> computes.  The limbs of a key and of a block denote the
  numbers of the RFC; a block step is one multiplication modulo \<open>2 ^ 130 - 5\<close>; \<open>update\<close> keeps,
  in accumulator and buffer, exactly the bytes absorbed so far (\<open>poly_state\<close>); and the finished
  tag is the one of RFC 8439 unless the accumulator is congruent to one of \<open>0, ..., 4\<close>, where
  the last reduction that \<open>finalize\<close> leaves out matters.
\<close>

unbundle bit_operations_syntax

section \<open>Splitting keys and blocks into limbs\<close>

lemma limb_split:
  fixes m :: nat
  assumes "m < 2 ^ 130"
  shows "m mod 2 ^ 26 + 2 ^ 26 * (m div 2 ^ 26 mod 2 ^ 26) + 2 ^ 52 * (m div 2 ^ 52 mod 2 ^ 26)
    + 2 ^ 78 * (m div 2 ^ 78 mod 2 ^ 26) + 2 ^ 104 * (m div 2 ^ 104 mod 2 ^ 26) = m"
proof -
  have d: "m div 2 ^ 52 = m div 2 ^ 26 div 2 ^ 26" "m div 2 ^ 78 = m div 2 ^ 52 div 2 ^ 26"
    "m div 2 ^ 104 = m div 2 ^ 78 div 2 ^ 26"
    by (simp_all only: div_mult2_eq [symmetric] power_add [symmetric]) simp_all
  have "m div 2 ^ 104 div 2 ^ 26 = 0"
    using assms by (simp only: div_mult2_eq [symmetric] power_add [symmetric]) simp
  note z = this
  have "m + 2 ^ 26 * 0 + 2 ^ 52 * 0 + 2 ^ 78 * 0 + 2 ^ 104 * 0
    = m mod 2 ^ 26 + 2 ^ 26 * (m div 2 ^ 26 mod 2 ^ 26) + 2 ^ 52 * (m div 2 ^ 52 mod 2 ^ 26)
    + 2 ^ 78 * (m div 2 ^ 78 mod 2 ^ 26) + 2 ^ 104 * (m div 2 ^ 104 mod 2 ^ 26)
    + 2 ^ 130 * (m div 2 ^ 104 div 2 ^ 26)"
    by (rule carry_chain) (simp_all only: d add_0)
  then show ?thesis by (simp only: z mult_0_right add_0_right)
qed

lemma u128_mask26: "(push_bit 26 1 - 1 :: u128) = mask 26"
  by (simp add: mask_eq_exp_minus_1)

lemma unat_u128_limb:
  "unat (drop_bit n (m :: u128) AND (push_bit 26 1 - 1)) = unat m div 2 ^ n mod 2 ^ 26"
  unfolding u128_mask26 take_bit_eq_mask [symmetric]
  by (simp only: unsigned_take_bit_eq take_bit_eq_mod [where ?'a = nat] unat_shr)

lemma unat_u128_limb0:
  "unat ((m :: u128) AND (push_bit 26 1 - 1)) = unat m mod 2 ^ 26"
  using unat_u128_limb [of 0 m] by simp

lemma u128_lt: "unat (m :: u128) < 2 ^ 128"
  using unsigned_less [of m] by simp

lemma top_limb_lt: "unat (m :: u128) div 2 ^ 104 < 2 ^ 24"
  using u128_lt [of m] by (simp add: div_less_iff_less_mult)

lemma block_limbs_correct:
  fixes block
  assumes "length block = 16"
  shows "limbs_val (block_limbs block hb) = le_nat block + (if hb then 2 ^ 128 else 0)"
    and "limbs_below (2 ^ 26) (block_limbs block hb)"
proof -
  define m where "m = (of_le block :: u128)"
  have m: "unat m = le_nat block" using assms unat_of_le [of block, where ?'a = 128] by (simp add: m_def)
  define k where "k = (push_bit 26 1 - 1 :: u128)"
  have limb: "unat (ucast (drop_bit n m AND k) :: u64) = unat m div 2 ^ n mod 2 ^ 26" for n
  proof -
    have l: "unat (drop_bit n m AND k) = unat m div 2 ^ n mod 2 ^ 26"
      unfolding k_def by (rule unat_u128_limb)
    have "unat m div 2 ^ n mod 2 ^ 26 < 2 ^ 26" by simp
    with l have "unat (drop_bit n m AND k) < 2 ^ LENGTH(64)" by simp
    from unat_ucast_fits [OF this] l show ?thesis by simp
  qed
  have limb0: "unat (ucast (m AND k) :: u64) = unat m mod 2 ^ 26"
    using limb [of 0] by simp
  define t where "t = (ucast (drop_bit 104 m AND k) :: u64)"
  have t: "unat t = unat m div 2 ^ 104" "unat t < 2 ^ 24"
    using limb [of 104] top_limb_lt [of m] by (simp_all add: t_def)
  define h where "h = t OR push_bit 24 (if hb then 1 else 0)"
  have h: "unat h = unat t + (if hb then 2 ^ 24 else 0)"
  proof (cases hb)
    case True
    have "unat (drop_bit 24 t) = 0" using t(2) by (simp only: unat_shr) simp
    then have "drop_bit 24 t = 0" by (simp only: unsigned_eq_0_iff)
    then have "\<not> bit t 24" using bit_drop_bit_eq [of 24 t] by (metis add_0_right bit_0_eq bot_apply bot_bool_def comp_apply)
    then have "t AND push_bit 24 1 = 0"
      by (intro bit_word_eqI) (unfold bit_and_iff bit_push_bit_iff bit_1_iff, auto)
    then have "h = t + push_bit 24 1"
      unfolding h_def using True by (simp only: disjunctive_add_eq_or if_True)
    then show ?thesis
      using True t(2) by simp
  qed (simp add: h_def)
  have sum: "unat m mod 2 ^ 26 + 2 ^ 26 * (unat m div 2 ^ 26 mod 2 ^ 26)
      + 2 ^ 52 * (unat m div 2 ^ 52 mod 2 ^ 26) + 2 ^ 78 * (unat m div 2 ^ 78 mod 2 ^ 26)
      + 2 ^ 104 * unat t = unat m"
    using limb_split [of "unat m"] u128_lt [of m] limb [of 104] unfolding t_def by simp
  show "limbs_val (block_limbs block hb) = le_nat block + (if hb then 2 ^ 128 else 0)"
    unfolding block_limbs_def Let_def m_def [symmetric] k_def [symmetric] limbs_val.simps
      t_def [symmetric] h_def [symmetric]
    by (cases hb) (use sum m in \<open>simp_all only: h limb limb0 distrib_left add.assoc if_True if_False\<close>; simp)+
  show "limbs_below (2 ^ 26) (block_limbs block hb)"
    unfolding block_limbs_def Let_def m_def [symmetric] k_def [symmetric] limbs_below.simps
      t_def [symmetric] h_def [symmetric]
    using h t(2) by (simp add: limb limb0)
qed

text \<open>The number the limbs of a key stand for: the clamped first half.\<close>

definition poly1305_r :: "bytes \<Rightarrow> nat" where
  "poly1305_r raw = le_nat (poly1305_clamp (slice 0 16 raw))"

definition poly1305_s :: "bytes \<Rightarrow> nat" where
  "poly1305_s raw = le_nat (slice 16 32 raw)"

lemma length_clamp [simp]: "length (poly1305_clamp rb) = length rb"
  by (simp add: poly1305_clamp_def Let_def)

lemma new_r_correct:
  assumes "length raw = 32"
  defines "p \<equiv> poly1305_new (poly1305_key_new raw)"
  shows "limbs_val (poly_r p) = poly1305_r raw" and "limbs_below (2 ^ 26) (poly_r p)"
proof -
  define m where "m = (of_le (poly1305_clamp (slice 0 16 raw)) :: u128)"
  have m: "unat m = poly1305_r raw"
    using assms(1) unat_of_le [of "poly1305_clamp (slice 0 16 raw)", where ?'a = 128]
    by (simp add: m_def poly1305_r_def)
  define k where "k = (push_bit 26 1 - 1 :: u128)"
  have limb: "unat (ucast (ucast (drop_bit n m AND k) :: u32) :: u64) = unat m div 2 ^ n mod 2 ^ 26" for n
  proof -
    have l: "unat (drop_bit n m AND k) = unat m div 2 ^ n mod 2 ^ 26"
      unfolding k_def by (rule unat_u128_limb)
    have b: "unat m div 2 ^ n mod 2 ^ 26 < 2 ^ 26" by simp
    with l have "unat (drop_bit n m AND k) < 2 ^ LENGTH(32)" by simp
    from unat_ucast_fits [OF this] l
    have l2: "unat (ucast (drop_bit n m AND k) :: u32) = unat m div 2 ^ n mod 2 ^ 26" by simp
    with b have "unat (ucast (drop_bit n m AND k) :: u32) < 2 ^ LENGTH(64)" by simp
    from unat_ucast_fits [OF this] l2 show ?thesis by simp
  qed
  have limb0: "unat (ucast (ucast (m AND k) :: u32) :: u64) = unat m mod 2 ^ 26"
    using limb [of 0] by simp
  have r: "poly_r p = (ucast (ucast (m AND k) :: u32), ucast (ucast (drop_bit 26 m AND k) :: u32),
      ucast (ucast (drop_bit 52 m AND k) :: u32), ucast (ucast (drop_bit 78 m AND k) :: u32),
      ucast (ucast (drop_bit 104 m AND k) :: u32))"
    by (simp only: p_def poly1305_new_def poly1305_key_new_def m_def k_def Let_def
        poly1305_key.simps prod.case poly1305.simps)
  show "limbs_val (poly_r p) = poly1305_r raw"
    unfolding r limbs_val.simps limb limb0 m [symmetric]
    using u128_lt [of m] by (intro limb_split) simp
  show "limbs_below (2 ^ 26) (poly_r p)"
    unfolding r limbs_below.simps limb limb0 by simp
qed

section \<open>One block\<close>

definition block_step :: "limbs \<Rightarrow> limbs \<Rightarrow> bytes \<Rightarrow> bool \<Rightarrow> limbs" where
  "block_step r h block hb = mul_r r (add_limbs h (block_limbs block hb))"

lemma add_limbs_val:
  assumes "limbs_carried h" and "limbs_below (2 ^ 26) n"
  shows "limbs_val (add_limbs h n) = limbs_val h + limbs_val n"
    and "limbs_below (2 ^ 28) (add_limbs h n)"
proof -
  obtain h0 h1 h2 h3 h4 where h: "h = (h0, h1, h2, h3, h4)" by (cases h)
  obtain n0 n1 n2 n3 n4 where n: "n = (n0, n1, n2, n3, n4)" by (cases n)
  have s: "unat (a + b) = unat a + unat b" if "unat a < 2 ^ 27" "unat b < 2 ^ 26" for a b :: u64
    using that by (subst unat_add_fits) auto
  have "unat (h0 + n0) = unat h0 + unat n0" "unat (h1 + n1) = unat h1 + unat n1"
    "unat (h2 + n2) = unat h2 + unat n2" "unat (h3 + n3) = unat h3 + unat n3"
    "unat (h4 + n4) = unat h4 + unat n4"
    using assms by (auto simp: h n intro!: s)
  with assms show "limbs_val (add_limbs h n) = limbs_val h + limbs_val n"
    and "limbs_below (2 ^ 28) (add_limbs h n)"
    by (simp_all add: h n distrib_left)
qed

lemma block_step_correct:
  assumes "limbs_carried h" and "limbs_below (2 ^ 26) r" and "length block = 16"
  shows "limbs_val (block_step r h block hb) mod p1305
      = (limbs_val h + le_nat block + (if hb then 2 ^ 128 else 0)) * limbs_val r mod p1305"
    and "limbs_carried (block_step r h block hb)"
proof -
  let ?n = "block_limbs block hb"
  note n = block_limbs_correct [OF assms(3), of hb]
  note a = add_limbs_val [OF assms(1) n(2)]
  from mul_r_correct(1) [OF a(2) assms(2)] obtain k
    where k: "limbs_val (add_limbs h ?n) * limbs_val r = limbs_val (block_step r h block hb) + p1305 * k"
    unfolding block_step_def by blast
  have "(limbs_val h + limbs_val ?n) * limbs_val r mod p1305
      = limbs_val (block_step r h block hb) mod p1305"
    unfolding a(1) [symmetric] k by simp
  then show "limbs_val (block_step r h block hb) mod p1305
      = (limbs_val h + le_nat block + (if hb then 2 ^ 128 else 0)) * limbs_val r mod p1305"
    by (simp only: n(1) add.assoc)
  show "limbs_carried (block_step r h block hb)"
    unfolding block_step_def by (rule mul_r_correct(2) [OF a(2) assms(2)])
qed

section \<open>Cutting a message into pieces\<close>

text \<open>The accumulator after the whole 16-byte blocks of a message, and what is left over.\<close>

fun full_blocks :: "limbs \<Rightarrow> limbs \<Rightarrow> bytes \<Rightarrow> limbs" where
  "full_blocks r h msg =
     (if 16 \<le> length msg then full_blocks r (block_step r h (take 16 msg) True) (drop 16 msg) else h)"

fun left_over :: "bytes \<Rightarrow> bytes" where
  "left_over msg = (if 16 \<le> length msg then left_over (drop 16 msg) else msg)"

declare full_blocks.simps [simp del] left_over.simps [simp del]

lemma length_left_over: "length (left_over msg) < 16"
proof (induction msg rule: left_over.induct)
  case (1 msg)
  then show ?case by (subst left_over.simps) (auto simp: not_le)
qed

lemma left_over_short [simp]: "length msg < 16 \<Longrightarrow> left_over msg = msg"
  by (simp add: left_over.simps)

lemma full_blocks_short [simp]: "length msg < 16 \<Longrightarrow> full_blocks r h msg = h"
  by (simp add: full_blocks.simps)

lemma left_over_one [simp]: "length b = 16 \<Longrightarrow> left_over b = []"
  by (simp add: left_over.simps)

lemma full_blocks_one: "length b = 16 \<Longrightarrow> full_blocks r h b = block_step r h b True"
  by (simp add: full_blocks.simps)

lemma left_over_append: "left_over (m @ d) = left_over (left_over m @ d)"
proof (induction m rule: left_over.induct)
  case (1 m)
  show ?case
  proof (cases "16 \<le> length m")
    case True
    then show ?thesis
      using 1 [OF True] by (simp add: left_over.simps [of "m @ d"] left_over.simps [of m])
  qed simp
qed

lemma full_blocks_append:
  "full_blocks r h (m @ d) = full_blocks r (full_blocks r h m) (left_over m @ d)"
proof (induction r h m rule: full_blocks.induct)
  case (1 r h m)
  show ?case
  proof (cases "16 \<le> length m")
    case True
    then show ?thesis
      using 1 [OF True]
      by (simp add: full_blocks.simps [of r h "m @ d"] full_blocks.simps [of r h m] left_over.simps [of m])
  qed simp
qed

lemma process_block_h: "process_block b hb p = p\<lparr>poly_h := block_step (poly_r p) (poly_h p) b hb\<rparr>"
  by (simp add: process_block_def block_step_def)

lemma process_blocks_eq:
  "process_blocks data p = (left_over data, p\<lparr>poly_h := full_blocks (poly_r p) (poly_h p) data\<rparr>)"
proof (induction data p rule: process_blocks.induct)
  case (1 data p)
  show ?case
  proof (cases "16 \<le> length data")
    case True
    then have B: "BLOCK \<le> length data \<and> 0 < BLOCK" by (simp add: BLOCK_def)
    have IH: "process_blocks (drop 16 data) (process_block (take 16 data) True p)
      = (left_over (drop 16 data), process_block (take 16 data) True p
          \<lparr>poly_h := full_blocks (poly_r (process_block (take 16 data) True p))
             (poly_h (process_block (take 16 data) True p)) (drop 16 data)\<rparr>)"
      using 1 [OF B] by (simp only: BLOCK_def)
    have "process_blocks data p = process_blocks (drop 16 data) (process_block (take 16 data) True p)"
      using B by (subst process_blocks.simps) (simp add: BLOCK_def)
    then show ?thesis
      using True IH
      by (simp add: process_block_h left_over.simps [of data] full_blocks.simps [of _ _ data])
  next
    case False
    then show ?thesis by (simp add: process_blocks.simps BLOCK_def)
  qed
qed

text \<open>What the state knows of the bytes absorbed so far.\<close>

definition poly_state :: "poly1305_key \<Rightarrow> bytes \<Rightarrow> poly1305 \<Rightarrow> bool" where
  "poly_state k msg p \<longleftrightarrow>
     poly_r p = poly_r (poly1305_new k) \<and> poly_s p = key_s k \<and> length (poly_buf p) = 16 \<and>
     poly_h p = full_blocks (poly_r (poly1305_new k)) (0, 0, 0, 0, 0) msg \<and>
     poly_buf_len p = length (left_over msg) \<and> take (poly_buf_len p) (poly_buf p) = left_over msg"

lemma poly_state_new: "poly_state k [] (poly1305_new k)"
  by (simp add: poly_state_def poly1305_new_def BLOCK_def split: prod.splits)

lemma poly_state_absorb:
  assumes "poly_r p = poly_r (poly1305_new k)" "poly_s p = key_s k" "length (poly_buf p) = 16"
    and "poly_h p = full_blocks (poly_r (poly1305_new k)) (0, 0, 0, 0, 0) msg"
    and "left_over msg = []" and "poly_buf_len p = 0"
  shows "poly_state k (msg @ d) (poly1305_absorb d p)"
proof -
  have lo: "left_over (msg @ d) = left_over d"
    using assms(5) left_over_append [of msg d] by simp
  have fb: "full_blocks r h (msg @ d) = full_blocks r (full_blocks r h msg) d" for r h
    using assms(5) full_blocks_append [of r h msg d] by simp
  show ?thesis
    using assms length_left_over [of d]
    by (simp add: poly_state_def poly1305_absorb_def process_blocks_eq lo fb blit_def)
qed

lemma poly_state_update:
  assumes "poly_state k msg p"
  shows "poly_state k (msg @ d) (poly1305_update d p)"
proof (cases "poly_buf_len p = 0")
  case True
  then have "poly_state k (msg @ d) (poly1305_absorb d p)"
    using assms by (intro poly_state_absorb) (simp_all add: poly_state_def)
  then show ?thesis
    using True by (simp add: poly1305_update_def)
next
  case False
  let ?lo = "left_over msg" and ?need = "BLOCK - poly_buf_len p"
  have b: "poly_buf_len p = length ?lo" "take (length ?lo) (poly_buf p) = ?lo"
    "length (poly_buf p) = 16" "length ?lo < 16"
    using assms length_left_over by (auto simp: poly_state_def)
  show ?thesis
  proof (cases "length d < ?need")
    case True
    then have short: "length (?lo @ d) < 16" using b by (simp add: BLOCK_def)
    then have "left_over (msg @ d) = ?lo @ d"
      and "full_blocks r h (msg @ d) = full_blocks r h msg" for r h
      by (simp_all add: left_over_append [of msg] full_blocks_append [of r h msg])
    then show ?thesis
      using assms True False b
      by (simp add: poly_state_def poly1305_update_def Let_def blit_def BLOCK_def)
  next
    case False2: False
    let ?blk = "?lo @ take ?need d" and ?r = "poly_r (poly1305_new k)"
    have blk: "blit (poly_buf_len p) (take ?need d) (poly_buf p) = ?blk"
      using b False2 by (simp add: blit_def BLOCK_def)
    have lb: "length ?blk = 16" using b False2 by (simp add: BLOCK_def)
    have md: "msg @ d = (msg @ take ?need d) @ drop ?need d" by simp
    have fb: "full_blocks ?r h (msg @ take ?need d) = block_step ?r (full_blocks ?r h msg) ?blk True" for h
      by (simp only: full_blocks_append [of ?r h msg] full_blocks_one [OF lb])
    have lo: "left_over (msg @ take ?need d) = []"
      by (simp only: left_over_append [of msg] left_over_one [OF lb])
    let ?p = "p\<lparr>poly_buf := ?blk, poly_h := block_step ?r (poly_h p) ?blk True, poly_buf_len := 0\<rparr>"
    have "poly1305_update d p = poly1305_absorb (drop ?need d) ?p"
      using assms False False2 blk
      by (simp add: poly1305_update_def Let_def process_block_h poly_state_def)
    moreover have "poly_state k ((msg @ take ?need d) @ drop ?need d) (poly1305_absorb (drop ?need d) ?p)"
      using assms lb fb lo by (intro poly_state_absorb) (simp_all add: poly_state_def)
    ultimately show ?thesis by simp
  qed
qed

section \<open>The tag of RFC 8439\<close>

fun rfc_acc :: "nat \<Rightarrow> nat \<Rightarrow> bytes \<Rightarrow> nat" where
  "rfc_acc r a msg =
     (if msg = [] then a
      else rfc_acc r ((a + le_nat (take 16 msg @ [1])) * r mod p1305) (drop 16 msg))"

declare rfc_acc.simps [simp del]

definition rfc_tag :: "bytes \<Rightarrow> bytes \<Rightarrow> bytes" where
  "rfc_tag raw msg = to_le 16 (of_nat (rfc_acc (poly1305_r raw) 0 msg + poly1305_s raw) :: u128)"

lemma rfc_acc_Nil [simp]: "rfc_acc r a [] = a"
  by (simp add: rfc_acc.simps)

lemma le_nat_marked: "le_nat (xs @ [1]) = le_nat xs + 256 ^ length xs"
  by (simp add: le_nat_append)

lemma le_nat_zeros [simp]: "le_nat (replicate n 0) = 0"
  by (induction n) auto

lemma full_blocks_correct:
  assumes "limbs_carried h" and "limbs_below (2 ^ 26) r"
  shows "limbs_carried (full_blocks r h msg)
    \<and> rfc_acc (limbs_val r) (limbs_val h mod p1305) msg
      = rfc_acc (limbs_val r) (limbs_val (full_blocks r h msg) mod p1305) (left_over msg)"
  using assms
proof (induction r h msg rule: full_blocks.induct)
  case (1 r h msg)
  show ?case
  proof (cases "16 \<le> length msg")
    case True
    let ?b = "block_step r h (take 16 msg) True"
    note step = block_step_correct [OF 1(2,3), of "take 16 msg" True]
    have "(limbs_val h mod p1305 + le_nat (take 16 msg @ [1])) * limbs_val r mod p1305
        = limbs_val ?b mod p1305"
    proof -
      have "le_nat (take 16 msg @ [1]) = le_nat (take 16 msg) + 2 ^ 128"
        using True by (simp add: le_nat_marked min_absorb2)
      then show ?thesis
        using True step(1) by (simp add: min_absorb2 add.assoc) (metis mod_add_left_eq mod_mult_left_eq)
    qed
    then have "rfc_acc (limbs_val r) (limbs_val h mod p1305) msg
        = rfc_acc (limbs_val r) (limbs_val ?b mod p1305) (drop 16 msg)"
      using True by (subst rfc_acc.simps) auto
    moreover have "limbs_carried ?b" using step(2) True by simp
    ultimately show ?thesis
      using 1(1) [OF True _ 1(3)] True
      by (simp add: full_blocks.simps [of r h msg] left_over.simps [of msg])
  qed (use 1 in simp)
qed

section \<open>The end of the computation\<close>

lemma carry_columns_below:
  assumes "limbs_below (2 ^ 26) h"
  shows "carry_columns h = h"
proof -
  obtain h0 h1 h2 h3 h4 where h: "h = (h0, h1, h2, h3, h4)" by (cases h)
  have d: "drop_bit 26 w = 0" "w AND mask26 = w" if "unat w < 2 ^ 26" for w :: u64
  proof -
    have "unat (drop_bit 26 w) = 0" using that by (simp only: unat_shr) simp
    then show "drop_bit 26 w = 0" by (simp only: unsigned_eq_0_iff)
    have "unat (w AND mask26) = unat w" using that by (simp only: unat_low26) simp
    then show "w AND mask26 = w" by (simp only: word_unat_eq_iff)
  qed
  show ?thesis using assms by (simp add: h carry_columns_def d)
qed

lemma carry_columns_carried:
  assumes "limbs_carried h"
  shows "limbs_below (2 ^ 26) (carry_columns h)"
    and "limbs_val (carry_columns h) mod p1305 = limbs_val h mod p1305"
proof -
  obtain d0 d1 d2 d3 d4 where h: "h = (d0, d1, d2, d3, d4)" by (cases h)
  have c: "unat d0 < 2 ^ 26" "unat d1 < 2 ^ 26 + 2 ^ 12" "unat d2 < 2 ^ 26" "unat d3 < 2 ^ 26"
    "unat d4 < 2 ^ 26" using assms by (simp_all add: h)
  have b: "unat d0 \<le> 2 ^ 59" "unat d1 \<le> 2 ^ 59" "unat d2 \<le> 2 ^ 59" "unat d3 \<le> 2 ^ 59"
    "unat d4 \<le> 2 ^ 59" using c by simp_all
  obtain h0 h1 h2 h3 h4 k where cc: "carry_columns h = (h0, h1, h2, h3, h4)"
    and hs: "unat h0 < 2 ^ 26"
      "unat h1 = (unat d1 + unat d0 div 2 ^ 26) mod 2 ^ 26 + (unat d0 mod 2 ^ 26 + (unat d4 + (unat d3
        + (unat d2 + (unat d1 + unat d0 div 2 ^ 26) div 2 ^ 26) div 2 ^ 26) div 2 ^ 26) div 2 ^ 26 * 5)
        div 2 ^ 26"
      "unat h2 < 2 ^ 26" "unat h3 < 2 ^ 26" "unat h4 < 2 ^ 26"
    and val: "limbs_val h = limbs_val (carry_columns h) + p1305 * k"
  proof (rule carry_columns_correct [OF b], goal_cases)
    case (1 h0 h1 h2 h3 h4)
    have "unat h0 < 2 ^ 26" "unat h2 < 2 ^ 26" "unat h3 < 2 ^ 26" "unat h4 < 2 ^ 26"
      using 1(9) unfolding 1(2) by simp_all
    then show ?thesis
      by (rule 1(1) [OF 1(2) [folded h] _ 1(4) _ _ _ 1(8) [folded h]])
  qed
  have h1: "unat h1 < 2 ^ 26"
  proof (cases "unat d1 < 2 ^ 26")
    case True
    then have "unat h1 = unat d1" using hs(2) c by simp
    then show ?thesis using True by simp
  next
    case False
    then obtain j where "unat d1 = 2 ^ 26 + j" using le_Suc_ex [of "2 ^ 26" "unat d1"] by auto
    with c have m: "unat d1 mod 2 ^ 26 < 2 ^ 12" and q: "unat d1 div 2 ^ 26 = 1"
      by simp_all
    define e2 where "e2 = (unat d2 + 1) div 2 ^ 26"
    have "e2 \<le> 1" using c by (simp add: e2_def)
    define e3 where "e3 = (unat d3 + e2) div 2 ^ 26"
    have "e3 \<le> 1" using c \<open>e2 \<le> 1\<close> by (simp add: e3_def)
    define e4 where "e4 = (unat d4 + e3) div 2 ^ 26"
    have "e4 \<le> 1" using c \<open>e3 \<le> 1\<close> by (simp add: e4_def)
    have "unat h1 = unat d1 mod 2 ^ 26 + (unat d0 + e4 * 5) div 2 ^ 26"
      using hs(2) c q by (simp add: e2_def e3_def e4_def)
    moreover have "(unat d0 + e4 * 5) div 2 ^ 26 \<le> 1"
      using c \<open>e4 \<le> 1\<close> by simp
    ultimately show ?thesis using m by simp
  qed
  show "limbs_below (2 ^ 26) (carry_columns h)"
    unfolding cc limbs_below.simps by (intro conjI h1 hs)
  show "limbs_val (carry_columns h) mod p1305 = limbs_val h mod p1305"
    unfolding val by (rule mod_mult_self2 [symmetric])
qed

lemma propagate_carry_correct:
  assumes "limbs_carried h"
  shows "limbs_below (2 ^ 26) (propagate_carry h)"
    and "limbs_val (propagate_carry h) mod p1305 = limbs_val h mod p1305"
proof -
  have "propagate_carry h = carry_columns (carry_columns h)"
    by (simp add: propagate_carry_def carry_pass_columns numeral_2_eq_2)
  then have "propagate_carry h = carry_columns h"
    using carry_columns_below [OF carry_columns_carried(1) [OF assms]] by simp
  then show "limbs_below (2 ^ 26) (propagate_carry h)"
    and "limbs_val (propagate_carry h) mod p1305 = limbs_val h mod p1305"
    using carry_columns_carried [OF assms] by simp_all
qed

text \<open>Joining pieces that do not overlap with \<open>|\<close> adds them.\<close>

lemma or_push_bit:
  fixes a b :: u128
  assumes "unat a < 2 ^ n"
  shows "a OR push_bit n b = a + push_bit n b"
proof -
  have z: "drop_bit n a = 0"
  proof -
    have "unat (drop_bit n a) = 0" using assms by (simp only: unat_shr) simp
    then show ?thesis by (simp only: unsigned_eq_0_iff)
  qed
  have nb: "\<not> bit a i" if "n \<le> i" for i
    using z that bit_drop_bit_eq [of n a] by (metis add_diff_inverse_nat bit_0_eq bot_apply bot_bool_def
        comp_apply not_less)
  have "a AND push_bit n b = 0"
    by (rule bit_word_eqI) (auto simp: bit_and_iff bit_push_bit_iff nb)
  then show ?thesis by (simp add: disjunctive_add_eq_or)
qed


lemma unat_or_push_bit:
  fixes a b :: u128
  assumes "unat a < 2 ^ n" and "unat a + 2 ^ n * unat b < 2 ^ 128"
  shows "unat (a OR push_bit n b) = unat a + 2 ^ n * unat b"
proof -
  have "unat (push_bit n b) = take_bit 128 (push_bit n (unat b))"
    by (simp only: unsigned_push_bit_eq) simp
  also have "push_bit n (unat b) = 2 ^ n * unat b"
    by (simp only: push_bit_eq_mult mult.commute)
  also have "take_bit 128 \<dots> = \<dots>" using assms(2) by (simp add: take_bit_nat_eq_self)
  finally show ?thesis
    unfolding or_push_bit [OF assms(1)] using assms(2) by (subst unat_add_fits) simp_all
qed

lemma h_to_u128_correct:
  assumes "limbs_below (2 ^ 26) h"
  shows "h_to_u128 h = of_nat (limbs_val h)"
proof -
  obtain h0 h1 h2 h3 h4 where h: "h = (h0, h1, h2, h3, h4)" by (cases h)
  have b: "unat h0 < 2 ^ 26" "unat h1 < 2 ^ 26" "unat h2 < 2 ^ 26" "unat h3 < 2 ^ 26"
    "unat h4 < 2 ^ 26" using assms by (simp_all add: h)
  have u: "unat (ucast w :: u128) = unat w" for w :: u64
    by (rule unat_ucast_fits, rule less_le_trans [OF unsigned_less]) simp
  have s1: "unat (ucast h0 OR push_bit 26 (ucast h1) :: u128) = unat h0 + 2 ^ 26 * unat h1"
    unfolding u [symmetric] using b by (intro unat_or_push_bit) (simp_all add: u)
  have s2: "unat ((ucast h0 OR push_bit 26 (ucast h1)) OR push_bit 52 (ucast h2) :: u128)
      = unat h0 + 2 ^ 26 * unat h1 + 2 ^ 52 * unat h2"
    using b by (subst unat_or_push_bit) (simp_all only: s1 u; simp)+
  have s3: "unat (((ucast h0 OR push_bit 26 (ucast h1)) OR push_bit 52 (ucast h2))
        OR push_bit 78 (ucast h3) :: u128)
      = unat h0 + 2 ^ 26 * unat h1 + 2 ^ 52 * unat h2 + 2 ^ 78 * unat h3"
    using b by (subst unat_or_push_bit) (simp_all only: s2 u; simp)+
  let ?x = "((ucast h0 OR push_bit 26 (ucast h1)) OR push_bit 52 (ucast h2)) OR push_bit 78 (ucast h3) :: u128"
  have "h_to_u128 h = ?x OR push_bit 104 (ucast h4)"
    by (simp only: h h_to_u128.simps or.assoc)
  also have "\<dots> = ?x + push_bit 104 (ucast h4)"
    using b by (intro or_push_bit) (simp add: s3)
  also have "?x = of_nat (unat h0 + 2 ^ 26 * unat h1 + 2 ^ 52 * unat h2 + 2 ^ 78 * unat h3)"
    unfolding s3 [symmetric] by simp
  also have "push_bit 104 (ucast h4) = (of_nat (2 ^ 104 * unat h4) :: u128)"
    by (simp add: push_bit_eq_mult u [symmetric] mult.commute)
  finally show ?thesis by (simp only: h limbs_val.simps of_nat_add add.assoc)
qed

lemma s_word_correct:
  assumes "length raw = 32"
  shows "(let (s0, s1, s2, s3) = key_s (poly1305_key_new raw)
      in ucast s0 OR push_bit 32 (ucast s1) OR push_bit 64 (ucast s2) OR push_bit 96 (ucast s3))
    = (of_nat (poly1305_s raw) :: u128)"
proof -
  have u: "unat (ucast w :: u128) = unat w" for w :: u32
    by (rule unat_ucast_fits, rule less_le_trans [OF unsigned_less]) simp
  have lt: "unat w < 2 ^ 32" for w :: u32 by (rule less_le_trans [OF unsigned_less]) simp
  define s0 s1 s2 s3 :: u32 where s: "s0 = of_le (slice 16 20 raw)" "s1 = of_le (slice 20 24 raw)"
    "s2 = of_le (slice 24 28 raw)" "s3 = of_le (slice 28 32 raw)"
  have v: "unat s0 = le_nat (slice 16 20 raw)" "unat s1 = le_nat (slice 20 24 raw)"
    "unat s2 = le_nat (slice 24 28 raw)" "unat s3 = le_nat (slice 28 32 raw)"
    unfolding s using assms by (simp_all add: unat_of_le)
  have cut: "slice a c raw = slice a b raw @ slice b c raw" if "a \<le> b" "b \<le> c" for a b c
    using that take_add [of "b - a" "c - b" "drop a raw"] by (simp add: slice_def)
  have sl: "slice 16 32 raw = slice 16 20 raw @ slice 20 24 raw @ slice 24 28 raw @ slice 28 32 raw"
    using cut [of 16 20 32] cut [of 20 24 32] cut [of 24 28 32] by simp
  have sum: "unat s0 + 2 ^ 32 * unat s1 + 2 ^ 64 * unat s2 + 2 ^ 96 * unat s3 = poly1305_s raw"
    unfolding poly1305_s_def sl le_nat_append v using assms by simp
  have a1: "unat (ucast s0 OR push_bit 32 (ucast s1) :: u128) = unat s0 + 2 ^ 32 * unat s1"
    using lt [of s0] lt [of s1] by (subst unat_or_push_bit) (simp_all add: u)
  have a2: "unat ((ucast s0 OR push_bit 32 (ucast s1)) OR push_bit 64 (ucast s2) :: u128)
      = unat s0 + 2 ^ 32 * unat s1 + 2 ^ 64 * unat s2"
    using lt [of s0] lt [of s1] lt [of s2] by (subst unat_or_push_bit) (simp_all only: a1 u; simp)+
  have a3: "unat (((ucast s0 OR push_bit 32 (ucast s1)) OR push_bit 64 (ucast s2))
      OR push_bit 96 (ucast s3) :: u128) = poly1305_s raw"
    unfolding sum [symmetric] using lt [of s0] lt [of s1] lt [of s2] lt [of s3]
    by (subst unat_or_push_bit) (simp_all only: a2 u; simp)+
  have k: "key_s (poly1305_key_new raw) = (s0, s1, s2, s3)"
    by (simp add: poly1305_key_new_def Let_def s)
  show ?thesis
    unfolding k Let_def prod.case a3 [symmetric] by (simp add: or.assoc)
qed

text \<open>What the finished accumulator is worth: the value of RFC 8439, before its last reduction.\<close>

definition poly_final :: "poly1305 \<Rightarrow> limbs" where
  "poly_final p = propagate_carry (poly_h
     (if 0 < poly_buf_len p
      then process_block ((blit 0 (take (poly_buf_len p) (poly_buf p)) (replicate BLOCK 0))
             [poly_buf_len p := 1]) False p
      else p))"

lemma padded_block:
  assumes "length lo < 16"
  shows "(blit 0 lo (replicate 16 0)) [length lo := 1] = lo @ [1] @ replicate (15 - length lo) (0::u8)"
proof -
  have "16 - length lo = Suc (15 - length lo)" using assms by simp
  then show ?thesis by (simp add: blit_def list_update_append)
qed

lemma poly_final_correct:
  assumes "length raw = 32" and st: "poly_state (poly1305_key_new raw) msg p"
  shows "limbs_below (2 ^ 26) (poly_final p)"
    and "limbs_val (poly_final p) mod p1305 = rfc_acc (poly1305_r raw) 0 msg mod p1305"
proof -
  let ?k = "poly1305_key_new raw" and ?lo = "left_over msg" and ?R = "poly1305_r raw"
  define r where "r = poly_r (poly1305_new ?k)"
  define h where "h = full_blocks r (0, 0, 0, 0, 0) msg"
  have rv: "limbs_val r = ?R" and rb: "limbs_below (2 ^ 26) r"
    using new_r_correct [OF assms(1)] by (simp_all add: r_def)
  from full_blocks_correct [OF _ rb, of "(0, 0, 0, 0, 0)" msg]
  have hc: "limbs_carried h"
    and acc: "rfc_acc ?R 0 msg = rfc_acc ?R (limbs_val h mod p1305) ?lo"
    by (simp_all add: h_def rv)
  have ph: "poly_h p = h" "poly_r p = r" "poly_buf_len p = length ?lo"
    "take (length ?lo) (poly_buf p) = ?lo"
    using st unfolding poly_state_def h_def r_def by auto
  have "limbs_below (2 ^ 26) (poly_final p)
      \<and> limbs_val (poly_final p) mod p1305 = rfc_acc ?R 0 msg mod p1305"
  proof (cases "?lo = []")
    case True
    then have "poly_final p = propagate_carry h" by (simp add: poly_final_def ph)
    then show ?thesis
      using propagate_carry_correct [OF hc] acc True by simp
  next
    case False
    let ?pad = "?lo @ [1] @ replicate (15 - length ?lo) 0"
    let ?g = "block_step r h ?pad False"
    have l: "length ?pad = 16" using length_left_over [of msg] by simp
    have "poly_final p = propagate_carry ?g"
      using False padded_block [OF length_left_over, of msg]
      by (simp add: poly_final_def ph process_block_h BLOCK_def)
    moreover note step = block_step_correct [OF hc rb l, of False]
    have "le_nat ?pad = le_nat (?lo @ [1])" by (simp add: le_nat_append)
    with step(1) have "limbs_val ?g mod p1305 = (limbs_val h + le_nat (?lo @ [1])) * ?R mod p1305"
      by (simp only: if_False add_0_right rv)
    moreover have "rfc_acc ?R (limbs_val h mod p1305) ?lo
        = (limbs_val h mod p1305 + le_nat (?lo @ [1])) * ?R mod p1305"
      using False length_left_over [of msg] by (subst rfc_acc.simps) simp
    ultimately show ?thesis
      using propagate_carry_correct [OF step(2)] acc
      by (metis mod_add_left_eq mod_mult_left_eq mod_mod_trivial)
  qed
  then show "limbs_below (2 ^ 26) (poly_final p)"
    and "limbs_val (poly_final p) mod p1305 = rfc_acc ?R 0 msg mod p1305" by simp_all
qed

lemma rfc_acc_less: "a < p1305 \<Longrightarrow> rfc_acc r a msg < p1305"
proof (induction r a msg rule: rfc_acc.induct)
  case (1 r a msg)
  then show ?case by (subst rfc_acc.simps) (auto simp: p1305_def)
qed

lemma limbs_val_bound:
  assumes "limbs_below (2 ^ 26) h"
  shows "limbs_val h < 2 ^ 130"
  using assms by (cases h) simp

lemma almost_reduced:
  assumes "v < 2 ^ 130" and "v mod p1305 = a" and "a < p1305"
  shows "v = a \<or> a < 5 \<and> v = a + p1305"
proof -
  have v: "v = v div p1305 * p1305 + a" using assms(2) by (metis div_mult_mod_eq)
  have "v < 2 * p1305" using assms(1) by (simp add: p1305_def)
  then have "v div p1305 < 2" by (rule less_mult_imp_div_less)
  then consider "v div p1305 = 0" | "v div p1305 = 1" by fastforce
  then show ?thesis
  proof cases
    case 2
    then have "v = a + p1305" using v by simp
    moreover from this assms(1) have "a < 5" by (simp add: p1305_def)
    ultimately show ?thesis by blast
  qed (use v in simp)
qed

lemma finalize_correct:
  assumes "length raw = 32" and "poly_state (poly1305_key_new raw) msg p"
  defines "a \<equiv> rfc_acc (poly1305_r raw) 0 msg"
  shows "poly1305_finalize p = rfc_tag raw msg
    \<or> a < 5 \<and> poly1305_finalize p = to_le 16 (of_nat (a + p1305 + poly1305_s raw) :: u128)"
proof -
  have s: "poly_s p = key_s (poly1305_key_new raw)"
    using assms(2) by (simp add: poly_state_def)
  have fin: "poly1305_finalize p = to_le 16 (h_to_u128 (poly_final p) + of_nat (poly1305_s raw))"
    unfolding poly1305_finalize_def poly_final_def Let_def s s_word_correct [OF assms(1), symmetric]
    by (cases "0 < poly_buf_len p")
      (simp_all add: POLY1305_TAG_LEN_def process_block_def s case_prod_unfold)
  note f = poly_final_correct [OF assms(1,2)]
  have "a < p1305" unfolding a_def by (rule rfc_acc_less) (simp add: p1305_def)
  then have m: "limbs_val (poly_final p) mod p1305 = a" using f(2) by (simp add: a_def)
  from almost_reduced [OF limbs_val_bound [OF f(1)] m \<open>a < p1305\<close>]
  show ?thesis
    unfolding fin h_to_u128_correct [OF f(1)] rfc_tag_def a_def [symmetric]
    by (auto simp only: of_nat_add)
qed

lemma finalize_cong:
  assumes "poly_state k msg p" and "poly_state k msg q"
  shows "poly1305_finalize p = poly1305_finalize q"
proof -
  have "poly_h p = poly_h q" "poly_r p = poly_r q" "poly_s p = poly_s q"
    "poly_buf_len p = poly_buf_len q"
    "take (poly_buf_len q) (poly_buf p) = take (poly_buf_len q) (poly_buf q)"
    using assms by (auto simp: poly_state_def)
  then show ?thesis by (simp add: poly1305_finalize_def process_block_def)
qed

text \<open>
  C11. The tag the code computes is the Poly1305 tag of RFC 8439, for every key and message,
  unless the accumulator reduces to one of 0, ..., 4: then the code, which leaves out the last
  reduction modulo \<open>2 ^ 130 - 5\<close>, may be computing with the accumulator plus \<open>2 ^ 130 - 5\<close>.
\<close>

theorem poly1305_mac_is_rfc8439:
  assumes "length raw = 32"
  shows "poly1305_mac (poly1305_key_new raw) msg = rfc_tag raw msg
    \<or> rfc_acc (poly1305_r raw) 0 msg < 5
      \<and> poly1305_mac (poly1305_key_new raw) msg
        = to_le 16 (of_nat (rfc_acc (poly1305_r raw) 0 msg + p1305 + poly1305_s raw) :: u128)"
proof -
  have "poly_state (poly1305_key_new raw) ([] @ msg)
      (poly1305_update msg (poly1305_new (poly1305_key_new raw)))"
    by (rule poly_state_update [OF poly_state_new])
  then show ?thesis
    unfolding poly1305_mac_def using finalize_correct [OF assms, of msg] by simp
qed

definition rfc_key_7 :: bytes where
  "rfc_key_7 = 2 # replicate 31 0"

lemma rfc_key_7_values:
  "length rfc_key_7 = 32" "poly1305_r rfc_key_7 = 2" "poly1305_s rfc_key_7 = 0"
proof -
  have c: "poly1305_clamp (slice 0 16 rfc_key_7) = 2 # replicate 15 0" by code_simp
  have s: "slice 16 32 rfc_key_7 = replicate 16 0" by code_simp
  show "length rfc_key_7 = 32" by (simp add: rfc_key_7_def)
  show "poly1305_r rfc_key_7 = 2" unfolding poly1305_r_def c by simp
  show "poly1305_s rfc_key_7 = 0" unfolding poly1305_s_def s by simp
qed

lemma poly1305_mac_is_rfc8439_witness:
  "poly1305_mac (poly1305_key_new rfc_key_7) [1, 2, 3] = rfc_tag rfc_key_7 [1, 2, 3]"
proof -
  have "rfc_acc 2 0 [1, 2, 3] = 33948674" by (simp add: rfc_acc.simps p1305_def)
  then show ?thesis
    using poly1305_mac_is_rfc8439 [OF rfc_key_7_values(1), of "[1, 2, 3]"]
    by (simp add: rfc_key_7_values)
qed

lemma le_nat_255: "le_nat (replicate n 255) = 256 ^ n - 1"
proof -
  have "le_nat (replicate n 255) + 1 = 256 ^ n" by (induction n) simp_all
  then show ?thesis by simp
qed

text \<open>
  Test vector 7 of RFC 8439 (key half \<open>r = 2\<close>, \<open>s = 0\<close>, one block of \<open>0xFF\<close>): the RFC's tag
  is \<open>03 00 ... 00\<close>, the code returns \<open>FE FF ... FF\<close>.
\<close>

theorem poly1305_misses_last_reduction:
  "poly1305_mac (poly1305_key_new rfc_key_7) (replicate 16 0xFF) = 0xFE # replicate 15 0xFF
   \<and> rfc_tag rfc_key_7 (replicate 16 0xFF) = 3 # replicate 15 0"
proof (intro conjI)
  show "poly1305_mac (poly1305_key_new rfc_key_7) (replicate 16 0xFF) = 0xFE # replicate 15 0xFF"
    by code_simp
  have "rfc_acc 2 0 (replicate 16 0xFF) = 3"
    by (simp add: rfc_acc.simps p1305_def le_nat_append le_nat_255)
  then have "rfc_tag rfc_key_7 (replicate 16 0xFF) = to_le 16 (3 :: u128)"
    unfolding rfc_tag_def rfc_key_7_values by simp
  also have "to_le 16 (3 :: u128) = 3 # replicate 15 0" by code_simp
  finally show "rfc_tag rfc_key_7 (replicate 16 0xFF) = 3 # replicate 15 0" .
qed

text \<open>
  The tag does not depend on how a message is cut into the pieces given to \<open>update\<close>.
\<close>

theorem poly1305_streaming:
  "poly1305_finalize (foldl (\<lambda>p piece. poly1305_update piece p) (poly1305_new key) pieces)
     = poly1305_mac key (concat pieces)"
proof -
  have "poly_state key (msg @ concat pieces) (foldl (\<lambda>p piece. poly1305_update piece p) p pieces)"
    if "poly_state key msg p" for msg p
    using that
  proof (induction pieces arbitrary: msg p)
    case (Cons d ds)
    from Cons.IH [OF poly_state_update [OF Cons.prems]] show ?case by simp
  qed simp
  from this [OF poly_state_new]
  have "poly_state key (concat pieces)
      (foldl (\<lambda>p piece. poly1305_update piece p) (poly1305_new key) pieces)" by simp
  moreover have "poly_state key (concat pieces) (poly1305_update (concat pieces) (poly1305_new key))"
    using poly_state_update [OF poly_state_new, of key "concat pieces"] by simp
  ultimately show ?thesis
    unfolding poly1305_mac_def by (rule finalize_cong)
qed

end
