(* ===== verification/Wc_Auth.thy ===== *)
theory Wc_Auth
  imports Poly1305
begin

text \<open>
  Word-counted authentication (\<open>wc_auth/src/lib.rs\<close>): MAR records, the subkey of a word count,
  sessions of a sender and a receiver.  The contract of an in-order channel is the locale
  \<open>record_channel\<close>; a session satisfies it, and the onion of theory \<open>Qtor\<close> is stacked from it.
\<close>

definition WORD_BYTES :: nat where "WORD_BYTES = 8"
definition MAR_HEADER_LEN :: nat where "MAR_HEADER_LEN = 8 + 4 + POLY1305_TAG_LEN"
definition MAX_MSG_LEN :: nat where "MAX_MSG_LEN = 65536"
definition SESSION_KEY_LEN :: nat where "SESSION_KEY_LEN = POLY1305_KEY_LEN"

datatype wc_error =
  TagMismatch | WordCountMismatch | MessageTooLong | InvalidMar | EmptyMessage | InvalidKey
| WordCountOverflow

definition wc_error_from_uhf :: "uhf_error \<Rightarrow> wc_error" where
  "wc_error_from_uhf e =
     (case e of UhfTagMismatch \<Rightarrow> TagMismatch | UhfInvalidKeyLength \<Rightarrow> InvalidKey | _ \<Rightarrow> InvalidMar)"

section \<open>Records\<close>

record mar =
  mar_word_count :: u64
  mar_msg_len :: u32
  mar_tag :: bytes
  mar_payload :: bytes

definition mar_from_bytes :: "bytes \<Rightarrow> wc_error + mar" where
  "mar_from_bytes raw =
     (if length raw < MAR_HEADER_LEN then Inl InvalidMar
      else
        let word_count = of_le (slice 0 8 raw);
            msg_len = of_le (slice 8 12 raw) :: u32;
            tag = slice 12 (12 + POLY1305_TAG_LEN) raw;
            ps = MAR_HEADER_LEN
        in if length raw < ps + unat msg_len then Inl InvalidMar
           else Inr \<lparr>mar_word_count = word_count, mar_msg_len = msg_len, mar_tag = tag,
                     mar_payload = slice ps (ps + unat msg_len) raw\<rparr>)"

definition mar_to_bytes :: "mar \<Rightarrow> bytes" where
  "mar_to_bytes m = to_le 8 (mar_word_count m) @ to_le 4 (mar_msg_len m) @ mar_tag m @ mar_payload m"

section \<open>Keys and tags\<close>

definition LABEL_R :: bytes where
  "LABEL_R = map (\<lambda>c. word_of_nat (of_char c)) ''qlinux-wc-auth-v1-r''"

definition LABEL_S :: bytes where
  "LABEL_S = map (\<lambda>c. word_of_nat (of_char c)) ''qlinux-wc-auth-v1-s''"

definition derive_subkey :: "bytes \<Rightarrow> u64 \<Rightarrow> bytes" where
  "derive_subkey master word_count =
     (let input_r = to_le 8 word_count @ LABEL_R;
          tag_r = poly1305_mac (poly1305_key_new master) input_r;
          input_s = to_le 8 word_count @ LABEL_S;
          tag_s = poly1305_mac (poly1305_key_new master) input_s;
          subkey = replicate SESSION_KEY_LEN 0
      in blit 16 tag_s (blit 0 tag_r subkey))"

definition compute_tag :: "poly1305_key \<Rightarrow> u64 \<Rightarrow> bytes \<Rightarrow> bytes" where
  "compute_tag key word_count payload =
     (let ctx = poly1305_new key;
          ctx = poly1305_update (to_le 8 word_count) ctx;
          ctx = poly1305_update (to_le 4 (of_nat (length payload) :: u32)) ctx;
          ctx = poly1305_update payload ctx
      in poly1305_finalize ctx)"

definition bytes_to_words :: "nat \<Rightarrow> u64" where
  "bytes_to_words n = of_nat ((n + WORD_BYTES - 1) div WORD_BYTES)"

section \<open>Sessions\<close>

datatype session_role = Sender | Receiver

record wc_session =
  ws_master_key :: bytes
  ws_word_count :: u64
  ws_role :: session_role

definition wc_session_new :: "bytes \<Rightarrow> u64 \<Rightarrow> session_role \<Rightarrow> wc_error + wc_session" where
  "wc_session_new master_key initial_wc role =
     (if length master_key \<noteq> SESSION_KEY_LEN then Inl InvalidKey
      else Inr \<lparr>ws_master_key = master_key, ws_word_count = initial_wc, ws_role = role\<rparr>)"

definition wc_session_drop :: "wc_session \<Rightarrow> wc_session" where
  "wc_session_drop s = s\<lparr>ws_master_key := map (\<lambda>_. 0) (ws_master_key s), ws_word_count := 0\<rparr>"

definition wc_seal :: "bytes \<Rightarrow> wc_session \<Rightarrow> (wc_error + bytes) \<times> wc_session" where
  "wc_seal plaintext s =
     (if ws_role s \<noteq> Sender then (Inl InvalidKey, s)
      else if plaintext = [] then (Inl EmptyMessage, s)
      else if MAX_MSG_LEN < length plaintext then (Inl MessageTooLong, s)
      else
        let wc = ws_word_count s;
            subkey = derive_subkey (ws_master_key s) wc;
            tag = compute_tag (poly1305_key_new subkey) wc plaintext;
            mar = \<lparr>mar_word_count = wc, mar_msg_len = of_nat (length plaintext), mar_tag = tag,
                   mar_payload = plaintext\<rparr>
        in case checked_add (ws_word_count s) (bytes_to_words (length plaintext)) of
             None \<Rightarrow> (Inl WordCountOverflow, s)
           | Some n \<Rightarrow> (Inr (mar_to_bytes mar), s\<lparr>ws_word_count := n\<rparr>))"

definition wc_open :: "bytes \<Rightarrow> wc_session \<Rightarrow> (wc_error + bytes) \<times> wc_session" where
  "wc_open raw_mar s =
     (if ws_role s \<noteq> Receiver then (Inl InvalidKey, s)
      else case mar_from_bytes raw_mar of
        Inl e \<Rightarrow> (Inl e, s)
      | Inr mar \<Rightarrow>
          if mar_word_count mar \<noteq> ws_word_count s then (Inl WordCountMismatch, s)
          else if mar_payload mar = [] then (Inl EmptyMessage, s)
          else if MAX_MSG_LEN < length (mar_payload mar) then (Inl MessageTooLong, s)
          else
            let subkey = derive_subkey (ws_master_key s) (mar_word_count mar);
                expected_tag = compute_tag (poly1305_key_new subkey) (mar_word_count mar) (mar_payload mar)
            in if \<not> ct_eq_16 expected_tag (mar_tag mar) then (Inl TagMismatch, s)
               else case checked_add (ws_word_count s) (bytes_to_words (length (mar_payload mar))) of
                      None \<Rightarrow> (Inl WordCountOverflow, s)
                    | Some n \<Rightarrow> (Inr (mar_payload mar), s\<lparr>ws_word_count := n\<rparr>))"

definition current_word_count :: "wc_session \<Rightarrow> u64" where
  "current_word_count s = ws_word_count s"

definition create_session_pair :: "bytes \<Rightarrow> wc_error + wc_session \<times> wc_session" where
  "create_session_pair master_key =
     (if length master_key \<noteq> SESSION_KEY_LEN then Inl InvalidKey
      else let key2 = master_key
           in case wc_session_new master_key 0 Sender of
                Inl e \<Rightarrow> Inl e
              | Inr sender \<Rightarrow>
                  (case wc_session_new key2 0 Receiver of
                     Inl e \<Rightarrow> Inl e
                   | Inr receiver \<Rightarrow> Inr (sender, receiver)))"

section \<open>The tag of a message at a word count\<close>

definition wc_tag :: "bytes \<Rightarrow> u64 \<Rightarrow> bytes \<Rightarrow> bytes" where
  "wc_tag master wc msg =
     poly1305_mac (poly1305_key_new (derive_subkey master wc))
       (to_le 8 wc @ to_le 4 (of_nat (length msg) :: u32) @ msg)"

lemma compute_tag_eq:
  "compute_tag (poly1305_key_new (derive_subkey k wc)) wc msg = wc_tag k wc msg"
  using poly1305_streaming [of "poly1305_key_new (derive_subkey k wc)"
      "[to_le 8 wc, to_le 4 (of_nat (length msg) :: u32), msg]"]
  by (simp add: compute_tag_def wc_tag_def Let_def)

lemma length_wc_tag [simp]: "length (wc_tag k wc msg) = 16"
  by (simp add: wc_tag_def)

lemma derive_subkey_eq:
  "derive_subkey k wc = poly1305_mac (poly1305_key_new k) (to_le 8 wc @ LABEL_R)
                      @ poly1305_mac (poly1305_key_new k) (to_le 8 wc @ LABEL_S)"
  by (simp add: derive_subkey_def blit_def SESSION_KEY_LEN_def POLY1305_KEY_LEN_def Let_def)

text \<open>A MAR record is its four fields and whatever follows them: trailing bytes are ignored.\<close>

definition mar_bytes :: "u64 \<Rightarrow> bytes \<Rightarrow> bytes \<Rightarrow> bytes" where
  "mar_bytes wc tag msg = to_le 8 wc @ to_le 4 (of_nat (length msg) :: u32) @ tag @ msg"

lemma MAR_HEADER_LEN_eq: "MAR_HEADER_LEN = 28"
  by (simp add: MAR_HEADER_LEN_def POLY1305_TAG_LEN_def)

lemma mar_from_bytes_mar_bytes:
  assumes "length tag = 16" and "length msg < 2 ^ 32"
  shows "mar_from_bytes (mar_bytes wc tag msg @ rest)
    = Inr \<lparr>mar_word_count = wc, mar_msg_len = of_nat (length msg), mar_tag = tag, mar_payload = msg\<rparr>"
  using assms
  by (simp add: mar_from_bytes_def mar_bytes_def MAR_HEADER_LEN_eq POLY1305_TAG_LEN_def slice_def Let_def)

lemma split_at_28:
  "raw = slice 0 8 raw @ slice 8 12 raw @ slice 12 28 raw @ slice 28 (28 + n) raw @ drop (28 + n) raw"
proof -
  have cut: "drop a raw = slice a b raw @ drop b raw" if "a \<le> b" for a b
    using append_take_drop_id [of "b - a" "drop a raw"] that by (simp add: slice_def)
  show ?thesis
    using cut [of 0 8] cut [of 8 12] cut [of 12 28] cut [of 28 "28 + n"] by simp
qed

lemma mar_from_bytes_Inr:
  assumes "mar_from_bytes raw = Inr m"
  obtains rest where "raw = mar_bytes (mar_word_count m) (mar_tag m) (mar_payload m) @ rest"
    and "length (mar_tag m) = 16" and "mar_msg_len m = of_nat (length (mar_payload m))"
    and "length (mar_payload m) < 2 ^ 32"
proof -
  let ?n = "unat (of_le (slice 8 12 raw) :: u32)"
  have len: "28 \<le> length raw" "28 + ?n \<le> length raw"
    and m: "m = \<lparr>mar_word_count = of_le (slice 0 8 raw), mar_msg_len = of_le (slice 8 12 raw),
                 mar_tag = slice 12 28 raw, mar_payload = slice 28 (28 + ?n) raw\<rparr>"
    using assms by (auto simp: mar_from_bytes_def MAR_HEADER_LEN_eq POLY1305_TAG_LEN_def Let_def split: if_splits)
  have pay: "length (mar_payload m) = ?n" using len(2) by (simp add: m)
  have "to_le 8 (mar_word_count m) = slice 0 8 raw" using len(1) by (simp add: m)
  moreover have "to_le 4 (of_nat (length (mar_payload m)) :: u32) = slice 8 12 raw"
    using len(1) by (simp add: pay)
  ultimately have "raw = mar_bytes (mar_word_count m) (mar_tag m) (mar_payload m) @ drop (28 + ?n) raw"
    using split_at_28 [of raw ?n] by (simp add: mar_bytes_def m)
  moreover have "?n < 2 ^ 32" using unsigned_less [of "of_le (slice 8 12 raw) :: u32"] by simp
  moreover have "mar_msg_len m = of_nat (length (mar_payload m))"
    unfolding pay by (simp add: m)
  ultimately show thesis using that len(1) pay by (simp add: m)
qed

section \<open>What a session sends and accepts\<close>

lemma bytes_to_words_val: "n < 2 ^ 64 \<Longrightarrow> unat (bytes_to_words n) = (n + 7) div 8"
proof -
  assume "n < 2 ^ 64"
  then have "(n + 7) div 8 < 2 ^ 64" by simp
  then show ?thesis by (simp add: bytes_to_words_def WORD_BYTES_def)
qed

text \<open>A message a session can still carry, and the word count after it.\<close>

definition wc_fits :: "u64 \<Rightarrow> bytes \<Rightarrow> bool" where
  "wc_fits wc msg \<longleftrightarrow> msg \<noteq> [] \<and> length msg \<le> MAX_MSG_LEN \<and> unat wc + (length msg + 7) div 8 < 2 ^ 64"

definition wc_after :: "u64 \<Rightarrow> bytes \<Rightarrow> u64" where
  "wc_after wc msg = wc + bytes_to_words (length msg)"

lemma wc_fits_add:
  "msg \<noteq> [] \<Longrightarrow> length msg \<le> MAX_MSG_LEN \<Longrightarrow>
   checked_add wc (bytes_to_words (length msg)) = (if wc_fits wc msg then Some (wc_after wc msg) else None)"
  by (simp add: checked_add_def wc_fits_def wc_after_def bytes_to_words_val MAX_MSG_LEN_def)

lemma unat_wc_after: "wc_fits wc msg \<Longrightarrow> unat (wc_after wc msg) = unat wc + (length msg + 7) div 8"
  unfolding wc_fits_def wc_after_def MAX_MSG_LEN_def by (subst unat_add_fits) (auto simp: bytes_to_words_val)

lemma wc_after_greater: "wc_fits wc msg \<Longrightarrow> wc < wc_after wc msg"
proof -
  assume f: "wc_fits wc msg"
  then have "1 \<le> length msg" by (cases msg) (simp_all add: wc_fits_def)
  then have "0 < (length msg + 7) div 8" by (simp add: div_greater_zero_iff)
  then show ?thesis using unat_wc_after [OF f] by (simp add: word_less_nat_alt)
qed

lemma wc_seal_Inr:
  "wc_seal msg s = (Inr raw, s') \<longleftrightarrow>
     ws_role s = Sender \<and> wc_fits (ws_word_count s) msg
     \<and> raw = mar_bytes (ws_word_count s) (wc_tag (ws_master_key s) (ws_word_count s) msg) msg
     \<and> s' = s\<lparr>ws_word_count := wc_after (ws_word_count s) msg\<rparr>"
proof (cases "msg = [] \<or> MAX_MSG_LEN < length msg")
  case True
  then show ?thesis by (auto simp: wc_seal_def wc_fits_def)
next
  case False
  then show ?thesis
    by (auto simp: wc_seal_def wc_fits_add compute_tag_eq mar_to_bytes_def mar_bytes_def Let_def)
qed

lemma wc_open_Inr:
  "wc_open raw s = (Inr msg, s') \<longleftrightarrow>
     ws_role s = Receiver \<and> wc_fits (ws_word_count s) msg
     \<and> (\<exists>rest. raw = mar_bytes (ws_word_count s) (wc_tag (ws_master_key s) (ws_word_count s) msg) msg @ rest)
     \<and> s' = s\<lparr>ws_word_count := wc_after (ws_word_count s) msg\<rparr>"
  (is "?L \<longleftrightarrow> ?R")
proof
  assume L: ?L
  then obtain m where m: "mar_from_bytes raw = Inr m"
    by (auto simp: wc_open_def split: if_splits sum.splits)
  obtain rest where raw: "raw = mar_bytes (mar_word_count m) (mar_tag m) (mar_payload m) @ rest"
    and tag: "length (mar_tag m) = 16"
    using mar_from_bytes_Inr [OF m] by metis
  have "ws_role s = Receiver \<and> mar_word_count m = ws_word_count s \<and> msg = mar_payload m
      \<and> mar_tag m = wc_tag (ws_master_key s) (ws_word_count s) msg \<and> wc_fits (ws_word_count s) msg
      \<and> s' = s\<lparr>ws_word_count := wc_after (ws_word_count s) msg\<rparr>"
    using L ct_eq_16_iff [OF length_wc_tag tag]
    by (auto simp: wc_open_def m compute_tag_eq Let_def wc_fits_add split: if_splits)
  then show ?R using raw by auto
next
  assume R: ?R
  then have ok: "msg \<noteq> []" "length msg \<le> MAX_MSG_LEN" by (simp_all add: wc_fits_def)
  from R obtain rest where
    raw: "raw = mar_bytes (ws_word_count s) (wc_tag (ws_master_key s) (ws_word_count s) msg) msg @ rest"
    by blast
  have "length msg < 2 ^ 32" using ok(2) by (simp add: MAX_MSG_LEN_def)
  then show ?L
    using R ok unfolding raw
    by (simp add: wc_open_def mar_from_bytes_mar_bytes compute_tag_eq ct_eq_16_iff wc_fits_add Let_def)
qed

lemma wc_seal_Inl: "wc_seal msg s = (Inl e, s') \<Longrightarrow> s' = s"
  by (auto simp: wc_seal_def Let_def split: if_splits option.splits)

lemma wc_open_Inl: "wc_open raw s = (Inl e, s') \<Longrightarrow> s' = s"
  by (auto simp: wc_open_def Let_def split: if_splits option.splits sum.splits)

section \<open>In-order channels\<close>

text \<open>
  \<open>send_each\<close> offers messages to a sender and pairs those it takes with their records;
  \<open>send_all\<close> stops at the first refusal; \<open>recv_each\<close> feeds records to a receiver and collects what
  it accepts.
\<close>

fun send_each :: "(bytes \<Rightarrow> 's \<Rightarrow> ('e + bytes) \<times> 's) \<Rightarrow> bytes list \<Rightarrow> 's \<Rightarrow> (bytes \<times> bytes) list \<times> 's" where
  "send_each seal [] s = ([], s)"
| "send_each seal (m # ms) s =
     (case seal m s of
        (Inl _, s) \<Rightarrow> send_each seal ms s
      | (Inr raw, s) \<Rightarrow> (let (log, s) = send_each seal ms s in ((m, raw) # log, s)))"

fun send_all :: "(bytes \<Rightarrow> 's \<Rightarrow> ('e + bytes) \<times> 's) \<Rightarrow> bytes list \<Rightarrow> 's \<Rightarrow> (bytes list \<times> 's) option" where
  "send_all seal [] s = Some ([], s)"
| "send_all seal (m # ms) s =
     (case seal m s of
        (Inl _, _) \<Rightarrow> None
      | (Inr raw, s) \<Rightarrow> map_option (\<lambda>(raws, s). (raw # raws, s)) (send_all seal ms s))"

fun recv_each :: "(bytes \<Rightarrow> 'r \<Rightarrow> ('f + bytes) \<times> 'r) \<Rightarrow> bytes list \<Rightarrow> 'r \<Rightarrow> bytes list \<times> 'r" where
  "recv_each unseal [] r = ([], r)"
| "recv_each unseal (raw # raws) r =
     (case unseal raw r of
        (Inl _, r) \<Rightarrow> recv_each unseal raws r
      | (Inr m, r) \<Rightarrow> (let (ms, r) = recv_each unseal raws r in (m # ms, r)))"

locale record_channel =
  fixes seal :: "bytes \<Rightarrow> 's \<Rightarrow> ('e + bytes) \<times> 's"
    and unseal :: "bytes \<Rightarrow> 'r \<Rightarrow> ('f + bytes) \<times> 'r"
    and linked :: "'s \<Rightarrow> 'r \<Rightarrow> bool"
  assumes step: "linked s r \<Longrightarrow> seal m s = (Inr raw, s') \<Longrightarrow> \<exists>r'. unseal raw r = (Inr m, r') \<and> linked s' r'"
begin

lemma all_arrive:
  "linked s r \<Longrightarrow> send_all seal ms s = Some (raws, s') \<Longrightarrow>
     \<exists>r'. recv_each unseal raws r = (ms, r') \<and> linked s' r'"
proof (induction ms arbitrary: s r raws)
  case Nil
  then show ?case by simp
next
  case (Cons m ms)
  from Cons.prems(2) obtain raw s1 raws1 where
    s1: "seal m s = (Inr raw, s1)" "send_all seal ms s1 = Some (raws1, s')" "raws = raw # raws1"
    by (auto split: prod.splits sum.splits)
  obtain r1 where r1: "unseal raw r = (Inr m, r1)" "linked s1 r1"
    using step [OF Cons.prems(1) s1(1)] by blast
  show ?case using Cons.IH [OF r1(2) s1(2)] r1(1) s1(3) by auto
qed

end

text \<open>A channel whose failed sends change nothing keeps working after them.\<close>

locale atomic_channel = record_channel +
  assumes refused: "seal m s = (Inl e, s') \<Longrightarrow> s' = s"
begin

lemma accepted_arrive:
  "linked s r \<Longrightarrow> send_each seal ms s = (log, s') \<Longrightarrow>
     \<exists>r'. recv_each unseal (map snd log) r = (map fst log, r') \<and> linked s' r'"
proof (induction ms arbitrary: s r log)
  case Nil
  then show ?case by simp
next
  case (Cons m ms)
  show ?case
  proof (cases "seal m s")
    case (Pair a s1)
    show ?thesis
    proof (cases a)
      case (Inl e)
      then have "s1 = s" using refused Pair by blast
      then show ?thesis using Cons Pair Inl by simp
    next
      case (Inr raw)
      from Cons.prems(2) Pair Inr obtain log1 where
        log: "send_each seal ms s1 = (log1, s')" "log = (m, raw) # log1"
        by (auto split: prod.splits)
      obtain r1 where r1: "unseal raw r = (Inr m, r1)" "linked s1 r1"
        using step [OF Cons.prems(1), of m raw s1] Pair Inr by blast
      show ?thesis using Cons.IH [OF r1(2) log(1)] r1(1) log(2) by auto
    qed
  qed
qed

end

definition wc_linked :: "wc_session \<Rightarrow> wc_session \<Rightarrow> bool" where
  "wc_linked s r \<longleftrightarrow> ws_role s = Sender \<and> ws_role r = Receiver
     \<and> ws_master_key r = ws_master_key s \<and> ws_word_count r = ws_word_count s"

lemma wc_seal_open:
  assumes "wc_linked s r" and "wc_seal m s = (Inr raw, s')"
  shows "wc_open raw r = (Inr m, r\<lparr>ws_word_count := ws_word_count s'\<rparr>)"
    and "wc_linked s' (r\<lparr>ws_word_count := ws_word_count s'\<rparr>)"
  using assms by (auto simp: wc_linked_def wc_seal_Inr wc_open_Inr)

interpretation wc: atomic_channel wc_seal wc_open wc_linked
  by unfold_locales (auto dest: wc_seal_open wc_seal_Inl)

fun wc_taken :: "u64 \<Rightarrow> bytes list \<Rightarrow> bytes list" where
  "wc_taken wc [] = []"
| "wc_taken wc (m # ms) = (if wc_fits wc m then m # wc_taken (wc_after wc m) ms else wc_taken wc ms)"

lemma wc_seal_cases:
  assumes "ws_role s = Sender"
  obtains (taken) raw where "wc_fits (ws_word_count s) m"
      and "wc_seal m s = (Inr raw, s\<lparr>ws_word_count := wc_after (ws_word_count s) m\<rparr>)"
  | (refused) e where "\<not> wc_fits (ws_word_count s) m" and "wc_seal m s = (Inl e, s)"
proof (cases "wc_fits (ws_word_count s) m")
  case True
  then show thesis using taken wc_seal_Inr [of m s] assms by blast
next
  case False
  obtain a s' where a: "wc_seal m s = (a, s')" by fastforce
  then obtain e where "a = Inl e" using False wc_seal_Inr [of m s _ s'] by (cases a) auto
  then show thesis using refused [OF False] a wc_seal_Inl by blast
qed

lemma send_each_taken:
  "ws_role s = Sender \<Longrightarrow> map fst (fst (send_each wc_seal ms s)) = wc_taken (ws_word_count s) ms"
proof (induction ms arbitrary: s)
  case Nil
  then show ?case by simp
next
  case (Cons m ms)
  show ?case
    by (rule wc_seal_cases [OF Cons.prems, of m]) (auto simp: Cons split: prod.splits dest!: arg_cong [where f = fst])
qed

text \<open>
  C34. A pair of sessions over one key is an in-order channel: whatever the sender is offered, it
  takes exactly the messages that are non-empty, no longer than the maximum and do not overflow
  the word count; the receiver fed the records in order returns exactly these, and the two ends
  finish at the same word count.  Refused messages disturb neither end.
\<close>

theorem wc_channel_delivers:
  assumes "create_session_pair k = Inr (s, r)" and "send_each wc_seal ms s = (log, s')"
    and "recv_each wc_open (map snd log) r = (received, r')"
  shows "received = wc_taken 0 ms \<and> ws_word_count r' = ws_word_count s'"
proof -
  have sr: "wc_linked s r" "ws_role s = Sender" "ws_word_count s = 0"
    using assms(1) by (auto simp: create_session_pair_def wc_session_new_def wc_linked_def split: if_splits)
  have "received = map fst log" "wc_linked s' r'"
    using wc.accepted_arrive [OF sr(1) assms(2)] assms(3) by auto
  then show ?thesis
    using send_each_taken [OF sr(2), of ms] assms(2) sr(3) by (simp add: wc_linked_def)
qed

section \<open>Replay\<close>

text \<open>The word count that the bytes of a record carry, and the records a receiver accepts out of a list.\<close>

definition record_count :: "bytes \<Rightarrow> u64" where
  "record_count raw = of_le (take 8 raw)"

fun accepted_by :: "(bytes \<Rightarrow> 'r \<Rightarrow> ('f + bytes) \<times> 'r) \<Rightarrow> bytes list \<Rightarrow> 'r \<Rightarrow> bytes list" where
  "accepted_by unseal [] r = []"
| "accepted_by unseal (raw # raws) r =
     (case unseal raw r of
        (Inl _, r) \<Rightarrow> accepted_by unseal raws r
      | (Inr _, r) \<Rightarrow> raw # accepted_by unseal raws r)"

text \<open>
  A record that carries a message with the tag that belongs to the word count it carries: the
  message under a one-time key that is itself two tags of that word count under the master key.
\<close>

definition own_subkey :: "bytes \<Rightarrow> bytes \<Rightarrow> bool" where
  "own_subkey master raw \<longleftrightarrow>
     (let wc = to_le 8 (record_count raw); mac = (\<lambda>k. poly1305_mac (poly1305_key_new k));
          subkey = mac master (wc @ LABEL_R) @ mac master (wc @ LABEL_S)
      in \<exists>m. mar_from_bytes raw = Inr m
            \<and> mar_tag m = mac subkey (wc @ to_le 4 (of_nat (length (mar_payload m)) :: u32) @ mar_payload m))"

lemma mar_from_bytes_count: "mar_from_bytes raw = Inr m \<Longrightarrow> mar_word_count m = record_count raw"
  by (auto simp: mar_from_bytes_def record_count_def slice_def Let_def split: if_splits)

lemma record_count_mar_bytes [simp]: "record_count (mar_bytes wc tag m @ rest) = wc"
  by (simp add: record_count_def mar_bytes_def)

lemma own_subkey_mar_bytes:
  "wc_fits wc m \<Longrightarrow> own_subkey k (mar_bytes wc (wc_tag k wc m) m @ rest)"
  by (simp add: own_subkey_def mar_from_bytes_mar_bytes wc_tag_def derive_subkey_eq wc_fits_def MAX_MSG_LEN_def)

lemma wc_seal_step:
  assumes "wc_seal m s = (Inr raw, s')"
  shows "record_count raw = ws_word_count s" and "own_subkey (ws_master_key s) raw"
    and "ws_word_count s < ws_word_count s'" and "ws_master_key s' = ws_master_key s"
  using assms own_subkey_mar_bytes [where rest = "[]", simplified] record_count_mar_bytes [where rest = "[]", simplified]
  by (auto simp: wc_seal_Inr wc_after_greater)

lemma wc_open_step:
  assumes "wc_open raw r = (Inr m, r')"
  shows "record_count raw = ws_word_count r" and "own_subkey (ws_master_key r) raw"
    and "ws_word_count r < ws_word_count r'" and "ws_master_key r' = ws_master_key r"
    and "ws_role r' = ws_role r"
  using assms own_subkey_mar_bytes
  by (auto simp: wc_open_Inr wc_after_greater)

lemma sealed_in_order:
  "sorted_wrt (<) (map record_count (map snd (fst (send_each wc_seal ms s))))
   \<and> (\<forall>(_, raw) \<in> set (fst (send_each wc_seal ms s)). ws_word_count s \<le> record_count raw \<and> own_subkey (ws_master_key s) raw)"
proof (induction ms arbitrary: s)
  case (Cons m ms)
  obtain a s1 where a: "wc_seal m s = (a, s1)" by fastforce
  show ?case
  proof (cases a)
    case (Inl e)
    then show ?thesis using Cons [of s] a wc_seal_Inl by fastforce
  next
    case (Inr raw)
    note w = wc_seal_step [OF a [unfolded Inr]]
    obtain log s2 where l: "send_each wc_seal ms s1 = (log, s2)" by fastforce
    show ?thesis using Cons [of s1] a Inr w l by (fastforce simp: l)
  qed
qed simp

lemma accepted_in_order:
  "sorted_wrt (<) (map record_count (accepted_by wc_open raws r))
   \<and> (\<forall>raw \<in> set (accepted_by wc_open raws r). ws_word_count r \<le> record_count raw \<and> own_subkey (ws_master_key r) raw)"
proof (induction raws arbitrary: r)
  case (Cons raw raws)
  obtain a r1 where a: "wc_open raw r = (a, r1)" by fastforce
  show ?case
  proof (cases a)
    case (Inl e)
    then show ?thesis using Cons [of r] a wc_open_Inl by fastforce
  next
    case (Inr m)
    note w = wc_open_step [OF a [unfolded Inr]]
    show ?thesis using Cons [of r1] a Inr w by fastforce
  qed
qed simp

lemma recv_each_count: "ws_word_count r \<le> ws_word_count (snd (recv_each wc_open raws r))
   \<and> ws_role (snd (recv_each wc_open raws r)) = ws_role r"
proof (induction raws arbitrary: r)
  case (Cons raw raws)
  obtain a r1 where a: "wc_open raw r = (a, r1)" by fastforce
  then have "ws_word_count r \<le> ws_word_count r1 \<and> ws_role r1 = ws_role r"
    using wc_open_step(3,5) [of raw r] wc_open_Inl [of raw r] by (cases a) fastforce+
  then show ?case using Cons [of r1] a by (cases a) (auto split: prod.split)
qed simp

lemma wc_open_past:
  assumes "ws_role r = Receiver" and "mar_from_bytes raw = Inr m" and "mar_word_count m < ws_word_count r"
  shows "wc_open raw r = (Inl WordCountMismatch, r)"
  using assms by (auto simp: wc_open_def)

text \<open>
  C35. No record is accepted twice and no word count is used twice.  The records a session seals carry
  strictly increasing word counts, and each has the tag under the subkey derived from the count it
  carries; so have the records a receiver accepts out of any list of byte strings.  Once a record
  has been accepted, it and every other record at or below its word count are refused for ever,
  whatever is received in between, and a refusal changes nothing.
\<close>

theorem wc_no_replay:
  assumes "wc_open raw r = (Inr m, r')" and "mar_from_bytes old = Inr x" and "mar_word_count x \<le> record_count raw"
  shows "sorted_wrt (<) (map record_count (map snd (fst (send_each wc_seal msgs s))))
    \<and> (\<forall>(_, rec) \<in> set (fst (send_each wc_seal msgs s)). own_subkey (ws_master_key s) rec)
    \<and> sorted_wrt (<) (map record_count (accepted_by wc_open raws r))
    \<and> (\<forall>rec \<in> set (accepted_by wc_open raws r). own_subkey (ws_master_key r) rec)
    \<and> (let later = snd (recv_each wc_open raws r')
       in wc_open old later = (Inl WordCountMismatch, later) \<and> wc_open raw later = (Inl WordCountMismatch, later))"
proof -
  let ?later = "snd (recv_each wc_open raws r')"
  note w = wc_open_step [OF assms(1)]
  have later: "record_count raw < ws_word_count ?later" "ws_role ?later = Receiver"
    using recv_each_count [of r' raws] w assms(1) by (auto simp: wc_open_Inr)
  have "wc_open old ?later = (Inl WordCountMismatch, ?later)"
    using assms(2,3) later by (intro wc_open_past) auto
  moreover obtain y where "mar_from_bytes raw = Inr y" "mar_word_count y = record_count raw"
    using w(2) mar_from_bytes_count by (auto simp: own_subkey_def Let_def)
  then have "wc_open raw ?later = (Inl WordCountMismatch, ?later)"
    using later by (intro wc_open_past) auto
  ultimately show ?thesis
    using sealed_in_order [of msgs s] accepted_in_order [of raws r] by (auto simp: Let_def)
qed

text \<open>
  A receiver accepts a message exactly if the bytes start with the record of that message at
  its own word count, with the tag under the subkey of that count, and the message fits; then the
  word count advances past it.  Otherwise nothing changes.  What follows the record is ignored.
\<close>

theorem wc_open_exact:
  "(fst (wc_open raw r) = Inr msg \<longleftrightarrow>
      ws_role r = Receiver \<and> wc_fits (ws_word_count r) msg
      \<and> (\<exists>rest. raw = mar_bytes (ws_word_count r) (wc_tag (ws_master_key r) (ws_word_count r) msg) msg @ rest))
   \<and> snd (wc_open raw r) = (case fst (wc_open raw r) of Inl _ \<Rightarrow> r
        | Inr m \<Rightarrow> r\<lparr>ws_word_count := wc_after (ws_word_count r) m\<rparr>)"
proof
  have "fst (wc_open raw r) = Inr msg \<longleftrightarrow> (\<exists>r'. wc_open raw r = (Inr msg, r'))"
    by (cases "wc_open raw r") auto
  then show "fst (wc_open raw r) = Inr msg \<longleftrightarrow>
      ws_role r = Receiver \<and> wc_fits (ws_word_count r) msg
      \<and> (\<exists>rest. raw = mar_bytes (ws_word_count r) (wc_tag (ws_master_key r) (ws_word_count r) msg) msg @ rest)"
    by (auto simp: wc_open_Inr)
  obtain a r' where a: "wc_open raw r = (a, r')" by fastforce
  show "snd (wc_open raw r) = (case fst (wc_open raw r) of Inl _ \<Rightarrow> r
      | Inr m \<Rightarrow> r\<lparr>ws_word_count := wc_after (ws_word_count r) m\<rparr>)"
  proof (cases a)
    case (Inl e)
    then show ?thesis using a wc_open_Inl by fastforce
  next
    case (Inr m)
    then have "r' = r\<lparr>ws_word_count := wc_after (ws_word_count r) m\<rparr>" using a wc_open_Inr by blast
    then show ?thesis using a Inr by simp
  qed
qed

theorem wc_channel_delivers_witness:
  "fst (recv_each wc_open (map snd (fst (send_each wc_seal [[1, 2, 3], [], [4]]
      \<lparr>ws_master_key = replicate 32 0x5A, ws_word_count = 0, ws_role = Sender\<rparr>)))
      \<lparr>ws_master_key = replicate 32 0x5A, ws_word_count = 0, ws_role = Receiver\<rparr>) = [[1, 2, 3], [4]]"
proof -
  have pair: "create_session_pair (replicate 32 0x5A) =
      Inr (\<lparr>ws_master_key = replicate 32 0x5A, ws_word_count = 0, ws_role = Sender\<rparr>,
           \<lparr>ws_master_key = replicate 32 0x5A, ws_word_count = 0, ws_role = Receiver\<rparr>)"
    by (simp add: create_session_pair_def wc_session_new_def SESSION_KEY_LEN_def POLY1305_KEY_LEN_def Let_def)
  have "wc_taken 0 [[1, 2, 3], [], [4]] = [[1, 2, 3], [4]]"
    by (simp add: wc_fits_def wc_after_def bytes_to_words_def MAX_MSG_LEN_def WORD_BYTES_def)
  then show ?thesis
    using wc_channel_delivers [OF pair prod.collapse [symmetric] prod.collapse [symmetric], of "[[1, 2, 3], [], [4]]"]
    by simp
qed

theorem wc_no_replay_witness:
  "let s = \<lparr>ws_master_key = replicate 32 0x5A, ws_word_count = 0, ws_role = Sender\<rparr>; r = s\<lparr>ws_role := Receiver\<rparr>
   in \<exists>raw r'. fst (wc_seal [1, 2, 3] s) = Inr raw \<and> wc_open raw r = (Inr [1, 2, 3], r')
     \<and> (let later = snd (recv_each wc_open [raw, [], raw] r')
        in wc_open (raw @ [0]) later = (Inl WordCountMismatch, later) \<and> wc_open raw later = (Inl WordCountMismatch, later))"
proof -
  let ?s = "\<lparr>ws_master_key = replicate 32 0x5A, ws_word_count = 0, ws_role = Sender\<rparr>"
  let ?r = "?s\<lparr>ws_role := Receiver\<rparr>" and ?raw = "mar_bytes 0 (wc_tag (replicate 32 0x5A) 0 [1, 2, 3]) [1, 2, 3]"
  have fits: "wc_fits 0 [1, 2, 3]" by (simp add: wc_fits_def MAX_MSG_LEN_def)
  obtain s' where s: "wc_seal [1, 2, 3] ?s = (Inr ?raw, s')"
    using fits wc_seal_Inr [of "[1, 2, 3]" ?s ?raw] by simp
  obtain r' where r: "wc_open ?raw ?r = (Inr [1, 2, 3], r')"
    using wc_seal_open(1) [OF _ s, of ?r] by (simp add: wc_linked_def)
  have old: "mar_from_bytes (?raw @ [0]) = Inr \<lparr>mar_word_count = 0, mar_msg_len = 3,
      mar_tag = wc_tag (replicate 32 0x5A) 0 [1, 2, 3], mar_payload = [1, 2, 3]\<rparr>"
    by (simp add: mar_from_bytes_mar_bytes)
  from wc_no_replay [OF r old, of "[[1, 2, 3]]" ?s "[?raw, [], ?raw]"]
  show ?thesis unfolding Let_def using s r by auto
qed

end
