(* ===== verification/Key_Pool.thy ===== *)
theory Key_Pool
  imports Prelude
begin

text \<open>
  The user-space key pool (\<open>key_pool/src/lib.rs\<close>) and the one-time pad on top of it
  (\<open>otp_engine/src/lib.rs\<close>).  The pool sits behind one mutex, so a call is one atomic step and a
  run of the shared pool is a sequence of calls; a panic under the lock poisons it.  The contract
  of \<open>acquire\<close> is the locale \<open>key_store\<close>: a call takes one whole block out of the store.
\<close>

definition DEFAULT_LOW_WATER_MARK :: nat where "DEFAULT_LOW_WATER_MARK = 1024"
definition MIN_LOW_WATER_MARK :: nat where "MIN_LOW_WATER_MARK = 64"

datatype key_state = Available | InUse | Consumed

datatype key_pool_error =
  InsufficientKeys | BelowLowWaterMark | AlreadyConsumed | InvalidLowWaterMark
| EmptyKeyMaterial | LockPoisoned

record key_block =
  kb_id :: u64
  kb_data :: bytes
  kb_state :: key_state

record key_pool =
  kp_blocks :: "key_block list"
  kp_next_id :: u64
  kp_low_water_mark :: nat
  kp_poisoned :: bool

section \<open>The operations\<close>

definition key_pool_new :: "nat \<Rightarrow> key_pool_error + key_pool" where
  "key_pool_new low_water_mark =
     (if low_water_mark < MIN_LOW_WATER_MARK then Inl InvalidLowWaterMark
      else Inr \<lparr>kp_blocks = [], kp_next_id = 0, kp_low_water_mark = low_water_mark,
                kp_poisoned = False\<rparr>)"

definition key_pool_default :: "key_pool option" where
  "key_pool_default = (case key_pool_new DEFAULT_LOW_WATER_MARK of Inl _ \<Rightarrow> None | Inr p \<Rightarrow> Some p)"

text \<open>\<open>None\<close> is the panic of \<open>expect("key ID overflow")\<close>, which poisons the mutex.\<close>

definition add_key_material :: "bytes \<Rightarrow> key_pool \<Rightarrow> (key_pool_error + u64) option \<times> key_pool" where
  "add_key_material data p =
     (if data = [] then (Some (Inl EmptyKeyMaterial), p)
      else if kp_poisoned p then (Some (Inl LockPoisoned), p)
      else
        let i = kp_next_id p
        in case checked_add (kp_next_id p) 1 of
             None \<Rightarrow> (None, p\<lparr>kp_poisoned := True\<rparr>)
           | Some n \<Rightarrow>
               (Some (Inr i),
                p\<lparr>kp_next_id := n,
                  kp_blocks := kp_blocks p @ [\<lparr>kb_id = i, kb_data = data, kb_state = Available\<rparr>]\<rparr>))"

definition available_sum :: "key_pool \<Rightarrow> nat" where
  "available_sum p =
     sum_list (map (\<lambda>b. length (kb_data b)) (filter (\<lambda>b. kb_state b = Available) (kp_blocks p)))"

definition acquire :: "nat \<Rightarrow> key_pool \<Rightarrow> (key_pool_error + u64 \<times> bytes) \<times> key_pool" where
  "acquire needed p =
     (if needed = 0 then (Inl InsufficientKeys, p)
      else if kp_poisoned p then (Inl LockPoisoned, p)
      else
        let available = available_sum p
        in if available < kp_low_water_mark p then (Inl BelowLowWaterMark, p)
           else if available < needed then (Inl InsufficientKeys, p)
           else case position (\<lambda>b. kb_state b = Available \<and> needed \<le> length (kb_data b)) (kp_blocks p) of
                  None \<Rightarrow> (Inl InsufficientKeys, p)
                | Some idx \<Rightarrow>
                    let b = kp_blocks p ! idx;
                        full_key = kb_data b
                    in (Inr (kb_id b, take needed full_key),
                        p\<lparr>kp_blocks := (kp_blocks p)[idx := b\<lparr>kb_state := InUse, kb_data := []\<rparr>]\<rparr>))"

definition consume :: "u64 \<Rightarrow> key_pool \<Rightarrow> (key_pool_error + unit) \<times> key_pool" where
  "consume i p =
     (if kp_poisoned p then (Inl LockPoisoned, p)
      else case position (\<lambda>b. kb_id b = i) (kp_blocks p) of
             None \<Rightarrow> (Inr (), p)
           | Some idx \<Rightarrow>
               if kb_state (kp_blocks p ! idx) = Consumed then (Inl AlreadyConsumed, p)
               else (Inr (), p\<lparr>kp_blocks := take idx (kp_blocks p) @ drop (Suc idx) (kp_blocks p)\<rparr>))"

definition available_bytes :: "key_pool \<Rightarrow> key_pool_error + nat" where
  "available_bytes p = (if kp_poisoned p then Inl LockPoisoned else Inr (available_sum p))"

section \<open>The one-time pad\<close>

datatype otp_error = KeyTooShort | OtpKeyPool key_pool_error | OtpEmptyInput

definition otp_encrypt :: "bytes \<Rightarrow> key_pool \<Rightarrow> (otp_error + u64 \<times> bytes) \<times> key_pool" where
  "otp_encrypt plaintext p =
     (if plaintext = [] then (Inl OtpEmptyInput, p)
      else
        let needed = length plaintext
        in case acquire needed p of
             (Inl e, p) \<Rightarrow> (Inl (OtpKeyPool e), p)
           | (Inr (key_id, key), p) \<Rightarrow>
               if length key < needed then (Inl KeyTooShort, snd (consume key_id p))
               else
                 let ciphertext = map2 (XOR) plaintext key
                 in case consume key_id p of
                      (Inl e, p) \<Rightarrow> (Inl (OtpKeyPool e), p)
                    | (Inr _, p) \<Rightarrow> (Inr (key_id, ciphertext), p))"

definition otp_decrypt_with_key :: "bytes \<Rightarrow> bytes \<Rightarrow> otp_error + bytes" where
  "otp_decrypt_with_key ciphertext key =
     (if ciphertext = [] then Inl OtpEmptyInput
      else if length key < length ciphertext then Inl KeyTooShort
      else Inr (map2 (XOR) ciphertext key))"

section \<open>Invariant and abstraction\<close>

text \<open>
  Block numbers are distinct and below the next one; a block is available and non-empty or in
  use and empty.  No block is ever \<open>Consumed\<close>: \<open>consume\<close> removes it instead.  The abstract pool is
  the map from block numbers to the key still available.
\<close>

definition block_ok :: "key_block \<Rightarrow> bool" where
  "block_ok b \<longleftrightarrow> (kb_state b = Available \<and> kb_data b \<noteq> []) \<or> (kb_state b = InUse \<and> kb_data b = [])"

definition key_pool_inv :: "key_pool \<Rightarrow> bool" where
  "key_pool_inv p \<longleftrightarrow> distinct (map kb_id (kp_blocks p))
     \<and> (\<forall>b \<in> set (kp_blocks p). block_ok b \<and> kb_id b < kp_next_id p)"

fun keys_of_blocks :: "key_block list \<Rightarrow> u64 \<Rightarrow> bytes option" where
  "keys_of_blocks [] = (\<lambda>_. None)"
| "keys_of_blocks (b # bs) =
     (if kb_state b = Available then (keys_of_blocks bs)(kb_id b \<mapsto> kb_data b) else keys_of_blocks bs)"

definition pool_keys :: "key_pool \<Rightarrow> u64 \<Rightarrow> bytes option" where
  "pool_keys p = keys_of_blocks (kp_blocks p)"

lemma keys_of_blocks_append:
  "keys_of_blocks (xs @ ys) = keys_of_blocks ys ++ keys_of_blocks xs"
  by (induction xs) (auto simp: map_add_def fun_eq_iff split: option.splits)

lemma keys_of_blocks_absent: "i \<notin> kb_id ` set bs \<Longrightarrow> keys_of_blocks bs i = None"
  by (induction bs) auto

text \<open>Splitting the block list at an index, the form in which every operation changes it.\<close>

lemma keys_of_blocks_split:
  assumes "distinct (map kb_id bs)" and "n < length bs"
  shows "keys_of_blocks bs = (keys_of_blocks (take n bs @ drop (Suc n) bs))
           (kb_id (bs ! n) := (if kb_state (bs ! n) = Available then Some (kb_data (bs ! n)) else None))"
proof -
  have bs: "bs = take n bs @ bs ! n # drop (Suc n) bs" using assms(2) by (rule id_take_nth_drop)
  have "distinct (map kb_id (take n bs @ bs ! n # drop (Suc n) bs))" using assms(1) bs by simp
  then have "kb_id (bs ! n) \<notin> kb_id ` set (take n bs)" "kb_id (bs ! n) \<notin> kb_id ` set (drop (Suc n) bs)"
    by (auto simp flip: image_set)
  then show ?thesis
    by (subst bs) (auto simp: keys_of_blocks_append keys_of_blocks_absent fun_eq_iff map_add_def
        split: option.splits)
qed

lemma set_without_nth: "set (take n xs @ drop (Suc n) xs) \<subseteq> set xs"
  by (auto dest: in_set_takeD in_set_dropD)

lemma distinct_without_nth: "distinct (map f xs) \<Longrightarrow> distinct (map f (take n xs @ drop (Suc n) xs))"
proof (cases "n < length xs")
  case True
  assume "distinct (map f xs)"
  then have "distinct (map f (take n xs @ xs ! n # drop (Suc n) xs))"
    using True by (simp flip: id_take_nth_drop)
  then show ?thesis by simp
qed simp

lemma key_pool_new_inv:
  "key_pool_new n = Inr p \<Longrightarrow> key_pool_inv p \<and> pool_keys p = Map.empty \<and> \<not> kp_poisoned p"
  by (auto simp: key_pool_new_def key_pool_inv_def pool_keys_def split: if_splits)

section \<open>What each call does to the abstract pool\<close>

lemma pool_keys_below: "key_pool_inv p \<Longrightarrow> pool_keys p i = Some k \<Longrightarrow> i < kp_next_id p"
  using keys_of_blocks_absent [of i "kp_blocks p"] by (fastforce simp: pool_keys_def key_pool_inv_def)

lemma add_key_material_cases:
  assumes "key_pool_inv p" and "add_key_material d p = (r, p')"
  shows "key_pool_inv p' \<and>
    (case r of
       Some (Inr i) \<Rightarrow> i = kp_next_id p \<and> d \<noteq> [] \<and> unat (kp_next_id p') = unat i + 1
                     \<and> pool_keys p' = (pool_keys p)(i \<mapsto> d)
     | _ \<Rightarrow> pool_keys p' = pool_keys p \<and> kp_next_id p' = kp_next_id p)"
proof -
  have up: "n < n + 1" "\<And>x. x < n \<Longrightarrow> x < n + 1" if "unat n < 18446744073709551615" for n :: u64
    using that unat_add_fits [of n 1] by (auto simp: word_less_nat_alt)
  have fresh: "kp_next_id p \<notin> kb_id ` set (kp_blocks p)"
    using assms(1) by (auto simp: key_pool_inv_def)
  show ?thesis
    using assms up fresh
    by (auto simp: add_key_material_def key_pool_inv_def pool_keys_def block_ok_def Let_def
        keys_of_blocks_append map_add_def fun_eq_iff keys_of_blocks_absent checked_add_Some
        split: if_splits option.splits)
qed

lemma acquire_Inr:
  assumes "key_pool_inv p" and "acquire n p = (Inr (i, k), p')"
  obtains d where "pool_keys p i = Some d" and "n \<le> length d" and "k = take n d" and "0 < n"
    and "pool_keys p' = (pool_keys p)(i := None)" and "key_pool_inv p'"
    and "kp_next_id p' = kp_next_id p" and "kp_poisoned p' = kp_poisoned p" and "\<not> kp_poisoned p"
proof -
  let ?bs = "kp_blocks p"
  from assms(2) obtain x where
    x: "position (\<lambda>b. kb_state b = Available \<and> n \<le> length (kb_data b)) ?bs = Some x"
    and n: "0 < n" "\<not> kp_poisoned p" and i: "i = kb_id (?bs ! x)" and k: "k = take n (kb_data (?bs ! x))"
    and p': "p' = p\<lparr>kp_blocks := ?bs[x := (?bs ! x)\<lparr>kb_state := InUse, kb_data := []\<rparr>]\<rparr>"
    by (auto simp: acquire_def Let_def split: if_splits option.splits)
  have b: "x < length ?bs" "kb_state (?bs ! x) = Available" "n \<le> length (kb_data (?bs ! x))"
    using x by (auto simp: position_Some)
  have d: "distinct (map kb_id ?bs)" and ok: "\<forall>b \<in> set ?bs. block_ok b \<and> kb_id b < kp_next_id p"
    using assms(1) by (auto simp: key_pool_inv_def)
  have d': "map kb_id (kp_blocks p') = map kb_id ?bs"
    using b(1) by (simp add: p' map_update list_update_same_conv)
  note split = keys_of_blocks_split [OF d b(1)] keys_of_blocks_split [of "kp_blocks p'" x, unfolded d', OF d]
  have "pool_keys p i = Some (kb_data (?bs ! x))" "pool_keys p' = (pool_keys p)(i := None)"
    using split b by (simp_all add: pool_keys_def i p')
  moreover have "key_pool_inv p'"
    using d d' ok b(1) by (auto simp: key_pool_inv_def p' block_ok_def dest!: set_update_subset_insert [THEN subsetD])
  ultimately show thesis
    using that b n by (simp add: k p')
qed

lemma acquire_InrD:
  assumes "key_pool_inv p" and "acquire n p = (Inr (i, k), p')"
  shows "key_pool_inv p' \<and> pool_keys p' = (pool_keys p)(i := None) \<and> kp_next_id p' = kp_next_id p
    \<and> \<not> kp_poisoned p' \<and> (\<exists>d. pool_keys p i = Some d \<and> n \<le> length d \<and> k = take n d)"
  by (rule acquire_Inr [OF assms]) simp

lemma acquire_Inl: "acquire n p = (Inl e, p') \<Longrightarrow> p' = p"
  by (auto simp: acquire_def Let_def split: if_splits option.splits)

lemma consume_cases:
  assumes "key_pool_inv p" and "consume i p = (r, p')"
  shows "key_pool_inv p' \<and> kp_next_id p' = kp_next_id p \<and> kp_poisoned p' = kp_poisoned p \<and>
     (if kp_poisoned p then r = Inl LockPoisoned \<and> p' = p
      else r = Inr () \<and> pool_keys p' = (pool_keys p)(i := None))"
proof (cases "kp_poisoned p")
  case True
  then show ?thesis using assms by (simp add: consume_def)
next
  case ok: False
  let ?bs = "kp_blocks p"
  have d: "distinct (map kb_id ?bs)" and bok: "\<forall>b \<in> set ?bs. block_ok b \<and> kb_id b < kp_next_id p"
    using assms(1) by (auto simp: key_pool_inv_def)
  show ?thesis
  proof (cases "position (\<lambda>b. kb_id b = i) ?bs")
    case None
    then have "i \<notin> kb_id ` set ?bs" by (auto simp: position_None)
    then have "(pool_keys p)(i := None) = pool_keys p"
      using keys_of_blocks_absent by (auto simp: pool_keys_def)
    then show ?thesis using assms None ok by (simp add: consume_def)
  next
    case (Some x)
    then have x: "x < length ?bs" "kb_id (?bs ! x) = i" by (auto simp: position_Some)
    then have "block_ok (?bs ! x)" using bok by simp
    then have res: "r = Inr ()" "p' = p\<lparr>kp_blocks := take x ?bs @ drop (Suc x) ?bs\<rparr>"
      using assms(2) Some ok by (auto simp: consume_def block_ok_def)
    have "i \<notin> kb_id ` set (take x ?bs @ drop (Suc x) ?bs)"
    proof -
      have "distinct (map kb_id (take x ?bs @ ?bs ! x # drop (Suc x) ?bs))"
        using d x(1) by (simp flip: id_take_nth_drop)
      then show ?thesis using x(2) by (auto simp flip: image_set)
    qed
    then have "pool_keys p' i = None" by (simp only: res pool_keys_def) (simp add: keys_of_blocks_absent)
    moreover have "pool_keys p j = pool_keys p' j" if "j \<noteq> i" for j
      using keys_of_blocks_split [OF d x(1)] that x(2) by (simp add: pool_keys_def res)
    ultimately have "pool_keys p' = (pool_keys p)(i := None)" by auto
    moreover have "key_pool_inv p'"
      using distinct_without_nth [OF d, of x] set_without_nth [of x ?bs] bok
      by (auto simp: key_pool_inv_def res simp del: map_append set_append)
    ultimately show ?thesis using res ok by simp
  qed
qed

section \<open>The contract of a key store\<close>

text \<open>
  What a client of \<open>acquire\<close> relies on: a successful call hands out the front of one whole block
  and takes the block out of the store; a failed call leaves the store alone.
\<close>

fun acquire_each :: "(nat \<Rightarrow> 's \<Rightarrow> ('e + u64 \<times> bytes) \<times> 's) \<Rightarrow> nat list \<Rightarrow> 's \<Rightarrow> (u64 \<times> bytes) list \<times> 's" where
  "acquire_each acq [] s = ([], s)"
| "acquire_each acq (n # ns) s =
     (case acq n s of
        (Inl _, s) \<Rightarrow> acquire_each acq ns s
      | (Inr k, s) \<Rightarrow> (let (ks, s) = acquire_each acq ns s in (k # ks, s)))"

locale key_store =
  fixes acq :: "nat \<Rightarrow> 's \<Rightarrow> ('e + u64 \<times> bytes) \<times> 's"
    and inv :: "'s \<Rightarrow> bool"
    and keys :: "'s \<Rightarrow> u64 \<Rightarrow> bytes option"
  assumes acq_ok: "inv s \<Longrightarrow> acq n s = (Inr (i, k), s') \<Longrightarrow>
      inv s' \<and> keys s' = (keys s)(i := None) \<and> (\<exists>d. keys s i = Some d \<and> n \<le> length d \<and> k = take n d)"
    and acq_err: "acq n s = (Inl e, s') \<Longrightarrow> s' = s"
begin

lemma each_distinct:
  "inv s \<Longrightarrow> acquire_each acq ns s = (ks, s') \<Longrightarrow>
     inv s' \<and> distinct (map fst ks) \<and> keys s' = (\<lambda>i. if i \<in> fst ` set ks then None else keys s i)
     \<and> (\<forall>(i, k) \<in> set ks. \<exists>d. keys s i = Some d \<and> k = take (length k) d)"
proof (induction ns arbitrary: s ks)
  case Nil
  then show ?case by simp
next
  case (Cons n ns)
  show ?case
  proof (cases "acq n s")
    case (Pair r s1)
    show ?thesis
    proof (cases r)
      case (Inl e)
      then show ?thesis using Cons Pair acq_err [of n s e s1] by simp
    next
      case (Inr x)
      obtain i k where x: "x = (i, k)" by fastforce
      obtain ks1 where ks1: "acquire_each acq ns s1 = (ks1, s')" "ks = (i, k) # ks1"
        using Cons.prems(2) Pair Inr x by (auto split: prod.splits)
      obtain d where d: "inv s1" "keys s1 = (keys s)(i := None)" "keys s i = Some d" "n \<le> length d" "k = take n d"
        using acq_ok [OF Cons.prems(1)] Pair Inr x by blast
      have IH: "inv s'" "distinct (map fst ks1)" "keys s' = (\<lambda>j. if j \<in> fst ` set ks1 then None else keys s1 j)"
        and pre: "\<forall>(j, l) \<in> set ks1. \<exists>d. keys s1 j = Some d \<and> l = take (length l) d"
        using Cons.IH [OF d(1) ks1(1)] by auto
      have "i \<notin> fst ` set ks1" using pre d(2) by fastforce
      moreover have "\<forall>(j, l) \<in> set ks1. \<exists>d. keys s j = Some d \<and> l = take (length l) d"
        using pre d(2) by (auto split: if_splits)
      ultimately show ?thesis using IH d ks1(2) by (auto simp: fun_eq_iff)
    qed
  qed
qed

end

interpretation pool: key_store acquire key_pool_inv pool_keys
  by unfold_locales (auto dest: acquire_InrD acquire_Inl)

section \<open>Runs of the shared pool\<close>

text \<open>
  Calls of any number of threads in the order in which they take the lock, with the key added
  and the key handed out so far, both under their block numbers.
\<close>

datatype pool_call = AddCall bytes | AcquireCall nat | ConsumeCall u64

record pool_history =
  ph_pool :: key_pool
  ph_added :: "(u64 \<times> bytes) list"
  ph_handed :: "(u64 \<times> bytes) list"

fun pool_step :: "pool_call \<Rightarrow> pool_history \<Rightarrow> pool_history" where
  "pool_step (AddCall d) h =
     (case add_key_material d (ph_pool h) of
        (Some (Inr i), p) \<Rightarrow> h\<lparr>ph_pool := p, ph_added := (i, d) # ph_added h\<rparr>
      | (_, p) \<Rightarrow> h\<lparr>ph_pool := p\<rparr>)"
| "pool_step (AcquireCall n) h =
     (case acquire n (ph_pool h) of
        (Inr x, p) \<Rightarrow> h\<lparr>ph_pool := p, ph_handed := x # ph_handed h\<rparr>
      | (Inl _, p) \<Rightarrow> h\<lparr>ph_pool := p\<rparr>)"
| "pool_step (ConsumeCall i) h = h\<lparr>ph_pool := snd (consume i (ph_pool h))\<rparr>"

definition pool_run :: "pool_call list \<Rightarrow> pool_history \<Rightarrow> pool_history" where
  "pool_run cs h = fold pool_step cs h"

definition history_inv :: "pool_history \<Rightarrow> bool" where
  "history_inv h \<longleftrightarrow> key_pool_inv (ph_pool h)
     \<and> distinct (map fst (ph_added h)) \<and> distinct (map fst (ph_handed h))
     \<and> (\<forall>(i, d) \<in> set (ph_added h). i < kp_next_id (ph_pool h))
     \<and> (\<forall>i d. pool_keys (ph_pool h) i = Some d \<longrightarrow> (i, d) \<in> set (ph_added h) \<and> i \<notin> fst ` set (ph_handed h))
     \<and> (\<forall>(i, k) \<in> set (ph_handed h). \<exists>d. (i, d) \<in> set (ph_added h) \<and> k = take (length k) d)"

lemma history_inv_shrink:
  assumes "history_inv h" and "key_pool_inv p" and "kp_next_id p = kp_next_id (ph_pool h)"
    and "\<And>i d. pool_keys p i = Some d \<Longrightarrow> pool_keys (ph_pool h) i = Some d"
  shows "history_inv (h\<lparr>ph_pool := p\<rparr>)"
  using assms by (simp add: history_inv_def)

lemma pool_step_inv:
  assumes h: "history_inv h"
  shows "history_inv (pool_step c h)"
proof (cases c)
  case (AddCall d)
  obtain r p where rp: "add_key_material d (ph_pool h) = (r, p)" by fastforce
  have "key_pool_inv (ph_pool h)" using h by (simp add: history_inv_def)
  note add = add_key_material_cases [OF this rp]
  show ?thesis
  proof (cases "\<exists>i. r = Some (Inr i)")
    case True
    then obtain i where i: "r = Some (Inr i)" by blast
    then have "i = kp_next_id (ph_pool h)" "unat (kp_next_id p) = unat i + 1"
      using add by auto
    then have "i < kp_next_id p" "\<And>j. j < kp_next_id (ph_pool h) \<Longrightarrow> j < kp_next_id p \<and> j \<noteq> i"
      by (auto simp: word_less_nat_alt)
    then show ?thesis
      using h add i rp AddCall by (fastforce simp: history_inv_def split: if_splits)
  next
    case False
    then have "pool_step c h = h\<lparr>ph_pool := p\<rparr>"
      using rp AddCall by (auto split: option.splits sum.splits)
    then show ?thesis using h add False by (auto simp: history_inv_def split: option.splits sum.splits)
  qed
next
  case (AcquireCall n)
  obtain r p where rp: "acquire n (ph_pool h) = (r, p)" by fastforce
  show ?thesis
  proof (cases r)
    case (Inl e)
    then show ?thesis using h rp AcquireCall acquire_Inl [of n "ph_pool h" e p] by (simp add: history_inv_def)
  next
    case (Inr x)
    obtain i k where x: "x = (i, k)" by fastforce
    have "key_pool_inv (ph_pool h)" using h by (simp add: history_inv_def)
    with rp Inr x obtain d where d: "pool_keys (ph_pool h) i = Some d" "k = take n d"
      and p: "pool_keys p = (pool_keys (ph_pool h))(i := None)" "key_pool_inv p" "kp_next_id p = kp_next_id (ph_pool h)"
      using acquire_InrD [of "ph_pool h" n i k p] by auto
    have shrunk: "history_inv (h\<lparr>ph_pool := p\<rparr>)"
      using p by (intro history_inv_shrink [OF h]) (auto split: if_splits)
    have "(i, d) \<in> set (ph_added h)" "i \<notin> fst ` set (ph_handed h)"
      using h d(1) by (simp_all add: history_inv_def)
    moreover have "k = take (length k) d" by (simp add: d(2) min_def)
    ultimately have "history_inv (h\<lparr>ph_pool := p, ph_handed := (i, k) # ph_handed h\<rparr>)"
      using shrunk p(1) by (auto simp: history_inv_def)
    then show ?thesis using rp Inr x AcquireCall by simp
  qed
next
  case (ConsumeCall i)
  obtain r p where rp: "consume i (ph_pool h) = (r, p)" by fastforce
  have "key_pool_inv (ph_pool h)" using h by (simp add: history_inv_def)
  note consume_cases [OF this rp]
  then have "history_inv (h\<lparr>ph_pool := p\<rparr>)"
    by (intro history_inv_shrink [OF h]) (auto split: if_splits)
  then show ?thesis using rp ConsumeCall by simp
qed

lemma pool_run_inv: "history_inv h \<Longrightarrow> history_inv (pool_run cs h)"
  unfolding pool_run_def by (induction cs arbitrary: h) (auto simp: pool_step_inv)

text \<open>
  C32. In every run of a pool from \<open>new\<close>, with calls of any threads in any order, each block number
  is given once and handed out at most once, the key handed out is the front of the block added
  under that number, and every block still available is one that was added and not handed out:
  no key byte leaves the pool twice.
\<close>

theorem key_pool_hands_out_once:
  assumes "key_pool_new lwm = Inr p"
    and "pool_run cs \<lparr>ph_pool = p, ph_added = [], ph_handed = []\<rparr> = h"
  shows "distinct (map fst (ph_added h)) \<and> distinct (map fst (ph_handed h))
    \<and> (\<forall>(i, k) \<in> set (ph_handed h). \<exists>d. (i, d) \<in> set (ph_added h) \<and> k = take (length k) d)
    \<and> (\<forall>i d. pool_keys (ph_pool h) i = Some d \<longrightarrow> (i, d) \<in> set (ph_added h) \<and> i \<notin> fst ` set (ph_handed h))"
proof -
  have "history_inv \<lparr>ph_pool = p, ph_added = [], ph_handed = []\<rparr>"
    using key_pool_new_inv [OF assms(1)] by (simp add: history_inv_def)
  from pool_run_inv [OF this, of cs] show ?thesis
    unfolding assms(2) by (auto simp: history_inv_def)
qed

section \<open>Acquiring and the one-time pad\<close>

lemma big_block_sum:
  "b \<in> set (kp_blocks p) \<Longrightarrow> kb_state b = Available \<Longrightarrow> length (kb_data b) \<le> available_sum p"
  unfolding available_sum_def by (rule member_le_sum_list) auto

definition acquirable :: "nat \<Rightarrow> key_pool \<Rightarrow> bool" where
  "acquirable n p \<longleftrightarrow> 0 < n \<and> \<not> kp_poisoned p \<and> kp_low_water_mark p \<le> available_sum p
     \<and> (\<exists>b \<in> set (kp_blocks p). kb_state b = Available \<and> n \<le> length (kb_data b))"

lemma acquire_succeeds: "(\<exists>x p'. acquire n p = (Inr x, p')) \<longleftrightarrow> acquirable n p"
proof
  assume "acquirable n p"
  then obtain b where b: "b \<in> set (kp_blocks p)" "kb_state b = Available" "n \<le> length (kb_data b)"
    and ok: "0 < n" "\<not> kp_poisoned p" "kp_low_water_mark p \<le> available_sum p"
    by (auto simp: acquirable_def)
  have "n \<le> available_sum p" using big_block_sum [OF b(1,2)] b(3) by simp
  moreover have "position (\<lambda>b. kb_state b = Available \<and> n \<le> length (kb_data b)) (kp_blocks p) \<noteq> None"
    using b by (auto simp: position_None)
  ultimately show "\<exists>x p'. acquire n p = (Inr x, p')" using ok by (auto simp: acquire_def Let_def)
next
  assume "\<exists>x p'. acquire n p = (Inr x, p')"
  then show "acquirable n p"
    by (auto simp: acquire_def acquirable_def Let_def position_Some split: if_splits option.splits
        dest: nth_mem)
qed

text \<open>
  C33. The one-time pad over the pool.  On a well-formed pool \<open>encrypt\<close> of a non-empty text succeeds
  exactly when a key of that length can be acquired, so the key is never too short; then the
  ciphertext decrypts to the text under the key material that was added under the returned
  number, and that material is gone from the pool.  On an error nothing is taken from the pool.
\<close>

theorem otp_round_trip:
  assumes "key_pool_inv p" and "otp_encrypt pt p = (r, p')"
  shows "key_pool_inv p' \<and>
    (case r of
       Inr (i, ct) \<Rightarrow> acquirable (length pt) p \<and>
         (\<exists>d. pool_keys p i = Some d \<and> otp_decrypt_with_key ct d = Inr pt)
         \<and> pool_keys p' = (pool_keys p)(i := None)
     | Inl e \<Rightarrow> p' = p \<and> (if pt = [] then e = OtpEmptyInput
                          else \<not> acquirable (length pt) p \<and> (\<exists>k. e = OtpKeyPool k)))"
proof (cases "pt = []")
  case True
  then show ?thesis using assms by (auto simp: otp_encrypt_def)
next
  case pt: False
  show ?thesis
  proof (cases "acquire (length pt) p")
    case (Pair a p1)
    show ?thesis
    proof (cases a)
      case (Inl e)
      then have "p' = p" "r = Inl (OtpKeyPool e)"
        using assms(2) pt Pair acquire_Inl [of "length pt" p e p1] by (auto simp: otp_encrypt_def)
      moreover have "\<not> acquirable (length pt) p"
        using Pair Inl by (simp flip: acquire_succeeds)
      ultimately show ?thesis using assms(1) pt by simp
    next
      case (Inr x)
      obtain i k where x: "x = (i, k)" by fastforce
      obtain d where d: "pool_keys p i = Some d" "length pt \<le> length d" "k = take (length pt) d"
        "pool_keys p1 = (pool_keys p)(i := None)" "key_pool_inv p1" "\<not> kp_poisoned p1"
        using acquire_InrD [OF assms(1), of "length pt" i k p1] Pair Inr x by auto
      obtain c p2 where c: "consume i p1 = (c, p2)" by fastforce
      note res = consume_cases [OF d(5) c]
      have r: "r = Inr (i, map2 (XOR) pt k)" "p' = p2"
      proof -
        have "c = Inr ()" "length k = length pt" using res d(2,3,6) by simp_all
        then have "otp_encrypt pt p = (Inr (i, map2 (XOR) pt k), p2)"
          using pt by (simp add: otp_encrypt_def Let_def Pair Inr x c)
        then show "r = Inr (i, map2 (XOR) pt k)" "p' = p2" using assms(2) by simp_all
      qed
      have "otp_decrypt_with_key (map2 (XOR) pt k) d = Inr pt"
      proof -
        have "map2 (XOR) pt k = xor_bytes pt d"
          using d(2,3) by (intro nth_equalityI) (simp_all add: xor_bytes_def)
        moreover have "xor_bytes pt d \<noteq> []"
          using pt d(2) by (cases pt; cases d) (auto simp: xor_bytes_def)
        moreover have "map2 (XOR) (xor_bytes pt d) d = pt"
          using xor_bytes_cancel [OF d(2)] by (simp add: xor_bytes_def)
        ultimately show ?thesis using d(2) by (simp add: otp_decrypt_with_key_def)
      qed
      moreover have "acquirable (length pt) p"
        using Pair Inr by (auto simp flip: acquire_succeeds)
      ultimately show ?thesis using r res d by auto
    qed
  qed
qed

section \<open>Witnesses\<close>

definition demo_pool :: key_pool where
  "demo_pool = \<lparr>kp_blocks = [\<lparr>kb_id = 0, kb_data = replicate 64 7, kb_state = Available\<rparr>],
     kp_next_id = 1, kp_low_water_mark = 64, kp_poisoned = False\<rparr>"

lemma demo_pool_inv: "key_pool_inv demo_pool"
  by (simp add: key_pool_inv_def demo_pool_def block_ok_def)

lemma demo_pool_run:
  "pool_run [AddCall (replicate 64 7), AcquireCall 3, AcquireCall 3, ConsumeCall 0]
     \<lparr>ph_pool = demo_pool\<lparr>kp_blocks := [], kp_next_id := 0\<rparr>, ph_added = [], ph_handed = []\<rparr>
   = \<lparr>ph_pool = demo_pool\<lparr>kp_blocks := []\<rparr>, ph_added = [(0, replicate 64 7)], ph_handed = [(0, [7, 7, 7])]\<rparr>"
  by (simp add: pool_run_def demo_pool_def add_key_material_def acquire_def consume_def available_sum_def
      checked_add_def Let_def)
    (simp add: numeral_eq_Suc)

theorem key_pool_hands_out_once_witness:
  "distinct (map fst [(0 :: u64, replicate 64 (7 :: u8))]) \<and> distinct (map fst [(0 :: u64, [7, 7, 7 :: u8])])
   \<and> (\<exists>d. (0, d) \<in> set [(0 :: u64, replicate 64 (7 :: u8))] \<and> [7, 7, 7] = take 3 d)
   \<and> pool_keys (demo_pool\<lparr>kp_blocks := []\<rparr>) 0 = None"
proof -
  have "key_pool_new 64 = Inr (demo_pool\<lparr>kp_blocks := [], kp_next_id := 0\<rparr>)"
    by (simp add: key_pool_new_def MIN_LOW_WATER_MARK_def demo_pool_def)
  from key_pool_hands_out_once [OF this demo_pool_run] show ?thesis
    by (simp add: pool_keys_def numeral_3_eq_3)
qed

theorem otp_round_trip_witness:
  "key_pool_inv (demo_pool\<lparr>kp_blocks := []\<rparr>) \<and>
   (\<exists>d. pool_keys demo_pool 0 = Some d \<and> otp_decrypt_with_key [0x46] d = Inr [0x41])"
proof -
  have "otp_encrypt [0x41] demo_pool = (Inr (0, [0x46]), demo_pool\<lparr>kp_blocks := []\<rparr>)"
    by (simp add: otp_encrypt_def acquire_def consume_def available_sum_def demo_pool_def Let_def)
  from otp_round_trip [OF demo_pool_inv this] show ?thesis by simp
qed

end
