(* ===== verification/Qtor.thy ===== *)
theory Qtor
  imports Wc_Auth Key_Pool "HOL-Library.AList"
begin

text \<open>
  The onion router (\<open>qtor/src/lib.rs\<close>): cells, circuits of three hops, nodes and the directory.
  The onion of a circuit satisfies the contract \<open>record_channel\<close> of theory \<open>Wc_Auth\<close>, but not
  \<open>atomic_channel\<close>: a layer that fails leaves the inner sessions advanced.
\<close>

definition CELL_SIZE :: nat where "CELL_SIZE = 512"
definition CELL_HEADER_LEN :: nat where "CELL_HEADER_LEN = 5"
definition CELL_PAYLOAD :: nat where "CELL_PAYLOAD = CELL_SIZE - CELL_HEADER_LEN"
definition CIRCUIT_HOPS :: nat where "CIRCUIT_HOPS = 3"
definition MAX_CIRCUITS :: nat where "MAX_CIRCUITS = 64"

datatype cell_cmd = Create | Created | Relay | Destroy | Padding

datatype qtor_error =
  CircuitNotFound | InvalidHopCount | InvalidCellSize | UnknownCommand u8
| QtorKeyPool key_pool_error | QtorWcAuth wc_error | TooManyCircuits | ConnectionFailed

fun cell_cmd_byte :: "cell_cmd \<Rightarrow> u8" where
  "cell_cmd_byte Create = 1"
| "cell_cmd_byte Created = 2"
| "cell_cmd_byte Relay = 3"
| "cell_cmd_byte Destroy = 4"
| "cell_cmd_byte Padding = 7"

definition cell_cmd_try_from :: "u8 \<Rightarrow> qtor_error + cell_cmd" where
  "cell_cmd_try_from v =
     (if v = 1 then Inr Create else if v = 2 then Inr Created else if v = 3 then Inr Relay
      else if v = 4 then Inr Destroy else if v = 7 then Inr Padding else Inl (UnknownCommand v))"

section \<open>Cells\<close>

record cell =
  cell_circuit_id :: u32
  cell_command :: u8
  cell_payload :: bytes

definition cell_new :: "u32 \<Rightarrow> cell_cmd \<Rightarrow> cell" where
  "cell_new circuit_id cmd =
     \<lparr>cell_circuit_id = circuit_id, cell_command = cell_cmd_byte cmd, cell_payload = replicate CELL_PAYLOAD 0\<rparr>"

definition cell_from_bytes :: "bytes \<Rightarrow> qtor_error + cell" where
  "cell_from_bytes raw =
     Inr \<lparr>cell_circuit_id = of_be (slice 0 4 raw), cell_command = raw ! 4, cell_payload = drop 5 raw\<rparr>"

definition cell_to_bytes :: "cell \<Rightarrow> bytes" where
  "cell_to_bytes c =
     (let out = replicate CELL_SIZE 0; out = blit 0 (to_be 4 (cell_circuit_id c)) out;
          out = out[4 := cell_command c]
      in blit 5 (cell_payload c) out)"

definition apply_otp :: "bytes \<Rightarrow> cell \<Rightarrow> (qtor_error + unit) \<times> cell" where
  "apply_otp key c =
     (if length key < CELL_PAYLOAD then (Inl InvalidCellSize, c)
      else (Inr (), c\<lparr>cell_payload := map2 (XOR) (cell_payload c) key\<rparr>))"

section \<open>Circuits\<close>

datatype socket_addr = SocketAddrV4 bytes u16 | SocketAddrV6 bytes u16 u32 u32

record hop_context =
  hop_session :: wc_session
  hop_addr :: socket_addr
  hop_idx :: nat

datatype circuit_state = Building | Ready | Closed

record circuit =
  circ_id :: u32
  circ_hops :: "hop_context list"
  circ_state :: circuit_state

text \<open>The loop of \<open>onion_encrypt\<close> over the hops in reverse; an error leaves the loop.\<close>

fun onion_loop :: "hop_context list \<Rightarrow> bytes \<Rightarrow> (wc_error + bytes) \<times> hop_context list" where
  "onion_loop [] data = (Inr data, [])"
| "onion_loop (h # hs) data =
     (case wc_seal data (hop_session h) of
        (Inl e, s) \<Rightarrow> (Inl e, h\<lparr>hop_session := s\<rparr> # hs)
      | (Inr wrapped, s) \<Rightarrow>
          (let (r, hs) = onion_loop hs wrapped in (r, h\<lparr>hop_session := s\<rparr> # hs)))"

definition onion_encrypt :: "bytes \<Rightarrow> circuit \<Rightarrow> (qtor_error + bytes) \<times> circuit" where
  "onion_encrypt plaintext c =
     (if length (circ_hops c) \<noteq> CIRCUIT_HOPS then (Inl InvalidHopCount, c)
      else
        let (r, hs) = onion_loop (rev (circ_hops c)) plaintext;
            c = c\<lparr>circ_hops := rev hs\<rparr>
        in case r of Inl e \<Rightarrow> (Inl (QtorWcAuth e), c) | Inr data \<Rightarrow> (Inr data, c))"

definition onion_peel :: "bytes \<Rightarrow> wc_session \<Rightarrow> (qtor_error + bytes) \<times> wc_session" where
  "onion_peel cell_data session =
     (case wc_open cell_data session of
        (Inl e, s) \<Rightarrow> (Inl (QtorWcAuth e), s) | (Inr m, s) \<Rightarrow> (Inr m, s))"

section \<open>Nodes and the directory\<close>

text \<open>A node keeps a reference to the shared key pool and never uses it; its type is a parameter.\<close>

record 'pool qtor_node =
  node_listen_addr :: socket_addr
  node_key_pool :: 'pool
  node_circuits :: "(u32 \<times> circuit) list"

definition node_new :: "socket_addr \<Rightarrow> 'pool \<Rightarrow> 'pool qtor_node" where
  "node_new listen_addr key_pool =
     \<lparr>node_listen_addr = listen_addr, node_key_pool = key_pool, node_circuits = []\<rparr>"

definition register_circuit :: "circuit \<Rightarrow> 'pool qtor_node \<Rightarrow> (qtor_error + unit) \<times> 'pool qtor_node" where
  "register_circuit c n =
     (if MAX_CIRCUITS \<le> length (node_circuits n) then (Inl TooManyCircuits, n)
      else (Inr (), n\<lparr>node_circuits := AList.update (circ_id c) c (node_circuits n)\<rparr>))"

definition get_circuit :: "u32 \<Rightarrow> 'pool qtor_node \<Rightarrow> circuit option" where
  "get_circuit i n = map_of (node_circuits n) i"

text \<open>A store through the reference that \<open>get_circuit_mut\<close> returns.\<close>

definition set_circuit :: "u32 \<Rightarrow> circuit \<Rightarrow> 'pool qtor_node \<Rightarrow> 'pool qtor_node" where
  "set_circuit i c n = n\<lparr>node_circuits := AList.update i c (node_circuits n)\<rparr>"

definition close_circuit :: "u32 \<Rightarrow> 'pool qtor_node \<Rightarrow> 'pool qtor_node" where
  "close_circuit i n = n\<lparr>node_circuits := AList.delete i (node_circuits n)\<rparr>"

definition make_padding_cell :: "u32 \<Rightarrow> cell" where
  "make_padding_cell circuit_id = cell_new circuit_id Padding"

datatype node_role = Guard | Middle | Exit | AnyRole

record node_descriptor =
  nd_addr :: socket_addr
  nd_node_id :: bytes
  nd_key_hint :: bytes
  nd_role :: node_role

type_synonym directory = "node_descriptor list"

definition directory_new :: directory where "directory_new = []"

definition add_node :: "node_descriptor \<Rightarrow> directory \<Rightarrow> directory" where
  "add_node n d = d @ [n]"

definition candidates :: "node_role \<Rightarrow> directory \<Rightarrow> node_descriptor list" where
  "candidates role d = filter (\<lambda>n. nd_role n = role \<or> nd_role n = AnyRole) d"

section \<open>Cells on the wire\<close>

definition cell_ok :: "cell \<Rightarrow> bool" where
  "cell_ok c \<longleftrightarrow> length (cell_payload c) = CELL_PAYLOAD"

lemma cell_sizes: "CELL_SIZE = 512" "CELL_PAYLOAD = 507"
  by (simp_all add: CELL_SIZE_def CELL_PAYLOAD_def CELL_HEADER_LEN_def)

lemma cell_to_bytes_eq:
  assumes "cell_ok c"
  shows "cell_to_bytes c = to_be 4 (cell_circuit_id c) @ cell_command c # cell_payload c"
proof (rule nth_equalityI)
  have out: "length ((blit 0 (to_be 4 (cell_circuit_id c)) (replicate CELL_SIZE 0))[4 := cell_command c]) = 512"
    by (simp add: cell_sizes)
  then show len: "length (cell_to_bytes c) = length (to_be 4 (cell_circuit_id c) @ cell_command c # cell_payload c)"
    using assms by (simp add: cell_to_bytes_def Let_def cell_ok_def cell_sizes)
  fix i
  assume "i < length (cell_to_bytes c)"
  then have i: "i < 512" using len assms by (simp add: cell_ok_def cell_sizes)
  show "cell_to_bytes c ! i = (to_be 4 (cell_circuit_id c) @ cell_command c # cell_payload c) ! i"
    using i assms out
    by (cases "i < 4"; cases "i = 4")
      (simp_all add: cell_to_bytes_def Let_def cell_ok_def cell_sizes blit_nth nth_append nth_Cons')
qed

lemma cell_from_bytes_append:
  "length hd4 = 4 \<Longrightarrow> cell_from_bytes (hd4 @ c # p)
     = Inr \<lparr>cell_circuit_id = of_be hd4, cell_command = c, cell_payload = p\<rparr>"
  by (simp add: cell_from_bytes_def slice_def nth_append)

text \<open>
  A cell is 512 bytes on the wire and parses back to itself; every 512 bytes are the wire form of
  the cell they parse to.  The one-time pad on a payload of full length is its own inverse, and a
  short pad is refused and changes nothing.
\<close>

theorem qtor_cell_round_trip:
  assumes "cell_ok c" and "length raw = CELL_SIZE"
  shows "length (cell_to_bytes c) = CELL_SIZE \<and> cell_from_bytes (cell_to_bytes c) = Inr c
    \<and> (\<exists>d. cell_from_bytes raw = Inr d \<and> cell_ok d \<and> cell_to_bytes d = raw)
    \<and> (if length key < CELL_PAYLOAD then apply_otp key c = (Inl InvalidCellSize, c)
       else \<exists>d. apply_otp key c = (Inr (), d) \<and> cell_ok d \<and> apply_otp key d = (Inr (), c))"
proof (intro conjI)
  show "length (cell_to_bytes c) = CELL_SIZE"
    using assms(1) by (simp add: cell_to_bytes_eq) (simp add: cell_ok_def cell_sizes)
  show "cell_from_bytes (cell_to_bytes c) = Inr c"
    using assms(1) by (simp add: cell_to_bytes_eq cell_from_bytes_append)
  let ?d = "\<lparr>cell_circuit_id = of_be (take 4 raw), cell_command = raw ! 4, cell_payload = drop 5 raw\<rparr>"
  have raw: "raw = take 4 raw @ raw ! 4 # drop 5 raw"
    using id_take_nth_drop [of 4 raw] assms(2) by (simp add: cell_sizes)
  have ok: "cell_ok ?d" using assms(2) by (simp add: cell_ok_def cell_sizes)
  moreover have "cell_to_bytes ?d = raw"
    using raw assms(2) unfolding cell_to_bytes_eq [OF ok] by (simp add: cell_sizes)
  moreover have "cell_from_bytes raw = Inr ?d" by (simp add: cell_from_bytes_def slice_def)
  ultimately show "\<exists>d. cell_from_bytes raw = Inr d \<and> cell_ok d \<and> cell_to_bytes d = raw" by blast
  show "if length key < CELL_PAYLOAD then apply_otp key c = (Inl InvalidCellSize, c)
       else \<exists>d. apply_otp key c = (Inr (), d) \<and> cell_ok d \<and> apply_otp key d = (Inr (), c)"
    using assms(1) xor_bytes_cancel [of "cell_payload c" key]
    by (simp add: apply_otp_def cell_ok_def xor_bytes_def)
qed

section \<open>The onion as a stack of channels\<close>

text \<open>The relays of a circuit: one receiver session each, in the order of the hops.\<close>

fun peel_route :: "bytes \<Rightarrow> wc_session list \<Rightarrow> (qtor_error + bytes) \<times> wc_session list" where
  "peel_route data [] = (Inr data, [])"
| "peel_route data (r # rs) =
     (case onion_peel data r of
        (Inl e, r) \<Rightarrow> (Inl e, r # rs)
      | (Inr inner, r) \<Rightarrow> (let (a, rs) = peel_route inner rs in (a, r # rs)))"

definition circuit_linked :: "circuit \<Rightarrow> wc_session list \<Rightarrow> bool" where
  "circuit_linked c rs \<longleftrightarrow> list_all2 (\<lambda>h r. wc_linked (hop_session h) r) (circ_hops c) rs"

lemma onion_loop_append:
  "onion_loop (hs @ ks) data =
     (case onion_loop hs data of
        (Inl e, hs) \<Rightarrow> (Inl e, hs @ ks)
      | (Inr d, hs) \<Rightarrow> (let (r, ks) = onion_loop ks d in (r, hs @ ks)))"
  by (induction hs arbitrary: data) (auto split: sum.splits prod.splits)

lemma onion_loop_peel:
  "onion_loop (rev hs) data = (Inr sealed, ks) \<Longrightarrow> list_all2 (\<lambda>h r. wc_linked (hop_session h) r) hs rs \<Longrightarrow>
   \<exists>rs'. peel_route sealed rs = (Inr data, rs') \<and> list_all2 (\<lambda>h r. wc_linked (hop_session h) r) (rev ks) rs'"
proof (induction hs arbitrary: rs sealed ks)
  case Nil
  then show ?case by simp
next
  case (Cons h hs)
  obtain r rs1 where rs: "rs = r # rs1" "wc_linked (hop_session h) r"
    "list_all2 (\<lambda>h r. wc_linked (hop_session h) r) hs rs1"
    using Cons.prems(2) by (auto simp: list_all2_Cons1)
  obtain inner ks1 raw s1 where
    l: "onion_loop (rev hs) data = (Inr inner, ks1)" "wc_seal inner (hop_session h) = (Inr raw, s1)"
      "sealed = raw" "ks = ks1 @ [h\<lparr>hop_session := s1\<rparr>]"
    using Cons.prems(1) by (auto simp: onion_loop_append split: sum.splits prod.splits)
  obtain rs2 where rs2: "peel_route inner rs1 = (Inr data, rs2)"
    "list_all2 (\<lambda>h r. wc_linked (hop_session h) r) (rev ks1) rs2"
    using Cons.IH [OF l(1) rs(3)] by blast
  note open_r = wc_seal_open [OF rs(2) l(2)]
  show ?case
    using open_r rs2 by (auto simp: rs(1) l(3,4) onion_peel_def)
qed

lemma onion_encrypt_Inr:
  "onion_encrypt pt c = (Inr data, c') \<longleftrightarrow>
     length (circ_hops c) = CIRCUIT_HOPS
     \<and> (\<exists>hs. onion_loop (rev (circ_hops c)) pt = (Inr data, hs) \<and> c' = c\<lparr>circ_hops := rev hs\<rparr>)"
  by (auto simp: onion_encrypt_def Let_def split: prod.splits sum.splits)

interpretation onion: record_channel onion_encrypt peel_route circuit_linked
  by unfold_locales (auto simp: onion_encrypt_Inr circuit_linked_def dest: onion_loop_peel)

lemma wc_seal_tail: "wc_seal m s = (Inr raw, s') \<Longrightarrow> drop 28 raw = m"
  by (auto simp: wc_seal_Inr mar_bytes_def)

lemma onion_loop_tail:
  "onion_loop hs pt = (Inr data, ks) \<Longrightarrow> drop (28 * length hs) data = pt"
proof (induction hs arbitrary: pt ks)
  case Nil
  then show ?case by simp
next
  case (Cons h hs)
  then obtain w s1 ks1 where w: "wc_seal pt (hop_session h) = (Inr w, s1)" "onion_loop hs w = (Inr data, ks1)"
    by (auto split: sum.splits prod.splits)
  have "drop (28 * length (h # hs)) data = drop 28 (drop (28 * length hs) data)"
    by (simp add: add.commute)
  also have "\<dots> = pt" using Cons.IH [OF w(2)] wc_seal_tail [OF w(1)] by simp
  finally show ?case .
qed

text \<open>
  C36. Along the relays of a circuit every message arrives: whatever list of messages the circuit
  takes, peeling the three layers of each record in order yields exactly these messages, and the
  ends stay linked.  But a layer authenticates and does not encrypt: the message stands in the
  clear at the end of its record, behind three headers of 28 bytes.
\<close>

theorem qtor_onion_delivers:
  assumes "circuit_linked c rs" and "send_all onion_encrypt msgs c = Some (raws, c')"
  shows "(\<exists>rs'. recv_each peel_route raws rs = (msgs, rs') \<and> circuit_linked c' rs')
    \<and> map (drop 84) raws = msgs"
proof
  show "\<exists>rs'. recv_each peel_route raws rs = (msgs, rs') \<and> circuit_linked c' rs'"
    by (rule onion.all_arrive [OF assms])
  show "map (drop 84) raws = msgs"
    using assms(2)
  proof (induction msgs arbitrary: c raws)
    case Nil
    then show ?case by simp
  next
    case (Cons m ms)
    then obtain raw c1 raws1 where c1: "onion_encrypt m c = (Inr raw, c1)"
      "send_all onion_encrypt ms c1 = Some (raws1, c')" "raws = raw # raws1"
      by (auto split: sum.splits prod.splits)
    then have "drop 84 raw = m"
      using onion_loop_tail [of "rev (circ_hops c)" m raw] by (auto simp: onion_encrypt_Inr CIRCUIT_HOPS_def)
    then show ?case using Cons.IH [OF c1(2)] c1(3) by simp
  qed
qed

lemma wc_open_other_position:
  assumes "ws_role r = Receiver" and "wc \<noteq> ws_word_count r" and "length tag = 16" and "length m < 2 ^ 32"
  shows "wc_open (mar_bytes wc tag m) r = (Inl WordCountMismatch, r)"
  using assms mar_from_bytes_mar_bytes [of tag m wc "[]"] by (simp add: wc_open_def)

lemma wc_seal_too_long:
  "ws_role s = Sender \<Longrightarrow> MAX_MSG_LEN < length m \<Longrightarrow> wc_seal m s = (Inl MessageTooLong, s)"
  by (auto simp: wc_seal_def MAX_MSG_LEN_def)

lemma length_mar_bytes [simp]: "length (mar_bytes wc tag m) = 12 + length tag + length m"
  by (simp add: mar_bytes_def)

lemma mar_bytes_nonempty [simp]: "mar_bytes wc tag m \<noteq> []"
  by (simp flip: length_0_conv)

text \<open>The results of feeding records to the relays, refusals included.\<close>

fun outcomes :: "(bytes \<Rightarrow> 'r \<Rightarrow> ('f + bytes) \<times> 'r) \<Rightarrow> bytes list \<Rightarrow> 'r \<Rightarrow> ('f + bytes) list \<times> 'r" where
  "outcomes unseal [] r = ([], r)"
| "outcomes unseal (raw # raws) r =
     (case unseal raw r of (a, r) \<Rightarrow> (let (as, r) = outcomes unseal raws r in (a # as, r)))"

text \<open>A record of three layers whose innermost one is not at position \<open>n\<close>.\<close>

definition stale :: "u64 \<Rightarrow> bytes \<Rightarrow> bool" where
  "stale n raw \<longleftrightarrow>
     (\<exists>w0 t0 w1 t1 w2 t2 m. raw = mar_bytes w0 t0 (mar_bytes w1 t1 (mar_bytes w2 t2 m)) \<and> w2 \<noteq> n
        \<and> length t0 = 16 \<and> length t1 = 16 \<and> length t2 = 16 \<and> length m \<le> MAX_MSG_LEN)"

lemma wc_open_mar_bytes:
  assumes "wc_open (mar_bytes w t m) r = (Inr x, r')" and "length t = 16" and "length m < 2 ^ 32"
  shows "x = m"
proof -
  have "mar_from_bytes (mar_bytes w t m) = Inr \<lparr>mar_word_count = w, mar_msg_len = of_nat (length m), mar_tag = t, mar_payload = m\<rparr>"
    using mar_from_bytes_mar_bytes [OF assms(2,3), of w "[]"] by simp
  then show ?thesis using assms(1) by (auto simp: wc_open_def Let_def split: if_splits option.splits)
qed

lemma stale_refused:
  assumes "stale (ws_word_count r2) raw" and "ws_role r2 = Receiver"
  shows "\<exists>e r0' r1'. peel_route raw [r0, r1, r2] = (Inl e, [r0', r1', r2])"
proof -
  obtain w0 t0 w1 t1 w2 t2 m where raw: "raw = mar_bytes w0 t0 (mar_bytes w1 t1 (mar_bytes w2 t2 m))"
    and w2: "w2 \<noteq> ws_word_count r2" and l: "length t0 = 16" "length t1 = 16" "length t2 = 16" "length m \<le> MAX_MSG_LEN"
    using assms(1) by (auto simp: stale_def)
  have len: "length m < 2 ^ 32" "length (mar_bytes w2 t2 m) < 2 ^ 32" "length (mar_bytes w1 t1 (mar_bytes w2 t2 m)) < 2 ^ 32"
    using l by (simp_all add: MAX_MSG_LEN_def)
  have exit: "wc_open (mar_bytes w2 t2 m) r2 = (Inl WordCountMismatch, r2)"
    by (rule wc_open_other_position [OF assms(2) w2 l(3) len(1)])
  obtain a0 r0' where a0: "wc_open raw r0 = (a0, r0')" by fastforce
  show ?thesis
  proof (cases a0)
    case (Inl e)
    then show ?thesis using a0 by (simp add: onion_peel_def)
  next
    case (Inr x)
    then have x: "x = mar_bytes w1 t1 (mar_bytes w2 t2 m)"
      using wc_open_mar_bytes [OF _ l(1) len(3)] a0 raw by simp
    obtain a1 r1' where a1: "wc_open x r1 = (a1, r1')" by fastforce
    show ?thesis
    proof (cases a1)
      case (Inl e)
      then show ?thesis using a0 a1 Inr by (simp add: onion_peel_def)
    next
      case (Inr y)
      then have "y = mar_bytes w2 t2 m" using wc_open_mar_bytes [OF _ l(2) len(2)] a1 x by simp
      then show ?thesis using a0 a1 Inr \<open>a0 = Inr x\<close> exit by (simp add: onion_peel_def)
    qed
  qed
qed

lemma stale_all_refused:
  assumes "\<forall>raw \<in> set raws. stale (ws_word_count r2) raw" and "ws_role r2 = Receiver"
  shows "\<exists>r0' r1'. recv_each peel_route raws [r0, r1, r2] = ([], [r0', r1', r2])"
  using assms(1)
proof (induction raws arbitrary: r0 r1)
  case (Cons raw raws)
  obtain e r0' r1' where "peel_route raw [r0, r1, r2] = (Inl e, [r0', r1', r2])"
    using stale_refused [OF _ assms(2), of raw r0 r1] Cons.prems by auto
  then show ?case using Cons by simp
qed simp

text \<open>A circuit whose exit session is past position \<open>n\<close> stays so and produces stale records only.\<close>

definition exit_past :: "u64 \<Rightarrow> circuit \<Rightarrow> bool" where
  "exit_past n c \<longleftrightarrow> length (circ_hops c) = CIRCUIT_HOPS \<and> n < ws_word_count (hop_session (circ_hops c ! 2))"

lemma wc_seal_count: "wc_seal m s = (a, s') \<Longrightarrow> ws_word_count s \<le> ws_word_count s'"
  using wc_seal_Inl [of m s] wc_seal_step(3) [of m s] by (cases a) fastforce+

lemma onion_encrypt_past:
  assumes "exit_past n c" and "onion_encrypt m c = (a, c')"
  shows "exit_past n c'" and "a = Inr raw \<Longrightarrow> stale n raw"
proof -
  obtain h0 h1 h2 where hops: "circ_hops c = [h0, h1, h2]"
    using assms(1) by (auto simp: exit_past_def CIRCUIT_HOPS_def numeral_3_eq_3 length_Suc_conv)
  have n: "n < ws_word_count (hop_session h2)" using assms(1) by (simp add: exit_past_def hops)
  obtain a2 s2 where s2: "wc_seal m (hop_session h2) = (a2, s2)" by fastforce
  have "n < ws_word_count s2" using n wc_seal_count [OF s2] by simp
  then show "exit_past n c'"
    using assms(2) by (auto simp: onion_encrypt_def hops CIRCUIT_HOPS_def exit_past_def s2 split: sum.splits prod.splits)
  assume "a = Inr raw"
  then obtain in2 in1 s1 s0 where seals: "wc_seal m (hop_session h2) = (Inr in2, s2)"
    "wc_seal in2 (hop_session h1) = (Inr in1, s1)" "wc_seal in1 (hop_session h0) = (Inr raw, s0)"
    using assms(2) s2 by (auto simp: onion_encrypt_Inr hops split: sum.splits prod.splits)
  then show "stale n raw"
    using n unfolding stale_def wc_seal_Inr
    by (intro exI [of _ "ws_word_count (hop_session h0)"] exI) (auto simp: wc_fits_def)
qed

lemma send_each_past:
  "exit_past n c \<Longrightarrow> send_each onion_encrypt msgs c = (log, c') \<Longrightarrow> exit_past n c' \<and> (\<forall>raw \<in> set (map snd log). stale n raw)"
proof (induction msgs arbitrary: c log)
  case (Cons m msgs)
  obtain a c1 where a: "onion_encrypt m c = (a, c1)" by fastforce
  note p = onion_encrypt_past [OF Cons.prems(1) a]
  show ?case
    using Cons.IH [OF p(1)] Cons.prems(2) a p(2) by (cases a) (auto split: prod.splits)
qed simp

text \<open>As long as nothing else fails, the first two relays follow and the exit relay refuses.\<close>

definition front_linked :: "circuit \<Rightarrow> wc_session list \<Rightarrow> bool" where
  "front_linked c rs \<longleftrightarrow> length (circ_hops c) = CIRCUIT_HOPS \<and> length rs = CIRCUIT_HOPS
     \<and> wc_linked (hop_session (circ_hops c ! 0)) (rs ! 0) \<and> wc_linked (hop_session (circ_hops c ! 1)) (rs ! 1)"

lemma onion_encrypt_dead:
  assumes "front_linked c rs" and "exit_past (ws_word_count (rs ! 2)) c" and "ws_role (rs ! 2) = Receiver"
    and "onion_encrypt m c = (Inr raw, c')"
  shows "\<exists>rs'. peel_route raw rs = (Inl (QtorWcAuth WordCountMismatch), rs') \<and> front_linked c' rs' \<and> rs' ! 2 = rs ! 2"
proof -
  obtain h0 h1 h2 where hops: "circ_hops c = [h0, h1, h2]"
    using assms(2) by (auto simp: exit_past_def CIRCUIT_HOPS_def numeral_3_eq_3 length_Suc_conv)
  obtain r0 r1 r2 where rs: "rs = [r0, r1, r2]"
    using assms(1) by (auto simp: front_linked_def CIRCUIT_HOPS_def numeral_3_eq_3 length_Suc_conv)
  have l: "wc_linked (hop_session h0) r0" "wc_linked (hop_session h1) r1" using assms(1) by (simp_all add: front_linked_def hops rs)
  obtain in2 in1 s2 s1 s0 where seals: "wc_seal m (hop_session h2) = (Inr in2, s2)"
    "wc_seal in2 (hop_session h1) = (Inr in1, s1)" "wc_seal in1 (hop_session h0) = (Inr raw, s0)"
    and c': "circ_hops c' = [h0\<lparr>hop_session := s0\<rparr>, h1\<lparr>hop_session := s1\<rparr>, h2\<lparr>hop_session := s2\<rparr>]"
    using assms(4) by (auto simp: onion_encrypt_Inr hops split: sum.splits prod.splits)
  have "wc_open in2 r2 = (Inl WordCountMismatch, r2)"
    using seals(1) assms(2,3)
    by (auto simp: wc_seal_Inr wc_fits_def MAX_MSG_LEN_def exit_past_def hops rs intro!: wc_open_other_position)
  then show ?thesis
    using wc_seal_open [OF l(1) seals(3)] wc_seal_open [OF l(2) seals(2)]
    by (simp add: rs onion_peel_def front_linked_def c' CIRCUIT_HOPS_def)
qed

lemma send_all_dead:
  "front_linked c rs \<Longrightarrow> exit_past (ws_word_count (rs ! 2)) c \<Longrightarrow> ws_role (rs ! 2) = Receiver \<Longrightarrow>
   send_all onion_encrypt msgs c = Some (raws, c') \<Longrightarrow>
   \<exists>rs'. outcomes peel_route raws rs = (replicate (length msgs) (Inl (QtorWcAuth WordCountMismatch)), rs')
     \<and> front_linked c' rs' \<and> rs' ! 2 = rs ! 2"
proof (induction msgs arbitrary: c rs raws)
  case (Cons m msgs)
  obtain raw c1 raws1 where c1: "onion_encrypt m c = (Inr raw, c1)"
    "send_all onion_encrypt msgs c1 = Some (raws1, c')" "raws = raw # raws1"
    using Cons.prems(4) by (auto split: sum.splits prod.splits)
  obtain rs1 where rs1: "peel_route raw rs = (Inl (QtorWcAuth WordCountMismatch), rs1)" "front_linked c1 rs1" "rs1 ! 2 = rs ! 2"
    using onion_encrypt_dead [OF Cons.prems(1-3) c1(1)] by blast
  have "exit_past (ws_word_count (rs1 ! 2)) c1" using onion_encrypt_past(1) [OF Cons.prems(2) c1(1)] rs1(3) by simp
  then show ?case
    using Cons.IH [OF rs1(2) _ _ c1(2)] Cons.prems(3) rs1 c1(3) by auto
qed simp

lemma failed_send_effect:
  assumes "circuit_linked c rs" and "length (circ_hops c) = CIRCUIT_HOPS"
    and "wc_fits (ws_word_count (hop_session (circ_hops c ! 2))) pt" and "MAX_MSG_LEN < length pt + 28"
    and "onion_encrypt pt c = (r, c')"
  shows "r = Inl (QtorWcAuth MessageTooLong)" and "front_linked c' rs"
    and "exit_past (ws_word_count (rs ! 2)) c'" and "ws_role (rs ! 2) = Receiver" and "length rs = 3"
proof -
  obtain h0 h1 h2 where hops: "circ_hops c = [h0, h1, h2]"
    using assms(2) by (auto simp: CIRCUIT_HOPS_def numeral_3_eq_3 length_Suc_conv)
  obtain r0 r1 r2 where rs: "rs = [r0, r1, r2]" and linked: "wc_linked (hop_session h0) r0"
    "wc_linked (hop_session h1) r1" "wc_linked (hop_session h2) r2"
    using assms(1) by (auto simp: circuit_linked_def hops list_all2_Cons1)
  let ?s = "hop_session h2" and ?wc = "ws_word_count (hop_session h2)"
  have fits: "wc_fits ?wc pt" using assms(3) by (simp add: hops)
  obtain raw s' where raw: "wc_seal pt ?s = (Inr raw, s')" "raw = mar_bytes ?wc (wc_tag (ws_master_key ?s) ?wc pt) pt"
    "ws_word_count s' = wc_after ?wc pt"
    using fits linked(3) wc_seal_Inr [of pt ?s] by (auto simp: wc_linked_def)
  have "wc_seal raw (hop_session h1) = (Inl MessageTooLong, hop_session h1)"
    using linked(2) assms(4) by (intro wc_seal_too_long) (simp_all add: wc_linked_def raw(2))
  then have c': "r = Inl (QtorWcAuth MessageTooLong)" "circ_hops c' = [h0, h1, h2\<lparr>hop_session := s'\<rparr>]"
    using assms(5) by (auto simp: onion_encrypt_def hops CIRCUIT_HOPS_def raw(1))
  show "r = Inl (QtorWcAuth MessageTooLong)" by (rule c')
  show "front_linked c' rs" "ws_role (rs ! 2) = Receiver" "length rs = 3" using linked by (simp_all add: front_linked_def c' rs CIRCUIT_HOPS_def wc_linked_def)
  show "exit_past (ws_word_count (rs ! 2)) c'"
    using wc_after_greater [OF fits] linked(3) by (simp add: exit_past_def c' rs CIRCUIT_HOPS_def wc_linked_def raw(3))
qed

text \<open>
  C37. A message that fits one layer but not two kills a circuit for good: the innermost session has
  sealed it when the next layer refuses.  From then on, whatever is offered to the circuit and in
  whatever order, with whatever losses and repetitions its records reach the relays, not a single
  message comes out and the session of the exit relay never moves.  If no later send fails, the
  first two relays accept every record in turn and it is the exit relay that refuses each of them
  for its word count.
\<close>

theorem qtor_failed_send_kills_circuit:
  assumes "circuit_linked c rs" and "length (circ_hops c) = CIRCUIT_HOPS"
    and "wc_fits (ws_word_count (hop_session (circ_hops c ! 2))) pt" and "MAX_MSG_LEN < length pt + 28"
    and "onion_encrypt pt c = (r, c')"
    and "send_each onion_encrypt msgs c' = (log, d)" and "set raws \<subseteq> set (map snd log)"
  shows "r = Inl (QtorWcAuth MessageTooLong)
    \<and> (\<exists>rs'. recv_each peel_route raws rs = ([], rs') \<and> rs' ! 2 = rs ! 2)
    \<and> (\<forall>sent d. send_all onion_encrypt msgs c' = Some (sent, d) \<longrightarrow>
        (\<exists>rs'. outcomes peel_route sent rs = (replicate (length msgs) (Inl (QtorWcAuth WordCountMismatch)), rs')
          \<and> wc_linked (hop_session (circ_hops d ! 0)) (rs' ! 0)
          \<and> wc_linked (hop_session (circ_hops d ! 1)) (rs' ! 1) \<and> rs' ! 2 = rs ! 2))"
proof (intro conjI allI impI)
  note f = failed_send_effect [OF assms(1-5)]
  show "r = Inl (QtorWcAuth MessageTooLong)" by (rule f)
  obtain r0 r1 r2 where rs: "rs = [r0, r1, r2]" using f(5) by (auto simp: numeral_3_eq_3 length_Suc_conv)
  have "\<forall>raw \<in> set raws. stale (ws_word_count r2) raw"
    using send_each_past [OF f(3) assms(6)] assms(7) by (auto simp: rs)
  then show "\<exists>rs'. recv_each peel_route raws rs = ([], rs') \<and> rs' ! 2 = rs ! 2"
    using stale_all_refused [of raws r2 r0 r1] f(4) by (auto simp: rs)
  fix sent d
  assume "send_all onion_encrypt msgs c' = Some (sent, d)"
  from send_all_dead [OF f(2-4) this]
  show "\<exists>rs'. outcomes peel_route sent rs = (replicate (length msgs) (Inl (QtorWcAuth WordCountMismatch)), rs')
      \<and> wc_linked (hop_session (circ_hops d ! 0)) (rs' ! 0)
      \<and> wc_linked (hop_session (circ_hops d ! 1)) (rs' ! 1) \<and> rs' ! 2 = rs ! 2"
    by (auto simp: front_linked_def)
qed

section \<open>The circuits of a node\<close>

definition node_inv :: "'pool qtor_node \<Rightarrow> bool" where
  "node_inv n \<longleftrightarrow> distinct (map fst (node_circuits n)) \<and> length (node_circuits n) \<le> MAX_CIRCUITS"

lemma node_new_inv [simp]: "node_inv (node_new a p)" "get_circuit i (node_new a p) = None"
  by (simp_all add: node_inv_def node_new_def get_circuit_def)

lemma length_update: "length (AList.update k v xs) \<le> Suc (length xs)"
  by (induction xs) auto

lemma length_update_present: "k \<in> fst ` set xs \<Longrightarrow> length (AList.update k v xs) = length xs"
  by (induction xs) auto

lemma card_circuits: "node_inv n \<Longrightarrow> card (dom (\<lambda>i. get_circuit i n)) = length (node_circuits n)"
proof -
  assume n: "node_inv n"
  have "dom (\<lambda>i. get_circuit i n) = fst ` set (node_circuits n)"
    by (simp add: get_circuit_def dom_map_of_conv_image_fst)
  then show ?thesis using n distinct_card [of "map fst (node_circuits n)"] by (simp add: node_inv_def)
qed

lemma set_circuit_inv:
  assumes "node_inv n" and "get_circuit i n = Some c"
  shows "node_inv (set_circuit i d n)"
proof -
  have "i \<in> fst ` set (node_circuits n)"
    using assms(2) by (force simp: get_circuit_def dest: map_of_SomeD)
  then have "length (AList.update i d (node_circuits n)) = length (node_circuits n)"
    by (rule length_update_present)
  moreover have "distinct (map fst (AList.update i d (node_circuits n)))"
    using assms(1) by (intro distinct_update) (simp add: node_inv_def)
  ultimately show ?thesis using assms(1) by (simp add: node_inv_def set_circuit_def)
qed

lemma qtor_register:
  assumes "node_inv n"
  shows "node_inv (snd (register_circuit c n))"
    and "fst (register_circuit c n) = (if length (node_circuits n) = MAX_CIRCUITS then Inl TooManyCircuits else Inr ())"
    and "length (node_circuits n) = MAX_CIRCUITS \<Longrightarrow> snd (register_circuit c n) = n"
    and "length (node_circuits n) \<noteq> MAX_CIRCUITS \<Longrightarrow>
      (\<lambda>i. get_circuit i (snd (register_circuit c n))) = (\<lambda>i. get_circuit i n)(circ_id c \<mapsto> c)"
  using assms length_update [of "circ_id c" c "node_circuits n"]
  by (auto simp: register_circuit_def node_inv_def distinct_update get_circuit_def update_conv')

text \<open>
  A node is a map from circuit numbers to circuits of at most 64 entries: \<open>register\<close> stores the
  circuit under its number and \<open>close\<close> removes it, and no other number is affected; a full node
  refuses every circuit, even one that would replace an entry, and stays as it is.
\<close>

theorem qtor_node_refines_map:
  assumes "node_inv n"
  shows "fst (register_circuit c n) =
      (if card (dom (\<lambda>i. get_circuit i n)) = MAX_CIRCUITS then Inl TooManyCircuits else Inr ())
    \<and> (\<lambda>i. get_circuit i (snd (register_circuit c n))) =
      (if card (dom (\<lambda>i. get_circuit i n)) = MAX_CIRCUITS then (\<lambda>i. get_circuit i n)
       else (\<lambda>i. get_circuit i n)(circ_id c \<mapsto> c))
    \<and> (\<lambda>i. get_circuit i (close_circuit j n)) = (\<lambda>i. get_circuit i n)(j := None)
    \<and> node_inv (snd (register_circuit c n)) \<and> node_inv (close_circuit j n)"
proof -
  have "node_inv (close_circuit j n)"
    using assms by (auto simp: close_circuit_def node_inv_def distinct_delete intro: le_trans [OF length_delete_le])
  moreover have "(\<lambda>i. get_circuit i (close_circuit j n)) = (\<lambda>i. get_circuit i n)(j := None)"
    by (simp add: close_circuit_def get_circuit_def delete_conv' fun_eq_iff)
  ultimately show ?thesis
    using qtor_register [OF assms, of c] card_circuits [OF assms] by (simp split: if_split)
qed

lemma cell_cmd_round_trip: "cell_cmd_try_from v = Inr c \<longleftrightarrow> v = cell_cmd_byte c"
  by (cases c) (auto simp: cell_cmd_try_from_def)

section \<open>Witnesses\<close>

lemma wc_seal_fits:
  "ws_role s = Sender \<Longrightarrow> wc_fits (ws_word_count s) m \<Longrightarrow>
   wc_seal m s = (Inr (mar_bytes (ws_word_count s) (wc_tag (ws_master_key s) (ws_word_count s) m) m),
                  s\<lparr>ws_word_count := wc_after (ws_word_count s) m\<rparr>)"
  by (simp add: wc_seal_Inr)

definition demo_sender :: "u8 \<Rightarrow> wc_session" where
  "demo_sender b = \<lparr>ws_master_key = replicate 32 b, ws_word_count = 0, ws_role = Sender\<rparr>"

definition demo_relays :: "wc_session list" where
  "demo_relays = map (\<lambda>b. (demo_sender b)\<lparr>ws_role := Receiver\<rparr>) [1, 2, 3]"

definition demo_circuit :: circuit where
  "demo_circuit = \<lparr>circ_id = 1, circ_hops =
     map (\<lambda>b. \<lparr>hop_session = demo_sender b, hop_addr = SocketAddrV4 [127, 0, 0, 1] 9001, hop_idx = 0\<rparr>) [1, 2, 3],
     circ_state = Ready\<rparr>"

lemma demo_circuit_linked: "circuit_linked demo_circuit demo_relays"
  by (simp add: circuit_linked_def demo_circuit_def demo_relays_def demo_sender_def wc_linked_def)

lemmas demo_circuit_simps = demo_circuit_def demo_sender_def wc_seal_fits wc_fits_def wc_after_def
  bytes_to_words_def MAX_MSG_LEN_def WORD_BYTES_def CIRCUIT_HOPS_def onion_encrypt_def

theorem qtor_onion_delivers_witness:
  "\<exists>raws c' rs'. send_all onion_encrypt [[1, 2, 3], [4]] demo_circuit = Some (raws, c')
     \<and> recv_each peel_route raws demo_relays = ([[1, 2, 3], [4]], rs') \<and> map (drop 84) raws = [[1, 2, 3], [4]]"
proof -
  obtain raws c' where "send_all onion_encrypt [[1, 2, 3], [4]] demo_circuit = Some (raws, c')"
    by (simp add: demo_circuit_simps Let_def)
  then show ?thesis using qtor_onion_delivers [OF demo_circuit_linked] by blast
qed

theorem qtor_failed_send_kills_circuit_witness:
  "\<exists>c' sent d. onion_encrypt (replicate 65536 7) demo_circuit = (Inl (QtorWcAuth MessageTooLong), c')
     \<and> send_all onion_encrypt [[1], [2]] c' = Some (sent, d)
     \<and> fst (outcomes peel_route sent demo_relays) = [Inl (QtorWcAuth WordCountMismatch), Inl (QtorWcAuth WordCountMismatch)]
     \<and> fst (recv_each peel_route (rev (map snd (fst (send_each onion_encrypt [[1], [2]] c')))) demo_relays) = []"
proof -
  obtain r c' where c': "onion_encrypt (replicate 65536 7) demo_circuit = (r, c')" by fastforce
  have fits: "wc_fits (ws_word_count (hop_session (circ_hops demo_circuit ! 2))) (replicate 65536 7)"
    by (simp add: demo_circuit_simps)
  have three: "length (circ_hops demo_circuit) = CIRCUIT_HOPS" by (simp add: demo_circuit_def CIRCUIT_HOPS_def)
  have long: "MAX_MSG_LEN < length (replicate 65536 (7 :: u8)) + 28" by (simp add: MAX_MSG_LEN_def)
  obtain sent d where s: "send_all onion_encrypt [[1], [2]] c' = Some (sent, d)"
    using c' by (auto simp: demo_circuit_simps wc_seal_too_long Let_def)
  have "set (rev (map snd (fst (send_each onion_encrypt [[1], [2]] c'))))
      \<subseteq> set (map snd (fst (send_each onion_encrypt [[1], [2]] c')))" by simp
  from qtor_failed_send_kills_circuit [OF demo_circuit_linked three fits long c' prod.collapse [symmetric] this] s c'
  show ?thesis by (auto simp del: send_each.simps send_all.simps)
qed

theorem qtor_cell_round_trip_witness:
  "cell_from_bytes (cell_to_bytes (cell_new 0xDEADBEEF Relay)) = Inr (cell_new 0xDEADBEEF Relay)
   \<and> (\<exists>d. apply_otp (replicate 507 0xAB) (cell_new 1 Relay) = (Inr (), d)
        \<and> apply_otp (replicate 507 0xAB) d = (Inr (), cell_new 1 Relay))"
proof -
  have "cell_ok (cell_new i Relay)" for i by (simp add: cell_ok_def cell_new_def)
  moreover have "length (replicate 512 0 :: bytes) = CELL_SIZE" by (simp add: cell_sizes)
  ultimately show ?thesis
    using qtor_cell_round_trip [of "cell_new 0xDEADBEEF Relay" "replicate 512 0"]
      qtor_cell_round_trip [of "cell_new 1 Relay" "replicate 512 0" "replicate 507 0xAB"]
    by (simp add: cell_sizes) blast
qed

theorem qtor_node_refines_map_witness:
  "get_circuit 1 (snd (register_circuit demo_circuit (node_new (SocketAddrV4 [127, 0, 0, 1] 9050) ()))) = Some demo_circuit"
proof -
  let ?n = "node_new (SocketAddrV4 [127, 0, 0, 1] 9050) ()"
  have "(\<lambda>i. get_circuit i (snd (register_circuit demo_circuit ?n))) = (\<lambda>i. get_circuit i ?n)(1 \<mapsto> demo_circuit)"
    using qtor_node_refines_map [of ?n demo_circuit] by (simp add: MAX_CIRCUITS_def) (simp add: demo_circuit_def)
  from fun_cong [OF this, of 1] show ?thesis by simp
qed

end
