(* ===== verification/Qonion.thy ===== *)
theory Qonion
  imports Qtor
begin

text \<open>
  The pipeline of the onion client (\<open>qonion/src/lib.rs\<close>): SOCKS5 requests, and the pipeline that
  takes the keys of a circuit from the key pool, registers the circuit at its node and sends along
  it.  The shared pool is a state of its own, passed beside the pipeline.
\<close>

datatype qonion_error =
  AuthFailed | CircuitBuild qtor_error | QonionKeyPool key_pool_error | QonionWcAuth wc_error
| Socks5Protocol | Timeout | InitFailed

section \<open>Text: \<open>String::from_utf8_lossy\<close>\<close>

text \<open>
  Whether the bytes start with a well-formed character, and how many bytes that character, or the
  ill-formed sequence at the front, takes; missing bytes read as zero.
\<close>

definition byte_at :: "nat \<Rightarrow> bytes \<Rightarrow> u8" where
  "byte_at i bs = (if i < length bs then bs ! i else 0)"

definition utf8_cont :: "u8 \<Rightarrow> bool" where
  "utf8_cont b \<longleftrightarrow> b AND 192 = 128"

definition utf8_char_width :: "u8 \<Rightarrow> nat" where
  "utf8_char_width b =
     (if b < 0x80 then 1 else if 0xC2 \<le> b \<and> b \<le> 0xDF then 2 else if 0xE0 \<le> b \<and> b \<le> 0xEF then 3
      else if 0xF0 \<le> b \<and> b \<le> 0xF4 then 4 else 0)"

definition utf8_second_of_3 :: "u8 \<Rightarrow> u8 \<Rightarrow> bool" where
  "utf8_second_of_3 b c \<longleftrightarrow>
     (b = 0xE0 \<and> 0xA0 \<le> c \<and> c \<le> 0xBF) \<or> (0xE1 \<le> b \<and> b \<le> 0xEC \<and> 0x80 \<le> c \<and> c \<le> 0xBF)
     \<or> (b = 0xED \<and> 0x80 \<le> c \<and> c \<le> 0x9F) \<or> (0xEE \<le> b \<and> b \<le> 0xEF \<and> 0x80 \<le> c \<and> c \<le> 0xBF)"

definition utf8_second_of_4 :: "u8 \<Rightarrow> u8 \<Rightarrow> bool" where
  "utf8_second_of_4 b c \<longleftrightarrow>
     (b = 0xF0 \<and> 0x90 \<le> c \<and> c \<le> 0xBF) \<or> (0xF1 \<le> b \<and> b \<le> 0xF3 \<and> 0x80 \<le> c \<and> c \<le> 0xBF)
     \<or> (b = 0xF4 \<and> 0x80 \<le> c \<and> c \<le> 0x8F)"

definition utf8_front :: "bytes \<Rightarrow> bool \<times> nat" where
  "utf8_front bs =
     (let b = byte_at 0 bs; c = byte_at 1 bs; w = utf8_char_width b
      in if w = 1 then (True, 1)
         else if w = 2 then (if utf8_cont c then (True, 2) else (False, 1))
         else if w = 3 then
           (if \<not> utf8_second_of_3 b c then (False, 1)
            else if \<not> utf8_cont (byte_at 2 bs) then (False, 2) else (True, 3))
         else if w = 4 then
           (if \<not> utf8_second_of_4 b c then (False, 1)
            else if \<not> utf8_cont (byte_at 2 bs) then (False, 2)
            else if \<not> utf8_cont (byte_at 3 bs) then (False, 3) else (True, 4))
         else (False, 1))"

lemma utf8_front_pos: "0 < snd (utf8_front bs)"
  by (simp add: utf8_front_def Let_def)

function from_utf8_lossy :: "bytes \<Rightarrow> bytes" where
  "from_utf8_lossy bs =
     (if bs = [] then []
      else
        let (valid, n) = utf8_front bs
        in (if valid then take n bs else [0xEF, 0xBF, 0xBD]) @ from_utf8_lossy (drop n bs))"
  by auto
termination
  by (relation "measure length") (auto simp: utf8_front_pos dest!: arg_cong [where f = snd])

declare from_utf8_lossy.simps [simp del]

section \<open>SOCKS5 requests\<close>

datatype socks5_cmd = Connect | Bind | UdpAssoc

datatype socks5_addr = Ipv4 bytes | Domain bytes | Ipv6 bytes

record socks5_request =
  s5_cmd :: socks5_cmd
  s5_addr :: socks5_addr
  s5_port :: u16

text \<open>\<open>None\<close> stands for the early return with \<open>Socks5Protocol\<close>.\<close>

definition socks5_parse_cmd :: "u8 \<Rightarrow> socks5_cmd option" where
  "socks5_parse_cmd c =
     (if c = 1 then Some Connect else if c = 2 then Some Bind else if c = 3 then Some UdpAssoc else None)"

definition socks5_parse_addr :: "bytes \<Rightarrow> (socks5_addr \<times> nat) option" where
  "socks5_parse_addr buf =
     (if buf ! 3 = 1 then
        (if length buf < 10 then None else Some (Ipv4 [buf ! 4, buf ! 5, buf ! 6, buf ! 7], 8))
      else if buf ! 3 = 3 then
        (let len = unat (buf ! 4)
         in if length buf < 5 + len + 2 then None
            else Some (Domain (from_utf8_lossy (slice 5 (5 + len) buf)), 5 + len))
      else if buf ! 3 = 4 then
        (if length buf < 22 then None else Some (Ipv6 (slice 4 20 buf), 20))
      else None)"

definition socks5_parse :: "bytes \<Rightarrow> qonion_error + socks5_request" where
  "socks5_parse buf =
     (if length buf < 7 then Inl Socks5Protocol
      else if buf ! 0 \<noteq> 5 then Inl Socks5Protocol
      else if buf ! 2 \<noteq> 0 then Inl Socks5Protocol
      else case socks5_parse_cmd (buf ! 1) of
        None \<Rightarrow> Inl Socks5Protocol
      | Some cmd \<Rightarrow>
          (case socks5_parse_addr buf of
             None \<Rightarrow> Inl Socks5Protocol
           | Some (addr, port_offset) \<Rightarrow>
               let port = of_be [buf ! port_offset, buf ! (port_offset + 1)]
               in Inr \<lparr>s5_cmd = cmd, s5_addr = addr, s5_port = port\<rparr>))"

section \<open>The pipeline\<close>

record qonion_config =
  qc_socks5_listen :: socket_addr
  qc_node_addrs :: "socket_addr list"
  qc_min_key_bytes :: nat

definition localhost :: "u16 \<Rightarrow> socket_addr" where
  "localhost port = SocketAddrV4 [127, 0, 0, 1] port"

definition qonion_config_default :: qonion_config where
  "qonion_config_default =
     \<lparr>qc_socks5_listen = localhost 9050, qc_node_addrs = [localhost 9001, localhost 9002, localhost 9003],
      qc_min_key_bytes = 1024 * 1024\<rparr>"

record qonion_pipeline =
  qp_config :: qonion_config
  qp_authenticated :: bool
  qp_node :: "unit qtor_node option"

definition pipeline_new :: "qonion_config \<Rightarrow> qonion_pipeline" where
  "pipeline_new config = \<lparr>qp_config = config, qp_authenticated = False, qp_node = None\<rparr>"

definition complete_auth :: "qonion_pipeline \<Rightarrow> (qonion_error + unit) \<times> qonion_pipeline" where
  "complete_auth q = (Inr (), q\<lparr>qp_authenticated := True\<rparr>)"

text \<open>The loop of \<open>build_circuit\<close>: one key of 32 bytes and one session for each hop.\<close>

fun build_hops :: "nat \<Rightarrow> socket_addr list \<Rightarrow> key_pool \<Rightarrow> (qonion_error + hop_context list) \<times> key_pool" where
  "build_hops i [] p = (Inr [], p)"
| "build_hops i (addr # addrs) p =
     (case acquire 32 p of
        (Inl e, p) \<Rightarrow> (Inl (QonionKeyPool e), p)
      | (Inr (key_id, hop_key), p) \<Rightarrow>
          (case wc_session_new hop_key 0 Sender of
             Inl e \<Rightarrow> (Inl (QonionWcAuth e), p)
           | Inr session \<Rightarrow>
               (case build_hops (i + 1) addrs p of
                  (Inl e, p) \<Rightarrow> (Inl e, p)
                | (Inr hops, p) \<Rightarrow>
                    (Inr (\<lparr>hop_session = session, hop_addr = addr, hop_idx = i\<rparr> # hops), p))))"

definition get_or_insert_node :: "qonion_pipeline \<Rightarrow> unit qtor_node" where
  "get_or_insert_node q =
     (case qp_node q of Some n \<Rightarrow> n | None \<Rightarrow> node_new (qc_socks5_listen (qp_config q)) ())"

definition build_circuit ::
    "u32 \<Rightarrow> key_pool \<Rightarrow> qonion_pipeline \<Rightarrow> (qonion_error + unit) \<times> key_pool \<times> qonion_pipeline" where
  "build_circuit circuit_id p q =
     (if \<not> qp_authenticated q then (Inl AuthFailed, p, q)
      else case build_hops 0 (qc_node_addrs (qp_config q)) p of
        (Inl e, p) \<Rightarrow> (Inl e, p, q)
      | (Inr hops, p) \<Rightarrow>
          let circuit = \<lparr>circ_id = circuit_id, circ_hops = hops, circ_state = Ready\<rparr>;
              (r, node) = register_circuit circuit (get_or_insert_node q);
              q = q\<lparr>qp_node := Some node\<rparr>
          in case r of Inl e \<Rightarrow> (Inl (CircuitBuild e), p, q) | Inr _ \<Rightarrow> (Inr (), p, q))"

definition pipeline_send ::
    "u32 \<Rightarrow> bytes \<Rightarrow> qonion_pipeline \<Rightarrow> (qonion_error + bytes) \<times> qonion_pipeline" where
  "pipeline_send circuit_id data q =
     (case qp_node q of
        None \<Rightarrow> (Inl InitFailed, q)
      | Some node \<Rightarrow>
          (case get_circuit circuit_id node of
             None \<Rightarrow> (Inl (CircuitBuild CircuitNotFound), q)
           | Some circuit \<Rightarrow>
               let (r, circuit) = onion_encrypt data circuit;
                   q = q\<lparr>qp_node := Some (set_circuit circuit_id circuit node)\<rparr>
               in case r of Inl e \<Rightarrow> (Inl (CircuitBuild e), q) | Inr raw \<Rightarrow> (Inr raw, q)))"

definition pipeline_close :: "u32 \<Rightarrow> qonion_pipeline \<Rightarrow> qonion_pipeline" where
  "pipeline_close circuit_id q =
     (case qp_node q of
        None \<Rightarrow> q | Some node \<Rightarrow> q\<lparr>qp_node := Some (close_circuit circuit_id node)\<rparr>)"

section \<open>What the request parser accepts\<close>

text \<open>The UTF-8 encoding of a character (a Unicode scalar value).\<close>

definition is_scalar :: "nat \<Rightarrow> bool" where
  "is_scalar c \<longleftrightarrow> c < 0x110000 \<and> \<not> (0xD800 \<le> c \<and> c < 0xE000)"

definition utf8_encode :: "nat \<Rightarrow> bytes" where
  "utf8_encode c = map of_nat
     (if c < 0x80 then [c]
      else if c < 0x800 then [0xC0 + c div 64, 0x80 + c mod 64]
      else if c < 0x10000 then [0xE0 + c div 4096, 0x80 + c div 64 mod 64, 0x80 + c mod 64]
      else [0xF0 + c div 262144, 0x80 + c div 4096 mod 64, 0x80 + c div 64 mod 64, 0x80 + c mod 64])"

lemma unat_byte: "n < 256 \<Longrightarrow> unat (of_nat n :: u8) = n"
  by (simp add: take_bit_nat_eq_self unsigned_of_nat)

lemma utf8_cont_of_nat: "x < 64 \<Longrightarrow> utf8_cont (of_nat (128 + x))"
proof -
  have "\<forall>x \<in> set [0..<64]. (of_nat (128 + x) :: u8) AND 192 = 128" by code_simp
  then show "x < 64 \<Longrightarrow> utf8_cont (of_nat (128 + x))" by (simp add: utf8_cont_def)
qed

lemma utf8_second_of_nat:
  assumes "h < 16" and "x < 64" and "h = 0 \<Longrightarrow> 32 \<le> x" and "h = 13 \<Longrightarrow> x < 32"
  shows "utf8_second_of_3 (of_nat (0xE0 + h)) (of_nat (0x80 + x))"
proof -
  consider "h = 0" | "1 \<le> h" "h \<le> 12" | "h = 13" | "14 \<le> h" using assms(1) by linarith
  then show ?thesis
    using assms
    by cases (auto simp: utf8_second_of_3_def word_le_nat_alt word_unat_eq_iff unat_byte simp del: of_nat_add)
qed

lemma utf8_second_of_nat_4:
  assumes "h < 5" and "x < 64" and "h = 0 \<Longrightarrow> 16 \<le> x" and "h = 4 \<Longrightarrow> x < 16"
  shows "utf8_second_of_4 (of_nat (0xF0 + h)) (of_nat (0x80 + x))"
proof -
  consider "h = 0" | "1 \<le> h" "h \<le> 3" | "h = 4" using assms(1) by linarith
  then show ?thesis
    using assms
    by cases (auto simp: utf8_second_of_4_def word_le_nat_alt word_unat_eq_iff unat_byte simp del: of_nat_add)
qed

lemma utf8_front_encode:
  assumes "is_scalar c"
  shows "utf8_front (utf8_encode c @ rest) = (True, length (utf8_encode c)) \<and> utf8_encode c \<noteq> []"
proof -
  note utf8_cont_of_nat [simp]
  note width = utf8_encode_def utf8_front_def utf8_char_width_def byte_at_def word_less_nat_alt word_le_nat_alt unat_byte
  consider "c < 0x80" | "0x80 \<le> c" "c < 0x800" | "0x800 \<le> c" "c < 0x10000" | "0x10000 \<le> c" by linarith
  then show ?thesis
  proof cases
    case 1
    then show ?thesis by (simp add: width)
  next
    case 2
    have "0xC2 \<le> 0xC0 + c div 64" "0xC0 + c div 64 \<le> 0xDF" using 2 by linarith+
    then show ?thesis using 2 by (simp add: width del: of_nat_add)
  next
    case 3
    have "utf8_second_of_3 (of_nat (0xE0 + c div 4096)) (of_nat (0x80 + c div 64 mod 64))"
    proof (rule utf8_second_of_nat)
      show "c div 4096 < 16" "c div 64 mod 64 < 64" using 3 by auto
      show "32 \<le> c div 64 mod 64" if "c div 4096 = 0" using that 3 by simp
      show "c div 64 mod 64 < 32" if "c div 4096 = 13"
      proof -
        have "c < 0xD800" "0xD000 \<le> c" using that 3 assms by (auto simp: is_scalar_def)
        then have "832 \<le> c div 64" "c div 64 < 864" by auto
        then obtain d where "c div 64 = 832 + d" "d < 32" by (auto simp: le_iff_add)
        then show ?thesis using mod_mult_self1 [of d 13 64] by (simp add: add.commute)
      qed
    qed
    moreover have "c div 4096 < 16" using 3 by auto
    ultimately show ?thesis using 3 by (simp add: width del: of_nat_add)
  next
    case 4
    have "utf8_second_of_4 (of_nat (0xF0 + c div 262144)) (of_nat (0x80 + c div 4096 mod 64))"
    proof (rule utf8_second_of_nat_4)
      show "c div 262144 < 5" "c div 4096 mod 64 < 64" using assms by (auto simp: is_scalar_def)
      show "16 \<le> c div 4096 mod 64" if "c div 262144 = 0" using that 4 by simp
      show "c div 4096 mod 64 < 16" if "c div 262144 = 4"
      proof -
        have "c < 0x110000" "0x100000 \<le> c" using that assms by (auto simp: is_scalar_def)
        then have "256 \<le> c div 4096" "c div 4096 < 272" by auto
        then obtain d where "c div 4096 = 256 + d" "d < 16" by (auto simp: le_iff_add)
        then show ?thesis using mod_mult_self1 [of d 4 64] by (simp add: add.commute)
      qed
    qed
    moreover have "c div 262144 < 5" using assms by (auto simp: is_scalar_def)
    ultimately show ?thesis using 4 by (simp add: width del: of_nat_add)
  qed
qed

text \<open>Text that is well formed comes out as it went in.\<close>

lemma utf8_text_unchanged:
  "\<forall>c \<in> set cs. is_scalar c \<Longrightarrow> from_utf8_lossy (concat (map utf8_encode cs)) = concat (map utf8_encode cs)"
proof (induction cs)
  case (Cons c cs)
  have "utf8_front (utf8_encode c @ concat (map utf8_encode cs)) = (True, length (utf8_encode c))" "utf8_encode c \<noteq> []"
    using utf8_front_encode Cons.prems by simp_all
  then show ?case
    using Cons by (simp add: from_utf8_lossy.simps [of "utf8_encode c @ concat (map utf8_encode cs)"])
qed (simp add: from_utf8_lossy.simps)

fun socks5_cmd_byte :: "socks5_cmd \<Rightarrow> u8" where
  "socks5_cmd_byte Connect = 1"
| "socks5_cmd_byte Bind = 2"
| "socks5_cmd_byte UdpAssoc = 3"

text \<open>The address field of a request and the address it stands for.\<close>

definition socks5_addr_field :: "bytes \<Rightarrow> socks5_addr \<Rightarrow> bool" where
  "socks5_addr_field f addr \<longleftrightarrow>
     (\<exists>a. length a = 4 \<and> f = 1 # a \<and> addr = Ipv4 a)
     \<or> (\<exists>d. length d < 256 \<and> f = 3 # of_nat (length d) # d \<and> addr = Domain (from_utf8_lossy d))
     \<or> (\<exists>a. length a = 16 \<and> f = 4 # a \<and> addr = Ipv6 a)"

lemma split_port:
  assumes "n + 2 \<le> length xs"
  shows "xs = take n xs @ to_be 2 (of_be [xs ! n, xs ! (n + 1)] :: u16) @ drop (n + 2) xs"
proof -
  have "drop n xs = xs ! n # xs ! (n + 1) # drop (n + 2) xs"
    using assms by (simp add: Cons_nth_drop_Suc)
  moreover have "to_be 2 (of_be [xs ! n, xs ! (n + 1)] :: u16) = [xs ! n, xs ! (n + 1)]" by simp
  ultimately show ?thesis by (metis append_Cons append_Nil append_take_drop_id)
qed

lemma of_be_pair: "of_be [to_be 2 (w :: u16) ! 0, to_be 2 w ! Suc 0] = w"
proof -
  have "[to_be 2 w ! 0, to_be 2 w ! Suc 0] = to_be 2 w"
    by (rule nth_equalityI) (auto simp: nth_Cons less_Suc_eq numeral_2_eq_2 split: nat.splits)
  then show ?thesis by simp
qed

lemma socks5_cmd_cases: "socks5_parse_cmd c = Some cmd \<longleftrightarrow> c = socks5_cmd_byte cmd"
  by (cases cmd) (auto simp: socks5_parse_cmd_def)

lemma socks5_addr_accepts:
  assumes "socks5_addr_field f addr"
  shows "socks5_parse_addr (b0 # b1 # b2 # f @ x # y # rest) = Some (addr, 3 + length f) \<and> 4 \<le> length f + 2"
proof -
  consider (v4) a where "length a = 4" "f = 1 # a" "addr = Ipv4 a"
    | (dom) d where "length d < 256" "f = 3 # of_nat (length d) # d" "addr = Domain (from_utf8_lossy d)"
    | (v6) a where "length a = 16" "f = 4 # a" "addr = Ipv6 a"
    using assms by (auto simp: socks5_addr_field_def)
  then show ?thesis
  proof cases
    case v4
    then obtain k l m n where "a = [k, l, m, n]" by (auto simp: length_Suc_conv numeral_eq_Suc)
    then show ?thesis using v4 by (simp add: socks5_parse_addr_def)
  next
    case dom
    then show ?thesis by (simp add: socks5_parse_addr_def slice_def)
  next
    case v6
    then show ?thesis by (simp add: socks5_parse_addr_def slice_def)
  qed
qed

lemma slice_Suc: "lo < hi \<Longrightarrow> lo < length xs \<Longrightarrow> slice lo hi xs = xs ! lo # slice (Suc lo) hi xs"
proof -
  assume "lo < hi" "lo < length xs"
  then have "hi - lo = Suc (hi - Suc lo)" "drop lo xs = xs ! lo # drop (Suc lo) xs"
    by (simp_all add: Cons_nth_drop_Suc)
  then show ?thesis by (simp add: slice_def)
qed

lemma socks5_addr_Some:
  assumes "socks5_parse_addr buf = Some (addr, n)" and "7 \<le> length buf"
  shows "3 \<le> n \<and> n + 2 \<le> length buf \<and> socks5_addr_field (slice 3 n buf) addr"
proof -
  have tag: "3 < n \<Longrightarrow> slice 3 n buf = buf ! 3 # slice 4 n buf" for n
    using assms(2) by (simp add: slice_Suc numeral_eq_Suc)
  have "(buf ! 3 = 1 \<and> 10 \<le> length buf \<and> addr = Ipv4 [buf ! 4, buf ! 5, buf ! 6, buf ! 7] \<and> n = 8)
     \<or> (buf ! 3 = 3 \<and> 5 + unat (buf ! 4) + 2 \<le> length buf
         \<and> addr = Domain (from_utf8_lossy (slice 5 n buf)) \<and> n = 5 + unat (buf ! 4))
     \<or> (buf ! 3 = 4 \<and> 22 \<le> length buf \<and> addr = Ipv6 (slice 4 20 buf) \<and> n = 20)"
    using assms(1) unfolding socks5_parse_addr_def Let_def by (auto split: if_split_asm)
  then consider (v4) "buf ! 3 = 1" "10 \<le> length buf" "addr = Ipv4 [buf ! 4, buf ! 5, buf ! 6, buf ! 7]" "n = 8"
    | (dom) "buf ! 3 = 3" "5 + unat (buf ! 4) + 2 \<le> length buf"
        "addr = Domain (from_utf8_lossy (slice 5 n buf))" "n = 5 + unat (buf ! 4)"
    | (v6) "buf ! 3 = 4" "22 \<le> length buf" "addr = Ipv6 (slice 4 20 buf)" "n = 20"
    by blast
  then show ?thesis
  proof cases
    case v4
    then have "slice 4 8 buf = [buf ! 4, buf ! 5, buf ! 6, buf ! 7]"
      by (intro nth_equalityI) (auto simp: nth_Cons numeral_eq_Suc less_Suc_eq split: nat.splits)
    then show ?thesis using v4 tag [of 8] by (simp add: socks5_addr_field_def)
  next
    case dom
    have "slice 4 n buf = buf ! 4 # slice 5 n buf"
      using dom by (simp add: slice_Suc numeral_eq_Suc)
    moreover have "length (slice 5 n buf) = unat (buf ! 4)" using dom by simp
    moreover have "unat (buf ! 4) < 256" using unsigned_less [of "buf ! 4"] by simp
    ultimately have "socks5_addr_field (slice 3 n buf) addr"
      using dom tag [of n] by (auto simp: socks5_addr_field_def intro!: exI [of _ "slice 5 n buf"])
    then show ?thesis using dom by simp
  next
    case v6
    then show ?thesis using tag [of 20] by (simp add: socks5_addr_field_def)
  qed
qed

text \<open>
  C38. The parser accepts exactly the byte strings that start with a SOCKS5 request: version 5, a
  command 1, 2 or 3, a zero byte, an address field of one of the three kinds and a port in network
  order; it returns these fields, a domain name with ill-formed UTF-8 replaced, and ignores what
  follows.  Everything else is a protocol error.
\<close>

theorem socks5_parse_exact:
  "(socks5_parse buf = Inr r \<longleftrightarrow>
      (\<exists>f rest. buf = [5, socks5_cmd_byte (s5_cmd r), 0] @ f @ to_be 2 (s5_port r) @ rest
        \<and> socks5_addr_field f (s5_addr r)))
   \<and> (isl (socks5_parse buf) \<longleftrightarrow> socks5_parse buf = Inl Socks5Protocol)"
proof (intro conjI iffI)
  assume r: "socks5_parse buf = Inr r"
  then have len: "7 \<le> length buf" and head: "buf ! 0 = 5" "buf ! 2 = 0"
    by (auto simp: socks5_parse_def split: if_split_asm)
  from r len head obtain n where
    cmd: "buf ! 1 = socks5_cmd_byte (s5_cmd r)" and n: "socks5_parse_addr buf = Some (s5_addr r, n)"
    and port: "s5_port r = of_be [buf ! n, buf ! (n + 1)]"
    by (auto simp: socks5_parse_def Let_def socks5_cmd_cases split: option.splits)
  note addr = socks5_addr_Some [OF n len]
  have pos: "0 < n" "1 < n" "2 < n" "0 < length buf" "1 < length buf" "2 < length buf"
    using addr len by linarith+
  have "slice 0 n buf = [buf ! 0, buf ! 1, buf ! 2] @ slice 3 n buf"
    using slice_Suc [OF pos(1,4)] slice_Suc [OF pos(2,5)] slice_Suc [OF pos(3,6)]
    by (simp add: numeral_eq_Suc)
  then have "take n buf = [buf ! 0, buf ! 1, buf ! 2] @ slice 3 n buf" by (simp add: slice_def)
  then show "\<exists>f rest. buf = [5, socks5_cmd_byte (s5_cmd r), 0] @ f @ to_be 2 (s5_port r) @ rest
        \<and> socks5_addr_field f (s5_addr r)"
    using addr head cmd port split_port [of n buf] by (metis append.assoc)
next
  assume "\<exists>f rest. buf = [5, socks5_cmd_byte (s5_cmd r), 0] @ f @ to_be 2 (s5_port r) @ rest
        \<and> socks5_addr_field f (s5_addr r)"
  then obtain f rest where f: "socks5_addr_field f (s5_addr r)"
    and buf: "buf = [5, socks5_cmd_byte (s5_cmd r), 0] @ f @ to_be 2 (s5_port r) @ rest" by blast
  obtain x y where xy: "to_be 2 (s5_port r) = [x, y]"
    using length_to_be [of 2 "s5_port r"] by (auto simp: length_Suc_conv numeral_2_eq_2 simp del: length_to_be)
  have port: "of_be [x, y] = s5_port r" using of_be_to_be [of 2 "s5_port r"] by (simp add: xy)
  have "buf = 5 # socks5_cmd_byte (s5_cmd r) # 0 # f @ x # y # rest" by (simp add: buf xy)
  moreover note socks5_addr_accepts [OF f, of 5 "socks5_cmd_byte (s5_cmd r)" 0 x y rest]
  ultimately show "socks5_parse buf = Inr r"
    using socks5_cmd_cases [of "socks5_cmd_byte (s5_cmd r)" "s5_cmd r"] port
    by (simp add: socks5_parse_def nth_append)
next
  assume "isl (socks5_parse buf)"
  then show "socks5_parse buf = Inl Socks5Protocol"
    by (auto simp: socks5_parse_def Let_def split: if_split_asm option.splits)
qed simp

section \<open>The keys of a circuit\<close>

text \<open>\<open>acquire(32)\<close> on a well-formed pool gives 32 bytes, so the session is always created.\<close>

lemma acquire_session:
  assumes "key_pool_inv p" and "acquire 32 p = (Inr (i, k), p')"
  shows "wc_session_new k 0 Sender = Inr \<lparr>ws_master_key = k, ws_word_count = 0, ws_role = Sender\<rparr>"
  using acquire_InrD [OF assms] by (auto simp: wc_session_new_def SESSION_KEY_LEN_def POLY1305_KEY_LEN_def)

definition fresh_hop :: "hop_context \<Rightarrow> bool" where
  "fresh_hop h \<longleftrightarrow> ws_role (hop_session h) = Sender \<and> ws_word_count (hop_session h) = 0
     \<and> length (ws_master_key (hop_session h)) = 32"

lemma build_hops_Inr:
  "key_pool_inv p \<Longrightarrow> build_hops i addrs p = (Inr hops, p') \<Longrightarrow>
     \<exists>ks. acquire_each acquire (replicate (length addrs) 32) p = (ks, p')
       \<and> map snd ks = map (\<lambda>h. ws_master_key (hop_session h)) hops
       \<and> length hops = length addrs \<and> (\<forall>h \<in> set hops. fresh_hop h)"
proof (induction addrs arbitrary: i p hops)
  case Nil
  then show ?case by simp
next
  case (Cons a as)
  then obtain j k p1 where acq: "acquire 32 p = (Inr (j, k), p1)"
    by (auto split: sum.splits prod.splits)
  note s = acquire_session [OF Cons.prems(1) acq]
  obtain hops1 where h: "build_hops (i + 1) as p1 = (Inr hops1, p')"
    "hops = \<lparr>hop_session = \<lparr>ws_master_key = k, ws_word_count = 0, ws_role = Sender\<rparr>,
       hop_addr = a, hop_idx = i\<rparr> # hops1"
    using Cons.prems(2) by (auto simp: acq s split: sum.splits prod.splits)
  have "key_pool_inv p1" using acquire_InrD [OF Cons.prems(1) acq] by simp
  moreover have "length k = 32" using acquire_InrD [OF Cons.prems(1) acq] by auto
  ultimately show ?case using Cons.IH [of p1 "i + 1" hops1] h(1) by (auto simp: acq h(2) fresh_hop_def)
qed

lemma build_hops_Inl:
  "key_pool_inv p \<Longrightarrow> build_hops i addrs p = (Inl e, p') \<Longrightarrow>
     (\<exists>k. e = QonionKeyPool k) \<and> pool_keys p' \<subseteq>\<^sub>m pool_keys p"
proof (induction addrs arbitrary: i p)
  case Nil
  then show ?case by simp
next
  case (Cons a as)
  show ?case
  proof (cases "acquire 32 p")
    case (Pair r p1)
    show ?thesis
    proof (cases r)
      case (Inl k)
      then show ?thesis using Cons.prems(2) Pair acquire_Inl [of 32 p k p1] by auto
    next
      case (Inr x)
      obtain j k where x: "x = (j, k)" by fastforce
      have acq: "acquire 32 p = (Inr (j, k), p1)" by (simp add: Pair Inr x)
      note s = acquire_session [OF Cons.prems(1) acq]
      have p1: "key_pool_inv p1" "pool_keys p1 \<subseteq>\<^sub>m pool_keys p"
        using acquire_InrD [OF Cons.prems(1) acq] by (simp_all add: map_le_def)
      have "build_hops (i + 1) as p1 = (Inl e, p')"
        using Cons.prems(2) by (auto simp: acq s split: sum.splits prod.splits)
      from Cons.IH [OF p1(1) this] show ?thesis using p1(2) by (auto intro: map_le_trans)
    qed
  qed
qed

text \<open>A configuration names three nodes, and a node, once there, is well formed.\<close>

definition pipeline_ok :: "qonion_pipeline \<Rightarrow> bool" where
  "pipeline_ok q \<longleftrightarrow> length (qc_node_addrs (qp_config q)) = CIRCUIT_HOPS
     \<and> (\<forall>n. qp_node q = Some n \<longrightarrow> node_inv n)"

definition pipeline_circuit :: "u32 \<Rightarrow> qonion_pipeline \<Rightarrow> circuit option" where
  "pipeline_circuit i q = Option.bind (qp_node q) (get_circuit i)"

lemma build_circuit_keys:
  assumes "key_pool_inv p" and "pipeline_ok q" and "build_circuit cid p q = (Inr (), p', q')"
  shows "qp_authenticated q \<and> key_pool_inv p' \<and> pipeline_ok q' \<and>
    (\<exists>c ks. pipeline_circuit cid q' = Some c \<and> length (circ_hops c) = CIRCUIT_HOPS
       \<and> (\<forall>h \<in> set (circ_hops c). fresh_hop h)
       \<and> map snd ks = map (\<lambda>h. ws_master_key (hop_session h)) (circ_hops c) \<and> distinct (map fst ks)
       \<and> (\<forall>(i, k) \<in> set ks. \<exists>d. pool_keys p i = Some d \<and> k = take 32 d \<and> length k = 32 \<and> pool_keys p' i = None))"
proof -
  obtain hops p1 where hops: "build_hops 0 (qc_node_addrs (qp_config q)) p = (Inr hops, p1)"
    and auth: "qp_authenticated q"
    using assms(3) by (auto simp: build_circuit_def split: if_splits sum.splits prod.splits)
  let ?c = "\<lparr>circ_id = cid, circ_hops = hops, circ_state = Ready\<rparr>"
  let ?n = "get_or_insert_node q"
  obtain r n' where rn: "register_circuit ?c ?n = (r, n')" by fastforce
  then have "build_circuit cid p q = (case r of Inl e \<Rightarrow> (Inl (CircuitBuild e), p1, q\<lparr>qp_node := Some n'\<rparr>)
      | Inr _ \<Rightarrow> (Inr (), p1, q\<lparr>qp_node := Some n'\<rparr>))"
    using auth by (simp add: build_circuit_def hops Let_def)
  then have n': "r = Inr ()" "p' = p1" "q' = q\<lparr>qp_node := Some n'\<rparr>"
    using assms(3) by (cases r; simp)+
  have n_inv: "node_inv ?n"
    using assms(2) by (auto simp: pipeline_ok_def get_or_insert_node_def split: option.splits)
  have "length (node_circuits ?n) \<noteq> MAX_CIRCUITS" "node_inv n'"
    using rn n'(1) qtor_register(1,2) [OF n_inv, of ?c] by (simp_all split: if_splits)
  then have reg: "get_circuit cid n' = Some ?c" "node_inv n'"
    using fun_cong [OF qtor_register(4) [OF n_inv, of ?c], of cid] by (simp_all add: rn)
  obtain ks where ks: "acquire_each acquire (replicate CIRCUIT_HOPS 32) p = (ks, p')"
    "map snd ks = map (\<lambda>h. ws_master_key (hop_session h)) hops" "length hops = CIRCUIT_HOPS"
    "\<forall>h \<in> set hops. fresh_hop h"
    using build_hops_Inr [OF assms(1) hops] assms(2) n'(2) by (auto simp: pipeline_ok_def)
  note each = pool.each_distinct [OF assms(1) ks(1)]
  have "\<exists>d. pool_keys p i = Some d \<and> k = take 32 d \<and> length k = 32 \<and> pool_keys p' i = None"
    if ik: "(i, k) \<in> set ks" for i k
  proof -
    have "k \<in> set (map snd ks)" "i \<in> fst ` set ks" using ik by force+
    then have "length k = 32" "pool_keys p' i = None" using ks(4) each by (auto simp: ks(2) fresh_hop_def)
    then show ?thesis using each ik by fastforce
  qed
  then have "\<forall>(i, k) \<in> set ks. \<exists>d. pool_keys p i = Some d \<and> k = take 32 d \<and> length k = 32 \<and> pool_keys p' i = None"
    by blast
  then show ?thesis
    using auth each ks reg n'(3) assms(2)
    by (auto simp: pipeline_circuit_def pipeline_ok_def intro!: exI [of _ ks])
qed

text \<open>
  C39. A circuit is built only after authentication, and then on three keys of 32 bytes, each the
  front of a different block that was available in the pool and is gone from it afterwards; the
  circuit is stored under its number with three fresh sender sessions.
\<close>

theorem qonion_circuit_keys:
  assumes "key_pool_inv p" and "pipeline_ok q" and "build_circuit cid p q = (Inr (), p', q')"
  shows "qp_authenticated q \<and> key_pool_inv p' \<and> pipeline_ok q' \<and>
    (\<exists>c ks. pipeline_circuit cid q' = Some c \<and> length (circ_hops c) = CIRCUIT_HOPS
       \<and> (\<forall>h \<in> set (circ_hops c). fresh_hop h)
       \<and> map snd ks = map (\<lambda>h. ws_master_key (hop_session h)) (circ_hops c) \<and> distinct (map fst ks)
       \<and> (\<forall>(i, k) \<in> set ks. \<exists>d. pool_keys p i = Some d \<and> k = take 32 d \<and> length k = 32 \<and> pool_keys p' i = None))"
  using assms by (rule build_circuit_keys)

lemma build_circuit_hops_Inl:
  "qp_authenticated q \<Longrightarrow> build_hops 0 (qc_node_addrs (qp_config q)) p = (Inl e, p') \<Longrightarrow>
   build_circuit cid p q = (Inl e, p', q)"
  by (simp add: build_circuit_def)

lemma distinct_keys_card:
  assumes "finite (dom m)" and "distinct (map fst ks)" and "fst ` set ks \<subseteq> dom m"
  shows "length ks \<le> card (dom m)"
proof -
  have "length ks = card (fst ` set ks)" using distinct_card [OF assms(2)] by simp
  then show ?thesis using card_mono [OF assms(1,3)] by simp
qed

lemma finite_pool_keys: "finite (dom (pool_keys p))"
proof -
  have "dom (pool_keys p) \<subseteq> kb_id ` set (kp_blocks p)"
    using keys_of_blocks_absent by (fastforce simp: pool_keys_def)
  then show ?thesis by (rule finite_subset) simp
qed

text \<open>
  A build that runs out of blocks burns the keys it has taken: with fewer than three blocks in the
  pool, of which one can be acquired, the build fails, the pipeline stays as it was, and at least
  one block is lost without a circuit to use it.
\<close>

theorem qonion_failed_build_burns_keys:
  assumes "key_pool_inv p" and "pipeline_ok q" and "qp_authenticated q"
    and "acquirable 32 p" and "card (dom (pool_keys p)) < CIRCUIT_HOPS"
    and "build_circuit cid p q = (r, p', q')"
  shows "(\<exists>e. r = Inl (QonionKeyPool e)) \<and> q' = q \<and> card (dom (pool_keys p')) < card (dom (pool_keys p))"
proof -
  let ?addrs = "qc_node_addrs (qp_config q)"
  have three: "length ?addrs = CIRCUIT_HOPS" using assms(2) by (simp add: pipeline_ok_def)
  obtain b p1 where b: "build_hops 0 ?addrs p = (b, p1)" by fastforce
  have "b \<noteq> Inr hops" for hops
  proof
    assume "b = Inr hops"
    then obtain ks where ks: "acquire_each acquire (replicate (length ?addrs) 32) p = (ks, p1)"
      "map snd ks = map (\<lambda>h. ws_master_key (hop_session h)) hops" "length hops = length ?addrs"
      using build_hops_Inr [OF assms(1), of 0 ?addrs hops p1] b by auto
    have "length ks = CIRCUIT_HOPS" using ks(2,3) three by (metis length_map)
    moreover have "length ks \<le> card (dom (pool_keys p))"
      using pool.each_distinct [OF assms(1) ks(1)] by (intro distinct_keys_card finite_pool_keys) auto
    ultimately show False using assms(5) by simp
  qed
  then obtain e where e: "b = Inl e" by (cases b) auto
  have r: "r = Inl e" "p' = p1" "q' = q"
    using build_circuit_hops_Inl [OF assms(3) b [unfolded e], of cid] assms(6) by simp_all
  obtain a as where addrs: "?addrs = a # as" using three by (cases ?addrs) (auto simp: CIRCUIT_HOPS_def)
  obtain i k p2 where acq: "acquire 32 p = (Inr (i, k), p2)"
    using assms(4) acquire_succeeds [of 32 p] by auto
  note acqD = acquire_InrD [OF assms(1) acq]
  have "build_hops (0 + 1) as p2 = (Inl e, p1)"
    using b by (auto simp: addrs acq e acquire_session [OF assms(1) acq] split: sum.splits prod.splits)
  then have "pool_keys p1 \<subseteq>\<^sub>m pool_keys p2" "\<exists>k. e = QonionKeyPool k"
    using build_hops_Inl acqD by blast+
  moreover have "dom (pool_keys p2) \<subset> dom (pool_keys p)" using acqD by auto
  ultimately show ?thesis
    using r map_le_implies_dom_le finite_pool_keys by (metis psubset_card_mono subset_psubset_trans)
qed

section \<open>End to end\<close>

text \<open>A circuit all of whose senders stand at or below \<open>k\<close> messages of maximal length.\<close>

definition circuit_used :: "nat \<Rightarrow> circuit \<Rightarrow> bool" where
  "circuit_used k c \<longleftrightarrow> length (circ_hops c) = CIRCUIT_HOPS
     \<and> (\<forall>h \<in> set (circ_hops c). ws_role (hop_session h) = Sender \<and> unat (ws_word_count (hop_session h)) \<le> k * 8192)"

lemma wc_seal_room:
  assumes "ws_role s = Sender" and "unat (ws_word_count s) \<le> k * 8192" and "k < 2 ^ 40"
    and "m \<noteq> []" and "length m \<le> MAX_MSG_LEN"
  shows "\<exists>raw s'. wc_seal m s = (Inr raw, s') \<and> length raw = length m + 28 \<and> raw \<noteq> []
    \<and> ws_role s' = Sender \<and> unat (ws_word_count s') \<le> Suc k * 8192"
proof -
  have "(length m + 7) div 8 \<le> 8192" using assms(5) by (simp add: MAX_MSG_LEN_def)
  then have "unat (ws_word_count s) + (length m + 7) div 8 \<le> Suc k * 8192" using assms(2) by simp
  moreover have "Suc k * 8192 < 2 ^ 64" using assms(3) by simp
  ultimately have fits: "wc_fits (ws_word_count s) m" using assms(4,5) unfolding wc_fits_def by linarith
  then show ?thesis
    using assms(1) \<open>_ + _ \<le> Suc k * 8192\<close> unat_wc_after [OF fits] by (simp add: wc_seal_fits)
qed

lemma onion_loop_room:
  "\<forall>h \<in> set hs. ws_role (hop_session h) = Sender \<and> unat (ws_word_count (hop_session h)) \<le> k * 8192 \<Longrightarrow>
   k < 2 ^ 40 \<Longrightarrow> m \<noteq> [] \<Longrightarrow> length m + 28 * length hs \<le> MAX_MSG_LEN + 28 \<Longrightarrow>
   \<exists>raw ks. onion_loop hs m = (Inr raw, ks) \<and> length ks = length hs
     \<and> (\<forall>h \<in> set ks. ws_role (hop_session h) = Sender \<and> unat (ws_word_count (hop_session h)) \<le> Suc k * 8192)"
proof (induction hs arbitrary: m)
  case Nil
  then show ?case by simp
next
  case (Cons h hs)
  have "length m \<le> MAX_MSG_LEN" using Cons.prems(4) by simp
  then obtain raw s1 where s1: "wc_seal m (hop_session h) = (Inr raw, s1)" "length raw = length m + 28" "raw \<noteq> []"
    "ws_role s1 = Sender" "unat (ws_word_count s1) \<le> Suc k * 8192"
    using wc_seal_room [of "hop_session h" k m] Cons.prems(1-3) by auto
  have "length raw + 28 * length hs \<le> MAX_MSG_LEN + 28" using Cons.prems(4) s1(2) by simp
  then obtain raw2 ks where "onion_loop hs raw = (Inr raw2, ks)" "length ks = length hs"
    "\<forall>h \<in> set ks. ws_role (hop_session h) = Sender \<and> unat (ws_word_count (hop_session h)) \<le> Suc k * 8192"
    using Cons.IH [of raw] Cons.prems(1,2) s1(3) by auto
  then show ?case using s1 by simp
qed

lemma onion_encrypt_room:
  assumes "circuit_used k c" and "k < 2 ^ 40" and "m \<noteq> []" and "length m \<le> MAX_MSG_LEN - 56"
  shows "\<exists>raw c'. onion_encrypt m c = (Inr raw, c') \<and> circuit_used (Suc k) c'"
proof -
  have three: "length (circ_hops c) = CIRCUIT_HOPS" using assms(1) by (simp add: circuit_used_def)
  have "length m + 28 * length (rev (circ_hops c)) \<le> MAX_MSG_LEN + 28"
    using assms(4) three by (simp add: CIRCUIT_HOPS_def MAX_MSG_LEN_def)
  then obtain raw ks where ks: "onion_loop (rev (circ_hops c)) m = (Inr raw, ks)" "length ks = length (circ_hops c)"
    "\<forall>h \<in> set ks. ws_role (hop_session h) = Sender \<and> unat (ws_word_count (hop_session h)) \<le> Suc k * 8192"
    using onion_loop_room [of "rev (circ_hops c)" k m] assms by (auto simp: circuit_used_def)
  then have "onion_encrypt m c = (Inr raw, c\<lparr>circ_hops := rev ks\<rparr>)" using three by (simp add: onion_encrypt_Inr)
  then show ?thesis using ks three by (auto simp: circuit_used_def)
qed

lemma pipeline_send_circuit:
  assumes "pipeline_circuit cid q = Some c" and "onion_encrypt m c = (r, c')"
  shows "pipeline_circuit cid (snd (pipeline_send cid m q)) = Some c'"
    and "fst (pipeline_send cid m q) = (case r of Inl e \<Rightarrow> Inl (CircuitBuild e) | Inr raw \<Rightarrow> Inr raw)"
proof -
  obtain n where n: "qp_node q = Some n" "get_circuit cid n = Some c"
    using assms(1) by (auto simp: pipeline_circuit_def bind_eq_Some_conv)
  have "get_circuit cid (set_circuit cid c' n) = Some c'"
    by (simp add: get_circuit_def set_circuit_def update_conv')
  then show "pipeline_circuit cid (snd (pipeline_send cid m q)) = Some c'"
    using n assms(2) by (cases r) (simp_all add: pipeline_send_def pipeline_circuit_def Let_def)
  show "fst (pipeline_send cid m q) = (case r of Inl e \<Rightarrow> Inl (CircuitBuild e) | Inr raw \<Rightarrow> Inr raw)"
    using n assms(2) by (cases r) (simp_all add: pipeline_send_def Let_def)
qed

lemma pipeline_send_Inr:
  assumes "pipeline_circuit cid q = Some c" and "pipeline_send cid m q = (Inr raw, q')"
  shows "\<exists>c'. onion_encrypt m c = (Inr raw, c') \<and> pipeline_circuit cid q' = Some c'"
proof -
  obtain r c' where c': "onion_encrypt m c = (r, c')" by fastforce
  from pipeline_send_circuit [OF assms(1) c'] show ?thesis
    using assms(2) c' by (cases r) simp_all
qed

definition pipeline_linked :: "u32 \<Rightarrow> qonion_pipeline \<Rightarrow> wc_session list \<Rightarrow> bool" where
  "pipeline_linked cid q rs \<longleftrightarrow> (\<exists>c. pipeline_circuit cid q = Some c \<and> circuit_linked c rs)"

interpretation pipeline: record_channel "pipeline_send cid" peel_route "pipeline_linked cid" for cid :: u32
proof
  fix q rs m raw q'
  assume "pipeline_linked cid q rs" and send: "pipeline_send cid m q = (Inr raw, q')"
  then obtain c where c: "pipeline_circuit cid q = Some c" "circuit_linked c rs"
    by (auto simp: pipeline_linked_def)
  from pipeline_send_Inr [OF c(1) send] onion.step [OF c(2)]
  show "\<exists>rs'. peel_route raw rs = (Inr m, rs') \<and> pipeline_linked cid q' rs'"
    unfolding pipeline_linked_def by blast
qed

lemma pipeline_send_all_room:
  "pipeline_circuit cid q = Some c \<Longrightarrow> circuit_used k c \<Longrightarrow> k + length msgs \<le> 2 ^ 40 \<Longrightarrow>
   \<forall>m \<in> set msgs. m \<noteq> [] \<and> length m \<le> MAX_MSG_LEN - 56 \<Longrightarrow>
   \<exists>raws q'. send_all (pipeline_send cid) msgs q = Some (raws, q')"
proof (induction msgs arbitrary: q c k)
  case Nil
  then show ?case by simp
next
  case (Cons m ms)
  then obtain raw c1 where c1: "onion_encrypt m c = (Inr raw, c1)" "circuit_used (Suc k) c1"
    using onion_encrypt_room [of k c m] by auto
  note sent = pipeline_send_circuit [OF Cons.prems(1) c1(1)]
  then obtain q1 where q1: "pipeline_send cid m q = (Inr raw, q1)" "pipeline_circuit cid q1 = Some c1"
    by (cases "pipeline_send cid m q") simp
  obtain raws q' where "send_all (pipeline_send cid) ms q1 = Some (raws, q')"
    using Cons.IH [OF q1(2) c1(2)] Cons.prems(3,4) by auto
  then show ?case using q1(1) by simp
qed

text \<open>The relays that hold the same hop keys as receivers.\<close>

definition relays_of :: "circuit \<Rightarrow> wc_session list" where
  "relays_of c = map (\<lambda>h. (hop_session h)\<lparr>ws_role := Receiver\<rparr>) (circ_hops c)"

lemma relays_linked: "(\<forall>h \<in> set (circ_hops c). fresh_hop h) \<Longrightarrow> circuit_linked c (relays_of c)"
  by (auto simp: circuit_linked_def relays_of_def list_all2_conv_all_nth fresh_hop_def wc_linked_def)

text \<open>
  C40. End to end: once a circuit is built, the pipeline takes every list of up to \<open>2 ^ 40\<close> non-empty
  messages of at most 65480 bytes, and relays that hold the hop keys peel the records, in order,
  to exactly these messages.
\<close>

theorem qonion_end_to_end:
  assumes "key_pool_inv p" and "pipeline_ok q" and "build_circuit cid p q = (Inr (), p', q')"
    and "pipeline_circuit cid q' = Some c" and "length msgs \<le> 2 ^ 40"
    and "\<forall>m \<in> set msgs. m \<noteq> [] \<and> length m \<le> MAX_MSG_LEN - 56"
  shows "\<exists>raws q'' rs. send_all (pipeline_send cid) msgs q' = Some (raws, q'')
    \<and> recv_each peel_route raws (relays_of c) = (msgs, rs)"
proof -
  have c: "length (circ_hops c) = CIRCUIT_HOPS" "\<forall>h \<in> set (circ_hops c). fresh_hop h"
    using build_circuit_keys [OF assms(1-3)] assms(4) by auto
  then have "circuit_used 0 c" by (auto simp: circuit_used_def fresh_hop_def)
  then obtain raws q'' where sent: "send_all (pipeline_send cid) msgs q' = Some (raws, q'')"
    using pipeline_send_all_room [OF assms(4), of 0 msgs] assms(5,6) by auto
  have "pipeline_linked cid q' (relays_of c)"
    using relays_linked [OF c(2)] assms(4) by (auto simp: pipeline_linked_def)
  from pipeline.all_arrive [OF this sent] sent show ?thesis by blast
qed

section \<open>Witnesses\<close>

definition demo_block :: "u64 \<Rightarrow> key_block" where
  "demo_block i = \<lparr>kb_id = i, kb_data = replicate 40 (ucast i), kb_state = Available\<rparr>"

definition demo_key_pool :: "u64 list \<Rightarrow> key_pool" where
  "demo_key_pool is = \<lparr>kp_blocks = map demo_block is, kp_next_id = 9, kp_low_water_mark = 64, kp_poisoned = False\<rparr>"

definition demo_pipeline :: qonion_pipeline where
  "demo_pipeline = snd (complete_auth (pipeline_new qonion_config_default))"

lemma demo_pipeline_ok: "pipeline_ok demo_pipeline" "qp_authenticated demo_pipeline"
  by (simp_all add: demo_pipeline_def pipeline_ok_def pipeline_new_def complete_auth_def
      qonion_config_default_def CIRCUIT_HOPS_def)

lemma demo_key_pool_inv: "distinct is \<Longrightarrow> \<forall>i \<in> set is. i < 9 \<Longrightarrow> key_pool_inv (demo_key_pool is)"
  by (auto simp: key_pool_inv_def demo_key_pool_def demo_block_def block_ok_def comp_def)

lemma demo_build:
  "\<exists>p' q'. build_circuit 7 (demo_key_pool [1, 2, 3, 4]) demo_pipeline = (Inr (), p', q')"
  by (simp add: build_circuit_def demo_pipeline_def pipeline_new_def complete_auth_def qonion_config_default_def
      acquire_def available_sum_def demo_key_pool_def demo_block_def wc_session_new_def SESSION_KEY_LEN_def
      POLY1305_KEY_LEN_def get_or_insert_node_def register_circuit_def node_new_def MAX_CIRCUITS_def Let_def)

theorem qonion_circuit_keys_witness:
  "\<exists>p' q' c. build_circuit 7 (demo_key_pool [1, 2, 3, 4]) demo_pipeline = (Inr (), p', q')
     \<and> pipeline_circuit 7 q' = Some c \<and> length (circ_hops c) = CIRCUIT_HOPS"
proof -
  obtain p' q' where b: "build_circuit 7 (demo_key_pool [1, 2, 3, 4]) demo_pipeline = (Inr (), p', q')"
    using demo_build by blast
  have "key_pool_inv (demo_key_pool [1, 2, 3, 4])" by (rule demo_key_pool_inv) simp_all
  from qonion_circuit_keys [OF this demo_pipeline_ok(1) b] b show ?thesis by blast
qed

theorem qonion_end_to_end_witness:
  "\<exists>p' q' c raws q'' rs. build_circuit 7 (demo_key_pool [1, 2, 3, 4]) demo_pipeline = (Inr (), p', q')
     \<and> pipeline_circuit 7 q' = Some c \<and> send_all (pipeline_send 7) [[1, 2], [3]] q' = Some (raws, q'')
     \<and> recv_each peel_route raws (relays_of c) = ([[1, 2], [3]], rs)"
proof -
  obtain p' q' where b: "build_circuit 7 (demo_key_pool [1, 2, 3, 4]) demo_pipeline = (Inr (), p', q')"
    using demo_build by blast
  have inv: "key_pool_inv (demo_key_pool [1, 2, 3, 4])" by (rule demo_key_pool_inv) simp_all
  obtain c where c: "pipeline_circuit 7 q' = Some c"
    using build_circuit_keys [OF inv demo_pipeline_ok(1) b] by blast
  from qonion_end_to_end [OF inv demo_pipeline_ok(1) b c, of "[[1, 2], [3]]"] b c show ?thesis
    by (simp add: MAX_MSG_LEN_def)
qed

theorem qonion_failed_build_burns_keys_witness:
  "\<exists>e p'. build_circuit 7 (demo_key_pool [1, 2]) demo_pipeline = (Inl (QonionKeyPool e), p', demo_pipeline)
     \<and> card (dom (pool_keys p')) < card (dom (pool_keys (demo_key_pool [1, 2])))"
proof -
  obtain r p' q' where b: "build_circuit 7 (demo_key_pool [1, 2]) demo_pipeline = (r, p', q')"
    by (metis prod_cases3)
  have inv: "key_pool_inv (demo_key_pool [1, 2])" by (rule demo_key_pool_inv) simp_all
  have two: "acquirable 32 (demo_key_pool [1, 2])" "card (dom (pool_keys (demo_key_pool [1, 2]))) < CIRCUIT_HOPS"
    by (simp_all add: acquirable_def available_sum_def demo_key_pool_def demo_block_def pool_keys_def CIRCUIT_HOPS_def)
  from qonion_failed_build_burns_keys [OF inv demo_pipeline_ok two b] b show ?thesis by auto
qed

end
