(* ===== verification/Ghash.thy ===== *)
theory Ghash
  imports Uhf
begin

text \<open>
  The block hash \<open>GHash\<close> of \<open>uhf/src/lib.rs\<close>: multiplication of sixteen-byte blocks bit by bit, the
  accumulator and its update.  Read as 128-bit words, most significant byte first, the loop of
  \<open>gf_mul\<close> adds up shifted copies of its first argument; it is linear in both arguments, so the
  hash is linear in the message, but it is not commutative and not the GHASH of SP 800-38D.
\<close>

definition GHASH_KEY_LEN :: nat where "GHASH_KEY_LEN = 16"

record ghash_key =
  gk_h :: bytes

record ghash =
  gh_h :: bytes
  gh_acc :: bytes

definition ghash_key_new :: "bytes \<Rightarrow> ghash_key" where
  "ghash_key_new h = \<lparr>gk_h = h\<rparr>"

definition ghash_key_from_slice :: "bytes \<Rightarrow> uhf_error + ghash_key" where
  "ghash_key_from_slice s =
     (if length s \<noteq> GHASH_KEY_LEN then Inl UhfInvalidKeyLength else Inr \<lparr>gk_h = s\<rparr>)"

definition ghash_new :: "ghash_key \<Rightarrow> ghash" where
  "ghash_new key = \<lparr>gh_h = gk_h key, gh_acc = replicate 16 0\<rparr>"

section \<open>Multiplication\<close>

text \<open>\<open>v[j] = (v[j] << 1) | (v[j + 1] >> 7)\<close> for \<open>j < 15\<close>, then the last byte and the reduction.\<close>

definition gf_shift :: "bytes \<Rightarrow> bytes" where
  "gf_shift v =
     (let msb = drop_bit 7 (v ! 0);
          v = foldl (\<lambda>v j. v[j := push_bit 1 (v ! j) OR drop_bit 7 (v ! (j + 1))]) v [0..<15];
          v = v[15 := push_bit 1 (v ! 15)]
      in if msb = 1 then v[15 := v ! 15 XOR 0xE1] else v)"

definition gf_mul_step :: "bytes \<Rightarrow> bytes \<times> bytes \<Rightarrow> nat \<Rightarrow> bytes \<times> bytes" where
  "gf_mul_step y zv i =
     (let (z, v) = zv; byte_idx = i div 8; bit_idx = 7 - i mod 8;
          z = (if drop_bit bit_idx (y ! byte_idx) AND 1 = 1
               then foldl (\<lambda>z j. z[j := z ! j XOR v ! j]) z [0..<16] else z)
      in (z, gf_shift v))"

definition gf_mul :: "bytes \<Rightarrow> bytes \<Rightarrow> bytes" where
  "gf_mul x y = fst (foldl (gf_mul_step y) (replicate 16 0, x) [0..<128])"

definition ghash_update_block :: "bytes \<Rightarrow> ghash \<Rightarrow> ghash" where
  "ghash_update_block block g =
     (let acc = foldl (\<lambda>acc i. acc[i := acc ! i XOR block ! i]) (gh_acc g) [0..<16]
      in g\<lparr>gh_acc := gf_mul acc (gh_h g)\<rparr>)"

fun ghash_update :: "bytes \<Rightarrow> ghash \<Rightarrow> ghash" where
  "ghash_update data g =
     (if data = [] then g
      else if 16 \<le> length data then ghash_update (drop 16 data) (ghash_update_block (take 16 data) g)
      else ghash_update_block (blit 0 data (replicate 16 0)) g)"

declare ghash_update.simps [simp del]

definition ghash_finalize :: "ghash \<Rightarrow> bytes" where
  "ghash_finalize g = gh_acc g"

section \<open>Blocks as words\<close>

lemma xor_loop:
  assumes "length z = 16" and "length v = 16"
  shows "foldl (\<lambda>z j. z[j := z ! j XOR v ! j]) z [0..<16] = xor_bytes z v"
proof -
  have "foldl (\<lambda>z j. z[j := z ! j XOR v ! j]) z [0..<16] = map (\<lambda>j. z ! j XOR v ! j) [0..<16] @ drop 16 z"
    using assms by (intro foldl_update_prefix [where m = 0]) auto
  also have "\<dots> = xor_bytes z v"
    using assms by (intro nth_equalityI) simp_all
  finally show ?thesis .
qed

lemma gf_shift_eq:
  assumes "length v = 16"
  shows "gf_shift v = map (\<lambda>j. push_bit 1 (v ! j) OR drop_bit 7 (v ! (j + 1))) [0..<15]
    @ [push_bit 1 (v ! 15) XOR (if drop_bit 7 (v ! 0) = 1 then 0xE1 else 0)]"
proof -
  have "foldl (\<lambda>v j. v[j := push_bit 1 (v ! j) OR drop_bit 7 (v ! (j + 1))]) v [0..<15]
      = map (\<lambda>j. push_bit 1 (v ! j) OR drop_bit 7 (v ! (j + 1))) [0..<15] @ drop 15 v"
    using assms by (intro foldl_update_prefix [where m = 1]) auto
  moreover have "drop 15 v = [v ! 15]"
    using assms Cons_nth_drop_Suc [of 15 v] by simp
  ultimately show ?thesis by (simp add: gf_shift_def Let_def list_update_append nth_append)
qed

lemma length_gf_shift [simp]: "length v = 16 \<Longrightarrow> length (gf_shift v) = 16"
  by (simp add: gf_shift_eq)

lemma gf_mul_step_eq:
  assumes "length z = 16" and "length v = 16"
  shows "gf_mul_step y (z, v) i =
    (if bit (y ! (i div 8)) (7 - i mod 8) then xor_bytes z v else z, gf_shift v)"
proof -
  have "drop_bit k b AND 1 = 1 \<longleftrightarrow> bit b k" for k and b :: u8
    by (simp add: and_one_eq mod2_eq_if bit_iff_odd_drop_bit odd_iff_mod_2_eq_one)
  then show ?thesis using assms by (simp add: gf_mul_step_def xor_loop)
qed

section \<open>Linearity\<close>

lemma byte_high_bits: "bit (b :: u8) (7 + n) \<longleftrightarrow> n = 0 \<and> bit b 7"
  by (cases n) (auto dest: bit_imp_le_length)

lemma byte_top_bit: "drop_bit 7 (b :: u8) = (if bit b 7 then 1 else 0)"
  by (rule bit_word_eqI) (auto simp: bit_drop_bit_eq bit_1_iff byte_high_bits)

lemma xor_double: "(a XOR b) * 2 = a * 2 XOR b * (2 :: u8)"
  using push_bit_xor [of 1 a b] by (simp add: push_bit_eq_mult del: push_bit_xor)

lemma even_double_bit: "\<not> bit (a * 2 :: u8) 0"
  by (simp add: bit_0)

lemma carry_in_xor:
  "(a * 2 XOR b * 2) OR (drop_bit 7 c XOR drop_bit 7 d)
     = (a * 2 OR drop_bit 7 c) XOR (b * 2 OR drop_bit 7 (d :: u8))"
proof (rule bit_word_eqI)
  fix n
  show "bit ((a * 2 XOR b * 2) OR (drop_bit 7 c XOR drop_bit 7 d)) n
      = bit ((a * 2 OR drop_bit 7 c) XOR (b * 2 OR drop_bit 7 d)) n"
    by (cases n) (auto simp: byte_top_bit bit_or_iff bit_xor_iff bit_1_iff even_double_bit)
qed

lemma gf_shift_xor:
  assumes "length a = 16" and "length b = 16"
  shows "gf_shift (xor_bytes a b) = xor_bytes (gf_shift a) (gf_shift b)"
proof (rule nth_equalityI)
  fix i
  assume "i < length (gf_shift (xor_bytes a b))"
  then consider "i < 15" | "i = 15" using assms by (simp add: gf_shift_eq) linarith
  then show "gf_shift (xor_bytes a b) ! i = xor_bytes (gf_shift a) (gf_shift b) ! i"
  proof cases
    case 1
    then show ?thesis
      using assms carry_in_xor [of "a ! i" "b ! i" "a ! Suc i" "b ! Suc i"]
      by (simp add: gf_shift_eq nth_append xor_double)
  next
    case 2
    then show ?thesis
      using assms by (simp add: gf_shift_eq nth_append byte_top_bit bit_xor_iff xor_double ac_simps)
  qed
qed (use assms in simp)

lemma xor_bytes_exchange:
  "length a = n \<Longrightarrow> length b = n \<Longrightarrow> length c = n \<Longrightarrow> length d = n \<Longrightarrow>
   xor_bytes (xor_bytes a b) (xor_bytes c d) = xor_bytes (xor_bytes a c) (xor_bytes b d)"
  by (rule nth_equalityI) (simp_all add: ac_simps)

lemma gf_mul_fold_xor:
  assumes "length z = 16" and "length v = 16" and "length z' = 16" and "length v' = 16"
  shows "foldl (gf_mul_step y) (xor_bytes z z', xor_bytes v v') is
      = (let (a, b) = foldl (gf_mul_step y) (z, v) is; (a', b') = foldl (gf_mul_step y) (z', v') is
         in (xor_bytes a a', xor_bytes b b'))
    \<and> length (fst (foldl (gf_mul_step y) (z, v) is)) = 16"
  using assms
proof (induction "is" arbitrary: z v z' v')
  case Nil
  then show ?case by simp
next
  case (Cons i "is")
  then show ?case
    using Cons.IH [of "if bit (y ! (i div 8)) (7 - i mod 8) then xor_bytes z v else z" "gf_shift v"
        "if bit (y ! (i div 8)) (7 - i mod 8) then xor_bytes z' v' else z'" "gf_shift v'"]
    by (simp add: gf_mul_step_eq gf_shift_xor xor_bytes_exchange [of z 16] split: if_splits)
qed

lemma length_gf_mul [simp]: "length x = 16 \<Longrightarrow> length (gf_mul x y) = 16"
  using gf_mul_fold_xor [of "replicate 16 0" x "replicate 16 0" x y "[0..<128]"] by (simp add: gf_mul_def)

lemma gf_mul_xor:
  assumes "length a = 16" and "length b = 16"
  shows "gf_mul (xor_bytes a b) y = xor_bytes (gf_mul a y) (gf_mul b y)"
proof -
  have "xor_bytes (replicate 16 0) (replicate 16 0) = (replicate 16 0 :: bytes)"
    by (rule nth_equalityI) simp_all
  then show ?thesis
    using gf_mul_fold_xor [of "replicate 16 0" a "replicate 16 0" b y "[0..<128]"] assms
    by (simp add: gf_mul_def split: prod.splits)
qed

text \<open>Two runs over the same key, and the run over the XOR of their blocks.\<close>

definition ghash_sum :: "ghash \<Rightarrow> ghash \<Rightarrow> ghash \<Rightarrow> bool" where
  "ghash_sum g a b \<longleftrightarrow> gh_h a = gh_h g \<and> gh_h b = gh_h g \<and> length (gh_acc a) = 16 \<and> length (gh_acc b) = 16
     \<and> gh_acc g = xor_bytes (gh_acc a) (gh_acc b)"

lemma ghash_update_block_eq:
  "length (gh_acc g) = 16 \<Longrightarrow> length block = 16 \<Longrightarrow>
   ghash_update_block block g = g\<lparr>gh_acc := gf_mul (xor_bytes (gh_acc g) block) (gh_h g)\<rparr>"
  by (simp add: ghash_update_block_def xor_loop Let_def)

lemma ghash_block_sum:
  assumes "ghash_sum g a b" and "length x = 16" and "length y = 16"
  shows "ghash_sum (ghash_update_block (xor_bytes x y) g) (ghash_update_block x a) (ghash_update_block y b)"
  using assms
  by (simp add: ghash_sum_def ghash_update_block_eq gf_mul_xor [symmetric] xor_bytes_exchange [of _ 16])

lemma xor_bytes_take: "take n (xor_bytes x y) = xor_bytes (take n x) (take n y)"
  by (simp add: xor_bytes_def take_zip take_map)

lemma xor_bytes_drop: "drop n (xor_bytes x y) = xor_bytes (drop n x) (drop n y)"
  by (simp add: xor_bytes_def drop_zip drop_map)

lemma xor_bytes_pad:
  "length x = length y \<Longrightarrow> length x \<le> 16 \<Longrightarrow>
   blit 0 (xor_bytes x y) (replicate 16 0) = xor_bytes (blit 0 x (replicate 16 0)) (blit 0 y (replicate 16 0))"
  by (rule nth_equalityI) (auto simp: blit_nth)

lemma ghash_update_sum:
  "ghash_sum g a b \<Longrightarrow> length x = length y \<Longrightarrow> ghash_sum (ghash_update (xor_bytes x y) g) (ghash_update x a) (ghash_update y b)"
proof (induction x a arbitrary: g y b rule: ghash_update.induct)
  case (1 x a)
  have len: "length (xor_bytes x y) = length x" using 1 by simp
  consider "x = []" | "16 \<le> length x" | "x \<noteq> []" "length x < 16" by linarith
  then show ?case
  proof cases
    case 1
    then show ?thesis using "1.prems" by (simp add: ghash_update.simps xor_bytes_def)
  next
    case 2
    then have "x \<noteq> []" "y \<noteq> []" "xor_bytes x y \<noteq> []"
      using len "1.prems"(2) by (auto simp del: length_xor_bytes)
    moreover have "ghash_sum (ghash_update_block (take 16 (xor_bytes x y)) g) (ghash_update_block (take 16 x) a)
        (ghash_update_block (take 16 y) b)"
      using 2 "1.prems" by (simp add: xor_bytes_take ghash_block_sum)
    ultimately have "ghash_sum (ghash_update (xor_bytes (drop 16 x) (drop 16 y)) (ghash_update_block (take 16 (xor_bytes x y)) g))
        (ghash_update (drop 16 x) (ghash_update_block (take 16 x) a)) (ghash_update (drop 16 y) (ghash_update_block (take 16 y) b))"
      using 2 "1.prems"(2) by (intro "1.IH") simp_all
    then show ?thesis
      using 2 len "1.prems"(2) \<open>x \<noteq> []\<close> \<open>y \<noteq> []\<close> \<open>xor_bytes x y \<noteq> []\<close>
      by (simp add: ghash_update.simps [of x] ghash_update.simps [of y] ghash_update.simps [of "xor_bytes x y"] xor_bytes_drop)
  next
    case 3
    then have ne: "x \<noteq> []" "y \<noteq> []" "xor_bytes x y \<noteq> []"
      using len "1.prems"(2) by (auto simp del: length_xor_bytes)
    have "ghash_sum (ghash_update_block (blit 0 (xor_bytes x y) (replicate 16 0)) g)
        (ghash_update_block (blit 0 x (replicate 16 0)) a) (ghash_update_block (blit 0 y (replicate 16 0)) b)"
      using 3 "1.prems" by (simp add: xor_bytes_pad ghash_block_sum)
    moreover have "\<not> 16 \<le> length x" "\<not> 16 \<le> length y" "\<not> 16 \<le> length (xor_bytes x y)"
      using 3 "1.prems"(2) by simp_all
    ultimately show ?thesis
      using ne by (simp add: ghash_update.simps [of x] ghash_update.simps [of y] ghash_update.simps [of "xor_bytes x y"])
  qed
qed

definition ghash_of :: "bytes \<Rightarrow> bytes \<Rightarrow> bytes" where
  "ghash_of h msg = ghash_finalize (ghash_update msg (ghash_new (ghash_key_new h)))"

text \<open>
  Under one key the hash is linear: the hash of the XOR of two messages of one length is the XOR
  of their hashes, whatever the length of the messages and whatever the key.
\<close>

theorem ghash_linear:
  assumes "length m = length m'"
  shows "ghash_of h (xor_bytes m m') = xor_bytes (ghash_of h m) (ghash_of h m')"
proof -
  let ?g = "ghash_new (ghash_key_new h)"
  have "replicate 16 0 = xor_bytes (replicate 16 0) (replicate 16 0)"
    by (rule nth_equalityI) simp_all
  then have "ghash_sum ?g ?g ?g" by (simp add: ghash_sum_def ghash_new_def)
  from ghash_update_sum [OF this assms] show ?thesis
    by (simp add: ghash_of_def ghash_finalize_def ghash_sum_def)
qed

theorem ghash_linear_witness:
  "ghash_of (replicate 16 0x42) (xor_bytes [1, 2, 3] [4, 5, 6])
     = xor_bytes (ghash_of (replicate 16 0x42) [1, 2, 3]) (ghash_of (replicate 16 0x42) [4, 5, 6])"
  by (rule ghash_linear) simp

lemma gf_mul_no_bits:
  "\<forall>i \<in> set is. \<not> bit (y ! (i div 8)) (7 - i mod 8) \<Longrightarrow> length z = 16 \<Longrightarrow> length v = 16 \<Longrightarrow>
   fst (foldl (gf_mul_step y) (z, v) is) = z"
  by (induction "is" arbitrary: v) (simp_all add: gf_mul_step_eq)

lemma single_bit_blocks:
  "bit ((0x80 # replicate 15 0) ! (i div 8) :: u8) (7 - i mod 8) \<longleftrightarrow> i = 0"
  "bit ((0x40 # replicate 15 0) ! (i div 8) :: u8) (7 - i mod 8) \<longleftrightarrow> i = 1" if "i < 128" for i
proof -
  have bits: "bit (0x80 :: u8) n \<longleftrightarrow> n = 7" "bit (0x40 :: u8) n \<longleftrightarrow> n = 6" for n
  proof -
    have "(0x80 :: u8) = push_bit 7 1" "(0x40 :: u8) = push_bit 6 1" by simp_all
    then show "bit (0x80 :: u8) n \<longleftrightarrow> n = 7" "bit (0x40 :: u8) n \<longleftrightarrow> n = 6"
      by (auto simp only: bit_push_bit_iff bit_1_iff) (auto dest: bit_imp_le_length)
  qed
  have "i div 8 < 16" using that by simp
  then consider "i < 8" | j where "i div 8 = Suc j" "j < 15" by (cases "i div 8") auto
  then have "(bit ((0x80 # replicate 15 0) ! (i div 8) :: u8) (7 - i mod 8) \<longleftrightarrow> i = 0)
      \<and> (bit ((0x40 # replicate 15 0) ! (i div 8) :: u8) (7 - i mod 8) \<longleftrightarrow> i = 1)"
    by cases (auto simp: bits simp del: bit_numeral_word_iff)
  then show "bit ((0x80 # replicate 15 0) ! (i div 8) :: u8) (7 - i mod 8) \<longleftrightarrow> i = 0"
    "bit ((0x40 # replicate 15 0) ! (i div 8) :: u8) (7 - i mod 8) \<longleftrightarrow> i = 1" by blast+
qed

text \<open>
  The multiplication is not that of a field: it is not commutative, so it is not the one of
  SP 800-38D, which is.  The loop reads the bits of \<open>y\<close> from the most significant one, as the
  standard does, but shifts \<open>x\<close> to the left where the standard shifts to the right.
\<close>

theorem gf_mul_not_commutative:
  "gf_mul (0x80 # replicate 15 0) (0x40 # replicate 15 0) = replicate 15 0 @ [0xE1]
   \<and> gf_mul (0x40 # replicate 15 0) (0x80 # replicate 15 0) = 0x40 # replicate 15 0"
proof
  have range: "[0..<128] = [0, 1] @ [2..<128]" by (simp add: upt_conv_Cons)
  let ?z = "replicate 16 0 :: bytes" and ?a = "0x80 # replicate 15 0 :: bytes" and ?b = "0x40 # replicate 15 0 :: bytes"
  have zero: "length x = 16 \<Longrightarrow> xor_bytes ?z x = x" for x by (rule nth_equalityI) simp_all
  have shifted: "gf_shift ?a = replicate 15 0 @ [0xE1]" by code_simp
  show "gf_mul ?a ?b = replicate 15 0 @ [0xE1]"
    using gf_mul_no_bits [of "[2..<128]" ?b "gf_shift ?a" "gf_shift (gf_shift ?a)"]
      single_bit_blocks(2) [of 0] single_bit_blocks(2) [of 1] single_bit_blocks(2)
    by (simp add: gf_mul_def range gf_mul_step_eq zero flip: shifted)
  show "gf_mul ?b ?a = ?b"
    using gf_mul_no_bits [of "[1..<128]" ?a ?b "gf_shift ?b"] single_bit_blocks(1) [of 0] single_bit_blocks(1)
    by (simp add: gf_mul_def upt_conv_Cons [of 0 128] gf_mul_step_eq zero)
qed

end
