(* ===== verification/Umac.thy ===== *)
theory Umac
  imports Uhf
begin

text \<open>
  The keyed hash \<open>Umac64\<close> of \<open>uhf/src/lib.rs\<close> and the hexadecimal rendering of tags: the key, the
  inner sum of products, the reduction modulo \<open>2 ^ 61 - 1\<close>, and what they get wrong.
\<close>

definition NH_KEY_WORDS :: nat where "NH_KEY_WORDS = 64"
definition NH_KEY_LEN :: nat where "NH_KEY_LEN = NH_KEY_WORDS * 8"
definition P61 :: u64 where "P61 = push_bit 61 1 - 1"

record umac_key =
  uk_nh_key :: "u64 list"
  uk_axu_a :: u64
  uk_axu_b :: u64

definition umac_key_new :: "bytes \<Rightarrow> uhf_error + umac_key" where
  "umac_key_new raw =
     (if length raw \<noteq> NH_KEY_LEN + 16 then Inl UhfInvalidKeyLength
      else
        let nh_key = map (\<lambda>i. of_le (slice (i * 8) (i * 8 + 8) raw)) [0..<NH_KEY_WORDS];
            axu_a = of_le (slice NH_KEY_LEN (NH_KEY_LEN + 8) raw);
            axu_b = of_le (slice (NH_KEY_LEN + 8) (NH_KEY_LEN + 16) raw)
        in Inr \<lparr>uk_nh_key = nh_key, uk_axu_a = axu_a, uk_axu_b = axu_b\<rparr>)"

definition nh_compress :: "u64 list \<Rightarrow> u64 list \<Rightarrow> u64" where
  "nh_compress key msg =
     (let w = min (length msg) (NH_KEY_WORDS div 2)
      in foldl (\<lambda>acc i. let a = msg ! i + key ! (2 * i); b = msg ! i + key ! (2 * i + 1) in acc + a * b)
           0 [0..<w])"

definition msg_to_words :: "bytes \<Rightarrow> u64 list \<times> nat" where
  "msg_to_words msg =
     (let nwords = min ((length msg + 7) div 8) (NH_KEY_WORDS div 2);
          words = foldl (\<lambda>words i. let chunk = take 8 (drop (8 * i) msg)
                                   in words[i := of_le (blit 0 chunk (replicate 8 0))])
                    (replicate (NH_KEY_WORDS div 2) 0) [0..<nwords]
      in (words, nwords))"

definition mod_p61 :: "u128 \<Rightarrow> u64" where
  "mod_p61 v =
     (let lo = ucast v AND P61; hi = ucast (drop_bit 61 v); s = lo + hi
      in if P61 \<le> s then s - P61 else s)"

definition add_mod_p61 :: "u64 \<Rightarrow> u64 \<Rightarrow> u64" where
  "add_mod_p61 a b = (let s = a + b in if P61 \<le> s then s - P61 else s)"

definition axu_finish :: "u64 \<Rightarrow> u64 \<Rightarrow> u64 \<Rightarrow> u64" where
  "axu_finish a x b =
     (let prod = ucast a * ucast x :: u128; r = mod_p61 prod in add_mod_p61 r (b AND P61))"

definition umac_mac :: "umac_key \<Rightarrow> bytes \<Rightarrow> u64" where
  "umac_mac key msg =
     (if msg = [] then uk_axu_b key
      else
        let (words, n) = msg_to_words msg;
            nh = nh_compress (uk_nh_key key) (take n words)
        in axu_finish (uk_axu_a key) nh (uk_axu_b key))"

definition umac_verify :: "umac_key \<Rightarrow> bytes \<Rightarrow> u64 \<Rightarrow> uhf_error + unit" where
  "umac_verify key msg expected =
     (let computed = umac_mac key msg;
          diff = computed XOR expected;
          ok = (1 - drop_bit 63 (diff OR - diff)) AND 1
      in if ok = 1 then Inr () else Inl UhfTagMismatch)"

section \<open>Hexadecimal rendering\<close>

definition HEX :: bytes where
  "HEX = map (\<lambda>c. word_of_nat (of_char c)) ''0123456789abcdef''"

definition tag_to_hex_buf :: "bytes \<Rightarrow> bytes \<Rightarrow> bytes" where
  "tag_to_hex_buf tag out =
     foldl (\<lambda>out (i, b).
        if 2 * i + 1 < length out
        then out[2 * i := HEX ! unat (drop_bit 4 b), 2 * i + 1 := HEX ! unat (b AND 0xF)]
        else out) out (zip [0..<length tag] tag)"

section \<open>The reduction\<close>

abbreviation p61 :: nat where "p61 \<equiv> 2305843009213693951"

lemma P61_eq: "P61 = mask 61" "unat P61 = p61"
  by (simp_all add: P61_def mask_eq_exp_minus_1)

lemma unat_and_P61: "unat (w AND P61) = unat w mod 2 ^ 61"
  unfolding P61_eq(1) take_bit_eq_mask [symmetric]
  by (rule trans [OF unsigned_take_bit_eq take_bit_eq_mod])

lemma fold_p61: "(q * 2 ^ 61 + r) mod p61 = (r + q) mod p61"
proof -
  have "q * 2 ^ 61 + r = (r + q) + p61 * q" by simp
  then show ?thesis by (simp only: mod_mult_self2)
qed

lemma reduce_once: "s \<le> 2 * p61 - 1 \<Longrightarrow> (if p61 \<le> s then s - p61 else s) = s mod p61"
  by (auto simp: mod_if)

lemma mod_p61_correct:
  assumes "unat v < 2 ^ 122 - 1"
  shows "unat (mod_p61 v) = unat v mod p61"
proof -
  let ?lo = "unat v mod 2 ^ 61" and ?hi = "unat v div 2 ^ 61"
  have v: "unat v = ?hi * 2 ^ 61 + ?lo" by simp
  have hi: "?hi < 2 ^ 61" and lo: "?lo < 2 ^ 61"
    using assms by (simp_all add: less_mult_imp_div_less)
  have sum: "?lo + ?hi \<le> 2 * p61 - 1"
  proof (rule ccontr)
    assume "\<not> ?lo + ?hi \<le> 2 * p61 - 1"
    then have "?lo = p61" "?hi = p61" using hi lo by simp_all
    then show False using v assms by simp
  qed
  have ulo: "unat (ucast v AND P61 :: u64) = ?lo"
    by (simp add: unat_and_P61 unsigned_ucast_eq take_bit_eq_mod mod_mod_cancel)
  have uhi: "unat (ucast (drop_bit 61 v) :: u64) = ?hi"
    using hi by (subst unat_ucast_fits) (simp_all add: unat_shr)
  have s: "unat ((ucast v AND P61) + ucast (drop_bit 61 v) :: u64) = ?lo + ?hi"
    using hi lo by (subst unat_add_fits) (simp_all add: ulo uhi)
  have "unat (mod_p61 v) = (if p61 \<le> ?lo + ?hi then ?lo + ?hi - p61 else ?lo + ?hi)"
    by (simp add: mod_p61_def Let_def word_le_nat_alt P61_eq(2) s unat_sub_le)
  also have "\<dots> = (?lo + ?hi) mod p61" by (rule reduce_once [OF sum])
  also have "\<dots> = (?hi * 2 ^ 61 + ?lo) mod p61" by (rule fold_p61 [symmetric])
  finally show ?thesis by (simp only: v [symmetric])
qed

text \<open>
  When the product of multiplier and hash stays below \<open>2 ^ 122 - 1\<close>, the finishing step is exact:
  the result is \<open>a * x + b\<close> modulo \<open>2 ^ 61 - 1\<close>, with \<open>b\<close> cut to 61 bits.
\<close>

theorem umac_finish_exact:
  assumes "unat a * unat x < 2 ^ 122 - 1"
  shows "unat (axu_finish a x b) = (unat a * unat x + unat b mod 2 ^ 61) mod p61"
proof -
  let ?prod = "ucast a * ucast x :: u128" and ?b = "unat b mod 2 ^ 61"
  have wide: "unat (ucast w :: u128) = unat w" for w :: u64
  proof -
    have "unat w < 18446744073709551616" using unsigned_less [of w] by simp
    then show ?thesis by (intro unat_ucast_fits) simp
  qed
  have prod: "unat ?prod = unat a * unat x"
    using assms by (subst unat_mult_fits) (simp_all add: wide)
  have r: "unat (mod_p61 ?prod) = unat a * unat x mod p61"
    using assms prod mod_p61_correct [of ?prod] by simp
  have bound: "unat (mod_p61 ?prod) \<le> p61 - 1" "?b \<le> p61"
    using mod_less_divisor [of p61 "unat a * unat x"] mod_less_divisor [of "2 ^ 61" "unat b"] by (simp_all add: r)
  have s: "unat (mod_p61 ?prod + (b AND P61)) = unat (mod_p61 ?prod) + ?b"
    using bound by (subst unat_add_fits) (simp_all add: unat_and_P61)
  have "unat (axu_finish a x b)
      = (if p61 \<le> unat (mod_p61 ?prod) + ?b then unat (mod_p61 ?prod) + ?b - p61 else unat (mod_p61 ?prod) + ?b)"
    by (simp add: axu_finish_def add_mod_p61_def Let_def word_le_nat_alt P61_eq(2) s unat_sub_le)
  also have "\<dots> = (unat (mod_p61 ?prod) + ?b) mod p61"
    using bound by (intro reduce_once) linarith
  finally show ?thesis by (simp add: r mod_add_left_eq)
qed

theorem umac_finish_exact_witness:
  "unat (axu_finish 0xFFFFFFFF 0xFFFFFFFFFFFFFFFF 7) = (0xFFFFFFFF * 0xFFFFFFFFFFFFFFFF + 7) mod p61"
  using umac_finish_exact [of "0xFFFFFFFF" "0xFFFFFFFFFFFFFFFF" 7] by simp

text \<open>Beyond that bound the result is wrong: the upper bits of the product are cut off.\<close>

theorem umac_finish_wraps:
  "unat (axu_finish 0xFFFFFFFFFFFFFFFF 0xFFFFFFFFFFFFFFFF 0) \<noteq> 0xFFFFFFFFFFFFFFFF * 0xFFFFFFFFFFFFFFFF mod p61"
  by (simp add: axu_finish_def mod_p61_def add_mod_p61_def P61_def Let_def)

section \<open>What the hash does not see\<close>

definition msg_word :: "bytes \<Rightarrow> nat \<Rightarrow> u64" where
  "msg_word msg i = of_le (blit 0 (take 8 (drop (8 * i) msg)) (replicate 8 0))"

lemma umac_mac_words:
  "msg \<noteq> [] \<Longrightarrow> umac_mac key msg =
     axu_finish (uk_axu_a key)
       (nh_compress (uk_nh_key key) (map (msg_word msg) [0..<min ((length msg + 7) div 8) 32])) (uk_axu_b key)"
proof -
  let ?n = "min ((length msg + 7) div 8) 32"
  have "foldl (\<lambda>words i. words[i := msg_word msg i]) (replicate 32 0) [0..<?n]
      = map (msg_word msg) [0..<?n] @ drop ?n (replicate 32 0)"
    by (rule foldl_update_prefix [where m = "32 - ?n"]) auto
  moreover assume "msg \<noteq> []"
  ultimately show ?thesis
    by (simp add: umac_mac_def msg_to_words_def NH_KEY_WORDS_def Let_def flip: msg_word_def)
qed

lemma msg_word_prefix: "8 * i + 8 \<le> length msg \<Longrightarrow> msg_word (msg @ tail) i = msg_word msg i"
  by (simp add: msg_word_def)

lemma msg_word_zero_pad: "length msg mod 8 \<noteq> 0 \<Longrightarrow> 8 * i < length msg \<Longrightarrow> msg_word (msg @ [0]) i = msg_word msg i"
proof (cases "8 * i + 8 \<le> length msg")
  case False
  assume "length msg mod 8 \<noteq> 0" "8 * i < length msg"
  then obtain c where c: "drop (8 * i) msg = c" "length c < 8" using False by simp
  then have "blit 0 (take 8 (c @ [0])) (replicate 8 0) = blit 0 c (replicate 8 (0 :: u8))"
    by (intro nth_equalityI) (auto simp: blit_nth nth_append)
  then show ?thesis using c \<open>8 * i < length msg\<close> by (simp add: msg_word_def)
qed (simp add: msg_word_prefix)

text \<open>
  The hash does not tell messages apart that differ only after their first 256 bytes, nor a
  message whose length is no multiple of eight from the one with a zero byte appended: whatever
  the key, the tags are equal.
\<close>

theorem umac_collisions:
  assumes "256 \<le> length long" and "length short mod 8 \<noteq> 0"
  shows "umac_mac key (long @ tail) = umac_mac key long \<and> umac_mac key (short @ [0]) = umac_mac key short"
proof
  have ne: "long \<noteq> []" "long @ tail \<noteq> []" "short \<noteq> []" "short @ [0] \<noteq> []" using assms by auto
  have n: "min ((length (long @ tail) + 7) div 8) 32 = 32" "min ((length long + 7) div 8) 32 = 32"
    using assms(1) by simp_all
  have "map (msg_word (long @ tail)) [0..<32] = map (msg_word long) [0..<32]"
    using assms(1) by (intro map_cong refl msg_word_prefix) simp
  then show "umac_mac key (long @ tail) = umac_mac key long"
    by (simp only: umac_mac_words [OF ne(1)] umac_mac_words [OF ne(2)] n)
  have n: "(length (short @ [0]) + 7) div 8 = (length short + 7) div 8"
    using assms(2) div_Suc [of "length short + 7" 8] by (simp add: add.commute)
  have "map (msg_word (short @ [0])) [0..<min ((length short + 7) div 8) 32]
      = map (msg_word short) [0..<min ((length short + 7) div 8) 32]"
    using assms(2) by (intro map_cong refl msg_word_zero_pad) auto
  then show "umac_mac key (short @ [0]) = umac_mac key short"
    by (simp only: umac_mac_words [OF ne(3)] umac_mac_words [OF ne(4)] n)
qed

theorem umac_collisions_witness:
  "umac_mac key (replicate 256 1 @ [9, 9]) = umac_mac key (replicate 256 1)
   \<and> umac_mac key ([1, 2, 3] @ [0]) = umac_mac key [1, 2, 3]"
  using umac_collisions [of "replicate 256 1" "[1, 2, 3]" key "[9, 9]"] by simp

section \<open>Verification and rendering\<close>

lemma top_bit_one: "bit w 63 \<Longrightarrow> drop_bit 63 (w :: u64) = 1"
proof (rule bit_word_eqI)
  fix n
  assume "bit w 63"
  then show "bit (drop_bit 63 w) n = bit (1 :: u64) n"
    by (cases n) (auto simp: bit_drop_bit_eq bit_1_iff dest: bit_imp_le_length)
qed

lemma top_bit_or_minus: "drop_bit 63 (d OR - d) = (if d = 0 then 0 else 1 :: u64)"
proof (cases "d = 0")
  case False
  have top: "bit w 63 \<longleftrightarrow> 2 ^ 63 \<le> unat w" for w :: u64
  proof -
    have "unat w < 18446744073709551616" using unsigned_less [of w] by simp
    then have "unat w div 9223372036854775808 = (if 9223372036854775808 \<le> unat w then 1 else 0)"
      by (auto intro: div_nat_eqI)
    moreover have "bit w 63 \<longleftrightarrow> bit (unat w) 63" by (simp add: bit_unsigned_iff)
    ultimately show ?thesis by (simp add: bit_iff_odd)
  qed
  have m: "(unat d + unat (- d)) mod 18446744073709551616 = 0"
    using unat_word_ariths(1) [of d "- d"] by simp
  have pos: "0 < unat d" using False by (simp add: unat_gt_0)
  have "9223372036854775808 \<le> unat d \<or> 9223372036854775808 \<le> unat (- d)"
  proof (rule ccontr)
    assume "\<not> (9223372036854775808 \<le> unat d \<or> 9223372036854775808 \<le> unat (- d))"
    then have "unat d + unat (- d) < 18446744073709551616" by linarith
    then show False using m pos by simp
  qed
  then have "bit d 63 \<or> bit (- d) 63" by (simp add: top)
  then have "bit (d OR - d) 63" by (simp only: bit_or_iff)
  then have "drop_bit 63 (d OR - d) = 1" by (rule top_bit_one)
  then show ?thesis using False by simp
qed simp

lemma umac_verify_iff: "umac_verify key msg t = Inr () \<longleftrightarrow> umac_mac key msg = t"
  unfolding umac_verify_def Let_def top_bit_or_minus by simp

text \<open>Rendering: the two digits of each byte, as far as the buffer holds both.\<close>

fun hex_digits :: "bytes \<Rightarrow> bytes" where
  "hex_digits [] = []"
| "hex_digits (b # bs) = HEX ! unat (drop_bit 4 b) # HEX ! unat (b AND 0xF) # hex_digits bs"

lemma length_hex_digits [simp]: "length (hex_digits bs) = 2 * length bs"
  by (induction bs) auto

lemma hex_digits_snoc: "hex_digits (bs @ [b]) = hex_digits bs @ [HEX ! unat (drop_bit 4 b), HEX ! unat (b AND 0xF)]"
  by (induction bs) auto

theorem tag_to_hex_renders:
  "tag_to_hex_buf tag out =
     (let n = min (length tag) (length out div 2) in blit 0 (hex_digits (take n tag)) out)"
proof (induction tag rule: rev_induct)
  case Nil
  then show ?case by (simp add: tag_to_hex_buf_def blit_def)
next
  case (snoc b bs)
  let ?n = "min (length bs) (length out div 2)"
  have step: "tag_to_hex_buf (bs @ [b]) out = (let o1 = tag_to_hex_buf bs out; i = length bs in
      if 2 * i + 1 < length o1 then o1[2 * i := HEX ! unat (drop_bit 4 b), 2 * i + 1 := HEX ! unat (b AND 0xF)] else o1)"
    by (simp add: tag_to_hex_buf_def Let_def)
  have IH: "tag_to_hex_buf bs out = blit 0 (hex_digits (take ?n bs)) out" using snoc by (simp add: Let_def)
  have len: "length (tag_to_hex_buf bs out) = length out" unfolding IH by (intro length_blit) simp
  show ?case
  proof (cases "2 * length bs + 1 < length out")
    case True
    then have n: "?n = length bs" "min (length (bs @ [b])) (length out div 2) = Suc (length bs)" by simp_all
    have "drop (2 * length bs) out = out ! (2 * length bs) # out ! (2 * length bs + 1) # drop (2 * length bs + 2) out"
      using True by (simp add: Cons_nth_drop_Suc)
    moreover have "2 * length bs < Suc (length out - 2)" using True by linarith
    ultimately show ?thesis
      using True unfolding step len IH Let_def n
      by (simp add: blit_def hex_digits_snoc list_update_append)
  next
    case False
    then have "min (length (bs @ [b])) (length out div 2) = ?n" "take ?n (bs @ [b]) = take ?n bs" by simp_all
    then show ?thesis using False unfolding step len IH Let_def by simp
  qed
qed

end
