(* ===== verification/Thermal_Rng.thy ===== *)
theory Thermal_Rng
  imports Complex_Main Prelude
begin

text \<open>
  The hardware random source of \<open>qhal\<close> (\<open>qhal/src/lib.rs\<close>, \<open>qhal/src/drivers/thermal_rng.rs\<close>).  The
  device file is an argument: whether it opens, and what reading from it gives.  All numbers of the
  chi-square statistic are multiples of 1/16 far below \<open>2 ^ 53\<close>, so the \<open>f64\<close> arithmetic of the
  source is exact and is modelled by real numbers.  Of the text of an initialisation error only the
  device name is kept.
\<close>

datatype hardware_type = ThermalRNG | QKD_Fiber | QKD_Repeater | Teleportation

datatype qhal_error =
  InitError string | InsufficientEntropy | DeviceError | QualityCheckFailed | InvalidLength

definition QUALITY_SAMPLE_BYTES :: nat where "QUALITY_SAMPLE_BYTES = 4096"
definition CHI_SQUARE_THRESHOLD :: real where "CHI_SQUARE_THRESHOLD = 310"
definition MAX_BYTE_FREQ_RATIO :: real where "MAX_BYTE_FREQ_RATIO = 2 / 100"

text \<open>The device: \<open>open\<close> may fail; \<open>read_exact\<close> fills the buffer or fails.\<close>

record rng_device =
  dev_opens :: bool
  dev_read :: "nat \<Rightarrow> bytes option"

definition device_ok :: "rng_device \<Rightarrow> bool" where
  "device_ok d \<longleftrightarrow> (\<forall>n bs. dev_read d n = Some bs \<longrightarrow> length bs = n)"

definition HWRNG_DEVICE :: string where "HWRNG_DEVICE = ''/dev/hwrng''"

text \<open>The Japanese text after the path, in UTF-8.\<close>

definition cannot_open :: string where
  "cannot_open = map char_of [0x20, 0xE3, 0x82, 0x92, 0xE9, 0x96, 0x8B, 0xE3, 0x81, 0x91, 0xE3, 0x81, 0xBE, 0xE3, 0x81, 0x9B, 0xE3, 0x82, 0x93 :: nat]"

definition thermal_rng_new :: "rng_device \<Rightarrow> qhal_error + unit" where
  "thermal_rng_new d = (if dev_opens d then Inr () else Inl (InitError (HWRNG_DEVICE @ cannot_open)))"

definition thermal_hardware_type :: hardware_type where
  "thermal_hardware_type = ThermalRNG"

definition open_device :: "rng_device \<Rightarrow> qhal_error + unit" where
  "open_device d = (if dev_opens d then Inr () else Inl DeviceError)"

definition generate_random_bytes :: "rng_device \<Rightarrow> nat \<Rightarrow> qhal_error + bytes" where
  "generate_random_bytes d len =
     (if len = 0 then Inl InvalidLength
      else case open_device d of
        Inl e \<Rightarrow> Inl e
      | Inr _ \<Rightarrow> (case dev_read d len of None \<Rightarrow> Inl DeviceError | Some buf \<Rightarrow> Inr buf))"

definition byte_freq :: "bytes \<Rightarrow> nat list" where
  "byte_freq sample = foldl (\<lambda>freq b. freq[unat b := freq ! unat b + 1]) (replicate 256 0) sample"

definition chi_square :: "nat list \<Rightarrow> real" where
  "chi_square freq =
     (let n = real QUALITY_SAMPLE_BYTES; expected = n / 256
      in sum_list (map (\<lambda>f. let diff = real f - expected in diff * diff / expected) freq))"

definition check_entropy_quality :: "rng_device \<Rightarrow> qhal_error + unit" where
  "check_entropy_quality d =
     (case generate_random_bytes d QUALITY_SAMPLE_BYTES of
        Inl e \<Rightarrow> Inl e
      | Inr sample \<Rightarrow>
          let freq = byte_freq sample; n = real QUALITY_SAMPLE_BYTES
          in if CHI_SQUARE_THRESHOLD < chi_square freq then Inl QualityCheckFailed
             else if \<exists>f \<in> set freq. MAX_BYTE_FREQ_RATIO < real f / n then Inl QualityCheckFailed
             else Inr ())"

definition is_available :: "rng_device \<Rightarrow> bool" where
  "is_available d \<longleftrightarrow> (case open_device d of Inr _ \<Rightarrow> True | Inl _ \<Rightarrow> False)"

section \<open>What the quality check accepts\<close>

definition occurrences :: "bytes \<Rightarrow> u8 \<Rightarrow> nat" where
  "occurrences sample b = length (filter (\<lambda>c. c = b) sample)"

lemma byte_freq_eq:
  "byte_freq sample = map (\<lambda>i. occurrences sample (of_nat i)) [0..<256]"
proof (induction sample rule: rev_induct)
  case Nil
  then show ?case by (simp add: byte_freq_def occurrences_def map_replicate_const)
next
  case (snoc b bs)
  have b: "unat b < 256" using unsigned_less [of b] by simp
  have inj: "of_nat i = b \<longleftrightarrow> i = unat b" if "i < 256" for i
    using that by (auto simp: unat_of_nat_fits)
  have "byte_freq (bs @ [b]) = (byte_freq bs)[unat b := byte_freq bs ! unat b + 1]"
    by (simp add: byte_freq_def)
  also have "\<dots> = map (\<lambda>i. occurrences (bs @ [b]) (of_nat i)) [0..<256]"
    using b unfolding snoc by (intro nth_equalityI) (auto simp: nth_list_update occurrences_def inj)
  finally show ?case .
qed

lemma sum_bytes: "(\<Sum>b :: u8 \<in> UNIV. f b) = (\<Sum>i < 256. f (of_nat i))"
proof (rule sum.reindex_bij_witness [of _ of_nat unat])
  fix b :: u8
  show "unat b \<in> {..<256}" using unsigned_less [of b] by simp
qed simp_all

lemma chi_square_eq:
  "chi_square (byte_freq sample) = real_of_int (\<Sum>b \<in> UNIV. (int (occurrences sample b) - 16)\<^sup>2) / 16"
proof -
  have "chi_square (byte_freq sample) = (\<Sum>i \<leftarrow> [0..<256]. (real (occurrences sample (of_nat i)) - 16)\<^sup>2 / 16)"
    by (simp add: chi_square_def byte_freq_eq QUALITY_SAMPLE_BYTES_def Let_def comp_def power2_eq_square)
  also have "\<dots> = (\<Sum>i < 256. (real (occurrences sample (of_nat i)) - 16)\<^sup>2 / 16)"
    by (simp only: interv_sum_list_conv_sum_set_nat set_upt lessThan_atLeast0)
  also have "\<dots> = (\<Sum>b \<in> UNIV. (real (occurrences sample b) - 16)\<^sup>2 / 16)"
    by (rule sum_bytes [symmetric])
  finally show ?thesis by (simp add: sum_divide_distrib)
qed

lemma freq_limit:
  "(\<exists>f \<in> set (byte_freq sample). MAX_BYTE_FREQ_RATIO < real f / real QUALITY_SAMPLE_BYTES)
     \<longleftrightarrow> (\<exists>b. 82 \<le> occurrences sample b)"
proof -
  have ratio: "MAX_BYTE_FREQ_RATIO < real f / real QUALITY_SAMPLE_BYTES \<longleftrightarrow> 82 \<le> f" for f
    by (simp add: MAX_BYTE_FREQ_RATIO_def QUALITY_SAMPLE_BYTES_def field_simps) linarith
  have "(\<exists>b. 82 \<le> occurrences sample b) \<longleftrightarrow> (\<exists>i < 256. 82 \<le> occurrences sample (of_nat i))"
  proof
    assume "\<exists>b. 82 \<le> occurrences sample b"
    then obtain b where "82 \<le> occurrences sample b" by blast
    moreover have "unat b < 256" using unsigned_less [of b] by simp
    ultimately show "\<exists>i < 256. 82 \<le> occurrences sample (of_nat i)" by (intro exI [of _ "unat b"]) simp
  qed blast
  then show ?thesis by (auto simp: byte_freq_eq ratio)
qed

lemma quality_check_eq:
  "check_entropy_quality d =
     (if \<not> dev_opens d then Inl DeviceError
      else case dev_read d 4096 of
        None \<Rightarrow> Inl DeviceError
      | Some sample \<Rightarrow>
          if (\<Sum>b \<in> UNIV. (int (occurrences sample b) - 16)\<^sup>2) \<le> 4960 \<and> (\<forall>b. occurrences sample b \<le> 81)
          then Inr () else Inl QualityCheckFailed)"
proof -
  have chi: "CHI_SQUARE_THRESHOLD < chi_square (byte_freq sample)
      \<longleftrightarrow> \<not> (\<Sum>b \<in> UNIV. (int (occurrences sample b) - 16)\<^sup>2) \<le> 4960" for sample
  proof -
    have "310 < real_of_int s / 16 \<longleftrightarrow> \<not> s \<le> 4960" for s by linarith
    then show ?thesis unfolding chi_square_eq CHI_SQUARE_THRESHOLD_def by blast
  qed
  have low: "(\<forall>b. occurrences sample b \<le> 81) \<longleftrightarrow> \<not> (\<exists>b. 82 \<le> occurrences sample b)" for sample
  proof -
    have "n \<le> 81 \<longleftrightarrow> \<not> 82 \<le> n" for n :: nat by arith
    then show ?thesis by simp
  qed
  show ?thesis
    unfolding check_entropy_quality_def Let_def freq_limit chi low
    by (simp add: generate_random_bytes_def open_device_def QUALITY_SAMPLE_BYTES_def split: option.splits)
qed

text \<open>A counter passes: the check looks only at the number of occurrences of each byte.\<close>

lemma occurrences_counter: "occurrences (map of_nat [0..<256 * k]) b = k"
proof (induction k)
  case 0
  then show ?case by (simp add: occurrences_def)
next
  case (Suc k)
  have "{i. i < 256 \<and> map of_nat [0..<256] ! i = b} = {unat b}"
    using unsigned_less [of b] by auto
  then have one: "occurrences (map of_nat [0..<256]) b = 1"
    by (simp add: occurrences_def length_filter_conv_card)
  have "[0..<256 * Suc k] = [0..<256 * k] @ map (\<lambda>i. i + 256 * k) [0..<256]"
    using upt_add_eq_append [of 0 "256 * k" 256] by (simp add: map_add_upt add.commute)
  moreover have "of_nat (i + 256 * k) = (of_nat i :: u8)" for i
  proof -
    have z: "(256 :: u8) = 0" by simp
    show ?thesis by (simp only: of_nat_add of_nat_mult of_nat_numeral z) simp
  qed
  ultimately have "map of_nat [0..<256 * Suc k] = map of_nat [0..<256 * k] @ (map of_nat [0..<256] :: bytes)"
    by simp
  then have "occurrences (map of_nat [0..<256 * Suc k]) b
      = occurrences (map of_nat [0..<256 * k]) b + occurrences (map of_nat [0..<256]) b"
    by (simp only: occurrences_def filter_append length_append)
  then show ?case using Suc one by simp
qed

text \<open>
  The quality check passes exactly when the device opens and delivers a sample in which the
  squared deviations of the 256 byte counts from 16 add up to at most 4960 and no byte occurs more
  than 81 times; a device that does not open or does not read is a device error.  So a device
  that counts from 0 to 255 over and over passes, and one that repeats a byte does not.
\<close>

theorem thermal_check_exact:
  "check_entropy_quality d =
     (if \<not> dev_opens d then Inl DeviceError
      else case dev_read d 4096 of
        None \<Rightarrow> Inl DeviceError
      | Some sample \<Rightarrow>
          if (\<Sum>b \<in> UNIV. (int (occurrences sample b) - 16)\<^sup>2) \<le> 4960 \<and> \<not> (\<exists>b. 81 < occurrences sample b)
          then Inr () else Inl QualityCheckFailed)
   \<and> check_entropy_quality \<lparr>dev_opens = True, dev_read = (\<lambda>n. Some (map of_nat [0..<n]))\<rparr> = Inr ()
   \<and> check_entropy_quality \<lparr>dev_opens = True, dev_read = (\<lambda>n. Some (replicate n c))\<rparr> = Inl QualityCheckFailed"
proof (intro conjI)
  show "check_entropy_quality \<lparr>dev_opens = True, dev_read = (\<lambda>n. Some (map of_nat [0..<n]))\<rparr> = Inr ()"
    using occurrences_counter [of 16] by (simp add: quality_check_eq)
  have "occurrences (replicate 4096 c) c = 4096" by (simp add: occurrences_def)
  then have "\<not> (\<forall>b. occurrences (replicate 4096 c) b \<le> 81)" by (auto intro!: exI [of _ c] simp: not_le)
  then show "check_entropy_quality \<lparr>dev_opens = True, dev_read = (\<lambda>n. Some (replicate n c))\<rparr> = Inl QualityCheckFailed"
    by (simp add: quality_check_eq)
qed (simp add: quality_check_eq not_less split: option.split)

end
