(* ===== verification/Tools.thy ===== *)
theory Tools
  imports Key_Pool Thermal_Rng
begin

text \<open>
  The two command-line programs of \<open>tools\<close>, with the texts of the errors they print
  (\<open>qhal/src/lib.rs\<close>, \<open>key_pool/src/lib.rs\<close>).  A program yields what it writes to standard output and
  to standard error; an error that \<open>main\<close> returns is \<open>Inl\<close>.
\<close>

section \<open>Texts, in UTF-8\<close>

definition ok_text :: string where
  "ok_text = map char_of
     [0xE2, 0x9C, 0x93, 0x20, 0xE3, 0x82, 0xA8, 0xE3, 0x83, 0xB3, 0xE3, 0x83, 0x88, 0xE3, 0x83,
     0xAD, 0xE3, 0x83, 0x94, 0xE3, 0x83, 0xBC, 0xE5, 0x93, 0x81, 0xE8, 0xB3, 0xAA, 0x3A, 0x20,
     0x4F, 0x4B :: nat]"

definition failed_text :: string where
  "failed_text = map char_of
     [0xE2, 0x9C, 0x97, 0x20, 0xE3, 0x82, 0xA8, 0xE3, 0x83, 0xB3, 0xE3, 0x83, 0x88, 0xE3, 0x83,
     0xAD, 0xE3, 0x83, 0x94, 0xE3, 0x83, 0xBC, 0xE5, 0x93, 0x81, 0xE8, 0xB3, 0xAA, 0xE3, 0x83,
     0x81, 0xE3, 0x82, 0xA7, 0xE3, 0x83, 0x83, 0xE3, 0x82, 0xAF, 0xE5, 0xA4, 0xB1, 0xE6, 0x95,
     0x97, 0x3A, 0x20 :: nat]"

definition init_text :: string where
  "init_text = map char_of
     [0xE3, 0x83, 0x8F, 0xE3, 0x83, 0xBC, 0xE3, 0x83, 0x89, 0xE3, 0x82, 0xA6, 0xE3, 0x82, 0xA7,
     0xE3, 0x82, 0xA2, 0xE5, 0x88, 0x9D, 0xE6, 0x9C, 0x9F, 0xE5, 0x8C, 0x96, 0xE5, 0xA4, 0xB1,
     0xE6, 0x95, 0x97, 0x3A, 0x20 :: nat]"

definition short_text :: string where
  "short_text = map char_of
     [0xE3, 0x82, 0xA8, 0xE3, 0x83, 0xB3, 0xE3, 0x83, 0x88, 0xE3, 0x83, 0xAD, 0xE3, 0x83, 0x94,
     0xE3, 0x83, 0xBC, 0xE4, 0xB8, 0x8D, 0xE8, 0xB6, 0xB3 :: nat]"

definition device_text :: string where
  "device_text = map char_of
     [0xE3, 0x83, 0x87, 0xE3, 0x83, 0x90, 0xE3, 0x82, 0xA4, 0xE3, 0x82, 0xB9, 0xE3, 0x82, 0xA2,
     0xE3, 0x82, 0xAF, 0xE3, 0x82, 0xBB, 0xE3, 0x82, 0xB9, 0xE3, 0x82, 0xA8, 0xE3, 0x83, 0xA9,
     0xE3, 0x83, 0xBC :: nat]"

definition quality_text :: string where
  "quality_text = map char_of
     [0xE3, 0x82, 0xA8, 0xE3, 0x83, 0xB3, 0xE3, 0x83, 0x88, 0xE3, 0x83, 0xAD, 0xE3, 0x83, 0x94,
     0xE3, 0x83, 0xBC, 0xE5, 0x93, 0x81, 0xE8, 0xB3, 0xAA, 0xE4, 0xB8, 0x8D, 0xE8, 0xB6, 0xB3 ::
     nat]"

definition length_text :: string where
  "length_text = map char_of
     [0xE7, 0x84, 0xA1, 0xE5, 0x8A, 0xB9, 0xE3, 0x81, 0xAA, 0xE8, 0xA6, 0x81, 0xE6, 0xB1, 0x82,
     0xE3, 0x82, 0xB5, 0xE3, 0x82, 0xA4, 0xE3, 0x82, 0xBA, 0x3A, 0x20, 0x31, 0xE4, 0xBB, 0xA5,
     0xE4, 0xB8, 0x8A, 0xE3, 0x82, 0x92, 0xE6, 0x8C, 0x87, 0xE5, 0xAE, 0x9A, 0xE3, 0x81, 0x97,
     0xE3, 0x81, 0xA6, 0xE3, 0x81, 0x8F, 0xE3, 0x81, 0xA0, 0xE3, 0x81, 0x95, 0xE3, 0x81, 0x84 ::
     nat]"

definition left_text :: string where
  "left_text = map char_of
     [0x4B, 0x65, 0x79, 0x20, 0x50, 0x6F, 0x6F, 0x6C, 0x20, 0xE6, 0xAE, 0x8B, 0xE9, 0x87, 0x8F,
     0x3A, 0x20 :: nat]"

definition pool_error_text :: string where
  "pool_error_text = map char_of
     [0x4B, 0x65, 0x79, 0x20, 0x50, 0x6F, 0x6F, 0x6C, 0x20, 0xE3, 0x82, 0xA8, 0xE3, 0x83, 0xA9,
     0xE3, 0x83, 0xBC, 0x3A, 0x20 :: nat]"

definition few_text :: string where
  "few_text = map char_of
     [0xE3, 0x83, 0x97, 0xE3, 0x83, 0xBC, 0xE3, 0x83, 0xAB, 0xE6, 0xAE, 0x8B, 0xE9, 0x87, 0x8F,
     0xE4, 0xB8, 0x8D, 0xE8, 0xB6, 0xB3 :: nat]"

definition low_text :: string where
  "low_text = map char_of
     [0xE4, 0xBD, 0x8E, 0xE6, 0xB0, 0xB4, 0xE4, 0xBD, 0x8D, 0xE7, 0xB7, 0x9A, 0xE4, 0xBB, 0xA5,
     0xE4, 0xB8, 0x8B, 0x3A, 0x20, 0xE9, 0x80, 0x9A, 0xE4, 0xBF, 0xA1, 0xE5, 0x81, 0x9C, 0xE6,
     0xAD, 0xA2 :: nat]"

definition used_text :: string where
  "used_text = map char_of
     [0xE9, 0x8D, 0xB5, 0xE3, 0x81, 0xAF, 0xE6, 0x97, 0xA2, 0xE3, 0x81, 0xAB, 0xE6, 0xB6, 0x88,
     0xE8, 0xB2, 0xBB, 0xE6, 0xB8, 0x88, 0xE3, 0x81, 0xBF :: nat]"

definition mark_text :: string where
  "mark_text = map char_of
     [0xE4, 0xBD, 0x8E, 0xE6, 0xB0, 0xB4, 0xE4, 0xBD, 0x8D, 0xE7, 0xB7, 0x9A, 0xE3, 0x81, 0xAE,
     0xE5, 0x80, 0xA4, 0xE3, 0x81, 0x8C, 0xE4, 0xB8, 0x8D, 0xE6, 0xAD, 0xA3, 0xE3, 0x81, 0xA7,
     0xE3, 0x81, 0x99, 0x20, 0x28, 0xE6, 0x9C, 0x80, 0xE5, 0xB0, 0x8F, 0x3A, 0x20 :: nat]"

definition empty_text :: string where
  "empty_text = map char_of
     [0xE7, 0xA9, 0xBA, 0xE3, 0x81, 0xAE, 0xE9, 0x8D, 0xB5, 0xE3, 0x83, 0x9E, 0xE3, 0x83, 0x86,
     0xE3, 0x83, 0xAA, 0xE3, 0x82, 0xA2, 0xE3, 0x83, 0xAB, 0xE3, 0x81, 0xAF, 0xE8, 0xBF, 0xBD,
     0xE5, 0x8A, 0xA0, 0xE3, 0x81, 0xA7, 0xE3, 0x81, 0x8D, 0xE3, 0x81, 0xBE, 0xE3, 0x81, 0x9B,
     0xE3, 0x82, 0x93 :: nat]"

definition lock_text :: string where
  "lock_text = map char_of
     [0xE5, 0x86, 0x85, 0xE9, 0x83, 0xA8, 0xE3, 0x83, 0xAD, 0xE3, 0x83, 0x83, 0xE3, 0x82, 0xAF,
     0xE3, 0x82, 0xA8, 0xE3, 0x83, 0xA9, 0xE3, 0x83, 0xBC :: nat]"

fun qhal_message :: "qhal_error \<Rightarrow> string" where
  "qhal_message (InitError t) = init_text @ t"
| "qhal_message InsufficientEntropy = short_text"
| "qhal_message DeviceError = device_text"
| "qhal_message QualityCheckFailed = quality_text"
| "qhal_message InvalidLength = length_text"

fun pool_message :: "key_pool_error \<Rightarrow> string" where
  "pool_message InsufficientKeys = few_text"
| "pool_message BelowLowWaterMark = low_text"
| "pool_message AlreadyConsumed = used_text"
| "pool_message InvalidLowWaterMark = mark_text @ dec MIN_LOW_WATER_MARK @ '')''"
| "pool_message EmptyKeyMaterial = empty_text"
| "pool_message LockPoisoned = lock_text"

section \<open>The programs\<close>

record printed =
  out_text :: string
  err_text :: string

definition println :: "string \<Rightarrow> printed" where
  "println t = \<lparr>out_text = t @ [CHR 0x0A], err_text = []\<rparr>"

definition eprintln :: "string \<Rightarrow> printed" where
  "eprintln t = \<lparr>out_text = [], err_text = t @ [CHR 0x0A]\<rparr>"

definition entropy_check :: "rng_device \<Rightarrow> qhal_error + printed" where
  "entropy_check d =
     (case thermal_rng_new d of
        Inl e \<Rightarrow> Inl e
      | Inr _ \<Rightarrow>
          Inr (case check_entropy_quality d of
                 Inr _ \<Rightarrow> println ok_text
               | Inl e \<Rightarrow> eprintln (failed_text @ qhal_message e)))"

text \<open>\<open>None\<close> is the panic of \<open>default\<close>.\<close>

definition pool_status :: "printed option" where
  "pool_status =
     (case key_pool_default of
        None \<Rightarrow> None
      | Some p \<Rightarrow>
          Some (case available_bytes p of
                  Inr n \<Rightarrow> println (left_text @ dec n @ '' bytes'')
                | Inl e \<Rightarrow> eprintln (pool_error_text @ pool_message e)))"

section \<open>What they report\<close>

lemma print_differ: "println s \<noteq> eprintln t" "out_text (println s) \<noteq> []" "err_text (eprintln t) \<noteq> []"
  by (simp_all add: println_def eprintln_def)

lemma dec_0: "dec 0 = ''0''"
  by code_simp

text \<open>
  The entropy checker writes its approval exactly when the device opens, can be read and its
  sample passes both tests; every other device that opens ends in a text on standard error and
  still in success.  The status program always reports an empty pool: it looks at one of its own.
\<close>

theorem tools_report:
  "(entropy_check d = Inr (println ok_text) \<longleftrightarrow> dev_opens d \<and> check_entropy_quality d = Inr ())
   \<and> (isl (entropy_check d) \<longleftrightarrow> \<not> dev_opens d)
   \<and> pool_status = Some (println (left_text @ ''0 bytes''))"
proof (intro conjI)
  show "entropy_check d = Inr (println ok_text) \<longleftrightarrow> dev_opens d \<and> check_entropy_quality d = Inr ()"
    by (auto simp: entropy_check_def thermal_rng_new_def print_differ(1) print_differ(1) [symmetric] split: sum.split)
  show "isl (entropy_check d) \<longleftrightarrow> \<not> dev_opens d"
    by (simp add: entropy_check_def thermal_rng_new_def)
  show "pool_status = Some (println (left_text @ ''0 bytes''))"
    by (simp add: pool_status_def key_pool_default_def key_pool_new_def available_bytes_def available_sum_def
        DEFAULT_LOW_WATER_MARK_def MIN_LOW_WATER_MARK_def dec_0)
qed

end
