(* ===== verification/Auth.thy ===== *)
theory Auth
  imports Prelude
begin

text \<open>
  The three-factor authentication layer (\<open>auth/src/lib.rs\<close>).  The factors are stubs that fail; a
  cargo feature replaces the stub of the password and of the TPM by a function that is not in the
  repository, so these two functions are arguments of the model (\<open>None\<close>: the feature is off).
  Without the feature \<open>biometric_impl\<close> the crate is a compile error, so it is on here and
  \<open>verify_biometric_impl\<close> is the source's own.
\<close>

unbundle bit_operations_syntax

datatype auth_error = AuthenticationFailed | MultiFactorRequired | TpmUnsealFailed

record auth_flags =
  af_biometric :: bool
  af_password :: bool
  af_tpm :: bool

definition auth_flags_default :: auth_flags where
  "auth_flags_default = \<lparr>af_biometric = False, af_password = False, af_tpm = False\<rparr>"

definition auth_flags_drop :: "auth_flags \<Rightarrow> auth_flags" where
  "auth_flags_drop f = f\<lparr>af_biometric := False, af_password := False, af_tpm := False\<rparr>"

record auth_context =
  ax_flags :: auth_flags

definition auth_context_new :: auth_context where
  "auth_context_new = \<lparr>ax_flags = auth_flags_default\<rparr>"

type_synonym password_impl = "(string \<Rightarrow> auth_context \<Rightarrow> auth_error + unit) option"
type_synonym tpm_impl = "(auth_context \<Rightarrow> auth_error + unit) option"

definition verify_biometric_impl :: "bytes \<Rightarrow> auth_context \<Rightarrow> auth_error + unit" where
  "verify_biometric_impl template c = Inl AuthenticationFailed"

definition verify_biometric :: "bytes \<Rightarrow> auth_context \<Rightarrow> (auth_error + unit) \<times> auth_context" where
  "verify_biometric template c =
     (case verify_biometric_impl template c of
        Inl e \<Rightarrow> (Inl e, c)
      | Inr _ \<Rightarrow> (Inr (), c\<lparr>ax_flags := (ax_flags c)\<lparr>af_biometric := True\<rparr>\<rparr>))"

definition verify_password ::
  "password_impl \<Rightarrow> string \<Rightarrow> auth_context \<Rightarrow> (auth_error + unit) \<times> auth_context" where
  "verify_password impl password c =
     (case impl of
        None \<Rightarrow> (Inl AuthenticationFailed, c)
      | Some f \<Rightarrow>
          (case f password c of
             Inl e \<Rightarrow> (Inl e, c)
           | Inr _ \<Rightarrow> (Inr (), c\<lparr>ax_flags := (ax_flags c)\<lparr>af_password := True\<rparr>\<rparr>)))"

definition verify_tpm :: "tpm_impl \<Rightarrow> auth_context \<Rightarrow> (auth_error + unit) \<times> auth_context" where
  "verify_tpm impl c =
     (case impl of
        None \<Rightarrow> (Inl TpmUnsealFailed, c)
      | Some f \<Rightarrow>
          (case f c of
             Inl e \<Rightarrow> (Inl e, c)
           | Inr _ \<Rightarrow> (Inr (), c\<lparr>ax_flags := (ax_flags c)\<lparr>af_tpm := True\<rparr>\<rparr>)))"

definition authorize_key_access :: "auth_context \<Rightarrow> auth_error + unit" where
  "authorize_key_access c =
     (let all_verified = (of_bool (af_biometric (ax_flags c)) :: u8) AND of_bool (af_password (ax_flags c))
            AND of_bool (af_tpm (ax_flags c))
      in if all_verified = 1 then Inr () else Inl MultiFactorRequired)"

section \<open>Calls on a context\<close>

datatype auth_call = Biometric bytes | Password string | Tpm

fun auth_exec :: "password_impl \<Rightarrow> tpm_impl \<Rightarrow> auth_call \<Rightarrow> auth_context \<Rightarrow> (auth_error + unit) \<times> auth_context" where
  "auth_exec P T (Biometric t) c = verify_biometric t c"
| "auth_exec P T (Password p) c = verify_password P p c"
| "auth_exec P T Tpm c = verify_tpm T c"

definition auth_run :: "password_impl \<Rightarrow> tpm_impl \<Rightarrow> auth_call list \<Rightarrow> auth_context \<Rightarrow> auth_context" where
  "auth_run P T calls c = foldl (\<lambda>c call. snd (auth_exec P T call c)) c calls"

lemma authorize_iff:
  "authorize_key_access c = (if af_biometric (ax_flags c) \<and> af_password (ax_flags c) \<and> af_tpm (ax_flags c)
     then Inr () else Inl MultiFactorRequired)"
  by (simp add: authorize_key_access_def)

lemma auth_exec_flags:
  assumes "auth_exec P T call c = (r, c')"
  shows "af_biometric (ax_flags c') = af_biometric (ax_flags c)"
    and "af_password (ax_flags c') = (af_password (ax_flags c) \<or> r = Inr () \<and> (\<exists>p. call = Password p))"
    and "af_tpm (ax_flags c') = (af_tpm (ax_flags c) \<or> r = Inr () \<and> call = Tpm)"
    and "r = Inl e \<Longrightarrow> c' = c"
  using assms
  by (cases call; auto simp: verify_biometric_def verify_biometric_impl_def verify_password_def
      verify_tpm_def split: option.splits sum.splits)+

text \<open>
  The layer fails closed: whatever implementations of the password and TPM factors are plugged
  in and whatever is called, key access is refused, always with the same error, because the
  biometric factor cannot succeed as shipped; and a refused factor leaves the context as it was.
\<close>

theorem auth_fails_closed:
  "authorize_key_access (auth_run P T calls auth_context_new) = Inl MultiFactorRequired
   \<and> (\<forall>e. fst (auth_exec P T call c) \<noteq> Inl e \<or> snd (auth_exec P T call c) = c)"
proof -
  have "\<not> af_biometric (ax_flags (auth_run P T calls c))" if "\<not> af_biometric (ax_flags c)" for c
    using that
  proof (induction calls arbitrary: c)
    case (Cons call calls)
    obtain r c' where "auth_exec P T call c = (r, c')" by (cases "auth_exec P T call c")
    then show ?case using Cons auth_exec_flags(1) by (simp add: auth_run_def)
  qed (simp add: auth_run_def)
  then show ?thesis
    using auth_exec_flags(4) [of P T call c]
    by (cases "auth_exec P T call c"; cases "fst (auth_exec P T call c)")
      (auto simp: authorize_iff auth_context_new_def auth_flags_default_def)
qed

end
