(* ===== verification/Amnesia.thy ===== *)
theory Amnesia
  imports Prelude "HOL-Library.Sublist"
begin

text \<open>
  The amnesia manager and the boot configuration (\<open>amnesia/src/lib.rs\<close>).  The protective steps
  (mounting, \<open>swapoff\<close>, \<open>mlockall\<close>, the cache and memory wipes) are stubs in the source: they do
  nothing and succeed, and so they do here.  Strings are character lists; \<open>nl\<close>, \<open>dq\<close> and \<open>bsl\<close> are
  the newline, the double quote and the backslash.
\<close>

datatype amnesia_error =
    MountFailed string | SwapoffFailed | MlockFailed | HookFailed | ZeroizeFailed

section \<open>Levels\<close>

datatype volatile_level = AppOnly | RamOnly | MemLocked | FullWipe | PhysWipe

text \<open>The derived order compares the discriminants.\<close>

fun level_discriminant :: "volatile_level \<Rightarrow> nat" where
  "level_discriminant AppOnly = 1"
| "level_discriminant RamOnly = 2"
| "level_discriminant MemLocked = 3"
| "level_discriminant FullWipe = 4"
| "level_discriminant PhysWipe = 5"

lemma level_discriminant_inj [simp]: "level_discriminant a = level_discriminant b \<longleftrightarrow> a = b"
  by (cases a; cases b) simp_all

instantiation volatile_level :: linorder
begin

definition less_eq_volatile_level :: "volatile_level \<Rightarrow> volatile_level \<Rightarrow> bool" where
  "a \<le> b \<longleftrightarrow> level_discriminant a \<le> level_discriminant b"

definition less_volatile_level :: "volatile_level \<Rightarrow> volatile_level \<Rightarrow> bool" where
  "a < b \<longleftrightarrow> level_discriminant a < level_discriminant b"

instance
  by standard (auto simp: less_eq_volatile_level_def less_volatile_level_def)

end

lemmas level_order = less_eq_volatile_level_def less_volatile_level_def

section \<open>The manager\<close>

record amnesia_manager =
  am_level :: volatile_level
  am_initialized :: bool
  am_shutdown_requested :: bool
  am_registered_hooks :: nat

definition amnesia_new :: "volatile_level \<Rightarrow> amnesia_manager" where
  "amnesia_new level = \<lparr>am_level = level, am_initialized = False, am_shutdown_requested = False,
     am_registered_hooks = 0\<rparr>"

definition setup_tmpfs :: "amnesia_manager \<Rightarrow> amnesia_error + unit" where
  "setup_tmpfs m = Inr ()"

definition disable_swap :: "amnesia_manager \<Rightarrow> amnesia_error + unit" where
  "disable_swap m = Inr ()"

definition mlock_all :: "amnesia_manager \<Rightarrow> amnesia_error + unit" where
  "mlock_all m = Inr ()"

definition register_shutdown_hooks :: "amnesia_manager \<Rightarrow> (amnesia_error + unit) \<times> amnesia_manager" where
  "register_shutdown_hooks m = (Inr (), m\<lparr>am_registered_hooks := am_registered_hooks m + 2\<rparr>)"

text \<open>The steps of \<open>init\<close> for every level but \<open>AppOnly\<close>.\<close>

definition init_steps :: "amnesia_manager \<Rightarrow> (amnesia_error + unit) \<times> amnesia_manager" where
  "init_steps m =
     (case setup_tmpfs m of
        Inl e \<Rightarrow> (Inl e, m)
      | Inr _ \<Rightarrow>
          (case disable_swap m of
             Inl e \<Rightarrow> (Inl e, m)
           | Inr _ \<Rightarrow>
               (case (if MemLocked \<le> am_level m then mlock_all m else Inr ()) of
                  Inl e \<Rightarrow> (Inl e, m)
                | Inr _ \<Rightarrow> if FullWipe \<le> am_level m then register_shutdown_hooks m else (Inr (), m))))"

definition amnesia_init :: "amnesia_manager \<Rightarrow> (amnesia_error + unit) \<times> amnesia_manager" where
  "amnesia_init m =
     (if am_initialized m then (Inr (), m)
      else case (case am_level m of AppOnly \<Rightarrow> (Inr (), m) | _ \<Rightarrow> init_steps m) of
        (Inl e, m) \<Rightarrow> (Inl e, m)
      | (Inr _, m) \<Rightarrow> (Inr (), m\<lparr>am_initialized := True\<rparr>))"

definition drop_page_cache :: "amnesia_manager \<Rightarrow> amnesia_manager" where
  "drop_page_cache m = m"

definition overwrite_physical_memory :: "amnesia_manager \<Rightarrow> amnesia_manager" where
  "overwrite_physical_memory m = m"

definition execute_wipe :: "amnesia_manager \<Rightarrow> amnesia_manager" where
  "execute_wipe m =
     (let m = (if FullWipe \<le> am_level m then drop_page_cache m else m)
      in if PhysWipe \<le> am_level m then overwrite_physical_memory m else m)"

definition initiate_shutdown :: "amnesia_manager \<Rightarrow> amnesia_manager" where
  "initiate_shutdown m = execute_wipe (m\<lparr>am_shutdown_requested := True\<rparr>)"

definition is_shutdown_requested :: "amnesia_manager \<Rightarrow> bool" where
  "is_shutdown_requested m = am_shutdown_requested m"

datatype amnesia_call = Init | Shutdown

fun amnesia_exec :: "amnesia_call \<Rightarrow> amnesia_manager \<Rightarrow> amnesia_manager" where
  "amnesia_exec Init m = snd (amnesia_init m)"
| "amnesia_exec Shutdown m = initiate_shutdown m"

lemma amnesia_init_eq:
  "amnesia_init m = (Inr (), if am_initialized m then m
     else m\<lparr>am_initialized := True,
            am_registered_hooks := am_registered_hooks m + (if FullWipe \<le> am_level m then 2 else 0)\<rparr>)"
  by (cases "am_level m")
    (simp_all add: amnesia_init_def init_steps_def setup_tmpfs_def disable_swap_def mlock_all_def
      register_shutdown_hooks_def level_order)

lemma initiate_shutdown_eq: "initiate_shutdown m = m\<lparr>am_shutdown_requested := True\<rparr>"
  by (simp add: initiate_shutdown_def execute_wipe_def drop_page_cache_def overwrite_physical_memory_def Let_def)

text \<open>
  The state of a manager after any sequence of calls: initialisation never fails and takes
  effect once, the two hooks are registered exactly from \<open>FullWipe\<close> on and only by the first
  \<open>init\<close>, and a requested shutdown is never forgotten.
\<close>

theorem amnesia_runs:
  "fold amnesia_exec calls (amnesia_new level) =
     \<lparr>am_level = level, am_initialized = (Init \<in> set calls), am_shutdown_requested = (Shutdown \<in> set calls),
      am_registered_hooks = (if FullWipe \<le> level \<and> Init \<in> set calls then 2 else 0)\<rparr>
   \<and> fst (amnesia_init m) = Inr ()"
proof -
  have "fold amnesia_exec calls \<lparr>am_level = level, am_initialized = i, am_shutdown_requested = s,
      am_registered_hooks = (if FullWipe \<le> level \<and> i then 2 else 0)\<rparr> =
      \<lparr>am_level = level, am_initialized = (i \<or> Init \<in> set calls), am_shutdown_requested = (s \<or> Shutdown \<in> set calls),
       am_registered_hooks = (if FullWipe \<le> level \<and> (i \<or> Init \<in> set calls) then 2 else 0)\<rparr>" for i s
  proof (induction calls arbitrary: i s)
    case (Cons c calls)
    show ?case
      using Cons [of True s] Cons [of i True]
      by (cases c; cases i) (simp_all add: amnesia_init_eq initiate_shutdown_eq)
  qed simp
  from this [of False False] show ?thesis by (simp add: amnesia_new_def amnesia_init_eq)
qed

section \<open>Boot configuration\<close>

abbreviation nl :: string where "nl \<equiv> [CHR 0x0A]"
abbreviation dq :: string where "dq \<equiv> [CHR 0x22]"
abbreviation bsl :: string where "bsl \<equiv> [CHR 0x5C]"

record usb_boot_config =
  ub_boot_device :: string
  ub_ramdisk_size :: nat
  ub_no_persistence :: bool
  ub_kernel_cmdline :: string

definition usb_boot_default :: usb_boot_config where
  "usb_boot_default = \<lparr>ub_boot_device = ''/dev/sda'', ub_ramdisk_size = 2048, ub_no_persistence = True,
     ub_kernel_cmdline =
       ''boot=live components quiet splash '' @
       ''nopersistent toram '' @
       ''apparmor=1 security=apparmor '' @
       ''kaslr slab_nomerge '' @
       ''init_on_alloc=1 init_on_free=1''\<rparr>"

definition grub_entry :: "usb_boot_config \<Rightarrow> string" where
  "grub_entry c =
     ''menuentry '' @ dq @ ''QLinux Secure OS'' @ dq @ '' {'' @ nl @
     ''    linux /vmlinuz '' @ ub_kernel_cmdline c @ nl @
     ''    initrd /initrd.img'' @ nl @ ''}'' @ nl"

definition syslinux_config :: "usb_boot_config \<Rightarrow> string" where
  "syslinux_config c =
     ''DEFAULT qlinux'' @ nl @ ''LABEL qlinux'' @ nl @ ''  MENU LABEL QLinux Secure OS'' @ nl @
     ''  LINUX /live/vmlinuz'' @ nl @ ''  INITRD /live/initrd.img'' @ nl @
     ''  APPEND '' @ ub_kernel_cmdline c @ nl"

definition generate_init_script :: string where
  "generate_init_script =
     ''#!/bin/sh'' @ nl @
     ''# QLinux Amnesia Init Script'' @ nl @
     ''set -e'' @ nl @
     ''mount -t proc proc /proc'' @ nl @
     ''mount -t sysfs sysfs /sys'' @ nl @
     ''mount -t devtmpfs devtmpfs /dev'' @ nl @
     ''mount -t tmpfs -o size=80%,mode=755 tmpfs /mnt/root'' @ nl @
     ''mkdir -p /mnt/usb'' @ nl @
     ''mount -o ro /dev/sda1 /mnt/usb'' @ nl @
     ''cp /mnt/usb/live/filesystem.squashfs /dev/shm/'' @ nl @
     ''umount /mnt/usb'' @ nl @
     ''mkdir -p /mnt/squash'' @ nl @
     ''mount -t squashfs -o loop /dev/shm/filesystem.squashfs /mnt/squash'' @ nl @
     ''mkdir -p /mnt/upper /mnt/work'' @ nl @
     ''mount -t overlay overlay '' @ bsl @ nl @
     ''  -o lowerdir=/mnt/squash,upperdir=/mnt/upper,workdir=/mnt/work '' @ bsl @ nl @
     ''  /mnt/root'' @ nl @
     ''swapoff -a 2>/dev/null || true'' @ nl @
     ''cd /mnt/root'' @ nl @
     ''pivot_root . mnt'' @ nl @
     ''exec chroot . /sbin/init'' @ nl"

lemma sublist_in_append: "sublist xs ys \<Longrightarrow> sublist xs (zs @ ys)"
  by (metis sublist_append)

lemma sublist_in_front: "sublist xs ys \<Longrightarrow> sublist xs (ys @ zs)"
  by (metis sublist_append)

text \<open>Every boot entry passes the whole command line to the kernel.\<close>

lemma cmdline_in_entries:
  "sublist (ub_kernel_cmdline c) (grub_entry c)" "sublist (ub_kernel_cmdline c) (syslinux_config c)"
  unfolding grub_entry_def syslinux_config_def by (rule sublist_append_rightI sublist_in_append)+

end
