(* ===== verification/Usb_Boot.thy ===== *)
theory Usb_Boot
  imports Amnesia
begin

text \<open>
  The builder of the bootable image (\<open>usb_boot/src/lib.rs\<close>): it produces the texts of the boot
  menu, the live-build configuration and the build script.  A path is the string it displays as.
\<close>

abbreviation sq :: string where "sq \<equiv> [CHR 0x27]"

datatype build_error = DirCreate string | FileWrite string | IsoCreate string | ToolNotFound string

record image_builder =
  ib_boot_config :: usb_boot_config
  ib_output_path :: string
  ib_compress_lvl :: u8

definition image_builder_new :: "string \<Rightarrow> image_builder" where
  "image_builder_new output_path =
     \<lparr>ib_boot_config = usb_boot_default, ib_output_path = output_path, ib_compress_lvl = 15\<rparr>"

definition grub_cfg :: "image_builder \<Rightarrow> string" where
  "grub_cfg b =
     ''# QLinux Secure OS - GRUB2'' @ nl @
     ''set default=0'' @ nl @
     ''set timeout=5'' @ nl @
     nl @
     grub_entry (ib_boot_config b) @ ''menuentry '' @ dq @ ''QLinux (Failsafe)'' @ dq @ '' {'' @ nl @
     ''    linux /live/vmlinuz boot=live components nomodeset toram nopersistent'' @ nl @
     ''    initrd /live/initrd.img'' @ nl @
     ''}'' @ nl"

definition setup_hook :: "image_builder \<Rightarrow> string" where
  "setup_hook b =
     ''#!/bin/sh'' @ nl @
     ''systemctl mask swap.target'' @ nl @
     ''cat >> /etc/fstab << '' @ sq @ ''EOF'' @ sq @ nl @
     ''tmpfs /tmp     tmpfs defaults,noatime,nosuid,nodev,mode=1777 0 0'' @ nl @
     ''tmpfs /var/log tmpfs defaults,noatime,nosuid,nodev          0 0'' @ nl @
     ''tmpfs /var/tmp tmpfs defaults,noatime,nosuid,nodev,mode=1777 0 0'' @ nl @
     ''EOF'' @ nl @
     ''systemctl enable apparmor'' @ nl @
     ''echo '' @ sq @ ''kernel.dmesg_restrict=1'' @ sq @ '' >> /etc/sysctl.d/99-qlinux.conf'' @ nl @
     ''echo '' @ sq @ ''kernel.kptr_restrict=2'' @ sq @ ''  >> /etc/sysctl.d/99-qlinux.conf'' @ nl @
     ''echo '' @ sq @ ''net.ipv4.tcp_timestamps=0'' @ sq @ '' >> /etc/sysctl.d/99-qlinux.conf'' @ nl @
     ''echo '' @ sq @ ''vm.swappiness=0'' @ sq @ ''          >> /etc/sysctl.d/99-qlinux.conf'' @ nl"

text \<open>The texts of the first two files of \<open>live_build_config\<close>.\<close>

definition auto_config :: "image_builder \<Rightarrow> string" where
  "auto_config b =
     ''#!/bin/sh'' @ nl @
     ''lb config noauto '' @ bsl @ nl @
     ''    --architectures amd64 '' @ bsl @ nl @
     ''    --distribution bookworm '' @ bsl @ nl @
     ''    --binary-images iso-hybrid '' @ bsl @ nl @
     ''    --bootappend-live '' @ dq @ ub_kernel_cmdline (ib_boot_config b) @ dq @ '' '' @ bsl @ nl @
     ''    --debian-installer false '' @ bsl @ nl @
     ''    '' @ dq @ ''${@}'' @ dq @ nl"

definition package_list :: string where
  "package_list =
     ''tor'' @ nl @
     ''torsocks'' @ nl @
     ''curl'' @ nl @
     ''wget'' @ nl @
     ''gnupg2'' @ nl @
     ''cryptsetup'' @ nl @
     ''tpm2-tools'' @ nl @
     ''firmware-linux-free'' @ nl @
     ''linux-image-amd64'' @ nl @
     ''live-boot'' @ nl @
     ''live-config'' @ nl"

definition live_build_config :: "image_builder \<Rightarrow> (string \<times> string) list" where
  "live_build_config b =
     [(''auto/config'', auto_config b),
      (''config/package-lists/qlinux.list.chroot'', package_list),
      (''config/hooks/live/0001-qlinux-setup.hook.chroot'', setup_hook b),
      (''config/includes.chroot/sbin/amnesia-init'', generate_init_script)]"

definition build_script :: "image_builder \<Rightarrow> string" where
  "build_script b =
     ''#!/bin/bash'' @ nl @
     ''set -euo pipefail'' @ nl @
     ''OUTDIR='' @ dq @ ib_output_path b @ dq @ nl @
     ''for cmd in lb xorriso mksquashfs; do'' @ nl @
     ''    command -v $cmd >/dev/null 2>&1 || { echo '' @ dq @ ''ERROR: $cmd not found'' @ dq @ ''; exit 1; }'' @ nl @
     ''done'' @ nl @
     ''cargo build --release --workspace'' @ nl @
     ''mkdir -p $OUTDIR && cd $OUTDIR'' @ nl @
     ''lb clean 2>/dev/null || true'' @ nl @
     ''bash auto/config'' @ nl @
     ''mkdir -p config/includes.chroot/usr/local/bin'' @ nl @
     ''cp ../../target/release/qonion config/includes.chroot/usr/local/bin/'' @ nl @
     ''lb build'' @ nl @
     ''echo '' @ dq @ ''ISO: $OUTDIR/live-image-amd64.hybrid.iso'' @ dq @ nl @
     ''echo '' @ dq @ ''dd if=$OUTDIR/live-image-amd64.hybrid.iso of=/dev/sdX bs=4M status=progress'' @ dq @ nl"

section \<open>The command line reaches the kernel\<close>

text \<open>The words of a text, separated by blanks and newlines.\<close>

fun words_from :: "string \<Rightarrow> string \<Rightarrow> string list" where
  "words_from w [] = (if w = [] then [] else [rev w])"
| "words_from w (c # cs) =
     (if c = CHR '' '' \<or> c = CHR 0x0A then (if w = [] then [] else [rev w]) @ words_from [] cs
      else words_from (c # w) cs)"

definition hardening :: "string list" where
  "hardening = [''nopersistent'', ''toram'', ''apparmor=1'', ''security=apparmor'', ''kaslr'',
     ''slab_nomerge'', ''init_on_alloc=1'', ''init_on_free=1'']"

text \<open>
  Whatever the configuration, its command line stands verbatim in the boot menu and in the
  live-build configuration; that of a new builder carries every hardening parameter as a word of
  its own, and the four files have four different paths.
\<close>

theorem usb_boot_passes_cmdline:
  "sublist (ub_kernel_cmdline (ib_boot_config b)) (grub_cfg b)
   \<and> (\<exists>text. map_of (live_build_config b) ''auto/config'' = Some text
        \<and> sublist (ub_kernel_cmdline (ib_boot_config b)) text)
   \<and> set hardening \<subseteq> set (words_from [] (ub_kernel_cmdline (ib_boot_config (image_builder_new p))))
   \<and> distinct (map fst (live_build_config b))"
proof (intro conjI)
  show "sublist (ub_kernel_cmdline (ib_boot_config b)) (grub_cfg b)"
    unfolding grub_cfg_def by (rule cmdline_in_entries sublist_in_front [OF cmdline_in_entries(1)] sublist_in_append)+
  have "sublist (ub_kernel_cmdline (ib_boot_config b)) (auto_config b)"
    unfolding auto_config_def by (rule sublist_append_rightI sublist_in_append)+
  then show "\<exists>text. map_of (live_build_config b) ''auto/config'' = Some text
      \<and> sublist (ub_kernel_cmdline (ib_boot_config b)) text"
    by (simp add: live_build_config_def)
  have "ub_kernel_cmdline (ib_boot_config (image_builder_new p)) = ub_kernel_cmdline usb_boot_default"
    by (simp add: image_builder_new_def)
  moreover have "set hardening \<subseteq> set (words_from [] (ub_kernel_cmdline usb_boot_default))" by code_simp
  ultimately show "set hardening \<subseteq> set (words_from [] (ub_kernel_cmdline (ib_boot_config (image_builder_new p))))"
    by simp
  show "distinct (map fst (live_build_config b))" by (simp add: live_build_config_def)
qed

text \<open>The failsafe entry of the menu boots another kernel image without the hardening parameters.\<close>

lemma failsafe_not_hardened:
  "''apparmor=1'' \<notin> set (words_from [] ''    linux /live/vmlinuz boot=live components nomodeset toram nopersistent'')"
  by code_simp

end
