(* ===== verification/Spec2Isabelle.thy ===== *)
theory Spec2Isabelle
  imports Net_Props Frames Scheduler Kernel Two_Node_Main Qonion Ghash Umac Tools Auth Usb_Boot
begin

text \<open>
  QLinux is a small operating system in Rust: a monolithic kernel whose network stack encrypts
  every record with one-time keys from a quantum link, and user-space crates around it.  This
  development models the code under \<open>src/qlinux\<close> as HOL functions and step relations and proves
  what makes each part correct.  This header describes the parts, how they interact, where each
  is modelled and what is left out.

  \<^bold>\<open>The parts and how they interact.\<close>  The quantum link (\<open>kernel/qphy\<close>) produces blocks of key
  that are equal at both ends.  The kernel's loop (\<open>kernel/src/lib.rs\<close>) pumps each block into the
  key lanes of the peer (\<open>kernel/qkey\<close>), two ring buffers with absolute offsets, one for each
  direction.  The network stack (\<open>kernel/net\<close>) opens sessions, seals each payload into a QTLS
  record (one-time pad and one-time Poly1305 tag, both from the sending lane), and carries the
  record over UDP, IPv4 and Ethernet on a network card; incoming frames go the other way, and the
  receiving lane is advanced only by a record whose tag verifies.  System calls
  (\<open>kernel/syscall\<close>) reach the stack through a spin lock (\<open>kernel/ksync\<close>); a panic wipes all keys.
  Memory (\<open>kernel/memory\<close>), scheduling (\<open>kernel/scheduler\<close>), IPC (\<open>kernel/ipc\<close>) and the serial
  console (\<open>kernel/drivers_core\<close>) are independent of the network.  The demonstration
  (\<open>kernel/net/examples/two_node.rs\<close>) joins two stacks and a quantum link: the model of it is where
  all layers of the network meet.  In user space \<open>key_pool\<close> holds blocks of key, \<open>otp_engine\<close>
  encrypts under them, \<open>wc_auth\<close> authenticates records with a word count (Poly1305 of \<open>uhf\<close>),
  \<open>qtor\<close> nests such records over a circuit of relays, and \<open>qonion\<close> takes hop keys from the pool and
  builds the circuits; \<open>qhal\<close>, \<open>auth\<close>, \<open>amnesia\<close> and \<open>usb_boot\<close> stand alone.
  The programs of \<open>tools\<close> look at a \<open>qhal\<close> device and at a key pool.

  \<^bold>\<open>Theories.\<close>
  \<^item> \<open>Prelude\<close>: machine integers of the Rust sources as words, checked and saturating arithmetic,
    slices and in-place copies, \<open>position\<close>, byte codecs, decimal rendering.
    \<open>Ring\<close>: the ring buffers all queues are made of, and the locale \<open>bounded_fifo\<close>, interpreted by the loopback card, the receive queue
    and the message queue.
  \<^item> \<open>Qkey\<close>: \<open>KeyLane\<close>, \<open>PeerKeys\<close>, the roles (\<open>kernel/qkey\<close>).  A lane refines a window of the
    stream of all deposited bytes; no byte is handed out twice; two ends fed the same blocks agree.
  \<^item> \<open>Uhf\<close>, \<open>Poly1305\<close>: Poly1305 of \<open>uhf\<close>, its limb arithmetic against RFC 8439.
  \<^item> \<open>Wire\<close>, \<open>Inet\<close>: Ethernet, ARP and its cache, IPv4, UDP, checksums.  \<open>Qtls\<close>: records, \<open>seal\<close>,
    \<open>open\<close>.  \<open>Device\<close>: the trait \<open>NetDevice\<close> as a record of operations, the laws of sending as the
    locale \<open>net_card\<close>, those of receiving added by \<open>net_device\<close>, the loopback card.
  \<^item> \<open>Stack\<close> (definitions of \<open>kernel/net/src/stack.rs\<close>), \<open>Stack_Inv\<close> (the invariant, for every card
    that satisfies \<open>net_card\<close>, for polling \<open>net_device\<close>), \<open>Stack_Frames\<close> (what one frame can change),
    \<open>Stack_Props\<close> (delivery, authenticity), \<open>Stack_Weight\<close> (the locale \<open>frame_queue\<close>: each call and each
    frame puts a bounded weight of frames into the queue of the card, a frame less than it weighs
    itself), \<open>Stack_Poll\<close> (polling the loopback card ends), \<open>Stack_Exchange\<close> (the exact effect of the
    calls and frames of a session between two hosts whose lanes are linked), \<open>Net_Props\<close> (round
    trips of datagrams and ARP).
  \<^item> \<open>Two_Node\<close> (the simulation of two nodes, its cable and tap, the sections of \<open>main\<close>; running
    always ends), \<open>Two_Node_Props\<close> (messages on an established session, and when a recorded frame is
    spent), \<open>Two_Node_Connect\<close> (distribution of keys, ARP, handshake), \<open>Two_Node_Script\<close> (messages,
    losses, further key and replays in any order, against an abstract account), \<open>Two_Node_Main\<close> (the
    sections as a whole).
  \<^item> \<open>Ipc\<close>: message queue and pipe.  \<open>Sync\<close>: the semaphore of \<open>kernel/ipc\<close> and the spin lock of
    \<open>kernel/ksync\<close> as step relations over threads.  \<open>Memory\<close>, \<open>Frames\<close>: the bump allocator as a
    step relation, the bitmap frame allocator against a set of frames.  \<open>Scheduler\<close>: the task table.
  \<^item> \<open>Quantum\<close>: random sources, state vector, channel, one round of each mode.  \<open>Distill\<close>: harvest,
    reconciliation, privacy amplification (\<open>kernel/qphy\<close>).
  \<^item> \<open>Syscall\<close>: pointer validation, dispatcher, handlers.  \<open>Drivers\<close>: serial port, timer, console.
    \<open>Kernel\<close>: boot, main loop, key pump, panic (\<open>kernel/src/lib.rs\<close>, statics of
    \<open>kernel/net/src/lib.rs\<close>); it composes the stack, the lock, the system calls, the driver of the
    quantum link and the console.
  \<^item> \<open>Key_Pool\<close>: the pool of \<open>key_pool\<close> and the engine of \<open>otp_engine\<close>; no key byte is handed out
    twice.  \<open>Wc_Auth\<close>: records and sessions of \<open>wc_auth\<close>.  \<open>Qtor\<close>: cells, circuits, relays, directory.
    \<open>Qonion\<close>: SOCKS5 requests and the pipeline, composed with all of these.
  \<^item> \<open>Ghash\<close>, \<open>Umac\<close>: the other hashes of \<open>uhf\<close>, and where they miss their references.
    \<open>Thermal_Rng\<close>: the quality tests of \<open>qhal\<close>.  \<open>Auth\<close>: the factors of \<open>auth\<close>.  \<open>Amnesia\<close>, \<open>Usb_Boot\<close>:
    the manager and the boot texts of \<open>amnesia\<close> and \<open>usb_boot\<close>.  \<open>Tools\<close>: the command-line programs of
    \<open>tools\<close> and the texts they print.

  \<^bold>\<open>Conventions.\<close>  Integers that wrap or are checked at a width are words of that width; indices and
  lengths (\<open>usize\<close>) are natural numbers; a byte buffer is a list of bytes of the buffer's length.  An
  operation takes the state and returns its result with the new state; errors are \<open>Inl\<close>, panics and
  calls that do not return \<open>None\<close> (or \<open>Stuck\<close>).  Concurrency (semaphore, spin lock, bump
  allocator) is a relation of single atomic steps of any number of threads, with spurious failures
  of the weak compare-exchange; memory is sequentially consistent.

  \<^bold>\<open>Bounds and fuel.\<close>  Polling has fuel: on the loopback card thirteen rounds always suffice
  (\<open>Stack_Poll\<close>: at most four frames wait, each worth at most three), and the theorems on system
  calls and the kernel ask for no more.  The two-node simulation needs as many rounds as the
  waiting frames weigh (an ARP request 2, a \<open>Hello\<close> 3, any other frame 1); three rounds and two
  tries suffice for a connection.  Waiting for the serial port has fuel, enough as soon as the
  port drains within it.  The loops of the distillation are bounded in the code (262144 rounds, 12
  super rounds).  A ready task runs within 640 ticks (64 tasks of 10 ticks).

  \<^bold>\<open>Idealisations.\<close>  \<open>f64\<close> amplitudes, probabilities and entropies are exact reals.  Zeroization of
  temporary stack buffers is not visible in a functional model; that of state is modelled.  The
  linker symbols, the \<open>RDRAND\<close> instruction, the I/O devices, interrupts are arguments.  A task
  switch is its effect on the table of tasks and the registers; that execution goes on with the code
  of the other task is not modelled.

  \<^bold>\<open>Not modelled.\<close>  The terminal output of the two-node program (its \<open>describe\<close> is modelled); the
  C kernel module (\<open>kernel_module\<close>); the tests.
\<close>

end
